(* ===== verification/Pintos_Prelude.thy ===== *)
theory Pintos_Prelude
  imports Main "HOL-Library.Word" "HOL-Library.Monad_Syntax" "HOL-Library.Multiset"
begin

section \<open>Shared vocabulary of the development\<close>

text \<open>
  This theory holds what every component uses: the machine types of the 32-bit kernel, the
  meaning of \<^verbatim>\<open>ASSERT\<close> (\<^verbatim>\<open>src/PintOS/src/lib/debug.h\<close>), the rounding macros of
  \<^verbatim>\<open>src/PintOS/src/lib/round.h\<close>, and generic lemmas on lists and options.

  A C function that can panic (a failed \<^verbatim>\<open>ASSERT\<close>, an explicit \<^verbatim>\<open>PANIC\<close>), dereference
  a null pointer or index outside an array is modelled as a function into \<open>'a option\<close>:
  \<open>None\<close> is that the kernel stops there, \<open>Some\<close> is a normal return. Sequencing is the
  \<open>do\<close> notation of the option monad, with the modified state rebound under its own name.
\<close>

type_synonym u8 = "8 word"
type_synonym u16 = "16 word"
type_synonym u32 = "32 word"
type_synonym u64 = "64 word"

named_theorems rep_simps \<open>unfolding of representation predicates\<close>
named_theorems frame_intros \<open>an operation leaves what it does not own unchanged\<close>

subsection \<open>Assertions\<close>

definition ASSERT :: "bool \<Rightarrow> unit option" where
  "ASSERT b = (if b then Some () else None)"

lemma ASSERT_True [simp]: "ASSERT True = Some ()"
  by (simp add: ASSERT_def)

lemma ASSERT_False [simp]: "ASSERT False = None"
  by (simp add: ASSERT_def)

lemma ASSERT_eq_Some [simp]: "ASSERT b = Some u \<longleftrightarrow> b"
  by (cases u) (simp add: ASSERT_def)

lemma ASSERT_eq_None [simp]: "ASSERT b = None \<longleftrightarrow> \<not> b"
  by (simp add: ASSERT_def)

lemma ASSERT_bind: "b \<Longrightarrow> (ASSERT b \<bind> f) = f ()"
  by (simp add: ASSERT_def)

lemma ASSERT_bind_eq_Some: "((ASSERT b \<bind> f) = Some x) \<longleftrightarrow> (b \<and> f () = Some x)"
  by (simp add: ASSERT_def)

subsection \<open>Rounding macros\<close>

text \<open>\<^verbatim>\<open>ROUND_UP\<close>, \<^verbatim>\<open>DIV_ROUND_UP\<close> and \<^verbatim>\<open>ROUND_DOWN\<close>, on unsigned operands.\<close>

definition ROUND_UP :: "nat \<Rightarrow> nat \<Rightarrow> nat" where
  "ROUND_UP x step = (x + step - 1) div step * step"

definition DIV_ROUND_UP :: "nat \<Rightarrow> nat \<Rightarrow> nat" where
  "DIV_ROUND_UP x step = (x + step - 1) div step"

definition ROUND_DOWN :: "nat \<Rightarrow> nat \<Rightarrow> nat" where
  "ROUND_DOWN x step = x div step * step"

lemma DIV_ROUND_UP_le_iff:
  assumes "0 < step"
  shows "DIV_ROUND_UP x step \<le> n \<longleftrightarrow> x \<le> n * step"
proof -
  have "DIV_ROUND_UP x step \<le> n \<longleftrightarrow> x + step - 1 < Suc n * step"
    using assms by (simp add: DIV_ROUND_UP_def less_Suc_eq_le [symmetric] div_less_iff_less_mult)
  also have "\<dots> \<longleftrightarrow> x \<le> n * step"
    using assms by auto
  finally show ?thesis .
qed

lemma DIV_ROUND_UP_ge: "0 < step \<Longrightarrow> x \<le> DIV_ROUND_UP x step * step"
  using DIV_ROUND_UP_le_iff [of step x "DIV_ROUND_UP x step"] by simp

lemma DIV_ROUND_UP_gt_iff:
  assumes "0 < step"
  shows "n < DIV_ROUND_UP x step \<longleftrightarrow> n * step < x"
  using DIV_ROUND_UP_le_iff [OF assms, of x n] by linarith

lemma DIV_ROUND_UP_0 [simp]: "DIV_ROUND_UP 0 step = 0"
  by (cases step) (simp_all add: DIV_ROUND_UP_def)

lemma ROUND_UP_bounds:
  assumes "0 < step"
  shows "x \<le> ROUND_UP x step" and "ROUND_UP x step < x + step"
proof -
  show "x \<le> ROUND_UP x step" using DIV_ROUND_UP_ge [OF assms, of x] by (simp add: ROUND_UP_def DIV_ROUND_UP_def)
  show "ROUND_UP x step < x + step"
    unfolding ROUND_UP_def
    using assms div_times_less_eq_dividend [of "x + step - 1" step] by linarith
qed

subsection \<open>Counting loops\<close>

text \<open>
  \<open>for_range i n f s\<close> is \<^verbatim>\<open>for (; i < n; i++) s = f (i, s)\<close>, stopping if the body does;
  \<open>find_range i n p\<close> is the loop that returns the first \<open>i\<close> below \<open>n\<close> with \<open>p i\<close>.
\<close>

function for_range :: "nat \<Rightarrow> nat \<Rightarrow> (nat \<Rightarrow> 's \<Rightarrow> 's option) \<Rightarrow> 's \<Rightarrow> 's option" where
  "for_range i n f s =
     (if i < n then do { s \<leftarrow> f i s; for_range (Suc i) n f s } else Some s)"
  by pat_completeness auto
termination
  by (relation "measure (\<lambda>(i, n, f, s). n - i)") auto

function find_range :: "nat \<Rightarrow> nat \<Rightarrow> (nat \<Rightarrow> bool option) \<Rightarrow> nat option option" where
  "find_range i n p =
     (if i < n then do { b \<leftarrow> p i; if b then Some (Some i) else find_range (Suc i) n p }
      else Some None)"
  by pat_completeness auto
termination
  by (relation "measure (\<lambda>(i, n, p). n - i)") auto

declare for_range.simps [simp del] find_range.simps [simp del]

lemma for_range_done [simp]: "n \<le> i \<Longrightarrow> for_range i n f s = Some s"
  by (simp add: for_range.simps)

text \<open>The loop rule: an invariant that every iteration keeps.\<close>

lemma for_range_rule:
  assumes "i \<le> n" and "I i s"
    and "\<And>k t. i \<le> k \<Longrightarrow> k < n \<Longrightarrow> I k t \<Longrightarrow> \<exists>t'. f k t = Some t' \<and> I (Suc k) t'"
  shows "\<exists>s'. for_range i n f s = Some s' \<and> I n s'"
  using assms
proof (induction "n - i" arbitrary: i s)
  case 0
  then show ?case by simp
next
  case (Suc d)
  then have i: "i < n" by simp
  with Suc.prems obtain t where t: "f i s = Some t" "I (Suc i) t" by blast
  have "\<exists>s'. for_range (Suc i) n f t = Some s' \<and> I n s'"
    using Suc.hyps i t(2) Suc.prems(3) by (intro Suc.hyps(1)) auto
  with i t(1) show ?case by (subst for_range.simps) simp
qed

lemma find_range_spec:
  assumes "\<And>k. i \<le> k \<Longrightarrow> k < n \<Longrightarrow> p k = Some (P k)"
  shows "find_range i n p = Some (if \<exists>k. i \<le> k \<and> k < n \<and> P k
           then Some (LEAST k. i \<le> k \<and> k < n \<and> P k) else None)"
  using assms
proof (induction "n - i" arbitrary: i)
  case 0
  then show ?case by (subst find_range.simps) auto
next
  case (Suc d)
  show ?case
  proof (cases "P i")
    case True
    moreover from True Suc.hyps(2) have "(LEAST k. i \<le> k \<and> k < n \<and> P k) = i"
      by (intro Least_equality) auto
    ultimately show ?thesis using Suc.hyps(2) Suc.prems [of i]
      by (subst find_range.simps) auto
  next
    case False
    have eq: "(Suc i \<le> k \<and> k < n \<and> P k) = (i \<le> k \<and> k < n \<and> P k)" for k
      using False by (cases "k = i") auto
    have "find_range i n p = find_range (Suc i) n p"
      using Suc.hyps(2) Suc.prems [of i] False by (subst find_range.simps) auto
    moreover have "find_range (Suc i) n p = Some (if \<exists>k. Suc i \<le> k \<and> k < n \<and> P k
        then Some (LEAST k. Suc i \<le> k \<and> k < n \<and> P k) else None)"
      using Suc.hyps(2) Suc.prems by (intro Suc.hyps(1)) auto
    ultimately show ?thesis by (simp only: eq)
  qed
qed

subsection \<open>The queue interface\<close>

text \<open>
  Several components hand elements through a first-in first-out queue: the kernel lists
  (\<^verbatim>\<open>list_push_back\<close>, \<^verbatim>\<open>list_pop_front\<close>) behind the run queue and the wait lists, and
  the interrupt queues (\<^verbatim>\<open>intq_putc\<close>, \<^verbatim>\<open>intq_getc\<close>). \<open>holds h q xs\<close>: in state \<open>h\<close>
  the queue \<open>q\<close> holds the sequence \<open>xs\<close>; \<open>room q xs e\<close>: \<open>e\<close> may be added to a queue that
  holds \<open>xs\<close>.
\<close>

primrec push_all :: "('h \<Rightarrow> 'q \<Rightarrow> 'e \<Rightarrow> 'h option) \<Rightarrow> 'h \<Rightarrow> 'q \<Rightarrow> 'e list \<Rightarrow> 'h option" where
  "push_all push h q [] = Some h"
| "push_all push h q (e # es) = do { h \<leftarrow> push h q e; push_all push h q es }"

primrec pop_n :: "('h \<Rightarrow> 'q \<Rightarrow> ('h \<times> 'e) option) \<Rightarrow> 'h \<Rightarrow> 'q \<Rightarrow> nat \<Rightarrow> ('h \<times> 'e list) option" where
  "pop_n pop h q 0 = Some (h, [])"
| "pop_n pop h q (Suc n) = do { (h, e) \<leftarrow> pop h q; (h, es) \<leftarrow> pop_n pop h q n; Some (h, e # es) }"

locale fifo_queue =
  fixes holds :: "'h \<Rightarrow> 'q \<Rightarrow> 'e list \<Rightarrow> bool"
    and room :: "'q \<Rightarrow> 'e list \<Rightarrow> 'e \<Rightarrow> bool"
    and push :: "'h \<Rightarrow> 'q \<Rightarrow> 'e \<Rightarrow> 'h option"
    and pop :: "'h \<Rightarrow> 'q \<Rightarrow> ('h \<times> 'e) option"
  assumes push_law: "holds h q xs \<Longrightarrow> room q xs e \<Longrightarrow> \<exists>h'. push h q e = Some h' \<and> holds h' q (xs @ [e])"
    and pop_law: "holds h q (x # xs) \<Longrightarrow> \<exists>h'. pop h q = Some (h', x) \<and> holds h' q xs"
    and pop_empty_law: "holds h q [] \<Longrightarrow> pop h q = None"
begin

lemma push_all_holds:
  "holds h q xs \<Longrightarrow> \<forall>i < length es. room q (xs @ take i es) (es ! i) \<Longrightarrow>
     \<exists>h'. push_all push h q es = Some h' \<and> holds h' q (xs @ es)"
proof (induction es arbitrary: h xs)
  case Nil
  then show ?case by simp
next
  case (Cons e es)
  from Cons.prems(2) have "room q xs e" by force
  with Cons.prems(1) obtain h1 where h1: "push h q e = Some h1" "holds h1 q (xs @ [e])"
    using push_law by blast
  have "\<forall>i < length es. room q ((xs @ [e]) @ take i es) (es ! i)"
    using Cons.prems(2) by (auto dest: spec [of _ "Suc _"])
  from Cons.IH [OF h1(2) this] h1(1) show ?case by auto
qed

lemma pop_n_holds:
  "holds h q (es @ xs) \<Longrightarrow> \<exists>h'. pop_n pop h q (length es) = Some (h', es) \<and> holds h' q xs"
proof (induction es arbitrary: h)
  case (Cons e es)
  then obtain h1 where "pop h q = Some (h1, e)" "holds h1 q (es @ xs)"
    using pop_law by fastforce
  then show ?case using Cons.IH by fastforce
qed simp

text \<open>What goes in comes out, in the order it went in, after what was already there.\<close>

lemma first_in_first_out:
  assumes "holds h q xs" and "\<forall>i < length es. room q (xs @ take i es) (es ! i)"
  shows "\<exists>h1 h2. push_all push h q es = Some h1 \<and>
     pop_n pop h1 q (length (xs @ es)) = Some (h2, xs @ es) \<and> pop h2 q = None"
proof -
  from push_all_holds [OF assms] obtain h1 where h1: "push_all push h q es = Some h1"
    "holds h1 q (xs @ es)" by blast
  from pop_n_holds [of h1 q "xs @ es" "[]"] h1(2) obtain h2 where
    "pop_n pop h1 q (length (xs @ es)) = Some (h2, xs @ es)" "holds h2 q []" by auto
  with h1(1) show ?thesis using pop_empty_law by blast
qed

end

subsection \<open>Words and the bytes that store them\<close>

text \<open>The little-endian layout of 32-bit words on disk and in memory.\<close>

definition le_bytes :: "u32 \<Rightarrow> u8 list" where
  "le_bytes w = [ucast w, ucast (drop_bit 8 w), ucast (drop_bit 16 w), ucast (drop_bit 24 w)]"

definition le_word :: "u8 \<Rightarrow> u8 \<Rightarrow> u8 \<Rightarrow> u8 \<Rightarrow> u32" where
  "le_word a b c d = or (ucast a) (or (push_bit 8 (ucast b))
     (or (push_bit 16 (ucast c)) (push_bit 24 (ucast d))))"

fun le_words :: "u8 list \<Rightarrow> u32 list" where
  "le_words (a # b # c # d # bs) = le_word a b c d # le_words bs"
| "le_words bs = []"

lemma le_word_bytes: "le_word (ucast w) (ucast (drop_bit 8 w)) (ucast (drop_bit 16 w))
    (ucast (drop_bit 24 w)) = (w :: u32)"
proof (rule bit_word_eqI)
  fix n assume n: "n < LENGTH(32)"
  consider "n < 8" | "8 \<le> n" "n < 16" | "16 \<le> n" "n < 24" | "24 \<le> n" by linarith
  then show "bit (le_word (ucast w) (ucast (drop_bit 8 w)) (ucast (drop_bit 16 w))
    (ucast (drop_bit 24 w))) n = bit w n"
    using n by cases (auto simp: le_word_def bit_simps)
qed

lemma le_words_bytes: "le_words (concat (map le_bytes ws)) = ws"
  by (induction ws) (simp_all add: le_bytes_def le_word_bytes)

lemma le_words_bytes_append:
  "le_words (concat (map le_bytes ws) @ bs) = ws @ le_words bs"
  by (induction ws) (simp_all add: le_bytes_def le_word_bytes)

lemma length_le_bytes [simp]: "length (le_bytes w) = 4"
  by (simp add: le_bytes_def)

lemma length_concat_le_bytes [simp]: "length (concat (map le_bytes ws)) = 4 * length ws"
  by (induction ws) simp_all

lemma take_concat_le_bytes: "take (4 * n) (concat (map le_bytes ws)) = concat (map le_bytes (take n ws))"
proof (induction n arbitrary: ws)
  case (Suc n)
  then show ?case by (cases ws) simp_all
qed simp

lemma drop_concat_le_bytes: "drop (4 * n) (concat (map le_bytes ws)) = concat (map le_bytes (drop n ws))"
proof (induction n arbitrary: ws)
  case (Suc n)
  then show ?case by (cases ws) simp_all
qed simp

subsection \<open>The allocator interface\<close>

text \<open>
  The free map of the file system and the page allocator hand out runs of a resource. A client
  issues requests and keeps the runs it got; \<open>Get r\<close> asks for \<open>amount r\<close> units, \<open>Put k\<close>
  gives back the \<open>k\<close>-th run the client holds. \<open>used s\<close> is the set of units in use, \<open>span i n\<close>
  the units of the run of \<open>n\<close> that starts at \<open>i\<close>, and \<open>run s i n\<close> says that there is
  such a run.
\<close>

datatype 'r request = Get 'r | Put nat

fun run_client :: "('s \<Rightarrow> 'r \<Rightarrow> ('s \<times> nat option) option) \<Rightarrow> ('r \<Rightarrow> nat) \<Rightarrow>
    ('s \<Rightarrow> nat \<Rightarrow> nat \<Rightarrow> 's option) \<Rightarrow> 's \<Rightarrow> (nat \<times> nat) list \<Rightarrow> 'r request list \<Rightarrow>
    ('s \<times> (nat \<times> nat) list) option" where
  "run_client alloc amount release s held [] = Some (s, held)"
| "run_client alloc amount release s held (Get r # rs) = do {
     (s, p) \<leftarrow> alloc s r;
     run_client alloc amount release s
       (case p of None \<Rightarrow> held | Some i \<Rightarrow> held @ [(i, amount r)]) rs }"
| "run_client alloc amount release s held (Put k # rs) =
     (if k < length held then do {
        s \<leftarrow> release s (fst (held ! k)) (snd (held ! k));
        run_client alloc amount release s (take k held @ drop (Suc k) held) rs }
      else run_client alloc amount release s held rs)"

definition valid_requests :: "('r \<Rightarrow> bool) \<Rightarrow> 'r request list \<Rightarrow> bool" where
  "valid_requests valid rs \<longleftrightarrow> list_all (\<lambda>r. case r of Get q \<Rightarrow> valid q | Put k \<Rightarrow> True) rs"

locale run_allocator =
  fixes ok :: "'s \<Rightarrow> bool"
    and used :: "'s \<Rightarrow> nat set"
    and span :: "nat \<Rightarrow> nat \<Rightarrow> nat set"
    and valid :: "'r \<Rightarrow> bool"
    and amount :: "'r \<Rightarrow> nat"
    and alloc :: "'s \<Rightarrow> 'r \<Rightarrow> ('s \<times> nat option) option"
    and release :: "'s \<Rightarrow> nat \<Rightarrow> nat \<Rightarrow> 's option"
    and run :: "'s \<Rightarrow> nat \<Rightarrow> nat \<Rightarrow> bool"
  assumes alloc_law: "ok s \<Longrightarrow> valid r \<Longrightarrow> \<exists>s' p. alloc s r = Some (s', p) \<and> ok s' \<and>
      (case p of None \<Rightarrow> used s' = used s
       | Some i \<Rightarrow> run s' i (amount r) \<and> span i (amount r) \<inter> used s = {} \<and>
           used s' = used s \<union> span i (amount r)) \<and>
      (\<forall>j m. run s j m \<longrightarrow> run s' j m)"
    and release_law: "ok s \<Longrightarrow> run s i n \<Longrightarrow> span i n \<subseteq> used s \<Longrightarrow>
      \<exists>s'. release s i n = Some s' \<and> ok s' \<and> used s' = used s - span i n \<and>
      (\<forall>j m. run s j m \<and> span j m \<inter> span i n = {} \<longrightarrow> run s' j m)"
begin

definition holds_runs :: "nat set \<Rightarrow> 's \<Rightarrow> (nat \<times> nat) list \<Rightarrow> bool" where
  "holds_runs base s held \<longleftrightarrow> ok s \<and>
     used s = base \<union> (\<Union>(i, n) \<in> set held. span i n) \<and>
     (\<forall>(i, n) \<in> set held. run s i n \<and> span i n \<inter> base = {}) \<and>
     sorted_wrt (\<lambda>(i, n) (j, m). span i n \<inter> span j m = {}) held"

lemma holds_runs_get:
  assumes "holds_runs base s held" and "valid r"
  shows "\<exists>s' p. alloc s r = Some (s', p) \<and>
    holds_runs base s' (case p of None \<Rightarrow> held | Some i \<Rightarrow> held @ [(i, amount r)])"
proof -
  from assms have "ok s" by (simp add: holds_runs_def)
  from alloc_law [OF this assms(2)] obtain s' p where a: "alloc s r = Some (s', p)" "ok s'"
    "case p of None \<Rightarrow> used s' = used s
       | Some i \<Rightarrow> run s' i (amount r) \<and> span i (amount r) \<inter> used s = {} \<and>
           used s' = used s \<union> span i (amount r)"
    "\<forall>j m. run s j m \<longrightarrow> run s' j m" by blast
  have "holds_runs base s' (case p of None \<Rightarrow> held | Some i \<Rightarrow> held @ [(i, amount r)])"
    using assms a by (cases p) (auto simp: holds_runs_def sorted_wrt_append; blast)+
  with a(1) show ?thesis by blast
qed

lemma holds_runs_put:
  assumes inv: "holds_runs base s held" and k: "k < length held"
  shows "\<exists>s'. release s (fst (held ! k)) (snd (held ! k)) = Some s' \<and>
    holds_runs base s' (take k held @ drop (Suc k) held)"
proof -
  obtain i n where e: "held ! k = (i, n)" by (cases "held ! k")
  define xs ys where "xs = take k held" and "ys = drop (Suc k) held"
  have h: "held = xs @ (i, n) # ys" using id_take_nth_drop [OF k] e by (simp add: xs_def ys_def)
  have "ok s" "run s i n" "span i n \<subseteq> used s" using inv by (auto simp: holds_runs_def h)
  from release_law [OF this] obtain s' where r: "release s i n = Some s'" "ok s'"
    "used s' = used s - span i n" "\<forall>j m. run s j m \<and> span j m \<inter> span i n = {} \<longrightarrow> run s' j m" by blast
  have "used s' = base \<union> (\<Union>(i, n) \<in> set (xs @ ys). span i n)"
    using inv by (fastforce simp: r(3) holds_runs_def h sorted_wrt_append)
  moreover have "run s' j m \<and> span j m \<inter> base = {}" if x: "(j, m) \<in> set (xs @ ys)" for j m
  proof -
    have "span j m \<inter> span i n = {}" using inv x by (auto simp: holds_runs_def h sorted_wrt_append)
    moreover have "\<forall>(j, m) \<in> set held. run s j m \<and> span j m \<inter> base = {}" "(j, m) \<in> set held"
      using inv x by (auto simp: holds_runs_def h)
    ultimately show ?thesis using r(4) by blast
  qed
  moreover have "sorted_wrt (\<lambda>(i, n) (j, m). span i n \<inter> span j m = {}) (xs @ ys)"
    using inv by (simp add: holds_runs_def h sorted_wrt_append)
  ultimately have "holds_runs base s' (xs @ ys)"
    using r(2) by (auto simp: holds_runs_def)
  then show ?thesis using r(1) by (simp add: e xs_def ys_def)
qed

text \<open>Whatever the client asks for, the allocator never stops, and the runs it holds are disjoint.\<close>

lemma run_client_holds:
  "holds_runs base s held \<Longrightarrow> valid_requests valid rs \<Longrightarrow>
     \<exists>s' held'. run_client alloc amount release s held rs = Some (s', held') \<and> holds_runs base s' held'"
proof (induction rs arbitrary: s held)
  case (Cons r rs)
  show ?case
  proof (cases r)
    case (Get q)
    then have "valid q" "valid_requests valid rs" using Cons.prems(2) by (auto simp: valid_requests_def)
    then show ?thesis using holds_runs_get [OF Cons.prems(1), of q] Cons.IH Get by fastforce
  next
    case (Put k)
    then have "valid_requests valid rs" using Cons.prems(2) by (auto simp: valid_requests_def)
    then show ?thesis using holds_runs_put [OF Cons.prems(1), of k] Cons.IH Cons.prems(1) Put
      by (cases "k < length held") fastforce+
  qed
qed simp

lemma clients_disjoint:
  assumes "ok s" and "valid_requests valid rs"
  shows "\<exists>s' held. run_client alloc amount release s [] rs = Some (s', held) \<and> ok s' \<and>
    (\<forall>j < length held. \<forall>i < j. span (fst (held ! i)) (snd (held ! i)) \<inter>
       span (fst (held ! j)) (snd (held ! j)) = {}) \<and>
    used s' = used s \<union> (\<Union>(i, n) \<in> set held. span i n)"
proof -
  have "holds_runs (used s) s []" using assms(1) by (simp add: holds_runs_def)
  from run_client_holds [OF this assms(2)] obtain s' held where
    "run_client alloc amount release s [] rs = Some (s', held)" and "holds_runs (used s) s' held" by blast
  then show ?thesis by (auto simp: holds_runs_def sorted_wrt_iff_nth_less case_prod_beta)
qed

end

end
