(* ===== verification/Linked_List.thy ===== *)
theory Linked_List
  imports Pintos_Prelude
begin

section \<open>Doubly linked lists (lib/kernel/list.c)\<close>

text \<open>
  Every kernel queue (ready list, semaphore waiters, sleep list, malloc free lists, hash
  buckets, open inodes) is a \<^verbatim>\<open>struct list\<close> threaded through \<^verbatim>\<open>struct list_elem\<close>
  members. The model keeps the pointers: memory is the two link fields of every
  \<^verbatim>\<open>struct list_elem\<close>, addressed by \<open>ptr\<close>, with \<open>NULL = 0\<close>. A \<^verbatim>\<open>struct list\<close>
  at address \<open>l\<close> embeds its head element at \<open>l\<close> and its tail element at the next
  element-sized address \<open>Suc l\<close>. Reading or writing a link through \<open>NULL\<close> and a failing
  \<^verbatim>\<open>ASSERT\<close> are \<open>None\<close>; a loop over a corrupt (cyclic) list that never ends is \<open>None\<close>
  too (\<^theory_text>\<open>partial_function (option)\<close>), so every theorem that a call returns
  \<open>Some\<close> includes that its loops end.

  The comparison callback \<^verbatim>\<open>list_less_func\<close> with its \<^verbatim>\<open>aux\<close> argument is the parameter
  \<open>lt :: ptr \<Rightarrow> ptr \<Rightarrow> bool\<close>: it reads the structures the elements are embedded in, not
  the links.
\<close>

type_synonym ptr = nat

abbreviation (input) NULL :: ptr where "NULL \<equiv> 0"

record links =
  elem_prev :: "ptr \<Rightarrow> ptr"
  elem_next :: "ptr \<Rightarrow> ptr"

subsection \<open>Field access\<close>

definition get_prev :: "links \<Rightarrow> ptr \<Rightarrow> ptr option" where
  "get_prev h e = (if e = NULL then None else Some (elem_prev h e))"

definition get_next :: "links \<Rightarrow> ptr \<Rightarrow> ptr option" where
  "get_next h e = (if e = NULL then None else Some (elem_next h e))"

definition set_prev :: "links \<Rightarrow> ptr \<Rightarrow> ptr \<Rightarrow> links option" where
  "set_prev h e v =
     (if e = NULL then None else Some (h\<lparr>elem_prev := (elem_prev h)(e := v)\<rparr>))"

definition set_next :: "links \<Rightarrow> ptr \<Rightarrow> ptr \<Rightarrow> links option" where
  "set_next h e v =
     (if e = NULL then None else Some (h\<lparr>elem_next := (elem_next h)(e := v)\<rparr>))"

lemmas field_defs = get_prev_def get_next_def set_prev_def set_next_def

subsection \<open>Element classification and traversal\<close>

definition is_head :: "links \<Rightarrow> ptr \<Rightarrow> bool" where
  "is_head h elem \<longleftrightarrow> elem \<noteq> NULL \<and> elem_prev h elem = NULL \<and> elem_next h elem \<noteq> NULL"

definition is_interior :: "links \<Rightarrow> ptr \<Rightarrow> bool" where
  "is_interior h elem \<longleftrightarrow> elem \<noteq> NULL \<and> elem_prev h elem \<noteq> NULL \<and> elem_next h elem \<noteq> NULL"

definition is_tail :: "links \<Rightarrow> ptr \<Rightarrow> bool" where
  "is_tail h elem \<longleftrightarrow> elem \<noteq> NULL \<and> elem_prev h elem \<noteq> NULL \<and> elem_next h elem = NULL"

abbreviation (input) head_of :: "ptr \<Rightarrow> ptr" where "head_of l \<equiv> l"
abbreviation (input) tail_of :: "ptr \<Rightarrow> ptr" where "tail_of l \<equiv> Suc l"

definition list_init :: "links \<Rightarrow> ptr \<Rightarrow> links option" where
  "list_init h l = do {
     _ \<leftarrow> ASSERT (l \<noteq> NULL);
     h \<leftarrow> set_prev h (head_of l) NULL;
     h \<leftarrow> set_next h (head_of l) (tail_of l);
     h \<leftarrow> set_prev h (tail_of l) (head_of l);
     set_next h (tail_of l) NULL }"

definition list_begin :: "links \<Rightarrow> ptr \<Rightarrow> ptr option" where
  "list_begin h l = do {
     _ \<leftarrow> ASSERT (l \<noteq> NULL);
     get_next h (head_of l) }"

definition list_next :: "links \<Rightarrow> ptr \<Rightarrow> ptr option" where
  "list_next h elem = do {
     _ \<leftarrow> ASSERT (is_head h elem \<or> is_interior h elem);
     get_next h elem }"

definition list_end :: "ptr \<Rightarrow> ptr option" where
  "list_end l = do {
     _ \<leftarrow> ASSERT (l \<noteq> NULL);
     Some (tail_of l) }"

definition list_rbegin :: "links \<Rightarrow> ptr \<Rightarrow> ptr option" where
  "list_rbegin h l = do {
     _ \<leftarrow> ASSERT (l \<noteq> NULL);
     get_prev h (tail_of l) }"

definition list_prev :: "links \<Rightarrow> ptr \<Rightarrow> ptr option" where
  "list_prev h elem = do {
     _ \<leftarrow> ASSERT (is_interior h elem \<or> is_tail h elem);
     get_prev h elem }"

definition list_rend :: "ptr \<Rightarrow> ptr option" where
  "list_rend l = do {
     _ \<leftarrow> ASSERT (l \<noteq> NULL);
     Some (head_of l) }"

definition list_head :: "ptr \<Rightarrow> ptr option" where
  "list_head l = do {
     _ \<leftarrow> ASSERT (l \<noteq> NULL);
     Some (head_of l) }"

definition list_tail :: "ptr \<Rightarrow> ptr option" where
  "list_tail l = do {
     _ \<leftarrow> ASSERT (l \<noteq> NULL);
     Some (tail_of l) }"

subsection \<open>Insertion and removal\<close>

definition list_insert :: "links \<Rightarrow> ptr \<Rightarrow> ptr \<Rightarrow> links option" where
  "list_insert h before elem = do {
     _ \<leftarrow> ASSERT (is_interior h before \<or> is_tail h before);
     _ \<leftarrow> ASSERT (elem \<noteq> NULL);
     p \<leftarrow> get_prev h before;
     h \<leftarrow> set_prev h elem p;
     h \<leftarrow> set_next h elem before;
     p \<leftarrow> get_prev h before;
     h \<leftarrow> set_next h p elem;
     set_prev h before elem }"

definition list_splice :: "links \<Rightarrow> ptr \<Rightarrow> ptr \<Rightarrow> ptr \<Rightarrow> links option" where
  "list_splice h before first_e last_e = do {
     _ \<leftarrow> ASSERT (is_interior h before \<or> is_tail h before);
     if first_e = last_e then Some h
     else do {
       last_e \<leftarrow> list_prev h last_e;
       _ \<leftarrow> ASSERT (is_interior h first_e);
       _ \<leftarrow> ASSERT (is_interior h last_e);
       p \<leftarrow> get_prev h first_e;
       n \<leftarrow> get_next h last_e;
       h \<leftarrow> set_next h p n;
       n \<leftarrow> get_next h last_e;
       p \<leftarrow> get_prev h first_e;
       h \<leftarrow> set_prev h n p;
       p \<leftarrow> get_prev h before;
       h \<leftarrow> set_prev h first_e p;
       h \<leftarrow> set_next h last_e before;
       p \<leftarrow> get_prev h before;
       h \<leftarrow> set_next h p first_e;
       set_prev h before last_e } }"

definition list_push_front :: "links \<Rightarrow> ptr \<Rightarrow> ptr \<Rightarrow> links option" where
  "list_push_front h l elem = do {
     b \<leftarrow> list_begin h l;
     list_insert h b elem }"

definition list_push_back :: "links \<Rightarrow> ptr \<Rightarrow> ptr \<Rightarrow> links option" where
  "list_push_back h l elem = do {
     e \<leftarrow> list_end l;
     list_insert h e elem }"

definition list_remove :: "links \<Rightarrow> ptr \<Rightarrow> (links \<times> ptr) option" where
  "list_remove h elem = do {
     _ \<leftarrow> ASSERT (is_interior h elem);
     p \<leftarrow> get_prev h elem;
     n \<leftarrow> get_next h elem;
     h \<leftarrow> set_next h p n;
     n \<leftarrow> get_next h elem;
     p \<leftarrow> get_prev h elem;
     h \<leftarrow> set_prev h n p;
     n \<leftarrow> get_next h elem;
     Some (h, n) }"

definition list_empty :: "links \<Rightarrow> ptr \<Rightarrow> bool option" where
  "list_empty h l = do {
     b \<leftarrow> list_begin h l;
     e \<leftarrow> list_end l;
     Some (b = e) }"

definition list_front :: "links \<Rightarrow> ptr \<Rightarrow> ptr option" where
  "list_front h l = do {
     emp \<leftarrow> list_empty h l;
     _ \<leftarrow> ASSERT (\<not> emp);
     get_next h (head_of l) }"

definition list_back :: "links \<Rightarrow> ptr \<Rightarrow> ptr option" where
  "list_back h l = do {
     emp \<leftarrow> list_empty h l;
     _ \<leftarrow> ASSERT (\<not> emp);
     get_prev h (tail_of l) }"

definition list_pop_front :: "links \<Rightarrow> ptr \<Rightarrow> (links \<times> ptr) option" where
  "list_pop_front h l = do {
     front \<leftarrow> list_front h l;
     (h, _) \<leftarrow> list_remove h front;
     Some (h, front) }"

definition list_pop_back :: "links \<Rightarrow> ptr \<Rightarrow> (links \<times> ptr) option" where
  "list_pop_back h l = do {
     back \<leftarrow> list_back h l;
     (h, _) \<leftarrow> list_remove h back;
     Some (h, back) }"

subsection \<open>Whole-list operations\<close>

text \<open>\<^verbatim>\<open>list_size\<close>: the loop variable \<open>e\<close> and the counter, a \<^verbatim>\<open>size_t\<close> that wraps at 32 bits.\<close>

partial_function (option) list_size_loop :: "links \<Rightarrow> ptr \<Rightarrow> ptr \<Rightarrow> u32 \<Rightarrow> u32 option" where
  "list_size_loop h l e cnt = do {
     en \<leftarrow> list_end l;
     if e = en then Some cnt
     else do {
       e \<leftarrow> list_next h e;
       list_size_loop h l e (cnt + 1) } }"

definition list_size :: "links \<Rightarrow> ptr \<Rightarrow> u32 option" where
  "list_size h l = do {
     e \<leftarrow> list_begin h l;
     list_size_loop h l e 0 }"

text \<open>\<^verbatim>\<open>list_reverse\<close>: \<^verbatim>\<open>swap\<close> exchanges the two links of one element.\<close>

definition swap_links :: "links \<Rightarrow> ptr \<Rightarrow> links option" where
  "swap_links h e = do {
     p \<leftarrow> get_prev h e;
     n \<leftarrow> get_next h e;
     h \<leftarrow> set_prev h e n;
     set_next h e p }"

partial_function (option) list_reverse_loop :: "links \<Rightarrow> ptr \<Rightarrow> ptr \<Rightarrow> links option" where
  "list_reverse_loop h l e = do {
     en \<leftarrow> list_end l;
     if e = en then Some h
     else do {
       h \<leftarrow> swap_links h e;
       e \<leftarrow> get_prev h e;
       list_reverse_loop h l e } }"

definition list_reverse :: "links \<Rightarrow> ptr \<Rightarrow> links option" where
  "list_reverse h l = do {
     emp \<leftarrow> list_empty h l;
     if emp then Some h
     else do {
       e \<leftarrow> list_begin h l;
       h \<leftarrow> list_reverse_loop h l e;
       a \<leftarrow> get_next h (head_of l);
       b \<leftarrow> get_prev h (tail_of l);
       h \<leftarrow> set_next h (head_of l) b;
       h \<leftarrow> set_prev h (tail_of l) a;
       f \<leftarrow> get_next h (head_of l);
       t \<leftarrow> get_prev h (tail_of l);
       x \<leftarrow> get_prev h f;
       y \<leftarrow> get_next h t;
       h \<leftarrow> set_prev h f y;
       set_next h t x } }"


subsection \<open>Operations on lists with ordered elements\<close>

partial_function (option) is_sorted_loop ::
  "(ptr \<Rightarrow> ptr \<Rightarrow> bool) \<Rightarrow> links \<Rightarrow> ptr \<Rightarrow> ptr \<Rightarrow> bool option" where
  "is_sorted_loop lt h a b = do {
     a \<leftarrow> list_next h a;
     if a = b then Some True
     else do {
       p \<leftarrow> list_prev h a;
       if lt a p then Some False else is_sorted_loop lt h a b } }"

definition is_sorted :: "(ptr \<Rightarrow> ptr \<Rightarrow> bool) \<Rightarrow> links \<Rightarrow> ptr \<Rightarrow> ptr \<Rightarrow> bool option" where
  "is_sorted lt h a b = (if a \<noteq> b then is_sorted_loop lt h a b else Some True)"

partial_function (option) find_end_loop ::
  "(ptr \<Rightarrow> ptr \<Rightarrow> bool) \<Rightarrow> links \<Rightarrow> ptr \<Rightarrow> ptr \<Rightarrow> ptr option" where
  "find_end_loop lt h a b = do {
     a \<leftarrow> list_next h a;
     if a = b then Some a
     else do {
       p \<leftarrow> list_prev h a;
       if \<not> lt a p then find_end_loop lt h a b else Some a } }"

definition find_end_of_run ::
  "(ptr \<Rightarrow> ptr \<Rightarrow> bool) \<Rightarrow> links \<Rightarrow> ptr \<Rightarrow> ptr \<Rightarrow> ptr option" where
  "find_end_of_run lt h a b = do {
     _ \<leftarrow> ASSERT (a \<noteq> NULL);
     _ \<leftarrow> ASSERT (b \<noteq> NULL);
     _ \<leftarrow> ASSERT (a \<noteq> b);
     find_end_loop lt h a b }"

partial_function (option) merge_loop ::
  "(ptr \<Rightarrow> ptr \<Rightarrow> bool) \<Rightarrow> links \<Rightarrow> ptr \<Rightarrow> ptr \<Rightarrow> ptr \<Rightarrow> links option" where
  "merge_loop lt h a0 a1b0 b1 =
     (if a0 \<noteq> a1b0 \<and> a1b0 \<noteq> b1 then
        (if \<not> lt a1b0 a0 then do {
           a0 \<leftarrow> list_next h a0;
           merge_loop lt h a0 a1b0 b1 }
         else do {
           a1b0 \<leftarrow> list_next h a1b0;
           p \<leftarrow> list_prev h a1b0;
           h \<leftarrow> list_splice h a0 p a1b0;
           merge_loop lt h a0 a1b0 b1 })
      else Some h)"

definition inplace_merge ::
  "(ptr \<Rightarrow> ptr \<Rightarrow> bool) \<Rightarrow> links \<Rightarrow> ptr \<Rightarrow> ptr \<Rightarrow> ptr \<Rightarrow> links option" where
  "inplace_merge lt h a0 a1b0 b1 = do {
     _ \<leftarrow> ASSERT (a0 \<noteq> NULL);
     _ \<leftarrow> ASSERT (a1b0 \<noteq> NULL);
     _ \<leftarrow> ASSERT (b1 \<noteq> NULL);
     s1 \<leftarrow> is_sorted lt h a0 a1b0;
     _ \<leftarrow> ASSERT s1;
     s2 \<leftarrow> is_sorted lt h a1b0 b1;
     _ \<leftarrow> ASSERT s2;
     merge_loop lt h a0 a1b0 b1 }"

text \<open>One pass of \<^verbatim>\<open>list_sort\<close>: the inner \<^verbatim>\<open>for\<close> loop, returning \<^verbatim>\<open>output_run_cnt\<close>.\<close>

partial_function (option) sort_pass ::
  "(ptr \<Rightarrow> ptr \<Rightarrow> bool) \<Rightarrow> links \<Rightarrow> ptr \<Rightarrow> ptr \<Rightarrow> u32 \<Rightarrow> (links \<times> u32) option" where
  "sort_pass lt h l a0 cnt = do {
     en \<leftarrow> list_end l;
     if a0 = en then Some (h, cnt)
     else do {
       a1b0 \<leftarrow> find_end_of_run lt h a0 en;
       if a1b0 = en then Some (h, cnt + 1)
       else do {
         b1 \<leftarrow> find_end_of_run lt h a1b0 en;
         h \<leftarrow> inplace_merge lt h a0 a1b0 b1;
         sort_pass lt h l b1 (cnt + 1) } } }"

partial_function (option) sort_loop ::
  "(ptr \<Rightarrow> ptr \<Rightarrow> bool) \<Rightarrow> links \<Rightarrow> ptr \<Rightarrow> links option" where
  "sort_loop lt h l = do {
     a0 \<leftarrow> list_begin h l;
     (h, output_run_cnt) \<leftarrow> sort_pass lt h l a0 0;
     if output_run_cnt > 1 then sort_loop lt h l else Some h }"

definition list_sort :: "(ptr \<Rightarrow> ptr \<Rightarrow> bool) \<Rightarrow> links \<Rightarrow> ptr \<Rightarrow> links option" where
  "list_sort lt h l = do {
     _ \<leftarrow> ASSERT (l \<noteq> NULL);
     h \<leftarrow> sort_loop lt h l;
     b \<leftarrow> list_begin h l;
     e \<leftarrow> list_end l;
     s \<leftarrow> is_sorted lt h b e;
     _ \<leftarrow> ASSERT s;
     Some h }"

partial_function (option) insert_ordered_loop ::
  "(ptr \<Rightarrow> ptr \<Rightarrow> bool) \<Rightarrow> links \<Rightarrow> ptr \<Rightarrow> ptr \<Rightarrow> ptr \<Rightarrow> ptr option" where
  "insert_ordered_loop lt h l elem e = do {
     en \<leftarrow> list_end l;
     if e = en then Some e
     else if lt elem e then Some e
     else do {
       e \<leftarrow> list_next h e;
       insert_ordered_loop lt h l elem e } }"

definition list_insert_ordered ::
  "(ptr \<Rightarrow> ptr \<Rightarrow> bool) \<Rightarrow> links \<Rightarrow> ptr \<Rightarrow> ptr \<Rightarrow> links option" where
  "list_insert_ordered lt h l elem = do {
     _ \<leftarrow> ASSERT (l \<noteq> NULL);
     _ \<leftarrow> ASSERT (elem \<noteq> NULL);
     e \<leftarrow> list_begin h l;
     e \<leftarrow> insert_ordered_loop lt h l elem e;
     list_insert h e elem }"

partial_function (option) unique_loop ::
  "(ptr \<Rightarrow> ptr \<Rightarrow> bool) \<Rightarrow> links \<Rightarrow> ptr \<Rightarrow> ptr \<Rightarrow> ptr \<Rightarrow> links option" where
  "unique_loop lt h l duplicates elem = do {
     nxt \<leftarrow> list_next h elem;
     en \<leftarrow> list_end l;
     if nxt = en then Some h
     else if \<not> lt elem nxt \<and> \<not> lt nxt elem then do {
       (h, _) \<leftarrow> list_remove h nxt;
       h \<leftarrow> (if duplicates \<noteq> NULL then list_push_back h duplicates nxt else Some h);
       unique_loop lt h l duplicates elem }
     else unique_loop lt h l duplicates nxt }"

definition list_unique ::
  "(ptr \<Rightarrow> ptr \<Rightarrow> bool) \<Rightarrow> links \<Rightarrow> ptr \<Rightarrow> ptr \<Rightarrow> links option" where
  "list_unique lt h l duplicates = do {
     _ \<leftarrow> ASSERT (l \<noteq> NULL);
     emp \<leftarrow> list_empty h l;
     if emp then Some h
     else do {
       elem \<leftarrow> list_begin h l;
       unique_loop lt h l duplicates elem } }"

partial_function (option) max_loop ::
  "(ptr \<Rightarrow> ptr \<Rightarrow> bool) \<Rightarrow> links \<Rightarrow> ptr \<Rightarrow> ptr \<Rightarrow> ptr \<Rightarrow> ptr option" where
  "max_loop lt h l mx e = do {
     en \<leftarrow> list_end l;
     if e = en then Some mx
     else do {
       nxt \<leftarrow> list_next h e;
       max_loop lt h l (if lt mx e then e else mx) nxt } }"

definition list_max :: "(ptr \<Rightarrow> ptr \<Rightarrow> bool) \<Rightarrow> links \<Rightarrow> ptr \<Rightarrow> ptr option" where
  "list_max lt h l = do {
     mx \<leftarrow> list_begin h l;
     en \<leftarrow> list_end l;
     if mx = en then Some mx
     else do {
       e \<leftarrow> list_next h mx;
       max_loop lt h l mx e } }"

partial_function (option) min_loop ::
  "(ptr \<Rightarrow> ptr \<Rightarrow> bool) \<Rightarrow> links \<Rightarrow> ptr \<Rightarrow> ptr \<Rightarrow> ptr \<Rightarrow> ptr option" where
  "min_loop lt h l mn e = do {
     en \<leftarrow> list_end l;
     if e = en then Some mn
     else do {
       nxt \<leftarrow> list_next h e;
       min_loop lt h l (if lt e mn then e else mn) nxt } }"

definition list_min :: "(ptr \<Rightarrow> ptr \<Rightarrow> bool) \<Rightarrow> links \<Rightarrow> ptr \<Rightarrow> ptr option" where
  "list_min lt h l = do {
     mn \<leftarrow> list_begin h l;
     en \<leftarrow> list_end l;
     if mn = en then Some mn
     else do {
       e \<leftarrow> list_next h mn;
       min_loop lt h l mn e } }"

subsection \<open>Representation: the sequence a list holds\<close>

text \<open>
  \<open>chain pv nx p xs n\<close>: the elements \<open>xs\<close> are linked in both directions, the first has
  \<open>p\<close> before it and the last has \<open>n\<close> after it. A well-formed list at \<open>l\<close> that holds the
  sequence \<open>xs\<close> is a chain from the head through \<open>xs\<close> to the tail with \<open>NULL\<close> at both
  ends and no element twice.
\<close>

primrec chain :: "(ptr \<Rightarrow> ptr) \<Rightarrow> (ptr \<Rightarrow> ptr) \<Rightarrow> ptr \<Rightarrow> ptr list \<Rightarrow> ptr \<Rightarrow> bool" where
  "chain pv nx p [] n \<longleftrightarrow> True"
| "chain pv nx p (x # xs) n \<longleftrightarrow>
     x \<noteq> NULL \<and> pv x = p \<and> nx x = hd (xs @ [n]) \<and> chain pv nx x xs n"

definition cells :: "ptr \<Rightarrow> ptr list \<Rightarrow> ptr list" where
  "cells l xs = head_of l # xs @ [tail_of l]"

definition is_list :: "links \<Rightarrow> ptr \<Rightarrow> ptr list \<Rightarrow> bool" where
  "is_list h l xs \<longleftrightarrow>
     distinct (cells l xs) \<and> chain (elem_prev h) (elem_next h) NULL (cells l xs) NULL"

definition unchanged_outside :: "ptr set \<Rightarrow> links \<Rightarrow> links \<Rightarrow> bool" where
  "unchanged_outside S h h' \<longleftrightarrow>
     (\<forall>x. x \<notin> S \<longrightarrow> elem_prev h' x = elem_prev h x \<and> elem_next h' x = elem_next h x)"

lemma set_cells [simp]: "set (cells l xs) = insert l (insert (Suc l) (set xs))"
  by (auto simp: cells_def)

lemma chain_append:
  "chain pv nx p (xs @ ys) n \<longleftrightarrow>
     chain pv nx p xs (hd (ys @ [n])) \<and> chain pv nx (last (p # xs)) ys n"
proof (induction xs arbitrary: p)
  case (Cons x xs)
  then show ?case by (cases xs) auto
qed simp

lemma chain_upd_prev [simp]:
  "x \<notin> set xs \<Longrightarrow> chain (pv(x := v)) nx p xs n = chain pv nx p xs n"
  by (induction xs arbitrary: p) auto

lemma chain_upd_next [simp]:
  "x \<notin> set xs \<Longrightarrow> chain pv (nx(x := v)) p xs n = chain pv nx p xs n"
  by (induction xs arbitrary: p) auto

lemma chain_cong:
  "(\<And>x. x \<in> set xs \<Longrightarrow> pv' x = pv x \<and> nx' x = nx x) \<Longrightarrow> chain pv' nx' p xs n = chain pv nx p xs n"
  by (induction xs arbitrary: p) auto

lemma chain_non_NULL: "chain pv nx p xs n \<Longrightarrow> NULL \<notin> set xs"
  by (induction xs arbitrary: p) auto

lemma unchanged_outside_refl [simp]: "unchanged_outside S h h"
  by (simp add: unchanged_outside_def)

lemma unchanged_outside_trans:
  "unchanged_outside S h h' \<Longrightarrow> unchanged_outside T h' h'' \<Longrightarrow> S \<union> T \<subseteq> U \<Longrightarrow> unchanged_outside U h h''"
  by (fastforce simp: unchanged_outside_def)

text \<open>A list whose cells a change does not touch is still there.\<close>

lemma is_list_frame [frame_intros]:
  assumes "is_list h l xs" and "unchanged_outside S h h'" and "S \<inter> set (cells l xs) = {}"
  shows "is_list h' l xs"
proof -
  have "chain (elem_prev h') (elem_next h') NULL (cells l xs) NULL =
        chain (elem_prev h) (elem_next h) NULL (cells l xs) NULL"
    using assms(2,3) by (intro chain_cong) (auto simp: unchanged_outside_def)
  then show ?thesis using assms(1) by (simp add: is_list_def)
qed

text \<open>
  The shape of a list around a position: \<open>a\<close> is the cell before it, \<open>b\<close> the cell at it.
  Everything the operations read there follows.
\<close>

lemma is_list_split:
  assumes "is_list h l xs" and "cells l xs = L @ a # b # R"
  shows "elem_next h a = b" and "elem_prev h b = a" and "a \<noteq> NULL" and "b \<noteq> NULL" and "a \<noteq> b"
  using assms by (auto simp: is_list_def chain_append)

lemma is_list_ends:
  assumes "is_list h l xs"
  shows "elem_prev h l = NULL" and "elem_next h (Suc l) = NULL" and "l \<noteq> NULL"
  using assms by (auto simp: is_list_def cells_def chain_append)

definition cell_before :: "ptr \<Rightarrow> ptr list \<Rightarrow> ptr" where
  "cell_before l as = last (head_of l # as)"

definition cell_at :: "ptr \<Rightarrow> ptr list \<Rightarrow> ptr" where
  "cell_at l bs = hd (bs @ [tail_of l])"

lemma cells_position:
  obtains L R where "cells l (as @ bs) = L @ cell_before l as # cell_at l bs # R"
    and "L @ [cell_before l as] = head_of l # as" and "cell_at l bs # R = bs @ [tail_of l]"
proof
  show "cells l (as @ bs) =
      butlast (l # as) @ cell_before l as # cell_at l bs # tl (bs @ [Suc l])"
    using append_butlast_last_id [of "l # as"]
    by (simp add: cells_def cell_before_def cell_at_def)
  show "butlast (l # as) @ [cell_before l as] = head_of l # as"
    by (simp add: cell_before_def)
  show "cell_at l bs # tl (bs @ [Suc l]) = bs @ [tail_of l]"
    by (cases bs) (simp_all add: cell_at_def)
qed

lemma position_links:
  assumes "is_list h l (as @ bs)"
  shows "elem_next h (cell_before l as) = cell_at l bs"
    and "elem_prev h (cell_at l bs) = cell_before l as"
    and "cell_before l as \<noteq> NULL" and "cell_at l bs \<noteq> NULL" and "cell_before l as \<noteq> cell_at l bs"
  by (metis assms cells_position is_list_split)+

lemma position_kinds:
  assumes "is_list h l (as @ bs)"
  shows "is_interior h (cell_at l bs) \<or> is_tail h (cell_at l bs)"
    and "bs = b # bs' \<Longrightarrow> is_interior h b"
    and "is_head h (cell_before l as) \<or> is_interior h (cell_before l as)"
proof -
  show "is_interior h (cell_at l bs) \<or> is_tail h (cell_at l bs)"
    using position_links [OF assms] by (auto simp: is_interior_def is_tail_def)
  show "is_head h (cell_before l as) \<or> is_interior h (cell_before l as)"
    using position_links [OF assms] by (auto simp: is_interior_def is_head_def)
  assume "bs = b # bs'"
  with position_links [OF assms] position_links [of h l "as @ [b]" bs'] assms
  show "is_interior h b"
    by (auto simp: is_interior_def cell_before_def cell_at_def)
qed

lemma list_begin_is_list: "is_list h l xs \<Longrightarrow> list_begin h l = Some (cell_at l xs)"
  using position_links(1) [of h l "[]" xs] is_list_ends [of h l xs]
  by (simp add: list_begin_def get_next_def cell_before_def)

lemma list_end_is_list: "is_list h l xs \<Longrightarrow> list_end l = Some (tail_of l)"
  using is_list_ends(3) by (simp add: list_end_def)

lemma list_rbegin_is_list: "is_list h l xs \<Longrightarrow> list_rbegin h l = Some (cell_before l xs)"
  using position_links(2) [of h l xs "[]"] is_list_ends [of h l xs]
  by (simp add: list_rbegin_def get_prev_def cell_at_def)

lemma list_next_is_list:
  "is_list h l (as @ x # bs) \<Longrightarrow> list_next h x = Some (cell_at l bs)"
  using position_kinds(2) [of h l as "x # bs" x bs] position_links [of h l "as @ [x]" bs]
  by (simp add: list_next_def get_next_def cell_before_def)

lemma list_prev_is_list:
  "is_list h l (as @ bs) \<Longrightarrow> list_prev h (cell_at l bs) = Some (cell_before l as)"
  using position_kinds(1) [of h l as bs] position_links [of h l as bs]
  by (auto simp: list_prev_def get_prev_def)

lemma cell_at_eq_tail: "is_list h l (as @ bs) \<Longrightarrow> cell_at l bs = tail_of l \<longleftrightarrow> bs = []"
  by (cases bs) (auto simp: cell_at_def is_list_def cells_def)

lemma cell_at_simps [simp]: "cell_at l [] = tail_of l" "cell_at l (b # bs) = b"
  by (simp_all add: cell_at_def)

lemma cell_before_simps [simp]: "cell_before l [] = head_of l" "cell_before l (as @ [a]) = a"
  by (simp_all add: cell_before_def)

lemmas traversal = list_begin_is_list list_end_is_list list_rbegin_is_list
  list_next_is_list list_prev_is_list

lemma chain_insert:
  assumes "chain pv nx p (L @ a # b # R) n" and "distinct (L @ a # b # R)"
    and "e \<notin> set (L @ a # b # R)" and "e \<noteq> NULL"
  shows "chain (pv(e := a, b := e)) (nx(e := b, a := e)) p (L @ a # e # b # R) n"
  using assms by (auto simp: chain_append)

lemma list_insert_ok:
  assumes l: "is_list h l (as @ bs)" and e: "e \<notin> set (cells l (as @ bs))" "e \<noteq> NULL"
  obtains h' where "list_insert h (cell_at l bs) e = Some h'" and "is_list h' l (as @ e # bs)"
    and "unchanged_outside {e, cell_before l as, cell_at l bs} h h'"
proof -
  let ?a = "cell_before l as" and ?b = "cell_at l bs"
  let ?h' = "\<lparr>elem_prev = (elem_prev h)(e := ?a, ?b := e), elem_next = (elem_next h)(e := ?b, ?a := e)\<rparr>"
  obtain L R where cs: "cells l (as @ bs) = L @ ?a # ?b # R"
    and La: "L @ [?a] = head_of l # as" and bR: "?b # R = bs @ [tail_of l]"
    by (rule cells_position)
  have cs': "cells l (as @ e # bs) = L @ ?a # e # ?b # R"
    using La bR by (simp add: cells_def)
  have "list_insert h ?b e = Some ?h'"
    using position_links [OF l] position_kinds(1) [OF l] e cs
    by (auto simp: list_insert_def field_defs)
  moreover have "is_list ?h' l (as @ e # bs)"
    using l e chain_insert [of "elem_prev h" "elem_next h" NULL L ?a ?b R NULL e]
    unfolding is_list_def cs' cs by auto
  moreover have "unchanged_outside {e, ?a, ?b} h ?h'"
    by (simp add: unchanged_outside_def)
  ultimately show ?thesis by (rule that)
qed

lemma chain_remove:
  assumes "chain pv nx p (L @ a # x # b # R) n" and "distinct (L @ a # x # b # R)"
  shows "chain (pv(b := a)) (nx(a := b)) p (L @ a # b # R) n"
  using assms by (auto simp: chain_append)

lemma list_remove_ok:
  assumes l: "is_list h l (as @ x # bs)"
  obtains h' where "list_remove h x = Some (h', cell_at l bs)" and "is_list h' l (as @ bs)"
    and "unchanged_outside {cell_before l as, cell_at l bs} h h'"
proof -
  let ?a = "cell_before l as" and ?b = "cell_at l bs"
  let ?h' = "\<lparr>elem_prev = (elem_prev h)(?b := ?a), elem_next = (elem_next h)(?a := ?b)\<rparr>"
  obtain L R where cs: "cells l (as @ bs) = L @ ?a # ?b # R"
    and La: "L @ [?a] = head_of l # as" and bR: "?b # R = bs @ [tail_of l]"
    by (rule cells_position)
  have cs': "cells l (as @ x # bs) = L @ ?a # x # ?b # R"
    using La bR by (simp add: cells_def)
  from l have d: "distinct (L @ ?a # x # ?b # R)" by (simp add: is_list_def cs')
  have "list_remove h x = Some (?h', ?b)"
    using position_links [OF l] position_links [of h l "as @ [x]" bs] l
      position_kinds(2) [OF l refl] d
    by (auto simp: list_remove_def field_defs)
  moreover have "is_list ?h' l (as @ bs)"
    using l chain_remove [of "elem_prev h" "elem_next h" NULL L ?a x ?b R NULL]
    unfolding is_list_def cs' cs by auto
  moreover have "unchanged_outside {?a, ?b} h ?h'"
    by (simp add: unchanged_outside_def)
  ultimately show ?thesis by (rule that)
qed

lemma list_init_ok:
  assumes "l \<noteq> NULL"
  obtains h' where "list_init h l = Some h'" and "is_list h' l []"
    and "unchanged_outside {l, Suc l} h h'"
  using assms that
  by (auto simp: list_init_def field_defs is_list_def cells_def unchanged_outside_def)

lemma list_empty_ok: "is_list h l xs \<Longrightarrow> list_empty h l = Some (xs = [])"
  using cell_at_eq_tail [of h l "[]" xs] by (simp add: list_empty_def traversal)

lemma list_push_front_ok:
  assumes "is_list h l xs" and "e \<notin> set (cells l xs)" and "e \<noteq> NULL"
  obtains h' where "list_push_front h l e = Some h'" and "is_list h' l (e # xs)"
    and "unchanged_outside {e, l, cell_at l xs} h h'"
  using list_insert_ok [of h l "[]" xs e] assms that
  by (auto simp: list_push_front_def traversal)

lemma list_push_back_ok:
  assumes "is_list h l xs" and "e \<notin> set (cells l xs)" and "e \<noteq> NULL"
  obtains h' where "list_push_back h l e = Some h'" and "is_list h' l (xs @ [e])"
    and "unchanged_outside {e, cell_before l xs, Suc l} h h'"
  using list_insert_ok [of h l xs "[]" e] assms that
  by (auto simp: list_push_back_def traversal)

lemma list_front_ok: "is_list h l (x # xs) \<Longrightarrow> list_front h l = Some x"
  using position_links(1) [of h l "[]" "x # xs"] is_list_ends(3) [of h l "x # xs"]
  by (simp add: list_front_def list_empty_ok get_next_def)

lemma list_back_ok: "is_list h l (xs @ [x]) \<Longrightarrow> list_back h l = Some x"
  using position_links(2) [of h l "xs @ [x]" "[]"] is_list_ends(3) [of h l "xs @ [x]"]
  by (simp add: list_back_def list_empty_ok get_prev_def)

lemma list_pop_front_ok:
  assumes "is_list h l (x # xs)"
  obtains h' where "list_pop_front h l = Some (h', x)" and "is_list h' l xs"
    and "unchanged_outside {l, cell_at l xs} h h'"
proof -
  from assms have "is_list h l ([] @ x # xs)" by simp
  then obtain h' where "list_remove h x = Some (h', cell_at l xs)" "is_list h' l ([] @ xs)"
    "unchanged_outside {cell_before l [], cell_at l xs} h h'" by (rule list_remove_ok)
  then show ?thesis using that list_front_ok [OF assms] by (simp add: list_pop_front_def)
qed

lemma list_pop_back_ok:
  assumes "is_list h l (xs @ [x])"
  obtains h' where "list_pop_back h l = Some (h', x)" and "is_list h' l xs"
    and "unchanged_outside {cell_before l xs, Suc l} h h'"
proof -
  from assms obtain h' where "list_remove h x = Some (h', cell_at l [])" "is_list h' l (xs @ [])"
    "unchanged_outside {cell_before l xs, cell_at l []} h h'" by (rule list_remove_ok)
  then show ?thesis using that list_back_ok [OF assms] by (simp add: list_pop_back_def)
qed

lemma list_pop_empty:
  assumes "is_list h l []"
  shows "list_pop_front h l = None" and "list_pop_back h l = None"
  using assms by (simp_all add: list_pop_front_def list_pop_back_def list_front_def list_back_def
      list_empty_ok)

subsection \<open>A kernel list is a queue\<close>

text \<open>An element may be added when it is in no cell of the list.\<close>

definition list_room :: "ptr \<Rightarrow> ptr list \<Rightarrow> ptr \<Rightarrow> bool" where
  "list_room l xs e \<longleftrightarrow> e \<noteq> NULL \<and> e \<notin> set (cells l xs)"

interpretation klist: fifo_queue is_list list_room list_push_back list_pop_front
proof unfold_locales
  fix h l xs and e :: ptr
  assume "is_list h l xs" and "list_room l xs e"
  then show "\<exists>h'. list_push_back h l e = Some h' \<and> is_list h' l (xs @ [e])"
    by (metis list_push_back_ok list_room_def)
next
  fix h l x and xs :: "ptr list"
  assume "is_list h l (x # xs)"
  then show "\<exists>h'. list_pop_front h l = Some (h', x) \<and> is_list h' l xs"
    by (metis list_pop_front_ok)
qed (rule list_pop_empty)

lemma list_size_loop_ok:
  "is_list h l (as @ bs) \<Longrightarrow> list_size_loop h l (cell_at l bs) cnt = Some (cnt + of_nat (length bs))"
proof (induction bs arbitrary: as cnt)
  case Nil
  then show ?case by (simp add: list_size_loop.simps traversal)
next
  case (Cons b bs)
  from Cons.prems Cons.IH [of "as @ [b]" "cnt + 1"] show ?case
    using cell_at_eq_tail [OF Cons.prems]
    by (subst list_size_loop.simps) (simp add: traversal)
qed

lemma list_size_ok: "is_list h l xs \<Longrightarrow> list_size h l = Some (of_nat (length xs))"
  using list_size_loop_ok [of h l "[]" xs 0] by (simp add: list_size_def traversal)

subsection \<open>Reversal\<close>

lemma chain_rev: "chain pv nx p xs n \<Longrightarrow> chain nx pv n (rev xs) p"
proof (induction xs arbitrary: p)
  case (Cons x xs)
  then have "chain nx pv n (rev xs) x" by simp
  with Cons.prems show ?case
    by (cases xs) (auto simp: chain_append)
qed simp

lemma chain_set_first: "chain pv nx p (x # xs) n \<Longrightarrow> x \<notin> set xs \<Longrightarrow> chain (pv(x := p')) nx p' (x # xs) n"
  by simp

lemma chain_set_last:
  "chain pv nx p (xs @ [x]) n \<Longrightarrow> x \<notin> set xs \<Longrightarrow> chain pv (nx(x := n')) p (xs @ [x]) n'"
  by (auto simp: chain_append)

lemma chain_set_ends:
  assumes "chain pv nx p xs n" and "distinct xs" and "xs \<noteq> []"
  shows "chain (pv(hd xs := p')) (nx(last xs := n')) p' xs n'"
proof -
  have "chain pv (nx(last xs := n')) p xs n'"
    using assms chain_set_last [of pv nx p "butlast xs" "last xs" n n']
      distinct_append [of "butlast xs" "[last xs]"] by simp
  with assms show ?thesis by (cases xs) auto
qed

definition swap_all :: "links \<Rightarrow> ptr list \<Rightarrow> links" where
  "swap_all h xs = \<lparr>elem_prev = (\<lambda>x. if x \<in> set xs then elem_next h x else elem_prev h x),
     elem_next = (\<lambda>x. if x \<in> set xs then elem_prev h x else elem_next h x)\<rparr>"

lemma list_reverse_loop_ok:
  assumes "l \<noteq> NULL" and "chain (elem_prev h) (elem_next h) p (bs @ [tail_of l]) NULL"
    and "distinct (bs @ [tail_of l])"
  shows "list_reverse_loop h l (cell_at l bs) = Some (swap_all h bs)"
  using assms(2,3)
proof (induction bs arbitrary: h p)
  case Nil
  then show ?case using \<open>l \<noteq> NULL\<close>
    by (subst list_reverse_loop.simps) (simp add: list_end_def swap_all_def)
next
  case (Cons b bs)
  define h1 where "h1 = \<lparr>elem_prev = (elem_prev h)(b := elem_next h b),
    elem_next = (elem_next h)(b := elem_prev h b)\<rparr>"
  have b: "b \<noteq> NULL" "b \<noteq> Suc l" "elem_next h b = cell_at l bs" "b \<notin> set (bs @ [Suc l])"
    using Cons.prems by (auto simp: cell_at_def hd_append)
  have sw: "swap_links h b = Some h1" "get_prev h1 b = Some (cell_at l bs)"
    using b by (simp_all add: swap_links_def field_defs h1_def)
  have "chain (elem_prev h1) (elem_next h1) b (bs @ [Suc l]) NULL"
    using Cons.prems b(4) by (simp add: h1_def)
  then have "list_reverse_loop h1 l (cell_at l bs) = Some (swap_all h1 bs)"
    using Cons.prems(2) Cons.IH by simp
  moreover have "swap_all h1 bs = swap_all h (b # bs)"
    using b(4) by (auto simp: swap_all_def h1_def fun_eq_iff)
  ultimately show ?case using \<open>l \<noteq> NULL\<close> b(2) sw
    by (subst list_reverse_loop.simps) (simp add: list_end_def)
qed

lemma list_reverse_ok:
  assumes l: "is_list h l xs"
  obtains h' where "list_reverse h l = Some h'" and "is_list h' l (rev xs)"
    and "unchanged_outside (set (cells l xs)) h h'"
proof (cases "xs = []")
  case True
  then show ?thesis using that l by (simp add: list_reverse_def list_empty_ok)
next
  case False
  let ?f = "hd xs" and ?b = "last xs"
  have ch: "chain (elem_prev h) (elem_next h) l (xs @ [Suc l]) NULL" and d: "distinct (cells l xs)"
    using l by (simp_all add: is_list_def cells_def)
  have inner: "chain (elem_prev h) (elem_next h) l xs (Suc l)"
    using ch by (simp add: chain_append)
  have ends: "elem_next h l = ?f" "elem_prev h (Suc l) = ?b" "?f \<noteq> NULL" "?b \<noteq> NULL"
    "elem_prev h ?f = l" "elem_next h ?b = Suc l" "?f \<in> set xs" "?b \<in> set xs" "l \<noteq> NULL"
    using position_links [of h l "[]" xs] position_links [of h l xs "[]"] is_list_ends [OF l] l False
    by (auto simp: cell_at_def cell_before_def)
  define h1 where "h1 = swap_all h xs"
  have loop: "list_reverse_loop h l (cell_at l xs) = Some h1"
    using list_reverse_loop_ok [OF ends(9) ch] d by (simp add: cells_def h1_def)
  define h' where "h' = \<lparr>elem_prev = (elem_prev h1)(Suc l := ?f, ?b := l),
    elem_next = (elem_next h1)(l := ?b, ?f := Suc l)\<rparr>"
  have h1: "elem_next h1 l = ?f" "elem_prev h1 (Suc l) = ?b" "elem_prev h1 ?b = Suc l"
    "elem_next h1 ?f = l" "elem_prev h1 l = NULL" "elem_next h1 (Suc l) = NULL"
    using ends d is_list_ends [OF l] by (auto simp: h1_def swap_all_def cells_def)
  have ne: "?b \<noteq> Suc l" "?f \<noteq> l" "?f \<noteq> Suc l" "?b \<noteq> l"
    using d ends(7,8) by (auto simp: cells_def)
  have "list_reverse h l = Some h'"
    using l False loop h1 ends ne
    by (simp add: list_reverse_def list_empty_ok traversal field_defs h'_def fun_upd_twist)
  moreover have "is_list h' l (rev xs)"
  proof -
    have "chain (elem_prev h1) (elem_next h1) (Suc l) (rev xs) l"
      using chain_rev [OF inner]
      by (subst chain_cong [of _ _ "elem_next h" _ "elem_prev h"]) (auto simp: h1_def swap_all_def)
    then have "chain ((elem_prev h1)(?b := l)) ((elem_next h1)(?f := Suc l)) l (rev xs) (Suc l)"
      using chain_set_ends [of "elem_prev h1" "elem_next h1" "Suc l" "rev xs" l l "Suc l"] d False
      by (simp add: hd_rev last_rev cells_def)
    then have "chain (elem_prev h') (elem_next h') l (rev xs) (Suc l)"
      by (subst chain_cong [of _ _ "(elem_prev h1)(?b := l)" _ "(elem_next h1)(?f := Suc l)"])
         (use d in \<open>auto simp: h'_def cells_def\<close>)
    then show ?thesis using d h1 ends ne False
      by (auto simp: is_list_def cells_def chain_append h'_def hd_append hd_rev last_rev)
  qed
  moreover have "unchanged_outside (set (cells l xs)) h h'"
    using ends by (auto simp: unchanged_outside_def h'_def h1_def swap_all_def)
  ultimately show ?thesis by (rule that)
qed

end
