(* ===== verification/List_Order.thy ===== *)
theory List_Order
  imports Linked_List
begin

section \<open>Ordered list operations: sorting, ordered insertion, extrema\<close>

text \<open>
  Correctness of the second half of \<^verbatim>\<open>lib/kernel/list.c\<close>. What the operations ask of
  their \<^verbatim>\<open>list_less_func\<close> is the locale \<open>list_less\<close>: a strict weak order. The natural
  merge sort is related to functions on sequences (\<open>take_run\<close>, \<open>merge_runs\<close>,
  \<open>merge_pass\<close>), whose properties give that \<^verbatim>\<open>list_sort\<close> ends, permutes, sorts and is
  stable.
\<close>

subsection \<open>Splicing\<close>

lemma chain_set_ends':
  assumes "chain pv nx p xs n" and "distinct xs" and "xs \<noteq> []"
    and "\<And>x. x \<in> set xs \<Longrightarrow> pv' x = (if x = hd xs then p' else pv x)"
    and "\<And>x. x \<in> set xs \<Longrightarrow> nx' x = (if x = last xs then n' else nx x)"
  shows "chain pv' nx' p' xs n'"
  using chain_set_ends [OF assms(1-3), of p' n'] assms(4,5)
  by (subst chain_cong [of _ _ "pv(hd xs := p')" _ "nx(last xs := n')"]) auto

lemma chain_splice:
  assumes ch: "chain pv nx p (L @ a # B @ M @ d # R) n" and dist: "distinct (L @ a # B @ M @ d # R)"
    and ne: "B \<noteq> []" "M \<noteq> []"
  shows "chain (pv(d := last B, hd M := a, hd B := last M)) (nx(last B := d, last M := hd B, a := hd M))
           p (L @ a # M @ B @ d # R) n" (is "chain ?pv ?nx _ _ _")
proof -
  have mem: "hd B \<in> set B" "last B \<in> set B" "hd M \<in> set M" "last M \<in> set M"
    using ne by simp_all
  have c: "chain pv nx p (L @ [a]) (hd B)" "chain pv nx a B (hd M)" "chain pv nx (last B) M d"
    "chain pv nx (last M) (d # R) n"
    using ch ne by (auto simp: chain_append)
  have out: "\<And>x. x \<in> set M \<Longrightarrow> x \<noteq> d \<and> x \<noteq> hd B \<and> x \<noteq> last B \<and> x \<noteq> a"
    "\<And>x. x \<in> set B \<Longrightarrow> x \<noteq> d \<and> x \<noteq> hd M \<and> x \<noteq> last M \<and> x \<noteq> a"
    "\<And>x. x \<in> set (d # R) \<Longrightarrow> x \<noteq> a \<and> x \<noteq> hd B \<and> x \<noteq> last B \<and> x \<noteq> hd M \<and> x \<noteq> last M"
    "\<And>x. x \<in> set (L @ [a]) \<Longrightarrow> x \<noteq> d \<and> x \<noteq> hd B \<and> x \<noteq> last B \<and> x \<noteq> hd M \<and> x \<noteq> last M"
    using dist mem by auto
  have "chain ?pv ?nx p (L @ [a]) (hd M)"
    using chain_set_last [OF c(1), of "hd M"] dist out(4)
    by (subst chain_cong [of _ _ pv _ "nx(a := hd M)"]) auto
  moreover have "chain ?pv ?nx a M (hd B)"
    using out(1) dist by (intro chain_set_ends' [OF c(3) _ ne(2)]) simp_all
  moreover have "chain ?pv ?nx (last M) B d"
    using out(2) dist by (intro chain_set_ends' [OF c(2) _ ne(1)]) simp_all
  moreover have "chain ?pv ?nx (last B) (d # R) n"
    using chain_set_first [OF c(4), of "last B"] dist out(3)
    by (subst chain_cong [of _ _ "pv(d := last B)" _ nx]) auto
  ultimately have "chain ?pv ?nx p ((L @ [a]) @ M @ B @ d # R) n"
    using ne by (subst chain_append, subst chain_append, subst chain_append) simp
  then show ?thesis by simp
qed

lemma interior_mem:
  assumes "is_list h l xs" and "x \<in> set xs"
  shows "is_interior h x"
proof -
  from assms(2) obtain as bs where "xs = as @ x # bs" by (meson split_list)
  with assms(1) show ?thesis using position_kinds(2) [of h l as "x # bs" x bs] by simp
qed

lemma cell_at_append [simp]: "bs \<noteq> [] \<Longrightarrow> cell_at l (bs @ cs) = hd bs"
  by (simp add: cell_at_def)

lemma cell_before_append [simp]: "bs \<noteq> [] \<Longrightarrow> cell_before l (as @ bs) = last bs"
  by (simp add: cell_before_def)

lemma list_splice_same_ok:
  assumes l: "is_list h l (as @ bs @ ms @ ds)" and ne: "bs \<noteq> []" "ms \<noteq> []"
  obtains h' where "list_splice h (hd bs) (hd ms) (cell_at l ds) = Some h'"
    and "is_list h' l (as @ ms @ bs @ ds)"
    and "unchanged_outside (set (cells l (as @ bs @ ms @ ds))) h h'"
proof -
  let ?a = "cell_before l as" and ?d = "cell_at l ds"
  let ?h' = "\<lparr>elem_prev = (elem_prev h)(?d := last bs, hd ms := ?a, hd bs := last ms),
    elem_next = (elem_next h)(last bs := ?d, last ms := hd bs, ?a := hd ms)\<rparr>"
  obtain L where La: "L @ [?a] = head_of l # as" by (rule cells_position)
  obtain R where dR: "?d # R = ds @ [tail_of l]" by (rule cells_position)
  have cs: "cells l (as @ bs @ ms @ ds) = L @ ?a # bs @ ms @ ?d # R"
    and cs': "cells l (as @ ms @ bs @ ds) = L @ ?a # ms @ bs @ ?d # R"
    using La dR by (simp_all add: cells_def)
  have dist: "distinct (L @ ?a # bs @ ms @ ?d # R)"
    and ch: "chain (elem_prev h) (elem_next h) NULL (L @ ?a # bs @ ms @ ?d # R) NULL"
    using l by (simp_all add: is_list_def cs)
  have mem: "hd bs \<in> set bs" "last bs \<in> set bs" "hd ms \<in> set ms" "last ms \<in> set ms"
    using ne by simp_all
  have neq: "hd bs \<noteq> hd ms" "last bs \<noteq> last ms" "hd ms \<noteq> ?d" "hd bs \<noteq> ?d" "last bs \<noteq> ?a"
    "last ms \<noteq> ?a" "hd bs \<noteq> last ms"
    using dist mem by auto
  note p = position_links [of h l as "bs @ ms @ ds"] position_links [of h l "as @ bs" "ms @ ds"]
    position_links [of h l "as @ bs @ ms" ds]
  have int: "is_interior h (hd bs)" "is_interior h (hd ms)" "is_interior h (last ms)"
    using mem by (auto intro: interior_mem [OF l])
  have prv: "list_prev h ?d = Some (last ms)"
    using list_prev_is_list [of h l "as @ bs @ ms" ds] l ne by simp
  have "list_splice h (hd bs) (hd ms) ?d = Some ?h'"
    using p l ne neq int prv by (simp add: list_splice_def field_defs fun_upd_twist)
  moreover have "is_list ?h' l (as @ ms @ bs @ ds)"
    using chain_splice [OF ch dist ne] dist by (auto simp: is_list_def cs')
  moreover have "unchanged_outside (set (cells l (as @ bs @ ms @ ds))) h ?h'"
    using mem unfolding unchanged_outside_def cs by auto
  ultimately show ?thesis by (rule that)
qed

lemma chain_cut:
  assumes ch: "chain pv nx p (L @ c # M @ d # R) n" and dist: "distinct (L @ c # M @ d # R)"
  shows "chain (pv(d := c)) (nx(c := d)) p (L @ c # d # R) n"
  using assms by (cases "M = []") (auto simp: chain_append)

lemma chain_paste:
  assumes ch: "chain pv nx p (L @ a # b # R) n" and m: "chain pv nx p' M n'" "M \<noteq> []"
    and dist: "distinct (L @ a # M @ b # R)"
  shows "chain (pv(hd M := a, b := last M)) (nx(last M := b, a := hd M)) p (L @ a # M @ b # R) n"
    (is "chain ?pv ?nx _ _ _")
proof -
  have mem: "hd M \<in> set M" "last M \<in> set M" using m(2) by simp_all
  have c: "chain pv nx p (L @ [a]) b" "chain pv nx a (b # R) n"
    using ch by (auto simp: chain_append)
  have "chain ?pv ?nx p (L @ [a]) (hd M)"
    using chain_set_last [OF c(1), of "hd M"] dist mem
    by (subst chain_cong [of _ _ pv _ "nx(a := hd M)"]) auto
  moreover have "chain ?pv ?nx a M b"
    using dist by (intro chain_set_ends' [OF m(1) _ m(2)]) auto
  moreover have "chain ?pv ?nx (last M) (b # R) n"
    using chain_set_first [OF c(2), of "last M"] dist mem
    by (subst chain_cong [of _ _ "pv(b := last M)" _ nx]) auto
  ultimately have "chain ?pv ?nx p ((L @ [a]) @ M @ b # R) n"
    using m(2) by (subst chain_append, subst chain_append) simp
  then show ?thesis by simp
qed

lemma list_splice_other_ok:
  assumes l: "is_list h l (as @ bs)" and m: "is_list h m (cs @ ms @ ds)" and ne: "ms \<noteq> []"
    and disj: "set (cells l (as @ bs)) \<inter> set (cells m (cs @ ms @ ds)) = {}"
  obtains h' where "list_splice h (cell_at l bs) (hd ms) (cell_at m ds) = Some h'"
    and "is_list h' l (as @ ms @ bs)" and "is_list h' m (cs @ ds)"
    and "unchanged_outside (set (cells l (as @ bs)) \<union> set (cells m (cs @ ms @ ds))) h h'"
proof -
  let ?a = "cell_before l as" and ?b = "cell_at l bs"
  let ?c = "cell_before m cs" and ?d = "cell_at m ds"
  let ?pv = "(elem_prev h)(?d := ?c)" and ?nx = "(elem_next h)(?c := ?d)"
  let ?h' = "\<lparr>elem_prev = ?pv(hd ms := ?a, ?b := last ms), elem_next = ?nx(last ms := ?b, ?a := hd ms)\<rparr>"
  obtain L R where csl: "cells l (as @ bs) = L @ ?a # ?b # R"
    and La: "L @ [?a] = head_of l # as" and bR: "?b # R = bs @ [tail_of l]"
    by (rule cells_position)
  obtain L2 where L2: "L2 @ [?c] = head_of m # cs" by (rule cells_position)
  obtain R2 where R2: "?d # R2 = ds @ [tail_of m]" by (rule cells_position)
  have csl': "cells l (as @ ms @ bs) = L @ ?a # ms @ ?b # R"
    and csm: "cells m (cs @ ms @ ds) = L2 @ ?c # ms @ ?d # R2"
    and csm': "cells m (cs @ ds) = L2 @ ?c # ?d # R2"
    using La bR L2 R2 by (simp_all add: cells_def)
  have mem: "hd ms \<in> set ms" "last ms \<in> set ms" using ne by simp_all
  have dl: "distinct (L @ ?a # ?b # R)" and dm: "distinct (L2 @ ?c # ms @ ?d # R2)"
    using l m by (simp_all add: is_list_def csl csm)
  have dj: "x \<noteq> y" if "x \<in> set (L @ ?a # ?b # R)" "y \<in> set (L2 @ ?c # ms @ ?d # R2)" for x y
    using disj that unfolding csl csm by blast
  have out: "x \<noteq> ?c \<and> x \<noteq> ?d \<and> x \<noteq> hd ms \<and> x \<noteq> last ms" if "x \<in> set (L @ ?a # ?b # R)" for x
    using dj [OF that] mem by simp
  have out2: "x \<noteq> ?a \<and> x \<noteq> ?b \<and> x \<noteq> hd ms \<and> x \<noteq> last ms" if "x \<in> set (L2 @ ?c # ?d # R2)" for x
    using dj [of ?a x] dj [of ?b x] that dm mem by auto
  have out3: "x \<noteq> ?c \<and> x \<noteq> ?d" if "x \<in> set ms" for x
    using that dm by auto
  have neq: "?c \<noteq> last ms" "?d \<noteq> hd ms" "?b \<noteq> ?d" "?b \<noteq> hd ms" "?a \<noteq> ?c" "?a \<noteq> last ms"
    using out [of ?a] out [of ?b] out2 [of ?c] out2 [of ?d] by simp_all
  have m': "is_list h m ((cs @ ms) @ ds)" using m by simp
  have p: "elem_prev h (hd ms) = ?c" "elem_next h (last ms) = ?d" "elem_prev h ?b = ?a" "?a \<noteq> NULL"
    "?b \<noteq> NULL" "?c \<noteq> NULL" "?d \<noteq> NULL" "hd ms \<noteq> NULL" "last ms \<noteq> NULL"
    using position_links [OF l] position_links [OF m] position_links [OF m'] ne by simp_all
  have int: "is_interior h (hd ms)" "is_interior h (last ms)"
    using mem by (auto intro: interior_mem [OF m])
  have prv: "list_prev h ?d = Some (last ms)"
    using list_prev_is_list [of h m "cs @ ms" ds] m ne by simp
  have "hd ms \<noteq> ?d" using neq by simp
  then have "list_splice h ?b (hd ms) ?d = Some ?h'"
    using p neq int prv position_kinds(1) [OF l]
    by (simp add: list_splice_def field_defs fun_upd_twist)
  moreover have "is_list ?h' l (as @ ms @ bs)"
  proof -
    have "chain ?pv ?nx NULL (L @ ?a # ?b # R) NULL"
      using l out by (subst chain_cong [of _ _ "elem_prev h" _ "elem_next h"])
        (simp_all add: is_list_def csl)
    moreover have "chain ?pv ?nx ?c ms ?d"
      using m ne out3 by (subst chain_cong [of _ _ "elem_prev h" _ "elem_next h"])
        (simp_all add: is_list_def csm chain_append)
    moreover have "distinct (L @ ?a # ms @ ?b # R)"
    proof -
      have "set ms \<inter> set (L @ ?a # ?b # R) = {}" using dj by auto
      then show ?thesis using dl dm by auto
    qed
    ultimately show ?thesis using chain_paste [OF _ _ ne] by (simp add: is_list_def csl')
  qed
  moreover have "is_list ?h' m (cs @ ds)"
  proof -
    have "chain ?pv ?nx NULL (L2 @ ?c # ?d # R2) NULL"
      using chain_cut [of "elem_prev h" "elem_next h" NULL L2 ?c ms ?d R2 NULL] m dm
      by (simp add: is_list_def csm)
    moreover have "distinct (L2 @ ?c # ?d # R2)" using dm by auto
    ultimately show ?thesis using out2 unfolding is_list_def csm'
      by (subst chain_cong [of _ _ ?pv _ ?nx]) simp_all
  qed
  moreover have "unchanged_outside (set (cells l (as @ bs)) \<union> set (cells m (cs @ ms @ ds))) h ?h'"
    using mem unfolding unchanged_outside_def csl csm by auto
  ultimately show ?thesis by (rule that)
qed

subsection \<open>The comparison contract\<close>

locale list_less =
  fixes lt :: "ptr \<Rightarrow> ptr \<Rightarrow> bool"
  assumes asym: "lt x y \<Longrightarrow> \<not> lt y x"
    and neg_trans: "\<not> lt x y \<Longrightarrow> \<not> lt y z \<Longrightarrow> \<not> lt x z"

subsection \<open>Runs and merging on sequences\<close>

definition same_key :: "('a \<Rightarrow> 'a \<Rightarrow> bool) \<Rightarrow> 'a \<Rightarrow> 'a \<Rightarrow> bool" where
  "same_key lt x y \<longleftrightarrow> \<not> lt x y \<and> \<not> lt y x"

primrec take_run :: "('a \<Rightarrow> 'a \<Rightarrow> bool) \<Rightarrow> 'a \<Rightarrow> 'a list \<Rightarrow> 'a list \<times> 'a list" where
  "take_run lt x [] = ([], [])"
| "take_run lt x (y # ys) =
     (if lt y x then ([], y # ys) else (case take_run lt y ys of (r, s) \<Rightarrow> (y # r, s)))"

fun merge_runs :: "('a \<Rightarrow> 'a \<Rightarrow> bool) \<Rightarrow> 'a list \<Rightarrow> 'a list \<Rightarrow> 'a list" where
  "merge_runs lt [] bs = bs"
| "merge_runs lt as [] = as"
| "merge_runs lt (a # as) (b # bs) =
     (if \<not> lt b a then a # merge_runs lt as (b # bs) else b # merge_runs lt (a # as) bs)"

abbreviation in_order :: "('a \<Rightarrow> 'a \<Rightarrow> bool) \<Rightarrow> 'a list \<Rightarrow> bool" where
  "in_order lt \<equiv> successively (\<lambda>a b. \<not> lt b a)"

lemma take_run_append: "take_run lt x ys = (r, s) \<Longrightarrow> r @ s = ys"
  by (induction ys arbitrary: x r s) (auto split: if_splits prod.splits)

lemma take_run_in_order: "take_run lt x ys = (r, s) \<Longrightarrow> in_order lt (x # r)"
  by (induction ys arbitrary: x r s) (auto split: if_splits prod.splits)

lemma take_run_length: "take_run lt x ys = (r, s) \<Longrightarrow> length s \<le> length ys"
  using take_run_append by fastforce

lemma take_run_rest: "take_run lt x ys = (r, z # s) \<Longrightarrow> lt z (last (x # r))"
  by (induction ys arbitrary: x r) (auto split: if_splits prod.splits)

function merge_pass :: "('a \<Rightarrow> 'a \<Rightarrow> bool) \<Rightarrow> 'a list \<Rightarrow> 'a list \<times> nat" where
  "merge_pass lt [] = ([], 0)"
| "merge_pass lt (x # xs) =
     (case take_run lt x xs of
        (r1, []) \<Rightarrow> (x # r1, 1)
      | (r1, y # ys) \<Rightarrow>
         (case take_run lt y ys of (r2, rest) \<Rightarrow>
           (case merge_pass lt rest of (out, k) \<Rightarrow>
             (merge_runs lt (x # r1) (y # r2) @ out, Suc k))))"
  by pat_completeness auto
termination
  by (relation "measure (\<lambda>(lt, xs). length xs)")
     (auto dest!: take_run_length [OF sym])

lemma merge_induct [case_names Nil1 Nil2 Cons]:
  assumes "\<And>bs. P [] bs" and "\<And>a as. P (a # as) []"
    and "\<And>a as b bs. P as (b # bs) \<Longrightarrow> P (a # as) bs \<Longrightarrow> P (a # as) (b # bs)"
  shows "P as bs"
proof (induction as arbitrary: bs)
  case (Cons a as)
  show ?case by (induction bs) (use Cons assms in auto)
qed (rule assms)

lemma mset_merge_runs: "mset (merge_runs lt as bs) = mset as + mset bs"
  by (induction lt as bs rule: merge_runs.induct) auto

lemma set_merge_runs: "set (merge_runs lt as bs) = set as \<union> set bs"
  by (metis mset_merge_runs set_mset_mset set_mset_union)

text \<open>Case analysis of one pass: no run, one run, or two runs and the rest.\<close>

lemma merge_pass_cases:
  obtains (empty) "xs = []" "merge_pass lt xs = ([], 0)"
  | (one) x r where "take_run lt x r = (r, [])" "xs = x # r" "merge_pass lt xs = (xs, 1)" "in_order lt xs"
  | (two) as bs rest out k where "xs = as @ bs @ rest" "as \<noteq> []" "bs \<noteq> []" "in_order lt as" "in_order lt bs"
      "take_run lt (hd as) (tl as @ bs @ rest) = (tl as, bs @ rest)"
      "take_run lt (hd bs) (tl bs @ rest) = (tl bs, rest)"
      "merge_pass lt rest = (out, k)" "merge_pass lt xs = (merge_runs lt as bs @ out, Suc k)"
      "length rest < length xs"
proof (cases xs)
  case Nil
  then show ?thesis using empty by simp
next
  case (Cons x xs')
  obtain r1 s1 where t1: "take_run lt x xs' = (r1, s1)" by fastforce
  note a1 = take_run_append [OF t1] take_run_in_order [OF t1]
  show ?thesis
  proof (cases s1)
    case Nil
    then have e: "xs' = r1" using a1(1) by simp
    have t: "take_run lt x r1 = (r1, [])" using t1 [unfolded e Nil] .
    show ?thesis by (rule one [OF t]) (use a1(2) t in \<open>simp_all add: Cons e\<close>)
  next
    case s1: (Cons y ys)
    obtain r2 rest where t2: "take_run lt y ys = (r2, rest)" by fastforce
    note a2 = take_run_append [OF t2] take_run_in_order [OF t2]
    obtain out k where m: "merge_pass lt rest = (out, k)" by fastforce
    have e: "ys = r2 @ rest" "xs' = r1 @ y # r2 @ rest" using a1(1) a2(1) s1 by simp_all
    have mp: "merge_pass lt xs = (merge_runs lt (x # r1) (y # r2) @ out, Suc k)"
      using t1 t2 m s1 Cons by simp
    show ?thesis
      by (rule two [of "x # r1" "y # r2" rest out k])
         (use t1 t2 a1(2) a2(2) m mp s1 Cons in \<open>simp_all add: e\<close>)
  qed
qed

lemma mset_merge_pass: "merge_pass lt xs = (out, k) \<Longrightarrow> mset out = mset xs"
proof (induction "length xs" arbitrary: xs out k rule: less_induct)
  case less
  show ?case
  proof (cases rule: merge_pass_cases [of xs lt])
    case (two as bs rest out' k')
    with less.hyps [of rest out' k'] less.prems show ?thesis by (auto simp: mset_merge_runs)
  qed (use less.prems in auto)
qed

primrec descents :: "('a \<Rightarrow> 'a \<Rightarrow> bool) \<Rightarrow> 'a \<Rightarrow> 'a list \<Rightarrow> nat" where
  "descents lt x [] = 0"
| "descents lt x (y # ys) = (if lt y x then 1 else 0) + descents lt y ys"

fun run_count :: "('a \<Rightarrow> 'a \<Rightarrow> bool) \<Rightarrow> 'a list \<Rightarrow> nat" where
  "run_count lt [] = 0"
| "run_count lt (x # xs) = Suc (descents lt x xs)"

lemma descents_append: "descents lt x (ys @ zs) = descents lt x ys + descents lt (last (x # ys)) zs"
  by (induction ys arbitrary: x) auto

lemma run_count_append: "run_count lt (xs @ ys) \<le> run_count lt xs + run_count lt ys"
  by (cases xs; cases ys) (auto simp: descents_append)

lemma descents_in_order: "in_order lt (x # xs) \<Longrightarrow> descents lt x xs = 0"
  by (induction xs arbitrary: x) auto

lemma run_count_in_order: "in_order lt xs \<Longrightarrow> run_count lt xs \<le> 1"
  by (cases xs) (auto simp: descents_in_order)

lemma run_count_take_run:
  assumes "take_run lt x ys = (r, s)"
  shows "run_count lt (x # ys) = Suc (run_count lt s)"
proof (cases s)
  case Nil
  then show ?thesis using assms take_run_append [OF assms] take_run_in_order [OF assms]
    by (simp add: descents_in_order)
next
  case (Cons z zs)
  have "descents lt x (r @ z # zs) = Suc (descents lt z zs)"
    using take_run_in_order [OF assms] take_run_rest [of lt x ys r z zs] assms Cons
    by (simp add: descents_append descents_in_order)
  then show ?thesis using take_run_append [OF assms] Cons by simp
qed

lemma merge_pass_count: "merge_pass lt xs = (out, k) \<Longrightarrow> k = (run_count lt xs + 1) div 2"
proof (induction "length xs" arbitrary: xs out k rule: less_induct)
  case less
  show ?case
  proof (cases rule: merge_pass_cases [of xs lt])
    case (one x r)
    then show ?thesis using less.prems run_count_take_run [of lt x r r "[]"] by simp
  next
    case (two as bs rest out' k')
    have "run_count lt (as @ bs @ rest) = Suc (run_count lt (bs @ rest))"
      using two(2,6) run_count_take_run [OF two(6)] by (cases as) simp_all
    moreover have "run_count lt (bs @ rest) = Suc (run_count lt rest)"
      using two(3,7) run_count_take_run [OF two(7)] by (cases bs) simp_all
    moreover have "k' = (run_count lt rest + 1) div 2"
      using less.hyps two(8,10) by blast
    ultimately show ?thesis using less.prems two(1,9) by simp
  qed (use less.prems in simp)
qed

lemma merge_pass_count_le: "merge_pass lt xs = (out, k) \<Longrightarrow> k \<le> length xs"
proof (induction "length xs" arbitrary: xs out k rule: less_induct)
  case less
  show ?case
  proof (cases rule: merge_pass_cases [of xs lt])
    case (two as bs rest out' k')
    with less.hyps [of rest out' k'] less.prems show ?thesis by (cases as) auto
  qed (use less.prems in auto)
qed

context list_less
begin

lemma trans_lt: "lt x y \<Longrightarrow> lt y z \<Longrightarrow> lt x z"
  using asym neg_trans by blast

lemma in_order_hd_le: "in_order lt (x # xs) \<Longrightarrow> y \<in> set xs \<Longrightarrow> \<not> lt y x"
proof (induction xs arbitrary: x)
  case (Cons z xs)
  then show ?case using neg_trans by auto
qed simp

lemma in_order_sorted_wrt: "in_order lt xs \<longleftrightarrow> sorted_wrt (\<lambda>a b. \<not> lt b a) xs"
  by (rule successively_conv_sorted_wrt, rule transpI) (use neg_trans in blast)

lemma in_order_merge:
  assumes "in_order lt as" and "in_order lt bs"
  shows "in_order lt (merge_runs lt as bs)"
proof -
  have "sorted_wrt (\<lambda>a b. \<not> lt b a) as \<Longrightarrow> sorted_wrt (\<lambda>a b. \<not> lt b a) bs \<Longrightarrow>
     sorted_wrt (\<lambda>a b. \<not> lt b a) (merge_runs lt as bs)"
    by (induction as bs rule: merge_induct) (auto simp: set_merge_runs dest: asym neg_trans trans_lt)
  then show ?thesis using assms by (simp add: in_order_sorted_wrt)
qed

lemma filter_same_merge:
  "in_order lt as \<Longrightarrow> in_order lt bs \<Longrightarrow>
     filter (same_key lt z) (merge_runs lt as bs) = filter (same_key lt z) as @ filter (same_key lt z) bs"
proof (induction as bs rule: merge_induct)
  case (Cons a as b bs)
  show ?case
  proof (cases "lt b a")
    case True
    have "\<not> same_key lt z x" if "same_key lt z b" "x \<in> set (a # as)" for x
    proof -
      have "\<not> lt x a" using that(2) in_order_hd_le [OF Cons.prems(1)] asym by auto
      then have "lt b x" using True neg_trans by blast
      then show ?thesis using that(1) neg_trans unfolding same_key_def by blast
    qed
    then have "filter (same_key lt z) (a # as) = []" if "same_key lt z b"
      using that by (simp only: filter_empty_conv) blast
    moreover have "in_order lt bs" using Cons.prems(2) by (cases bs) auto
    ultimately show ?thesis using True Cons.IH(2) Cons.prems(1) by auto
  next
    case False
    moreover have "in_order lt as" using Cons.prems(1) by (cases as) auto
    ultimately show ?thesis using Cons.IH(1) Cons.prems(2) by simp
  qed
qed simp_all

lemma merge_pass_filter_same:
  "merge_pass lt xs = (out, k) \<Longrightarrow> filter (same_key lt z) out = filter (same_key lt z) xs"
proof (induction "length xs" arbitrary: xs out k rule: less_induct)
  case less
  show ?case
  proof (cases rule: merge_pass_cases [of xs lt])
    case (two as bs rest out' k')
    with less.hyps [of rest out' k'] less.prems show ?thesis by (auto simp: filter_same_merge)
  qed (use less.prems in auto)
qed

lemma merge_pass_run_count: "merge_pass lt xs = (out, k) \<Longrightarrow> run_count lt out \<le> k"
proof (induction "length xs" arbitrary: xs out k rule: less_induct)
  case less
  show ?case
  proof (cases rule: merge_pass_cases [of xs lt])
    case (two as bs rest out' k')
    have "run_count lt (merge_runs lt as bs) \<le> 1"
      using two(4,5) by (intro run_count_in_order in_order_merge)
    moreover have "run_count lt out' \<le> k'" using less.hyps two(8,10) by blast
    ultimately show ?thesis using less.prems two(9)
        run_count_append [of lt "merge_runs lt as bs" out'] by simp
  qed (use less.prems run_count_in_order in \<open>auto simp del: run_count.simps(2)\<close>)
qed

lemma merge_pass_sorted:
  assumes "merge_pass lt xs = (out, k)" and "k \<le> 1"
  shows "in_order lt out"
proof (cases rule: merge_pass_cases [of xs lt])
  case (two as bs rest out' k')
  with assms have "k' = 0" "out = merge_runs lt as bs @ out'" by auto
  moreover from \<open>k' = 0\<close> have "out' = []"
    using two(8) by (cases rule: merge_pass_cases [of rest lt]) auto
  ultimately show ?thesis using two(4,5) by (simp add: in_order_merge)
qed (use assms in auto)

end

subsection \<open>The heap routines compute the sequence functions\<close>

lemma is_sorted_loop_ok:
  "is_list h l (as @ m # ms @ ds) \<Longrightarrow>
     is_sorted_loop lt h m (cell_at l ds) = Some (in_order lt (m # ms))"
proof (induction ms arbitrary: as m)
  case Nil
  then show ?case by (subst is_sorted_loop.simps) (simp add: traversal)
next
  case (Cons n ms)
  have l: "is_list h l ((as @ [m]) @ n # ms @ ds)" using Cons.prems by simp
  have "n \<noteq> cell_at l ds"
    using l by (cases ds) (auto simp: is_list_def cells_def)
  moreover have "list_next h m = Some n" using list_next_is_list [OF Cons.prems] by simp
  moreover have "list_prev h n = Some m" using list_prev_is_list [OF l] by simp
  ultimately show ?case using Cons.IH [OF l] by (subst is_sorted_loop.simps) simp
qed

lemma is_sorted_ok:
  assumes "is_list h l (as @ ms @ ds)"
  shows "is_sorted lt h (cell_at l (ms @ ds)) (cell_at l ds) = Some (in_order lt ms)"
proof (cases ms)
  case (Cons m ms')
  have "m \<noteq> cell_at l ds"
    using assms Cons by (cases ds) (auto simp: is_list_def cells_def)
  then show ?thesis using assms Cons is_sorted_loop_ok [of h l as m ms' ds lt]
    by (simp add: is_sorted_def)
qed (simp add: is_sorted_def)

lemma find_end_loop_ok:
  "is_list h l (as @ x # xs) \<Longrightarrow>
     find_end_loop lt h x (tail_of l) = Some (cell_at l (snd (take_run lt x xs)))"
proof (induction xs arbitrary: as x)
  case Nil
  then show ?case by (subst find_end_loop.simps) (simp add: traversal)
next
  case (Cons y ys)
  have l: "is_list h l ((as @ [x]) @ y # ys)" using Cons.prems by simp
  have "y \<noteq> Suc l" using l by (auto simp: is_list_def cells_def)
  moreover have "list_next h x = Some y" using list_next_is_list [OF Cons.prems] by simp
  moreover have "list_prev h y = Some x" using list_prev_is_list [OF l] by simp
  ultimately show ?case using Cons.IH [OF l]
    by (subst find_end_loop.simps) (simp split: prod.splits)
qed

lemma find_end_of_run_ok:
  assumes "is_list h l (as @ x # xs)" and "take_run lt x xs = (r, s)"
  shows "find_end_of_run lt h x (tail_of l) = Some (cell_at l s)"
  using find_end_loop_ok [OF assms(1), of lt] assms position_links(4) [OF assms(1)]
  by (auto simp: find_end_of_run_def is_list_def cells_def)

lemma merge_loop_ok:
  "is_list h l (pre @ A @ B @ post) \<Longrightarrow>
   \<exists>h'. merge_loop lt h (cell_at l (A @ B @ post)) (cell_at l (B @ post)) (cell_at l post) = Some h' \<and>
        is_list h' l (pre @ merge_runs lt A B @ post) \<and>
        unchanged_outside (set (cells l (pre @ A @ B @ post))) h h'"
proof (induction A B arbitrary: pre h rule: merge_induct)
  case (Nil1 bs)
  then show ?case by (subst merge_loop.simps) simp
next
  case (Nil2 a as)
  then show ?case by (subst merge_loop.simps) simp
next
  case (Cons a as b bs)
  have l: "is_list h l ((pre @ a # as) @ b # bs @ post)" using Cons.prems by simp
  have ne: "a \<noteq> b" "b \<noteq> cell_at l post"
    using Cons.prems by (cases post; auto simp: is_list_def cells_def)+
  show ?case
  proof (cases "lt b a")
    case False
    have "is_list h l ((pre @ [a]) @ as @ (b # bs) @ post)" using Cons.prems by simp
    from Cons.IH(1) [OF this] obtain h' where
      "merge_loop lt h (cell_at l (as @ (b # bs) @ post)) b (cell_at l post) = Some h'"
      "is_list h' l ((pre @ [a]) @ merge_runs lt as (b # bs) @ post)"
      "unchanged_outside (set (cells l ((pre @ [a]) @ as @ (b # bs) @ post))) h h'" by auto
    moreover have "list_next h a = Some (cell_at l (as @ (b # bs) @ post))"
      using list_next_is_list [of h l pre a] Cons.prems by simp
    ultimately show ?thesis using False ne by (subst merge_loop.simps) simp
  next
    case True
    have l2: "is_list h l (pre @ (a # as) @ [b] @ (bs @ post))" using Cons.prems by simp
    obtain h1 where h1: "list_splice h a b (cell_at l (bs @ post)) = Some h1"
      "is_list h1 l (pre @ [b] @ (a # as) @ bs @ post)"
      "unchanged_outside (set (cells l (pre @ (a # as) @ [b] @ bs @ post))) h h1"
      by (rule list_splice_same_ok [OF l2]) auto
    have n: "list_next h b = Some (cell_at l (bs @ post))" using list_next_is_list [OF l] by simp
    have p: "list_prev h (cell_at l (bs @ post)) = Some b"
      using list_prev_is_list [of h l "pre @ a # as @ [b]" "bs @ post"] Cons.prems by simp
    have "is_list h1 l ((pre @ [b]) @ (a # as) @ bs @ post)" using h1(2) by simp
    from Cons.IH(2) [OF this] obtain h' where h':
      "merge_loop lt h1 a (cell_at l (bs @ post)) (cell_at l post) = Some h'"
      "is_list h' l ((pre @ [b]) @ merge_runs lt (a # as) bs @ post)"
      "unchanged_outside (set (cells l ((pre @ [b]) @ (a # as) @ bs @ post))) h1 h'" by auto
    have "unchanged_outside (set (cells l (pre @ (a # as) @ (b # bs) @ post))) h h'"
      using h1(3) h'(3) by (rule unchanged_outside_trans) auto
    then show ?thesis using True ne n p h1(1) h' by (subst merge_loop.simps) simp
  qed
qed

lemma inplace_merge_ok:
  assumes l: "is_list h l (pre @ A @ B @ post)" and ne: "A \<noteq> []" "B \<noteq> []"
    and "in_order lt A" "in_order lt B"
  obtains h' where "inplace_merge lt h (hd A) (hd B) (cell_at l post) = Some h'"
    and "is_list h' l (pre @ merge_runs lt A B @ post)"
    and "unchanged_outside (set (cells l (pre @ A @ B @ post))) h h'"
proof -
  from merge_loop_ok [OF l, of lt] obtain h' where
    "merge_loop lt h (hd A) (hd B) (cell_at l post) = Some h'"
    "is_list h' l (pre @ merge_runs lt A B @ post)"
    "unchanged_outside (set (cells l (pre @ A @ B @ post))) h h'"
    using ne by auto
  moreover have "is_sorted lt h (hd A) (hd B) = Some True"
    using is_sorted_ok [OF l, of lt] assms by simp
  moreover have "is_sorted lt h (hd B) (cell_at l post) = Some True"
    using is_sorted_ok [of h l "pre @ A" B post lt] assms by simp
  moreover have "hd A \<noteq> NULL" "hd B \<noteq> NULL" "cell_at l post \<noteq> NULL"
    using position_links(4) [of h l pre "A @ B @ post"] position_links(4) [of h l "pre @ A" "B @ post"]
      position_links(4) [of h l "pre @ A @ B" post] l ne by simp_all
  ultimately show ?thesis using that by (simp add: inplace_merge_def)
qed

lemma sort_pass_ok:
  "is_list h l (pre @ xs) \<Longrightarrow> merge_pass lt xs = (out, k) \<Longrightarrow>
   \<exists>h'. sort_pass lt h l (cell_at l xs) cnt = Some (h', cnt + of_nat k) \<and>
        is_list h' l (pre @ out) \<and> unchanged_outside (set (cells l (pre @ xs))) h h'"
proof (induction "length xs" arbitrary: xs out k h pre cnt rule: less_induct)
  case less
  note l = less.prems(1)
  have en: "list_end l = Some (tail_of l)" using l by (rule list_end_is_list)
  show ?case
  proof (cases rule: merge_pass_cases [of xs lt])
    case empty
    with less.prems show ?thesis by (subst sort_pass.simps) (simp add: en)
  next
    case (one x r)
    have "find_end_of_run lt h x (tail_of l) = Some (tail_of l)"
      using find_end_of_run_ok [of h l pre x r lt r "[]"] l one by simp
    moreover have "x \<noteq> Suc l" using l one by (auto simp: is_list_def cells_def)
    moreover have "out = xs" "k = 1" "cell_at l xs = x" using less.prems(2) one(2,3) by simp_all
    ultimately show ?thesis using l by (subst sort_pass.simps) (simp add: en)
  next
    case (two as bs rest out' k')
    have la: "is_list h l (pre @ hd as # tl as @ bs @ rest)"
      and lb: "is_list h l ((pre @ as) @ hd bs # tl bs @ rest)"
      and lab: "is_list h l (pre @ as @ bs @ rest)"
      using l two(1-3) by (cases as; cases bs; simp)+
    have ends: "find_end_of_run lt h (hd as) (tail_of l) = Some (hd bs)"
      "find_end_of_run lt h (hd bs) (tail_of l) = Some (cell_at l rest)"
      using find_end_of_run_ok [OF la two(6)] find_end_of_run_ok [OF lb two(7)] two(3) by simp_all
    have ne: "hd as \<noteq> Suc l" "hd bs \<noteq> Suc l"
      using la lb by (auto simp: is_list_def cells_def)
    obtain h1 where h1: "inplace_merge lt h (hd as) (hd bs) (cell_at l rest) = Some h1"
      "is_list h1 l (pre @ merge_runs lt as bs @ rest)"
      "unchanged_outside (set (cells l (pre @ as @ bs @ rest))) h h1"
      by (rule inplace_merge_ok [OF lab two(2,3,4,5)])
    have "is_list h1 l ((pre @ merge_runs lt as bs) @ rest)" using h1(2) by simp
    from less.hyps [OF two(10) this two(8), of "cnt + 1"] obtain h' where h':
      "sort_pass lt h1 l (cell_at l rest) (cnt + 1) = Some (h', cnt + 1 + of_nat k')"
      "is_list h' l ((pre @ merge_runs lt as bs) @ out')"
      "unchanged_outside (set (cells l ((pre @ merge_runs lt as bs) @ rest))) h1 h'" by auto
    have "unchanged_outside (set (cells l (pre @ xs))) h h'"
      using h1(3) h'(3) by (rule unchanged_outside_trans) (auto simp: set_merge_runs two(1))
    then show ?thesis using less.prems(2) two(1,2,9) ends ne h1(1) h'
      by (subst sort_pass.simps) (simp add: en ac_simps)
  qed
qed

context list_less
begin

lemma sort_loop_ok:
  "is_list h l xs \<Longrightarrow> length xs < 2 ^ 32 \<Longrightarrow>
   \<exists>h' ys. sort_loop lt h l = Some h' \<and> is_list h' l ys \<and> mset ys = mset xs \<and>
      in_order lt ys \<and> (\<forall>z. filter (same_key lt z) ys = filter (same_key lt z) xs) \<and>
      unchanged_outside (set (cells l xs)) h h'"
proof (induction "run_count lt xs" arbitrary: h xs rule: less_induct)
  case less
  obtain out k where mp: "merge_pass lt xs = (out, k)" by fastforce
  note m = mset_merge_pass [OF mp]
  have len: "length out = length xs" and set_eq: "set out = set xs"
    using m mset_eq_length mset_eq_setD by blast+
  obtain h1 where h1: "sort_pass lt h l (cell_at l xs) 0 = Some (h1, of_nat k)" "is_list h1 l out"
    "unchanged_outside (set (cells l xs)) h h1"
    using sort_pass_ok [of h l "[]" xs lt out k 0] less.prems(1) mp by auto
  have k: "k < 2 ^ 32" using merge_pass_count_le [OF mp] less.prems(2) by simp
  then have gt: "(of_nat k :: u32) > 1 \<longleftrightarrow> 1 < k"
    by (simp add: word_less_nat_alt unat_of_nat)
  have step: "sort_loop lt h l = (if 1 < k then sort_loop lt h1 l else Some h1)"
    using less.prems(1) h1(1) by (subst sort_loop.simps) (simp add: traversal gt)
  show ?case
  proof (cases "1 < k")
    case True
    have "run_count lt out < run_count lt xs"
      using merge_pass_run_count [OF mp] merge_pass_count [OF mp] True by linarith
    from less.hyps [OF this h1(2)] len less.prems(2) obtain h' ys where
      "sort_loop lt h1 l = Some h'" "is_list h' l ys" "mset ys = mset out" "in_order lt ys"
      "\<forall>z. filter (same_key lt z) ys = filter (same_key lt z) out" "unchanged_outside (set (cells l out)) h1 h'"
      by auto
    moreover from this(6) h1(3) have "unchanged_outside (set (cells l xs)) h h'"
      by (rule_tac unchanged_outside_trans [OF h1(3)]) (auto simp: set_eq)
    ultimately show ?thesis using step True m merge_pass_filter_same [OF mp] by auto
  next
    case False
    then show ?thesis
      using step m h1 merge_pass_sorted [OF mp] merge_pass_filter_same [OF mp] by auto
  qed
qed

lemma list_sort_ok:
  assumes "is_list h l xs" and "length xs < 2 ^ 32"
  shows "\<exists>h' ys. list_sort lt h l = Some h' \<and> is_list h' l ys \<and> mset ys = mset xs \<and>
      sorted_wrt (\<lambda>a b. \<not> lt b a) ys \<and> (\<forall>z. filter (same_key lt z) ys = filter (same_key lt z) xs) \<and>
      unchanged_outside (set (cells l xs)) h h'"
proof -
  from sort_loop_ok [OF assms] obtain h' ys where s: "sort_loop lt h l = Some h'" "is_list h' l ys"
    "mset ys = mset xs" "in_order lt ys" "\<forall>z. filter (same_key lt z) ys = filter (same_key lt z) xs"
    "unchanged_outside (set (cells l xs)) h h'" by blast
  have "is_sorted lt h' (cell_at l ys) (tail_of l) = Some True"
    using is_sorted_ok [of h' l "[]" ys "[]" lt] s by simp
  then have "list_sort lt h l = Some h'"
    using s(1,2) is_list_ends(3) [OF assms(1)] by (simp add: list_sort_def traversal)
  then show ?thesis using s by (auto simp: in_order_sorted_wrt)
qed

end

subsection \<open>Ordered insertion, duplicates, extrema\<close>

lemma position_mem:
  "cell_before l as \<in> set (cells l (as @ bs))" "cell_at l bs \<in> set (cells l (as @ bs))"
  by (auto simp: cell_before_def) (cases bs; simp)

lemma mem_not_end: "is_list h l xs \<Longrightarrow> x \<in> set xs \<Longrightarrow> x \<noteq> l \<and> x \<noteq> Suc l"
  by (auto simp: is_list_def cells_def)

lemma insert_ordered_loop_ok:
  "is_list h l (as @ bs) \<Longrightarrow>
     insert_ordered_loop lt h l elem (cell_at l bs) = Some (cell_at l (dropWhile (\<lambda>e. \<not> lt elem e) bs))"
proof (induction bs arbitrary: as)
  case Nil
  then show ?case by (subst insert_ordered_loop.simps) (simp add: traversal)
next
  case (Cons b bs)
  have "b \<noteq> Suc l" using Cons.prems by (auto simp: is_list_def cells_def)
  then show ?case using Cons.prems Cons.IH [of "as @ [b]"]
    by (subst insert_ordered_loop.simps) (simp add: traversal)
qed

definition insert_ordered_seq :: "('a \<Rightarrow> 'a \<Rightarrow> bool) \<Rightarrow> 'a \<Rightarrow> 'a list \<Rightarrow> 'a list" where
  "insert_ordered_seq lt e xs =
     takeWhile (\<lambda>y. \<not> lt e y) xs @ e # dropWhile (\<lambda>y. \<not> lt e y) xs"

lemma mset_insert_ordered_seq [simp]: "mset (insert_ordered_seq lt e xs) = add_mset e (mset xs)"
  by (simp add: insert_ordered_seq_def) (metis mset_append takeWhile_dropWhile_id)

lemma list_insert_ordered_ok:
  assumes l: "is_list h l xs" and e: "e \<notin> set (cells l xs)" "e \<noteq> NULL"
  obtains h' where "list_insert_ordered lt h l e = Some h'"
    and "is_list h' l (insert_ordered_seq lt e xs)"
    and "unchanged_outside (insert e (set (cells l xs))) h h'"
proof -
  let ?as = "takeWhile (\<lambda>y. \<not> lt e y) xs" and ?bs = "dropWhile (\<lambda>y. \<not> lt e y) xs"
  have l': "is_list h l (?as @ ?bs)" using l by simp
  have mem: "cell_before l ?as \<in> set (cells l xs)" "cell_at l ?bs \<in> set (cells l xs)"
    using position_mem(1) [of l ?as ?bs] position_mem(2) [of l ?bs ?as]
    by (simp_all only: takeWhile_dropWhile_id)
  obtain h' where h': "list_insert h (cell_at l ?bs) e = Some h'" "is_list h' l (?as @ e # ?bs)"
    "unchanged_outside {e, cell_before l ?as, cell_at l ?bs} h h'"
    by (rule list_insert_ok [OF l']) (use e in simp_all)
  have "list_insert_ordered lt h l e = Some h'"
    using h'(1) insert_ordered_loop_ok [of h l "[]" xs lt e] l e is_list_ends(3) [OF l]
    by (simp add: list_insert_ordered_def traversal)
  moreover have "unchanged_outside (insert e (set (cells l xs))) h h'"
    using h'(3) mem by (auto simp: unchanged_outside_def)
  ultimately show ?thesis using that h'(2) by (simp add: insert_ordered_seq_def)
qed

primrec unique_seq :: "('a \<Rightarrow> 'a \<Rightarrow> bool) \<Rightarrow> 'a \<Rightarrow> 'a list \<Rightarrow> 'a list \<times> 'a list" where
  "unique_seq lt x [] = ([], [])"
| "unique_seq lt x (y # ys) =
     (if \<not> lt x y \<and> \<not> lt y x
      then (case unique_seq lt x ys of (keep, dups) \<Rightarrow> (keep, y # dups))
      else (case unique_seq lt y ys of (keep, dups) \<Rightarrow> (y # keep, dups)))"

lemma mset_unique_seq: "unique_seq lt x ys = (keep, dups) \<Longrightarrow> mset keep + mset dups = mset ys"
  by (induction ys arbitrary: x keep dups) (fastforce split: if_splits prod.splits)+

lemma unique_seq_adjacent:
  "unique_seq lt x ys = (keep, dups) \<Longrightarrow> successively (\<lambda>a b. lt a b \<or> lt b a) (x # keep)"
  by (induction ys arbitrary: x keep dups) (auto split: if_splits prod.splits)

lemma unique_loop_ok:
  "is_list h l (as @ x # ys) \<Longrightarrow> is_list h d ds \<Longrightarrow>
   set (cells l (as @ x # ys)) \<inter> set (cells d ds) = {} \<Longrightarrow> unique_seq lt x ys = (keep, dups) \<Longrightarrow>
   \<exists>h'. unique_loop lt h l d x = Some h' \<and> is_list h' l (as @ x # keep) \<and> is_list h' d (ds @ dups) \<and>
     unchanged_outside (set (cells l (as @ x # ys)) \<union> set (cells d ds)) h h'"
proof (induction ys arbitrary: h as x ds keep dups)
  case Nil
  then show ?case by (subst unique_loop.simps) (simp add: traversal)
next
  case (Cons y ys)
  note l = Cons.prems(1) and d = Cons.prems(2) and disj = Cons.prems(3)
  have d0: "d \<noteq> NULL" using is_list_ends(3) [OF d] .
  have nx: "list_next h x = Some y" using list_next_is_list [OF l] by simp
  have yl: "y \<noteq> Suc l" using l by (auto simp: is_list_def cells_def)
  have l2: "is_list h l ((as @ [x]) @ y # ys)" using l by simp
  show ?case
  proof (cases "\<not> lt x y \<and> \<not> lt y x")
    case True
    obtain dups' where u: "unique_seq lt x ys = (keep, dups')" "dups = y # dups'"
      using Cons.prems(4) True by (auto split: prod.splits)
    obtain h1 where h1: "list_remove h y = Some (h1, cell_at l ys)" "is_list h1 l ((as @ [x]) @ ys)"
      "unchanged_outside {cell_before l (as @ [x]), cell_at l ys} h h1"
      by (rule list_remove_ok [OF l2])
    have sub: "{cell_before l (as @ [x]), cell_at l ys} \<subseteq> set (cells l (as @ x # y # ys))"
      by (cases ys) auto
    have d1: "is_list h1 d ds" using is_list_frame [OF d h1(3)] sub disj by blast
    have yf: "y \<notin> set (cells d ds)" "y \<noteq> NULL" using disj interior_mem [OF l, of y]
      by (auto simp: is_interior_def)
    obtain h2 where h2: "list_push_back h1 d y = Some h2" "is_list h2 d (ds @ [y])"
      "unchanged_outside {y, cell_before d ds, Suc d} h1 h2"
      by (rule list_push_back_ok [OF d1 yf])
    have subd: "{cell_before d ds, Suc d} \<subseteq> set (cells d ds)"
      by (auto simp: cell_before_def)
    have ydist: "y \<notin> set (cells l (as @ x # ys))" using l by (auto simp: is_list_def cells_def)
    have l3: "is_list h2 l (as @ x # ys)"
    proof -
      have "y \<notin> set (cells l ((as @ [x]) @ ys))"
        and "set (cells l ((as @ [x]) @ ys)) \<subseteq> set (cells l (as @ x # y # ys))"
        using ydist by auto
      then have "{y, cell_before d ds, Suc d} \<inter> set (cells l ((as @ [x]) @ ys)) = {}"
        using subd disj by blast
      then show ?thesis using is_list_frame [OF h1(2) h2(3)] by simp
    qed
    have disj2: "set (cells l (as @ x # ys)) \<inter> set (cells d (ds @ [y])) = {}"
      using disj ydist by auto
    from Cons.IH [OF l3 h2(2) disj2 u(1)] obtain h' where h': "unique_loop lt h2 l d x = Some h'"
      "is_list h' l (as @ x # keep)" "is_list h' d ((ds @ [y]) @ dups')"
      "unchanged_outside (set (cells l (as @ x # ys)) \<union> set (cells d (ds @ [y]))) h2 h'" by blast
    have "unchanged_outside (set (cells l (as @ x # y # ys)) \<union> set (cells d ds)) h h'"
      by (rule unchanged_outside_trans [OF unchanged_outside_trans [OF h1(3) h2(3) subset_refl] h'(4)])
         (use sub subd in auto)
    then show ?thesis using True nx yl h1(1) h2(1) h' d0 u(2)
      by (subst unique_loop.simps) (simp add: list_end_is_list [OF l])
  next
    case False
    obtain keep' where u: "unique_seq lt y ys = (keep', dups)" "keep = y # keep'"
      using Cons.prems(4) False by (auto split: prod.splits)
    have disj2: "set (cells l ((as @ [x]) @ y # ys)) \<inter> set (cells d ds) = {}" using disj by simp
    from Cons.IH [OF l2 d disj2 u(1)] obtain h' where h': "unique_loop lt h l d y = Some h'"
      "is_list h' l ((as @ [x]) @ y # keep')" "is_list h' d (ds @ dups)"
      "unchanged_outside (set (cells l ((as @ [x]) @ y # ys)) \<union> set (cells d ds)) h h'" by blast
    moreover have "unique_loop lt h l d x = unique_loop lt h l d y"
      using False nx yl list_end_is_list [OF l] by (subst unique_loop.simps) auto
    ultimately show ?thesis using u(2) by simp
  qed
qed

context list_less
begin

lemma sorted_insert_ordered_seq:
  assumes "in_order lt xs"
  shows "in_order lt (insert_ordered_seq lt e xs)"
proof -
  have "sorted_wrt (\<lambda>a b. \<not> lt b a) xs" using assms by (simp add: in_order_sorted_wrt)
  then have "sorted_wrt (\<lambda>a b. \<not> lt b a) (insert_ordered_seq lt e xs)"
  proof (induction xs)
    case (Cons x xs)
    then show ?case
      by (auto simp: insert_ordered_seq_def dest: asym trans_lt intro: neg_trans
          dest!: set_takeWhileD set_dropWhileD)
  qed (simp add: insert_ordered_seq_def)
  then show ?thesis by (simp add: in_order_sorted_wrt)
qed

lemma le_lt_trans: "\<not> lt m b \<Longrightarrow> lt m c \<Longrightarrow> lt b c"
  using neg_trans by blast

lemma lt_le_trans: "lt c m \<Longrightarrow> \<not> lt b m \<Longrightarrow> lt c b"
  using neg_trans by blast

lemma max_loop_ok:
  "is_list h l ((as @ m # bs) @ cs) \<Longrightarrow> \<forall>a \<in> set as. lt a m \<Longrightarrow> \<forall>b \<in> set bs. \<not> lt m b \<Longrightarrow>
   \<exists>as' m' bs'. max_loop lt h l m (cell_at l cs) = Some m' \<and> (as @ m # bs) @ cs = as' @ m' # bs' \<and>
     (\<forall>a \<in> set as'. lt a m') \<and> (\<forall>b \<in> set bs'. \<not> lt m' b)"
proof (induction cs arbitrary: as m bs)
  case Nil
  then show ?case by (subst max_loop.simps) (auto simp: list_end_is_list)
next
  case (Cons c cs)
  have n: "list_next h c = Some (cell_at l cs)" "c \<noteq> Suc l" "list_end l = Some (Suc l)"
    using Cons.prems(1) list_next_is_list [of h l "as @ m # bs" c cs] mem_not_end [of h l _ c]
    by (auto simp: list_end_is_list)
  show ?case
  proof (cases "lt m c")
    case True
    have "\<forall>a \<in> set (as @ m # bs). lt a c"
      using True Cons.prems(2,3) trans_lt [of _ m c] le_lt_trans [of m _ c] by auto
    then show ?thesis using Cons.IH [of "as @ m # bs" c "[]"] Cons.prems(1) n True
      by (subst max_loop.simps) simp
  next
    case False
    then show ?thesis using Cons.IH [of as m "bs @ [c]"] Cons.prems n
      by (subst max_loop.simps) simp
  qed
qed

lemma min_loop_ok:
  "is_list h l ((as @ m # bs) @ cs) \<Longrightarrow> \<forall>a \<in> set as. lt m a \<Longrightarrow> \<forall>b \<in> set bs. \<not> lt b m \<Longrightarrow>
   \<exists>as' m' bs'. min_loop lt h l m (cell_at l cs) = Some m' \<and> (as @ m # bs) @ cs = as' @ m' # bs' \<and>
     (\<forall>a \<in> set as'. lt m' a) \<and> (\<forall>b \<in> set bs'. \<not> lt b m')"
proof (induction cs arbitrary: as m bs)
  case Nil
  then show ?case by (subst min_loop.simps) (auto simp: list_end_is_list)
next
  case (Cons c cs)
  have n: "list_next h c = Some (cell_at l cs)" "c \<noteq> Suc l" "list_end l = Some (Suc l)"
    using Cons.prems(1) list_next_is_list [of h l "as @ m # bs" c cs] mem_not_end [of h l _ c]
    by (auto simp: list_end_is_list)
  show ?case
  proof (cases "lt c m")
    case True
    have "\<forall>a \<in> set (as @ m # bs). lt c a"
      using True Cons.prems(2,3) by (auto intro: trans_lt [OF True] lt_le_trans [OF True])
    then show ?thesis using Cons.IH [of "as @ m # bs" c "[]"] Cons.prems(1) n True
      by (subst min_loop.simps) simp
  next
    case False
    then show ?thesis using Cons.IH [of as m "bs @ [c]"] Cons.prems n
      by (subst min_loop.simps) simp
  qed
qed

lemma list_max_ok:
  assumes "is_list h l (x # xs)"
  shows "\<exists>as m bs. list_max lt h l = Some m \<and> x # xs = as @ m # bs \<and>
     (\<forall>a \<in> set as. lt a m) \<and> (\<forall>b \<in> set bs. \<not> lt m b)"
  using max_loop_ok [of h l "[]" x "[]" xs] assms list_next_is_list [of h l "[]" x xs]
    mem_not_end [OF assms, of x]
  by (simp add: list_max_def traversal)

lemma list_min_ok:
  assumes "is_list h l (x # xs)"
  shows "\<exists>as m bs. list_min lt h l = Some m \<and> x # xs = as @ m # bs \<and>
     (\<forall>a \<in> set as. lt m a) \<and> (\<forall>b \<in> set bs. \<not> lt b m)"
  using min_loop_ok [of h l "[]" x "[]" xs] assms list_next_is_list [of h l "[]" x xs]
    mem_not_end [OF assms, of x]
  by (simp add: list_min_def traversal)

end


subsection \<open>Building a list in memory\<close>

text \<open>A memory in which the list at \<open>l\<close> holds \<open>xs\<close>, for concrete inputs.\<close>

primrec lay :: "ptr \<Rightarrow> ptr list \<Rightarrow> links \<Rightarrow> links" where
  "lay p [] h = h"
| "lay p (x # xs) h = lay x xs \<lparr>elem_prev = (elem_prev h)(x := p),
     elem_next = (elem_next h)(x := hd (xs @ [NULL]))\<rparr>"

definition mk_list :: "ptr \<Rightarrow> ptr list \<Rightarrow> links \<Rightarrow> links" where
  "mk_list l xs h = lay NULL (cells l xs) h"

definition no_links :: links where
  "no_links = \<lparr>elem_prev = (\<lambda>_. NULL), elem_next = (\<lambda>_. NULL)\<rparr>"

lemmas mk_list_simps = mk_list_def no_links_def is_list_def cells_def

subsection \<open>Properties\<close>

text \<open>
  C8: \<^verbatim>\<open>list_sort\<close> always ends without tripping one of its assertions; afterwards the list
  holds a permutation of what it held, in nondecreasing order, with equivalent elements in
  their original order (a stable sort), and no link outside the list has changed.
\<close>

theorem list_sort_correct:
  assumes "list_less lt" and "is_list h l xs" and "length xs < 2 ^ 32"
  shows "\<exists>h' ys. list_sort lt h l = Some h' \<and> is_list h' l ys \<and> mset ys = mset xs \<and>
      sorted_wrt (\<lambda>a b. \<not> lt b a) ys \<and>
      (\<forall>z. filter (same_key lt z) ys = filter (same_key lt z) xs) \<and>
      unchanged_outside (set (cells l xs)) h h'"
  using list_less.list_sort_ok [OF assms] .

lemma less_mod_list_less: "list_less (\<lambda>a b. a mod n < b mod n)"
  by unfold_locales auto

theorem list_sort_correct_witness:
  "\<exists>h' ys. list_sort (\<lambda>a b. a mod 4 < b mod 4) (mk_list 1 [7, 13, 6, 5] no_links) 1 = Some h' \<and>
     is_list h' 1 ys \<and> mset ys = {#5, 6, 7, 13#}"
proof -
  have "is_list (mk_list 1 [7, 13, 6, 5] no_links) 1 [7, 13, 6, 5]"
    by (simp add: mk_list_simps)
  from list_sort_correct [OF less_mod_list_less [of 4] this] show ?thesis by fastforce
qed

text \<open>
  A kernel list used as a queue is first-in first-out: pushing distinct free elements at
  the back and popping everything at the front never panics and returns the old elements and
  then the new ones in order; the next pop trips the not-empty assertion.
\<close>

theorem list_queue_fifo:
  assumes "is_list h l xs" and "distinct es" and "\<forall>e \<in> set es. list_room l xs e"
  shows "\<exists>h1 h2. push_all list_push_back h l es = Some h1 \<and>
     pop_n list_pop_front h1 l (length (xs @ es)) = Some (h2, xs @ es) \<and>
     list_pop_front h2 l = None"
proof (rule klist.first_in_first_out [OF assms(1)], intro allI impI)
  fix i assume i: "i < length es"
  then have "es ! i \<notin> set (take i es)"
    using assms(2) by (auto simp: in_set_conv_nth nth_eq_iff_index_eq)
  then show "list_room l (xs @ take i es) (es ! i)"
    using assms(3) i by (auto simp: list_room_def)
qed

theorem list_queue_fifo_witness:
  "\<exists>h1 h2. push_all list_push_back (mk_list 1 [4] no_links) 1 [9, 6] = Some h1 \<and>
     pop_n list_pop_front h1 1 3 = Some (h2, [4, 9, 6]) \<and> list_pop_front h2 1 = None"
proof -
  have "is_list (mk_list 1 [4] no_links) 1 [4]" by (simp add: mk_list_simps)
  moreover have "\<forall>e \<in> set [9, 6]. list_room 1 [4] e" by (simp add: list_room_def cells_def)
  ultimately show ?thesis using list_queue_fifo [of _ 1 "[4]" "[9, 6]"] by (simp add: numeral_3_eq_3)
qed

text \<open>
  \<^verbatim>\<open>list_splice\<close> moves the elements from \<open>first\<close> up to but not including \<open>last\<close> out of
  one list and in front of \<open>before\<close> in another, keeping their order, and changes no link
  outside the two lists.
\<close>

theorem list_splice_correct:
  assumes "is_list h l (as @ bs)" and "is_list h m (cs @ ms @ ds)" and "ms \<noteq> []"
    and "set (cells l (as @ bs)) \<inter> set (cells m (cs @ ms @ ds)) = {}"
  shows "\<exists>h'. list_splice h (cell_at l bs) (hd ms) (cell_at m ds) = Some h' \<and>
     is_list h' l (as @ ms @ bs) \<and> is_list h' m (cs @ ds) \<and>
     unchanged_outside (set (cells l (as @ bs)) \<union> set (cells m (cs @ ms @ ds))) h h'"
  using list_splice_other_ok [OF assms] by metis

theorem list_splice_correct_witness:
  "\<exists>h'. list_splice (mk_list 20 [30, 31, 32] (mk_list 1 [4, 5] no_links)) 5 30 32 = Some h' \<and>
     is_list h' 1 [4, 30, 31, 5] \<and> is_list h' 20 [32]"
proof -
  let ?h = "mk_list 20 [30, 31, 32] (mk_list 1 [4, 5] no_links)"
  have "is_list ?h 1 ([4] @ [5])" and "is_list ?h 20 ([] @ [30, 31] @ [32])"
    and "set (cells 1 ([4] @ [5])) \<inter> set (cells 20 ([] @ [30, 31] @ [32])) = {}"
    by (simp_all add: mk_list_simps)
  from list_splice_correct [OF this(1,2) _ this(3)] show ?thesis by auto
qed

text \<open>
  \<^verbatim>\<open>list_reverse\<close> returns, and the list then holds the reversed sequence.
\<close>

theorem list_reverse_correct:
  assumes "is_list h l xs"
  shows "\<exists>h'. list_reverse h l = Some h' \<and> is_list h' l (rev xs) \<and>
     unchanged_outside (set (cells l xs)) h h'"
  using list_reverse_ok [OF assms] by metis

theorem list_reverse_correct_witness:
  "\<exists>h'. list_reverse (mk_list 1 [4, 9, 6] no_links) 1 = Some h' \<and> is_list h' 1 [6, 9, 4]"
proof -
  have "is_list (mk_list 1 [4, 9, 6] no_links) 1 [4, 9, 6]" by (simp add: mk_list_simps)
  from list_reverse_correct [OF this] show ?thesis by auto
qed

text \<open>
  \<^verbatim>\<open>list_unique\<close> with a \<^verbatim>\<open>duplicates\<close> list splits the list: what stays has no two
  adjacent equal elements, what leaves is appended to \<^verbatim>\<open>duplicates\<close>, and nothing is lost.
\<close>

theorem list_unique_correct:
  assumes "is_list h l (x # xs)" and "is_list h d ds"
    and "set (cells l (x # xs)) \<inter> set (cells d ds) = {}"
  shows "\<exists>h' keep dups. list_unique lt h l d = Some h' \<and> is_list h' l (x # keep) \<and>
     is_list h' d (ds @ dups) \<and> mset keep + mset dups = mset xs \<and>
     successively (\<lambda>a b. lt a b \<or> lt b a) (x # keep)"
proof -
  obtain keep dups where u: "unique_seq lt x xs = (keep, dups)" by fastforce
  have "list_unique lt h l d = unique_loop lt h l d x"
    using assms(1) is_list_ends(3) [OF assms(1)] by (simp add: list_unique_def list_empty_ok traversal)
  with unique_loop_ok [of h l "[]" x xs d ds lt keep dups] assms u
  show ?thesis using mset_unique_seq [OF u] unique_seq_adjacent [OF u] by auto
qed

theorem list_unique_correct_witness:
  "\<exists>h' keep dups. list_unique (\<lambda>a b. a mod 4 < b mod 4)
       (mk_list 40 [] (mk_list 1 [7, 11, 6, 5] no_links)) 1 40 = Some h' \<and>
     is_list h' 1 (7 # keep) \<and> is_list h' 40 dups \<and> mset keep + mset dups = {#11, 6, 5#}"
proof -
  let ?h = "mk_list 40 [] (mk_list 1 [7, 11, 6, 5] no_links)"
  have "is_list ?h 1 [7, 11, 6, 5]" and "is_list ?h 40 []"
    and "set (cells 1 [7, 11, 6, 5]) \<inter> set (cells 40 []) = {}"
    by (simp_all add: mk_list_simps)
  from list_unique_correct [OF this, of "\<lambda>a b. a mod 4 < b mod 4"] show ?thesis by fastforce
qed

text \<open>
  \<^verbatim>\<open>list_max\<close> on a nonempty list returns the earliest of the largest elements: every
  element before it is smaller, none after it is larger.
\<close>

theorem list_max_correct:
  assumes "list_less lt" and "is_list h l (x # xs)"
  shows "\<exists>as m bs. list_max lt h l = Some m \<and> x # xs = as @ m # bs \<and>
     (\<forall>a \<in> set as. lt a m) \<and> (\<forall>b \<in> set bs. \<not> lt m b)"
  using list_less.list_max_ok [OF assms] .

theorem list_max_correct_witness:
  "\<exists>as m bs. list_max (\<lambda>a b. a mod 4 < b mod 4) (mk_list 1 [5, 7, 11] no_links) 1 = Some m \<and>
     [5, 7, 11] = as @ m # bs"
proof -
  have "is_list (mk_list 1 [5, 7, 11] no_links) 1 [5, 7, 11]" by (simp add: mk_list_simps)
  from list_max_correct [OF less_mod_list_less [of 4] this] show ?thesis by blast
qed

end
