(* ===== verification/Bitmap.thy ===== *)
theory Bitmap
  imports Pintos_Prelude
begin

unbundle bit_operations_syntax

section \<open>Bitmaps (lib/kernel/bitmap.c)\<close>

text \<open>
  The bitmap behind the page allocator's pools and the file system's free map: an array of
  32-bit elements that simulates an array of bits. A \<^verbatim>\<open>size_t\<close> is a natural number below
  \<open>2 ^ 32\<close>, and sums of them wrap there (\<open>size_add\<close>). An element index outside the array
  and a failed assertion are \<open>None\<close>. The memory \<^verbatim>\<open>malloc\<close> returns is uninitialised: it
  is an argument of \<open>bitmap_create\<close>, with any contents.
\<close>

type_synonym size_t = nat

definition size_add :: "size_t \<Rightarrow> size_t \<Rightarrow> size_t" where
  "size_add a b = (a + b) mod 2 ^ 32"

lemma size_add_small [simp]: "a + b < 2 ^ 32 \<Longrightarrow> size_add a b = a + b"
  by (simp add: size_add_def)

record bitmap =
  bit_cnt :: size_t
  bits :: "u32 list"

definition BITMAP_ERROR :: size_t where "BITMAP_ERROR = 2 ^ 32 - 1"

definition ELEM_BITS :: nat where "ELEM_BITS = 32"

definition elem_idx :: "size_t \<Rightarrow> size_t" where
  "elem_idx bit_idx = bit_idx div ELEM_BITS"

definition bit_mask :: "size_t \<Rightarrow> u32" where
  "bit_mask bit_idx = push_bit (bit_idx mod ELEM_BITS) 1"

definition elem_cnt :: "size_t \<Rightarrow> size_t" where
  "elem_cnt n = size_add n (ELEM_BITS - 1) div ELEM_BITS"

definition byte_cnt :: "size_t \<Rightarrow> size_t" where
  "byte_cnt n = 4 * elem_cnt n"

definition last_mask :: "bitmap \<Rightarrow> u32" where
  "last_mask b =
     (let last_bits = bit_cnt b mod ELEM_BITS
      in if last_bits \<noteq> 0 then push_bit last_bits 1 - 1 else - 1)"

definition bitmap_size :: "bitmap \<Rightarrow> size_t" where
  "bitmap_size b = bit_cnt b"

definition update_elem :: "bitmap \<Rightarrow> size_t \<Rightarrow> (u32 \<Rightarrow> u32) \<Rightarrow> bitmap option" where
  "update_elem b idx f =
     (if idx < length (bits b) then Some (b\<lparr>bits := (bits b)[idx := f (bits b ! idx)]\<rparr>) else None)"

definition bitmap_mark :: "bitmap \<Rightarrow> size_t \<Rightarrow> bitmap option" where
  "bitmap_mark b bit_idx = update_elem b (elem_idx bit_idx) (\<lambda>w. w OR bit_mask bit_idx)"

definition bitmap_reset :: "bitmap \<Rightarrow> size_t \<Rightarrow> bitmap option" where
  "bitmap_reset b bit_idx = update_elem b (elem_idx bit_idx) (\<lambda>w. w AND NOT (bit_mask bit_idx))"

definition bitmap_flip :: "bitmap \<Rightarrow> size_t \<Rightarrow> bitmap option" where
  "bitmap_flip b bit_idx = update_elem b (elem_idx bit_idx) (\<lambda>w. w XOR bit_mask bit_idx)"

definition bitmap_set :: "bitmap \<Rightarrow> size_t \<Rightarrow> bool \<Rightarrow> bitmap option" where
  "bitmap_set b idx value = do {
     _ \<leftarrow> ASSERT (idx < bit_cnt b);
     if value then bitmap_mark b idx else bitmap_reset b idx }"

definition bitmap_test :: "bitmap \<Rightarrow> size_t \<Rightarrow> bool option" where
  "bitmap_test b idx = do {
     _ \<leftarrow> ASSERT (idx < bit_cnt b);
     _ \<leftarrow> ASSERT (elem_idx idx < length (bits b));
     Some (bits b ! elem_idx idx AND bit_mask idx \<noteq> 0) }"

definition bitmap_set_multiple :: "bitmap \<Rightarrow> size_t \<Rightarrow> size_t \<Rightarrow> bool \<Rightarrow> bitmap option" where
  "bitmap_set_multiple b start cnt value = do {
     _ \<leftarrow> ASSERT (start \<le> bit_cnt b);
     _ \<leftarrow> ASSERT (size_add start cnt \<le> bit_cnt b);
     for_range 0 cnt (\<lambda>i b. bitmap_set b (size_add start i) value) b }"

definition bitmap_set_all :: "bitmap \<Rightarrow> bool \<Rightarrow> bitmap option" where
  "bitmap_set_all b value = bitmap_set_multiple b 0 (bitmap_size b) value"

text \<open>
  \<^verbatim>\<open>bitmap_create\<close>: \<open>b_ok\<close> says whether the first \<^verbatim>\<open>malloc\<close> succeeds, \<open>mem\<close> is the
  uninitialised array the second one returns. The outer \<open>option\<close> is the panic, the inner
  one the null pointer.
\<close>

definition bitmap_create :: "bool \<Rightarrow> u32 list option \<Rightarrow> size_t \<Rightarrow> bitmap option option" where
  "bitmap_create b_ok mem n =
     (if \<not> b_ok then Some None
      else if mem \<noteq> None \<or> n = 0 then do {
        b \<leftarrow> bitmap_set_all \<lparr>bit_cnt = n, bits = (case mem of None \<Rightarrow> [] | Some m \<Rightarrow> m)\<rparr> False;
        Some (Some b) }
      else Some None)"

definition bitmap_buf_size :: "size_t \<Rightarrow> size_t" where
  "bitmap_buf_size n = 8 + byte_cnt n"

text \<open>\<^verbatim>\<open>bitmap_create_in_buf\<close>: \<open>mem\<close> is the part of the block after the header.\<close>

definition bitmap_create_in_buf :: "size_t \<Rightarrow> u32 list \<Rightarrow> size_t \<Rightarrow> bitmap option" where
  "bitmap_create_in_buf n mem block_size = do {
     _ \<leftarrow> ASSERT (block_size \<ge> bitmap_buf_size n);
     bitmap_set_all \<lparr>bit_cnt = n, bits = mem\<rparr> False }"

definition bitmap_count :: "bitmap \<Rightarrow> size_t \<Rightarrow> size_t \<Rightarrow> bool \<Rightarrow> size_t option" where
  "bitmap_count b start cnt value = do {
     _ \<leftarrow> ASSERT (start \<le> bit_cnt b);
     _ \<leftarrow> ASSERT (size_add start cnt \<le> bit_cnt b);
     for_range 0 cnt (\<lambda>i value_cnt. do {
        t \<leftarrow> bitmap_test b (size_add start i);
        Some (if t = value then Suc value_cnt else value_cnt) }) 0 }"

definition bitmap_contains :: "bitmap \<Rightarrow> size_t \<Rightarrow> size_t \<Rightarrow> bool \<Rightarrow> bool option" where
  "bitmap_contains b start cnt value = do {
     _ \<leftarrow> ASSERT (start \<le> bit_cnt b);
     _ \<leftarrow> ASSERT (size_add start cnt \<le> bit_cnt b);
     r \<leftarrow> find_range 0 cnt (\<lambda>i. do { t \<leftarrow> bitmap_test b (size_add start i); Some (t = value) });
     Some (r \<noteq> None) }"

definition bitmap_any :: "bitmap \<Rightarrow> size_t \<Rightarrow> size_t \<Rightarrow> bool option" where
  "bitmap_any b start cnt = bitmap_contains b start cnt True"

definition bitmap_none :: "bitmap \<Rightarrow> size_t \<Rightarrow> size_t \<Rightarrow> bool option" where
  "bitmap_none b start cnt = map_option Not (bitmap_contains b start cnt True)"

definition bitmap_all :: "bitmap \<Rightarrow> size_t \<Rightarrow> size_t \<Rightarrow> bool option" where
  "bitmap_all b start cnt = map_option Not (bitmap_contains b start cnt False)"

definition bitmap_scan :: "bitmap \<Rightarrow> size_t \<Rightarrow> size_t \<Rightarrow> bool \<Rightarrow> size_t option" where
  "bitmap_scan b start cnt value = do {
     _ \<leftarrow> ASSERT (start \<le> bit_cnt b);
     if cnt \<le> bit_cnt b then do {
       r \<leftarrow> find_range start (Suc (bit_cnt b - cnt))
              (\<lambda>i. map_option Not (bitmap_contains b i cnt (\<not> value)));
       Some (case r of None \<Rightarrow> BITMAP_ERROR | Some i \<Rightarrow> i) }
     else Some BITMAP_ERROR }"

definition bitmap_scan_and_flip ::
  "bitmap \<Rightarrow> size_t \<Rightarrow> size_t \<Rightarrow> bool \<Rightarrow> (bitmap \<times> size_t) option" where
  "bitmap_scan_and_flip b start cnt value = do {
     idx \<leftarrow> bitmap_scan b start cnt value;
     if idx \<noteq> BITMAP_ERROR then do {
       b \<leftarrow> bitmap_set_multiple b idx cnt (\<not> value);
       Some (b, idx) }
     else Some (b, idx) }"

definition bitmap_file_size :: "bitmap \<Rightarrow> size_t" where
  "bitmap_file_size b = byte_cnt (bit_cnt b)"

text \<open>
  \<^verbatim>\<open>bitmap_read\<close> and \<^verbatim>\<open>bitmap_write\<close> go through the file layer, which is an argument:
  \<open>file_read_at f size ofs\<close> is the new file state and the bytes read (their number is what
  the C function returns), \<open>file_write_at f buf ofs\<close> the new state and the number written.
  What is not read keeps its old contents.
\<close>

definition bitmap_read :: "('f \<Rightarrow> nat \<Rightarrow> nat \<Rightarrow> ('f \<times> u8 list) option) \<Rightarrow> bitmap \<Rightarrow> 'f \<Rightarrow>
    (bitmap \<times> 'f \<times> bool) option" where
  "bitmap_read file_read_at b file =
     (if bit_cnt b > 0 then do {
        let size = byte_cnt (bit_cnt b);
        (file, data) \<leftarrow> file_read_at file size 0;
        let old = concat (map le_bytes (bits b));
        let b = b\<lparr>bits := le_words (data @ drop (length data) old)\<rparr>;
        b \<leftarrow> update_elem b (elem_cnt (bit_cnt b) - 1) (\<lambda>w. w AND last_mask b);
        Some (b, file, length data = size) }
      else Some (b, file, True))"

definition bitmap_write :: "('f \<Rightarrow> u8 list \<Rightarrow> nat \<Rightarrow> ('f \<times> nat) option) \<Rightarrow> bitmap \<Rightarrow> 'f \<Rightarrow>
    ('f \<times> bool) option" where
  "bitmap_write file_write_at b file = do {
     let size = byte_cnt (bit_cnt b);
     (file, n) \<leftarrow> file_write_at file (take size (concat (map le_bytes (bits b)))) 0;
     Some (file, n = size) }"

subsection \<open>The array of bits a bitmap stands for\<close>

definition wf_bitmap :: "bitmap \<Rightarrow> bool" where
  "wf_bitmap b \<longleftrightarrow> bit_cnt b + 31 < 2 ^ 32 \<and> elem_cnt (bit_cnt b) \<le> length (bits b)"

definition bit_at :: "bitmap \<Rightarrow> nat \<Rightarrow> bool" where
  "bit_at b i = bit (bits b ! (i div 32)) (i mod 32)"

definition bits_of :: "bitmap \<Rightarrow> bool list" where
  "bits_of b = map (bit_at b) [0..<bit_cnt b]"

lemma length_bits_of [simp]: "length (bits_of b) = bit_cnt b"
  by (simp add: bits_of_def)

lemma nth_bits_of [simp]: "i < bit_cnt b \<Longrightarrow> bits_of b ! i = bit_at b i"
  by (simp add: bits_of_def)

lemma wf_bitmap_idx: "wf_bitmap b \<Longrightarrow> i < bit_cnt b \<Longrightarrow> i div 32 < length (bits b)"
  by (auto simp: wf_bitmap_def elem_cnt_def ELEM_BITS_def)

lemma bit_mask_bit: "k < 32 \<Longrightarrow> bit (bit_mask i) k \<longleftrightarrow> k = i mod 32"
  by (auto simp: bit_mask_def ELEM_BITS_def bit_exp_iff)

lemma and_bit_mask: "(w AND bit_mask i \<noteq> 0) \<longleftrightarrow> bit w (i mod 32)"
  unfolding bit_mask_def ELEM_BITS_def by (rule bit_iff_and_push_bit_not_eq_0 [symmetric])

lemma bitmap_test_ok:
  "wf_bitmap b \<Longrightarrow> i < bit_cnt b \<Longrightarrow> bitmap_test b i = Some (bits_of b ! i)"
  by (simp add: bitmap_test_def elem_idx_def ELEM_BITS_def wf_bitmap_idx and_bit_mask bit_at_def)

lemma update_elem_ok:
  assumes "wf_bitmap b" and "i < bit_cnt b"
    and "\<And>k w. k < 32 \<Longrightarrow> bit (f w) k = (if k = i mod 32 then v w else bit w k)"
  obtains b' where "update_elem b (elem_idx i) f = Some b'" and "wf_bitmap b'"
    and "bit_cnt b' = bit_cnt b" and "bits_of b' = (bits_of b)[i := v (bits b ! (i div 32))]"
proof -
  let ?b' = "b\<lparr>bits := (bits b)[i div 32 := f (bits b ! (i div 32))]\<rparr>"
  note idx = wf_bitmap_idx [OF assms(1)]
  have "bits_of ?b' = (bits_of b)[i := v (bits b ! (i div 32))]"
  proof (rule nth_equalityI)
    fix j assume "j < length (bits_of ?b')"
    then have j: "j < bit_cnt b" by simp
    have ij: "i \<noteq> j \<Longrightarrow> i div 32 = j div 32 \<Longrightarrow> j mod 32 \<noteq> i mod 32"
      by (metis div_mult_mod_eq)
    show "bits_of ?b' ! j = (bits_of b)[i := v (bits b ! (i div 32))] ! j"
    proof (cases "i = j")
      case True
      then show ?thesis using j idx [OF assms(2)] by (simp add: bit_at_def assms(3))
    next
      case False
      have "bit_at ?b' j = bit_at b j"
      proof (cases "i div 32 = j div 32")
        case True
        then show ?thesis using ij [OF False True] idx [OF j] by (simp add: bit_at_def assms(3))
      next
        case False
        then show ?thesis by (simp add: bit_at_def)
      qed
      then show ?thesis using False j by simp
    qed
  qed simp
  then show ?thesis using that [of ?b'] assms(1) idx [OF assms(2)]
    by (simp add: update_elem_def elem_idx_def ELEM_BITS_def wf_bitmap_def)
qed

lemma bitmap_mark_ok:
  assumes "wf_bitmap b" and "i < bit_cnt b"
  obtains b' where "bitmap_mark b i = Some b'" and "wf_bitmap b'" and "bit_cnt b' = bit_cnt b"
    and "bits_of b' = (bits_of b)[i := True]"
  by (rule update_elem_ok [OF assms, of "\<lambda>w. w OR bit_mask i" "\<lambda>_. True"])
    (use that in \<open>simp_all add: bitmap_mark_def bit_or_iff bit_mask_bit\<close>)

lemma bitmap_reset_ok:
  assumes "wf_bitmap b" and "i < bit_cnt b"
  obtains b' where "bitmap_reset b i = Some b'" and "wf_bitmap b'" and "bit_cnt b' = bit_cnt b"
    and "bits_of b' = (bits_of b)[i := False]"
  by (rule update_elem_ok [OF assms, of "\<lambda>w. w AND NOT (bit_mask i)" "\<lambda>_. False"])
    (use that in \<open>simp_all add: bitmap_reset_def bit_and_iff bit_not_iff bit_mask_bit\<close>)

lemma bitmap_flip_ok:
  assumes "wf_bitmap b" and "i < bit_cnt b"
  obtains b' where "bitmap_flip b i = Some b'" and "wf_bitmap b'" and "bit_cnt b' = bit_cnt b"
    and "bits_of b' = (bits_of b)[i := \<not> bits_of b ! i]"
  by (rule update_elem_ok [OF assms, of "\<lambda>w. w XOR bit_mask i" "\<lambda>w. \<not> bit w (i mod 32)"])
    (use that assms(2) in \<open>simp_all add: bitmap_flip_def bit_xor_iff bit_mask_bit bit_at_def\<close>)

lemma bitmap_set_ok:
  assumes "wf_bitmap b" and "i < bit_cnt b"
  obtains b' where "bitmap_set b i v = Some b'" and "wf_bitmap b'" and "bit_cnt b' = bit_cnt b"
    and "bits_of b' = (bits_of b)[i := v]"
proof (cases v)
  case True
  show ?thesis by (rule bitmap_mark_ok [OF assms]) (use True assms that in \<open>simp add: bitmap_set_def\<close>)
next
  case False
  show ?thesis by (rule bitmap_reset_ok [OF assms]) (use False assms that in \<open>simp add: bitmap_set_def\<close>)
qed

lemma bitmap_set_multiple_ok:
  assumes wf: "wf_bitmap b" and rng: "start + cnt \<le> bit_cnt b"
  obtains b' where "bitmap_set_multiple b start cnt v = Some b'" and "wf_bitmap b'"
    and "bit_cnt b' = bit_cnt b"
    and "\<And>j. j < bit_cnt b \<Longrightarrow>
           bits_of b' ! j = (if start \<le> j \<and> j < start + cnt then v else bits_of b ! j)"
proof -
  let ?I = "\<lambda>k b'. wf_bitmap b' \<and> bit_cnt b' = bit_cnt b \<and>
    (\<forall>j < bit_cnt b. bits_of b' ! j = (if start \<le> j \<and> j < start + k then v else bits_of b ! j))"
  have small: "size_add start k = start + k" if "k \<le> cnt" for k
    using wf rng that by (intro size_add_small) (simp add: wf_bitmap_def)
  have "\<exists>b'. for_range 0 cnt (\<lambda>i b. bitmap_set b (size_add start i) v) b = Some b' \<and> ?I cnt b'"
  proof (rule for_range_rule)
    fix k t assume k: "k < cnt" and I: "?I k t"
    then obtain t' where t': "bitmap_set t (start + k) v = Some t'" "wf_bitmap t'"
      "bit_cnt t' = bit_cnt t" "bits_of t' = (bits_of t)[start + k := v]"
      using bitmap_set_ok [of t "start + k" v] rng by auto
    then have "?I (Suc k) t'" using I k rng by (auto simp: nth_list_update less_Suc_eq)
    with t'(1) show "\<exists>t'. bitmap_set t (size_add start k) v = Some t' \<and> ?I (Suc k) t'"
      using small [of k] k by auto
  qed (use wf in auto)
  then obtain b' where "for_range 0 cnt (\<lambda>i b. bitmap_set b (size_add start i) v) b = Some b'"
    "?I cnt b'" by blast
  then show ?thesis using small [of cnt] rng by (intro that [of b']) (auto simp: bitmap_set_multiple_def)
qed

lemma bitmap_contains_ok:
  assumes wf: "wf_bitmap b" and rng: "start + cnt \<le> bit_cnt b"
  shows "bitmap_contains b start cnt v = Some (\<exists>j. start \<le> j \<and> j < start + cnt \<and> bits_of b ! j = v)"
proof -
  have small: "size_add start k = start + k" if "k \<le> cnt" for k
    using wf rng that by (intro size_add_small) (simp add: wf_bitmap_def)
  have "find_range 0 cnt (\<lambda>i. do { t \<leftarrow> bitmap_test b (size_add start i); Some (t = v) }) =
    Some (if \<exists>k. 0 \<le> k \<and> k < cnt \<and> bits_of b ! (start + k) = v
          then Some (LEAST k. 0 \<le> k \<and> k < cnt \<and> bits_of b ! (start + k) = v) else None)"
    using small rng by (intro find_range_spec) (simp add: bitmap_test_ok [OF wf])
  moreover have "(\<exists>k. 0 \<le> k \<and> k < cnt \<and> bits_of b ! (start + k) = v) \<longleftrightarrow>
    (\<exists>j. start \<le> j \<and> j < start + cnt \<and> bits_of b ! j = v)"
    by (metis add_diff_inverse_nat add_less_cancel_left le_add1 less_eq_nat.simps(1) not_less)
  ultimately show ?thesis using small [of cnt] rng by (auto simp: bitmap_contains_def)
qed

definition free_run :: "bitmap \<Rightarrow> size_t \<Rightarrow> size_t \<Rightarrow> bool \<Rightarrow> bool" where
  "free_run b i cnt v \<longleftrightarrow> i + cnt \<le> bit_cnt b \<and> (\<forall>j. i \<le> j \<and> j < i + cnt \<longrightarrow> bits_of b ! j = v)"

lemma bitmap_scan_ok:
  assumes wf: "wf_bitmap b" and st: "start \<le> bit_cnt b"
  shows "bitmap_scan b start cnt v = Some
    (if \<exists>i \<ge> start. free_run b i cnt v then LEAST i. start \<le> i \<and> free_run b i cnt v else BITMAP_ERROR)"
proof (cases "cnt \<le> bit_cnt b")
  case True
  have eq: "(start \<le> k \<and> k < Suc (bit_cnt b - cnt) \<and> free_run b k cnt v) =
      (start \<le> k \<and> free_run b k cnt v)" for k
    using True by (auto simp: free_run_def)
  have "find_range start (Suc (bit_cnt b - cnt)) (\<lambda>i. map_option Not (bitmap_contains b i cnt (\<not> v))) =
    Some (if \<exists>k. start \<le> k \<and> k < Suc (bit_cnt b - cnt) \<and> free_run b k cnt v
          then Some (LEAST k. start \<le> k \<and> k < Suc (bit_cnt b - cnt) \<and> free_run b k cnt v) else None)"
  proof (rule find_range_spec)
    fix k assume "start \<le> k" "k < Suc (bit_cnt b - cnt)"
    then have "k + cnt \<le> bit_cnt b" using True by simp
    then show "map_option Not (bitmap_contains b k cnt (\<not> v)) = Some (free_run b k cnt v)"
      by (auto simp: bitmap_contains_ok [OF wf] free_run_def simp del: nth_bits_of)
  qed
  then show ?thesis using True st unfolding eq by (simp add: bitmap_scan_def, blast)
next
  case False
  then have "\<not> (\<exists>i \<ge> start. free_run b i cnt v)" by (auto simp: free_run_def)
  then show ?thesis using False st by (simp add: bitmap_scan_def, blast)
qed

lemma bitmap_scan_and_flip_ok:
  assumes wf: "wf_bitmap b" and st: "start \<le> bit_cnt b"
  obtains (found) b' i where "bitmap_scan_and_flip b start cnt v = Some (b', i)" "i \<noteq> BITMAP_ERROR"
      "start \<le> i" "free_run b i cnt v" "\<And>k. start \<le> k \<Longrightarrow> k < i \<Longrightarrow> \<not> free_run b k cnt v"
      "wf_bitmap b'" "bit_cnt b' = bit_cnt b"
      "\<And>j. j < bit_cnt b \<Longrightarrow> bits_of b' ! j = (if i \<le> j \<and> j < i + cnt then \<not> v else bits_of b ! j)"
  | (none) "bitmap_scan_and_flip b start cnt v = Some (b, BITMAP_ERROR)"
      "\<And>i. start \<le> i \<Longrightarrow> \<not> free_run b i cnt v"
proof (cases "\<exists>i \<ge> start. free_run b i cnt v")
  case True
  define i where "i = (LEAST i. start \<le> i \<and> free_run b i cnt v)"
  have i: "start \<le> i \<and> free_run b i cnt v" using True unfolding i_def by (metis (mono_tags, lifting) LeastI)
  have least: "\<not> free_run b k cnt v" if "start \<le> k" "k < i" for k
    using not_less_Least that unfolding i_def by blast
  have rng: "i + cnt \<le> bit_cnt b" using i by (simp add: free_run_def)
  then have ne: "i \<noteq> BITMAP_ERROR" using wf by (auto simp: wf_bitmap_def BITMAP_ERROR_def)
  have scan: "bitmap_scan b start cnt v = Some i"
    using bitmap_scan_ok [OF assms, of cnt v] True by (simp add: i_def)
  obtain b' where "bitmap_set_multiple b i cnt (\<not> v) = Some b'" "wf_bitmap b'" "bit_cnt b' = bit_cnt b"
    "\<And>j. j < bit_cnt b \<Longrightarrow> bits_of b' ! j = (if i \<le> j \<and> j < i + cnt then \<not> v else bits_of b ! j)"
    using bitmap_set_multiple_ok [OF wf rng] by metis
  then show ?thesis using found [of b' i] scan ne i least by (simp add: bitmap_scan_and_flip_def)
next
  case False
  have "bitmap_scan b start cnt v = Some BITMAP_ERROR"
    unfolding bitmap_scan_ok [OF assms] if_not_P [OF False] ..
  with False show ?thesis by (intro none) (auto simp: bitmap_scan_and_flip_def)
qed

lemma bitmap_all_ok:
  assumes "wf_bitmap b" and "start + cnt \<le> bit_cnt b"
  shows "bitmap_all b start cnt = Some (\<forall>j. start \<le> j \<and> j < start + cnt \<longrightarrow> bits_of b ! j)"
  by (auto simp: bitmap_all_def bitmap_contains_ok [OF assms])

lemma bitmap_count_ok:
  assumes wf: "wf_bitmap b" and rng: "start + cnt \<le> bit_cnt b"
  shows "bitmap_count b start cnt v = Some (card {j. start \<le> j \<and> j < start + cnt \<and> bits_of b ! j = v})"
proof -
  let ?S = "\<lambda>k. {j. start \<le> j \<and> j < start + k \<and> bits_of b ! j = v}"
  let ?f = "\<lambda>i value_cnt. do { t \<leftarrow> bitmap_test b (size_add start i);
        Some (if t = v then Suc value_cnt else value_cnt) }"
  have small: "size_add start k = start + k" if "k \<le> cnt" for k
    using wf rng that by (intro size_add_small) (simp add: wf_bitmap_def)
  have fin: "finite (?S k)" for k by (rule finite_subset [of _ "{..< start + k}"]) auto
  have step: "?S (Suc k) = (if bits_of b ! (start + k) = v then insert (start + k) (?S k) else ?S k)" for k
    by (auto simp: less_Suc_eq)
  have "\<exists>r. for_range 0 cnt ?f 0 = Some r \<and> r = card (?S cnt)"
  proof (rule for_range_rule [where I = "\<lambda>k r. r = card (?S k)"])
    show "0 = card (?S 0)" by simp
    fix k t assume "k < cnt" and t: "t = card (?S k)"
    then have "bitmap_test b (size_add start k) = Some (bits_of b ! (start + k))"
      using small [of k] rng by (simp add: bitmap_test_ok [OF wf])
    then show "\<exists>t'. ?f k t = Some t' \<and> t' = card (?S (Suc k))"
      unfolding step t by (auto simp: fin)
  qed simp
  then show ?thesis using small [of cnt] rng by (simp add: bitmap_count_def)
qed

lemma elem_cnt_ok: "n + 31 < 2 ^ 32 \<Longrightarrow> elem_cnt n = DIV_ROUND_UP n 32"
  by (simp add: elem_cnt_def ELEM_BITS_def DIV_ROUND_UP_def)

lemma bitmap_set_all_ok:
  assumes "wf_bitmap b"
  obtains b' where "bitmap_set_all b v = Some b'" and "wf_bitmap b'" and "bit_cnt b' = bit_cnt b"
    and "bits_of b' = replicate (bit_cnt b) v"
proof -
  obtain b' where b': "bitmap_set_multiple b 0 (bit_cnt b) v = Some b'" "wf_bitmap b'"
    "bit_cnt b' = bit_cnt b"
    "\<And>j. j < bit_cnt b \<Longrightarrow> bits_of b' ! j = (if 0 \<le> j \<and> j < 0 + bit_cnt b then v else bits_of b ! j)"
    by (rule bitmap_set_multiple_ok [OF assms, of 0 "bit_cnt b" v]) auto
  have "bits_of b' = replicate (bit_cnt b) v"
    using b'(3,4) by (intro nth_equalityI) (simp_all del: nth_bits_of)
  with b' show ?thesis by (intro that [of b']) (simp_all add: bitmap_set_all_def bitmap_size_def)
qed

lemma last_mask_bit:
  assumes "0 < bit_cnt b" and "k < 32" and "(elem_cnt (bit_cnt b) - 1) * 32 + k < bit_cnt b"
    and "bit_cnt b + 31 < 2 ^ 32"
  shows "bit (last_mask b) k"
proof -
  define n where "n = bit_cnt b"
  define e where "e = elem_cnt n"
  define m where "m = n - (e - 1) * 32"
  have "n \<le> e * 32" using assms(4) DIV_ROUND_UP_le_iff [of 32 n e] by (simp add: e_def n_def elem_cnt_ok)
  moreover have "(e - 1) * 32 + k < n" using assms(3) by (simp add: e_def n_def)
  ultimately have m: "n = m + (e - 1) * 32" "k < m" "m \<le> 32" by (auto simp: m_def)
  then have "n mod 32 = m mod 32" by simp
  with m(2,3) have "k < n mod 32 \<or> n mod 32 = 0" by (cases "m = 32") auto
  then show ?thesis
    by (auto simp: last_mask_def n_def [symmetric] ELEM_BITS_def Let_def bit_simps mask_eq_exp_minus_1 [symmetric]
        push_bit_of_1 assms(2))
qed

text \<open>
  What \<^verbatim>\<open>bitmap_read\<close> puts in place: every bit below \<^verbatim>\<open>bit_cnt\<close> is the one on file.
\<close>

lemma bitmap_read_ok:
  assumes wf: "wf_bitmap b" "wf_bitmap b0" and n: "bit_cnt b0 = bit_cnt b"
    and data: "data = take (byte_cnt (bit_cnt b)) (concat (map le_bytes (bits b)))"
    and rd: "file_read_at f (byte_cnt (bit_cnt b)) 0 = Some (f', data)"
    and pos: "0 < bit_cnt b"
  obtains b1 where "bitmap_read file_read_at b0 f = Some (b1, f', True)" and "wf_bitmap b1"
    and "bit_cnt b1 = bit_cnt b" and "bits_of b1 = bits_of b"
proof -
  define e where "e = elem_cnt (bit_cnt b)"
  define ws where "ws = take e (bits b) @ drop e (bits b0)"
  have sz: "byte_cnt (bit_cnt b) = 4 * e" by (simp add: byte_cnt_def e_def)
  have len: "e \<le> length (bits b)" "e \<le> length (bits b0)" using wf n by (simp_all add: wf_bitmap_def e_def)
  have e_gt: "j div 32 < e" if "j < bit_cnt b" for j
    using wf that DIV_ROUND_UP_gt_iff [of 32 "j div 32" "bit_cnt b"] div_times_less_eq_dividend [of j 32]
    by (simp add: e_def wf_bitmap_def elem_cnt_ok)
  then have e0: "0 < e" using pos by (cases e) auto
  have dat: "data = concat (map le_bytes (take e (bits b)))" "length data = 4 * e"
    using len by (simp_all add: data sz take_concat_le_bytes min_absorb2)
  have ws: "le_words (data @ drop (length data) (concat (map le_bytes (bits b0)))) = ws"
    by (simp add: dat(2) drop_concat_le_bytes) (simp add: dat(1) le_words_bytes_append le_words_bytes ws_def)
  define b1 where "b1 = b0\<lparr>bits := ws[e - 1 := ws ! (e - 1) AND last_mask (b0\<lparr>bits := ws\<rparr>)]\<rparr>"
  have "update_elem (b0\<lparr>bits := ws\<rparr>) (e - 1) (\<lambda>w. w AND last_mask (b0\<lparr>bits := ws\<rparr>)) = Some b1"
    using e0 len by (simp add: update_elem_def b1_def ws_def)
  then have r: "bitmap_read file_read_at b0 f = Some (b1, f', True)"
    using pos rd n dat(2) ws by (simp add: bitmap_read_def e_def [symmetric] sz)
  have "bit_at b1 j = bit_at b j" if j: "j < bit_cnt b" for j
  proof (cases "j div 32 = e - 1")
    case True
    have "bit (last_mask (b0\<lparr>bits := ws\<rparr>)) (j mod 32)"
      using wf(1) pos n j True div_mult_mod_eq [of j 32]
      by (intro last_mask_bit) (simp_all add: wf_bitmap_def e_def)
    then show ?thesis using True e0 len by (simp add: bit_at_def b1_def ws_def nth_append bit_and_iff)
  next
    case False
    then show ?thesis using e_gt [OF j] len by (simp add: bit_at_def b1_def ws_def nth_append)
  qed
  then have "bits_of b1 = bits_of b" using n by (intro nth_equalityI) (simp_all add: b1_def)
  moreover have "wf_bitmap b1" using wf n len by (simp add: wf_bitmap_def b1_def ws_def e_def)
  ultimately show ?thesis using that r n by (simp add: b1_def)
qed

subsection \<open>Properties\<close>

text \<open>
  C14: \<^verbatim>\<open>bitmap_scan_and_flip\<close> is first fit. On a well-formed bitmap it never stops; if some
  run of \<open>cnt\<close> bits equal to \<open>v\<close> lies at or after \<open>start\<close> it returns the least one,
  flips exactly its bits and no others, and otherwise it returns \<^verbatim>\<open>BITMAP_ERROR\<close> and leaves
  the bitmap as it was.
\<close>

theorem bitmap_scan_and_flip_first_fit:
  assumes "wf_bitmap b" and "start \<le> bit_cnt b"
  shows "\<exists>b' i. bitmap_scan_and_flip b start cnt v = Some (b', i) \<and> wf_bitmap b' \<and>
    bit_cnt b' = bit_cnt b \<and>
    (if \<exists>k \<ge> start. free_run b k cnt v
     then i \<noteq> BITMAP_ERROR \<and> start \<le> i \<and> free_run b i cnt v \<and>
       (\<forall>k. start \<le> k \<and> k < i \<longrightarrow> \<not> free_run b k cnt v) \<and>
       (\<forall>j < bit_cnt b. bits_of b' ! j = (if i \<le> j \<and> j < i + cnt then \<not> v else bits_of b ! j))
     else i = BITMAP_ERROR \<and> b' = b)"
proof (rule bitmap_scan_and_flip_ok [OF assms, of cnt v])
  fix b' i
  assume "bitmap_scan_and_flip b start cnt v = Some (b', i)" "i \<noteq> BITMAP_ERROR" "start \<le> i"
    "free_run b i cnt v" "\<And>k. start \<le> k \<Longrightarrow> k < i \<Longrightarrow> \<not> free_run b k cnt v" "wf_bitmap b'"
    "bit_cnt b' = bit_cnt b"
    "\<And>j. j < bit_cnt b \<Longrightarrow> bits_of b' ! j = (if i \<le> j \<and> j < i + cnt then \<not> v else bits_of b ! j)"
  then show ?thesis by (intro exI [of _ b'] exI [of _ i]) auto
next
  assume "bitmap_scan_and_flip b start cnt v = Some (b, BITMAP_ERROR)"
    "\<And>i. start \<le> i \<Longrightarrow> \<not> free_run b i cnt v"
  then show ?thesis using assms(1) by (intro exI [of _ b] exI [of _ BITMAP_ERROR]) auto
qed

definition sample_bitmap :: bitmap where
  "sample_bitmap = \<lparr>bit_cnt = 40, bits = [0xFFFFFFF7, 0x3]\<rparr>"

lemma sample_bitmap_wf: "wf_bitmap sample_bitmap"
  by (simp add: wf_bitmap_def sample_bitmap_def elem_cnt_def size_add_def ELEM_BITS_def)

lemma sample_bitmap_bits:
  "bits_of sample_bitmap = replicate 3 True @ [False] @ replicate 30 True @ replicate 6 False"
  by code_simp

theorem bitmap_scan_and_flip_first_fit_witness:
  "\<exists>b' i. bitmap_scan_and_flip sample_bitmap 0 4 False = Some (b', i) \<and> free_run sample_bitmap i 4 False \<and>
    (\<forall>j < 40. bits_of b' ! j = (i \<le> j \<and> j < i + 4 \<or> bits_of sample_bitmap ! j))"
proof -
  have n: "bit_cnt sample_bitmap = 40" by (simp add: sample_bitmap_def)
  have "free_run sample_bitmap 34 4 False"
    unfolding free_run_def n sample_bitmap_bits by (auto simp: nth_append)
  then show ?thesis
    using bitmap_scan_and_flip_first_fit [OF sample_bitmap_wf, of 0 4 False] unfolding n
    by (auto simp: if_distrib [of "\<lambda>x. _ = x"] split: if_splits)
qed

text \<open>
  The queries \<^verbatim>\<open>bitmap_test\<close>, \<^verbatim>\<open>bitmap_count\<close>, \<^verbatim>\<open>bitmap_any\<close>, \<^verbatim>\<open>bitmap_none\<close> and
  \<^verbatim>\<open>bitmap_all\<close> agree with the array of bits the bitmap stands for, for every range inside
  it, across element boundaries and whatever the unused bits of the last element are.
\<close>

theorem bitmap_queries_correct:
  assumes "wf_bitmap b" and "start + cnt \<le> bit_cnt b"
  shows "(\<forall>i < bit_cnt b. bitmap_test b i = Some (bits_of b ! i)) \<and>
    bitmap_count b start cnt v = Some (length (filter (\<lambda>x. x = v) (take cnt (drop start (bits_of b))))) \<and>
    bitmap_any b start cnt = Some (True \<in> set (take cnt (drop start (bits_of b)))) \<and>
    bitmap_none b start cnt = Some (True \<notin> set (take cnt (drop start (bits_of b)))) \<and>
    bitmap_all b start cnt = Some (False \<notin> set (take cnt (drop start (bits_of b))))"
proof -
  let ?xs = "take cnt (drop start (bits_of b))"
  have set_xs: "v \<in> set ?xs \<longleftrightarrow> (\<exists>j. start \<le> j \<and> j < start + cnt \<and> bits_of b ! j = v)" for v
  proof
    assume "v \<in> set ?xs"
    then obtain i where "i < cnt" "bits_of b ! (start + i) = v"
      using assms(2) by (auto simp: in_set_conv_nth simp del: nth_bits_of)
    then show "\<exists>j. start \<le> j \<and> j < start + cnt \<and> bits_of b ! j = v"
      by (intro exI [of _ "start + i"]) simp
  next
    assume "\<exists>j. start \<le> j \<and> j < start + cnt \<and> bits_of b ! j = v"
    then obtain j where "start \<le> j" "j < start + cnt" "bits_of b ! j = v" by blast
    then show "v \<in> set ?xs" using assms(2)
      by (auto simp: in_set_conv_nth intro!: exI [of _ "j - start"] simp del: nth_bits_of)
  qed
  have "bij_betw (\<lambda>k. start + k) {k. k < length ?xs \<and> ?xs ! k = v}
      {j. start \<le> j \<and> j < start + cnt \<and> bits_of b ! j = v}"
    by (rule bij_betw_byWitness [of _ "\<lambda>j. j - start"]) (use assms(2) in \<open>auto simp del: nth_bits_of\<close>)
  then have "card {k. k < length ?xs \<and> ?xs ! k = v} =
      card {j. start \<le> j \<and> j < start + cnt \<and> bits_of b ! j = v}"
    by (rule bij_betw_same_card)
  then have "bitmap_count b start cnt v = Some (length (filter (\<lambda>x. x = v) ?xs))"
    unfolding bitmap_count_ok [OF assms] length_filter_conv_card by simp
  moreover have "\<forall>i < bit_cnt b. bitmap_test b i = Some (bits_of b ! i)"
    using bitmap_test_ok [OF assms(1)] by blast
  moreover have "bitmap_any b start cnt = Some (True \<in> set ?xs)"
    unfolding bitmap_any_def bitmap_contains_ok [OF assms] set_xs ..
  moreover have "bitmap_none b start cnt = Some (True \<notin> set ?xs)"
    unfolding bitmap_none_def bitmap_contains_ok [OF assms] set_xs by simp
  moreover have "bitmap_all b start cnt = Some (False \<notin> set ?xs)"
    unfolding bitmap_all_def bitmap_contains_ok [OF assms] set_xs by simp
  ultimately show ?thesis by blast
qed

theorem bitmap_queries_correct_witness:
  "bitmap_count sample_bitmap 1 36 True = Some 32 \<and> bitmap_all sample_bitmap 4 30 = Some True"
proof -
  have "1 + 36 \<le> bit_cnt sample_bitmap" "4 + 30 \<le> bit_cnt sample_bitmap"
    by (simp_all add: sample_bitmap_def)
  then show ?thesis
    using bitmap_queries_correct [OF sample_bitmap_wf, of 1 36 True]
      bitmap_queries_correct [OF sample_bitmap_wf, of 4 30] by (simp add: sample_bitmap_bits)
qed


definition ram_write :: "u8 list \<Rightarrow> u8 list \<Rightarrow> nat \<Rightarrow> (u8 list \<times> nat) option" where
  "ram_write f buf ofs = Some (take ofs f @ buf @ drop (ofs + length buf) f, length buf)"

definition ram_read :: "u8 list \<Rightarrow> nat \<Rightarrow> nat \<Rightarrow> (u8 list \<times> u8 list) option" where
  "ram_read f n ofs = Some (f, take n (drop ofs f))"


end
