(* ===== verification/Palloc.thy ===== *)
theory Palloc
  imports Bitmap
begin

unbundle bit_operations_syntax

section \<open>The page allocator (threads/palloc.c, threads/vaddr.h)\<close>

text \<open>
  The allocator divides the memory above 1 MB between a kernel and a user pool and hands out
  runs of 4096-byte pages, recorded in a bitmap per pool. Addresses are natural numbers below
  \<open>2 ^ 32\<close>, with the wrap-around of address arithmetic written out; 0 is the null pointer.
  \<open>ram\<close> is the byte memory that \<^verbatim>\<open>PAL_ZERO\<close> and the debugging fill of
  \<^verbatim>\<open>palloc_free_multiple\<close> write. The bitmap of a pool is kept as a value beside the memory:
  it lies in the pages in front of the pool's base, which are never handed out.

  A lock is represented by its holder. \<open>take_lock\<close> and \<open>drop_lock\<close> are \<^verbatim>\<open>lock_acquire\<close> and
  \<^verbatim>\<open>lock_release\<close> of a caller that does not have to wait; acquiring a lock that is held stops
  the run, so a theorem that the operation returns also says that no path leaves it locked.
\<close>

definition take_lock :: "nat \<Rightarrow> nat option \<Rightarrow> nat option option" where
  "take_lock cur holder = do { _ \<leftarrow> ASSERT (holder = None); Some (Some cur) }"

definition drop_lock :: "nat \<Rightarrow> nat option \<Rightarrow> nat option option" where
  "drop_lock cur holder = do { _ \<leftarrow> ASSERT (holder = Some cur); Some None }"

lemma take_lock_free [simp]: "take_lock cur None = Some (Some cur)"
  by (simp add: take_lock_def)

lemma drop_lock_mine [simp]: "drop_lock cur (Some cur) = Some None"
  by (simp add: drop_lock_def)

subsection \<open>Virtual addresses\<close>

definition PGBITS :: nat where "PGBITS = 12"

definition PGSIZE :: nat where "PGSIZE = 4096"

definition PGMASK :: nat where "PGMASK = 4095"

definition PHYS_BASE :: nat where "PHYS_BASE = 0xc0000000"

definition addr :: "nat \<Rightarrow> nat" where "addr a = a mod 2 ^ 32"

definition pg_ofs :: "nat \<Rightarrow> nat" where "pg_ofs va = va AND PGMASK"

definition pg_no :: "nat \<Rightarrow> nat" where "pg_no va = drop_bit PGBITS va"

definition pg_round_down :: "nat \<Rightarrow> nat" where
  "pg_round_down va = push_bit PGBITS (drop_bit PGBITS va)"

definition pg_round_up :: "nat \<Rightarrow> nat" where
  "pg_round_up va = push_bit PGBITS (drop_bit PGBITS (addr (va + PGSIZE - 1)))"

definition is_user_vaddr :: "nat \<Rightarrow> bool" where "is_user_vaddr vaddr \<longleftrightarrow> vaddr < PHYS_BASE"

definition is_kernel_vaddr :: "nat \<Rightarrow> bool" where "is_kernel_vaddr vaddr \<longleftrightarrow> vaddr \<ge> PHYS_BASE"

definition ptov :: "nat \<Rightarrow> nat option" where
  "ptov paddr = do { _ \<leftarrow> ASSERT (paddr < PHYS_BASE); Some (addr (paddr + PHYS_BASE)) }"

definition vtop :: "nat \<Rightarrow> nat option" where
  "vtop vaddr = do { _ \<leftarrow> ASSERT (is_kernel_vaddr vaddr); Some (vaddr - PHYS_BASE) }"

subsection \<open>Pools\<close>

record pool =
  lock_holder :: "nat option"
  used_map :: bitmap
  base :: nat

record page_allocator =
  kernel_pool :: pool
  user_pool :: pool
  ram :: "nat \<Rightarrow> u8"

definition PAL_ASSERT :: u32 where "PAL_ASSERT = 1"
definition PAL_ZERO :: u32 where "PAL_ZERO = 2"
definition PAL_USER :: u32 where "PAL_USER = 4"

definition memset_ram :: "(nat \<Rightarrow> u8) \<Rightarrow> nat \<Rightarrow> u8 \<Rightarrow> nat \<Rightarrow> (nat \<Rightarrow> u8)" where
  "memset_ram m dst v n = (\<lambda>a. if dst \<le> a \<and> a < dst + n then v else m a)"

definition words_at :: "(nat \<Rightarrow> u8) \<Rightarrow> nat \<Rightarrow> nat \<Rightarrow> u32 list" where
  "words_at m a n = map (\<lambda>i. le_word (m (a + 4 * i)) (m (a + 4 * i + 1)) (m (a + 4 * i + 2))
     (m (a + 4 * i + 3))) [0..<n]"

text \<open>
  \<^verbatim>\<open>init_pool\<close>: the bitmap is created in the first \<^verbatim>\<open>bm_pages\<close> pages, over whatever the
  memory holds there; its header takes 8 bytes.
\<close>

definition init_pool :: "(nat \<Rightarrow> u8) \<Rightarrow> nat \<Rightarrow> size_t \<Rightarrow> pool option" where
  "init_pool m start page_cnt = do {
     let bm_pages = DIV_ROUND_UP (bitmap_buf_size page_cnt) PGSIZE;
     _ \<leftarrow> ASSERT (bm_pages \<le> page_cnt);
     let page_cnt = page_cnt - bm_pages;
     b \<leftarrow> bitmap_create_in_buf page_cnt (words_at m (start + 8) ((bm_pages * PGSIZE - 8) div 4))
            (bm_pages * PGSIZE);
     Some \<lparr>lock_holder = None, used_map = b, base = addr (start + bm_pages * PGSIZE)\<rparr> }"

definition palloc_init :: "nat \<Rightarrow> (nat \<Rightarrow> u8) \<Rightarrow> size_t \<Rightarrow> page_allocator option" where
  "palloc_init init_ram_pages m user_page_limit = do {
     free_start \<leftarrow> ptov (1024 * 1024);
     free_end \<leftarrow> ptov (init_ram_pages * PGSIZE);
     let free_pages = (free_end - free_start) div PGSIZE;
     let user_pages = free_pages div 2;
     let user_pages = (if user_pages > user_page_limit then user_page_limit else user_pages);
     let kernel_pages = free_pages - user_pages;
     k \<leftarrow> init_pool m free_start kernel_pages;
     u \<leftarrow> init_pool m (addr (free_start + kernel_pages * PGSIZE)) user_pages;
     Some \<lparr>kernel_pool = k, user_pool = u, ram = m\<rparr> }"

definition pool_of :: "bool \<Rightarrow> page_allocator \<Rightarrow> pool" where
  "pool_of user s = (if user then user_pool s else kernel_pool s)"

definition set_pool :: "bool \<Rightarrow> pool \<Rightarrow> page_allocator \<Rightarrow> page_allocator" where
  "set_pool user p s = (if user then s\<lparr>user_pool := p\<rparr> else s\<lparr>kernel_pool := p\<rparr>)"

definition page_from_pool :: "pool \<Rightarrow> nat \<Rightarrow> bool" where
  "page_from_pool p page =
     (let page_no = pg_no page; start_page = pg_no (base p);
          end_page = size_add start_page (bitmap_size (used_map p))
      in page_no \<ge> start_page \<and> page_no < end_page)"

definition palloc_get_multiple ::
  "nat \<Rightarrow> u32 \<Rightarrow> size_t \<Rightarrow> page_allocator \<Rightarrow> (page_allocator \<times> nat) option" where
  "palloc_get_multiple cur flags page_cnt s =
     (if page_cnt = 0 then Some (s, 0)
      else do {
        let user = (flags AND PAL_USER \<noteq> 0);
        let p = pool_of user s;
        holder \<leftarrow> take_lock cur (lock_holder p);
        (b, page_idx) \<leftarrow> bitmap_scan_and_flip (used_map p) 0 page_cnt False;
        holder \<leftarrow> drop_lock cur holder;
        let s = set_pool user (p\<lparr>lock_holder := holder, used_map := b\<rparr>) s;
        let pages = (if page_idx \<noteq> BITMAP_ERROR then addr (base p + PGSIZE * page_idx) else 0);
        if pages \<noteq> 0
        then Some (if flags AND PAL_ZERO \<noteq> 0
                   then s\<lparr>ram := memset_ram (ram s) pages 0 (addr (PGSIZE * page_cnt))\<rparr> else s, pages)
        else do { _ \<leftarrow> ASSERT (flags AND PAL_ASSERT = 0); Some (s, pages) } })"

definition palloc_get_page :: "nat \<Rightarrow> u32 \<Rightarrow> page_allocator \<Rightarrow> (page_allocator \<times> nat) option" where
  "palloc_get_page cur flags s = palloc_get_multiple cur flags 1 s"

definition palloc_free_multiple :: "nat \<Rightarrow> size_t \<Rightarrow> page_allocator \<Rightarrow> page_allocator option" where
  "palloc_free_multiple pages page_cnt s = do {
     _ \<leftarrow> ASSERT (pg_ofs pages = 0);
     if pages = 0 \<or> page_cnt = 0 then Some s
     else do {
       user \<leftarrow> (if page_from_pool (kernel_pool s) pages then Some False
                else if page_from_pool (user_pool s) pages then Some True
                else None);
       let p = pool_of user s;
       let page_idx = pg_no pages - pg_no (base p);
       let s = s\<lparr>ram := memset_ram (ram s) pages 0xcc (addr (PGSIZE * page_cnt))\<rparr>;
       all_used \<leftarrow> bitmap_all (used_map p) page_idx page_cnt;
       _ \<leftarrow> ASSERT all_used;
       b \<leftarrow> bitmap_set_multiple (used_map p) page_idx page_cnt False;
       Some (set_pool user (p\<lparr>used_map := b\<rparr>) s) } }"

definition palloc_free_page :: "nat \<Rightarrow> page_allocator \<Rightarrow> page_allocator option" where
  "palloc_free_page page s = palloc_free_multiple page 1 s"

subsection \<open>Address arithmetic\<close>

lemma addr_small [simp]: "a < 2 ^ 32 \<Longrightarrow> addr a = a"
  by (simp add: addr_def)

lemma pg_ofs_mod: "pg_ofs va = va mod 4096"
proof -
  have "va AND PGMASK = take_bit 12 va" by (simp add: take_bit_eq_mask PGMASK_def mask_eq_exp_minus_1)
  then show ?thesis by (simp add: pg_ofs_def take_bit_eq_mod)
qed

lemma pg_no_div: "pg_no va = va div 4096"
  by (simp add: pg_no_def PGBITS_def drop_bit_eq_div)

lemma pg_round_down_eq: "pg_round_down va = va div 4096 * 4096"
  by (simp add: pg_round_down_def PGBITS_def drop_bit_eq_div push_bit_eq_mult)

lemma pg_round_down_ofs: "pg_round_down va + pg_ofs va = va"
  by (simp add: pg_round_down_eq pg_ofs_mod)

lemma vtop_ptov: "paddr < 2 ^ 30 \<Longrightarrow> ptov paddr \<bind> vtop = Some paddr"
  by (simp add: ptov_def vtop_def is_kernel_vaddr_def PHYS_BASE_def)

lemma set_pool_sel [simp]:
  "pool_of v (set_pool u p s) = (if u = v then p else pool_of v s)"
  "ram (set_pool u p s) = ram s"
  "pool_of v (s\<lparr>ram := m\<rparr>) = pool_of v s"
  by (simp_all add: pool_of_def set_pool_def)

subsection \<open>The invariant and the pages in use\<close>

definition wf_pool :: "pool \<Rightarrow> bool" where
  "wf_pool p \<longleftrightarrow> lock_holder p = None \<and> wf_bitmap (used_map p) \<and> 0 < base p \<and> base p mod 4096 = 0 \<and>
     base p + 4096 * bit_cnt (used_map p) \<le> 2 ^ 32"

definition wf_palloc :: "page_allocator \<Rightarrow> bool" where
  "wf_palloc s \<longleftrightarrow> wf_pool (kernel_pool s) \<and> wf_pool (user_pool s) \<and>
     base (kernel_pool s) + 4096 * bit_cnt (used_map (kernel_pool s)) \<le> base (user_pool s)"

definition in_pool :: "pool \<Rightarrow> nat \<Rightarrow> nat \<Rightarrow> bool" where
  "in_pool p a n \<longleftrightarrow> (\<exists>i. a = base p + 4096 * i \<and> i + n \<le> bit_cnt (used_map p))"

definition used_bytes :: "pool \<Rightarrow> nat set" where
  "used_bytes p = {a. base p \<le> a \<and> a < base p + 4096 * bit_cnt (used_map p) \<and>
     bits_of (used_map p) ! ((a - base p) div 4096)}"

definition page_span :: "nat \<Rightarrow> nat \<Rightarrow> nat set" where
  "page_span a n = {a ..< a + 4096 * n}"

lemma wf_pool_of: "wf_palloc s \<Longrightarrow> wf_pool (pool_of u s)"
  by (simp add: wf_palloc_def pool_of_def)

lemma page_span_idx:
  "a \<in> page_span (b + 4096 * i) n \<longleftrightarrow> b \<le> a \<and> i \<le> (a - b) div 4096 \<and> (a - b) div 4096 < i + n"
proof -
  have "(i \<le> (a - b) div 4096 \<and> (a - b) div 4096 < i + n) = (4096 * i \<le> a - b \<and> a - b < 4096 * (i + n))"
    by (simp add: less_eq_div_iff_mult_less_eq div_less_iff_less_mult mult.commute)
  then show ?thesis by (auto simp: page_span_def algebra_simps)
qed

lemma used_bytes_update:
  assumes "bit_cnt b' = bit_cnt (used_map p)"
    and "\<And>j. j < bit_cnt (used_map p) \<Longrightarrow>
      bits_of b' ! j = (if i \<le> j \<and> j < i + n then v else bits_of (used_map p) ! j)"
    and "i + n \<le> bit_cnt (used_map p)"
  shows "used_bytes (p\<lparr>lock_holder := h, used_map := b'\<rparr>) =
    (if v then used_bytes p \<union> page_span (base p + 4096 * i) n
     else used_bytes p - page_span (base p + 4096 * i) n)"
proof -
  have idx: "base p \<le> a \<Longrightarrow> a < base p + 4096 * bit_cnt (used_map p) \<longleftrightarrow>
      (a - base p) div 4096 < bit_cnt (used_map p)" for a
    by (subst div_less_iff_less_mult) auto
  show ?thesis
    using assms(3) by (auto simp: used_bytes_def assms(1) idx assms(2) page_span_idx simp del: nth_bits_of split: if_splits)
qed

lemma page_from_pool_iff:
  assumes "wf_pool p"
  shows "page_from_pool p a \<longleftrightarrow> base p \<le> a \<and> a < base p + 4096 * bit_cnt (used_map p)"
proof -
  obtain q where q: "base p = 4096 * q" using assms by (auto simp: wf_pool_def elim: dvdE simp: dvd_eq_mod_eq_0 [symmetric])
  have "size_add q (bit_cnt (used_map p)) = q + bit_cnt (used_map p)"
    using assms by (intro size_add_small) (simp add: wf_pool_def q)
  then show ?thesis
    by (auto simp: page_from_pool_def pg_no_div q bitmap_size_def Let_def
        less_eq_div_iff_mult_less_eq div_less_iff_less_mult algebra_simps)
qed

definition in_some_pool :: "page_allocator \<Rightarrow> nat \<Rightarrow> nat \<Rightarrow> bool" where
  "in_some_pool s a n \<longleftrightarrow> 0 < n \<and> (\<exists>u. in_pool (pool_of u s) a n)"

definition used_ram :: "page_allocator \<Rightarrow> nat set" where
  "used_ram s = used_bytes (kernel_pool s) \<union> used_bytes (user_pool s)"

lemma pools_apart:
  assumes "wf_palloc s" and "in_pool (pool_of u s) a n" and "u \<noteq> v"
  shows "page_span a n \<inter> used_bytes (pool_of v s) = {}"
proof -
  have "\<And>i. i + n \<le> bit_cnt (used_map (pool_of u s)) \<Longrightarrow>
      4096 * i + 4096 * n \<le> 4096 * bit_cnt (used_map (pool_of u s))" by linarith
  then show ?thesis
    using assms by (cases u; cases v)
      (fastforce simp: in_pool_def page_span_def used_bytes_def wf_palloc_def pool_of_def)+
qed

lemma used_ram_split: "used_ram s = used_bytes (pool_of u s) \<union> used_bytes (pool_of (\<not> u) s)"
  by (auto simp: used_ram_def pool_of_def)

lemma wf_palloc_set_pool:
  assumes "wf_palloc s" and "wf_bitmap b" and "bit_cnt b = bit_cnt (used_map (pool_of u s))"
  shows "wf_palloc (set_pool u ((pool_of u s)\<lparr>lock_holder := None, used_map := b\<rparr>) s)"
  using assms by (auto simp: wf_palloc_def wf_pool_def set_pool_def pool_of_def)

lemma wf_palloc_ram [simp]: "wf_palloc (s\<lparr>ram := m\<rparr>) = wf_palloc s"
  by (simp add: wf_palloc_def)

lemma used_ram_ram [simp]: "used_ram (s\<lparr>ram := m\<rparr>) = used_ram s"
  by (simp add: used_ram_def)

subsection \<open>Allocation\<close>

definition free_pages :: "pool \<Rightarrow> nat \<Rightarrow> nat \<Rightarrow> bool" where
  "free_pages p i n \<longleftrightarrow> free_run (used_map p) i n False"

lemma palloc_get_multiple_ok:
  assumes wf: "wf_palloc s" and n: "0 < n" and u: "u = (flags AND PAL_USER \<noteq> 0)"
  defines "p \<equiv> pool_of u s"
  obtains (found) i s' where "palloc_get_multiple cur flags n s = Some (s', base p + 4096 * i)"
      "free_pages p i n" "\<And>k. k < i \<Longrightarrow> \<not> free_pages p k n"
      "wf_palloc s'" "used_bytes (pool_of u s') = used_bytes p \<union> page_span (base p + 4096 * i) n"
      "pool_of (\<not> u) s' = pool_of (\<not> u) s"
      "base (pool_of u s') = base p" "bit_cnt (used_map (pool_of u s')) = bit_cnt (used_map p)"
      "ram s' = (if flags AND PAL_ZERO \<noteq> 0 then memset_ram (ram s) (base p + 4096 * i) 0 (4096 * n) else ram s)"
  | (none) "\<And>k. \<not> free_pages p k n"
      "palloc_get_multiple cur flags n s = (if flags AND PAL_ASSERT = 0 then Some (s, 0) else None)"
proof -
  have wfp: "wf_pool p" using wf_pool_of [OF wf] by (simp add: p_def)
  then have wfb: "wf_bitmap (used_map p)" and lk: "lock_holder p = None" by (simp_all add: wf_pool_def)
  show ?thesis
  proof (rule bitmap_scan_and_flip_ok [OF wfb, of 0 n False])
    fix b i
    assume sc: "bitmap_scan_and_flip (used_map p) 0 n False = Some (b, i)" and ne: "i \<noteq> BITMAP_ERROR"
      and fr: "free_run (used_map p) i n False"
      and least: "\<And>k. 0 \<le> k \<Longrightarrow> k < i \<Longrightarrow> \<not> free_run (used_map p) k n False"
      and b: "wf_bitmap b" "bit_cnt b = bit_cnt (used_map p)"
      and upd: "\<And>j. j < bit_cnt (used_map p) \<Longrightarrow>
        bits_of b ! j = (if i \<le> j \<and> j < i + n then \<not> False else bits_of (used_map p) ! j)"
    let ?s = "set_pool u (p\<lparr>lock_holder := None, used_map := b\<rparr>) s"
    have le: "i + n \<le> bit_cnt (used_map p)" using fr by (simp add: free_run_def)
    have lim: "base p + 4096 * bit_cnt (used_map p) \<le> 2 ^ 32" "0 < base p"
      using wfp by (simp_all add: wf_pool_def)
    have a: "addr (base p + PGSIZE * i) = base p + 4096 * i" "addr (PGSIZE * n) = 4096 * n"
      using le lim n by (simp_all add: PGSIZE_def)
    have wf': "wf_palloc ?s" unfolding p_def
      by (rule wf_palloc_set_pool) (use wf b in \<open>simp_all add: p_def\<close>)
    have used: "used_bytes (p\<lparr>lock_holder := None, used_map := b\<rparr>) =
        used_bytes p \<union> page_span (base p + 4096 * i) n"
      using used_bytes_update [OF b(2) upd le] by simp
    define s' where "s' = (if flags AND PAL_ZERO \<noteq> 0
      then ?s\<lparr>ram := memset_ram (ram s) (base p + 4096 * i) 0 (4096 * n)\<rparr> else ?s)"
    have "palloc_get_multiple cur flags n s = Some (s', base p + 4096 * i)"
      using n lk sc ne a lim by (simp add: palloc_get_multiple_def u [symmetric] p_def [symmetric] s'_def Let_def)
    then show thesis
      by (rule found) (use fr least wf' used b(2) in \<open>simp_all add: s'_def free_pages_def p_def [symmetric]\<close>)
  next
    assume sc: "bitmap_scan_and_flip (used_map p) 0 n False = Some (used_map p, BITMAP_ERROR)"
      and no: "\<And>i. 0 \<le> i \<Longrightarrow> \<not> free_run (used_map p) i n False"
    have "set_pool u (p\<lparr>lock_holder := None, used_map := used_map p\<rparr>) s = s"
      using lk by (cases u) (simp_all add: p_def pool_of_def set_pool_def)
    then have "palloc_get_multiple cur flags n s = (if flags AND PAL_ASSERT = 0 then Some (s, 0) else None)"
      using n lk sc by (simp add: palloc_get_multiple_def u [symmetric] p_def [symmetric])
    with no show thesis by (intro none) (simp_all add: free_pages_def)
  qed simp
qed

subsection \<open>Release\<close>

lemma palloc_free_multiple_ok:
  assumes wf: "wf_palloc s" and a: "in_pool (pool_of u s) a n" and n: "0 < n"
    and used: "page_span a n \<subseteq> used_bytes (pool_of u s)"
  defines "p \<equiv> pool_of u s"
  obtains b where "palloc_free_multiple a n s = Some (set_pool u (p\<lparr>used_map := b\<rparr>)
      (s\<lparr>ram := memset_ram (ram s) a 0xcc (4096 * n)\<rparr>))"
    and "wf_bitmap b" and "bit_cnt b = bit_cnt (used_map p)"
    and "\<And>j. j < bit_cnt b \<Longrightarrow> bits_of b ! j =
       (if (a - base p) div 4096 \<le> j \<and> j < (a - base p) div 4096 + n then False else bits_of (used_map p) ! j)"
proof -
  have wfp: "wf_pool p" using wf_pool_of [OF wf] by (simp add: p_def)
  then have wfb: "wf_bitmap (used_map p)" by (simp add: wf_pool_def)
  from a obtain i where i: "a = base p + 4096 * i" "i + n \<le> bit_cnt (used_map p)"
    by (auto simp: in_pool_def p_def)
  then have idx: "(a - base p) div 4096 = i" by simp
  have lim: "base p + 4096 * bit_cnt (used_map p) \<le> 2 ^ 32" "0 < base p" "base p mod 4096 = 0"
    using wfp by (simp_all add: wf_pool_def)
  have al: "pg_ofs a = 0" "addr (PGSIZE * n) = 4096 * n" "a \<noteq> 0" "pg_no a - pg_no (base p) = i"
    using lim i n by (simp_all add: pg_ofs_mod pg_no_div PGSIZE_def mod_add_eq [symmetric])
  have bits: "bits_of (used_map p) ! j" if "i \<le> j" "j < i + n" for j
  proof -
    have "base p + 4096 * j \<in> page_span a n" using that by (simp add: page_span_idx i)
    then show ?thesis using used by (auto simp: used_bytes_def p_def [symmetric])
  qed
  obtain b where b: "bitmap_set_multiple (used_map p) i n False = Some b" "wf_bitmap b"
    "bit_cnt b = bit_cnt (used_map p)"
    "\<And>j. j < bit_cnt (used_map p) \<Longrightarrow> bits_of b ! j = (if i \<le> j \<and> j < i + n then False else bits_of (used_map p) ! j)"
    by (rule bitmap_set_multiple_ok [OF wfb i(2), of False]) blast
  have fp: "page_from_pool p a" using i n by (simp add: page_from_pool_iff [OF wfp])
  have sel: "(if page_from_pool (kernel_pool s) a then Some False
       else if page_from_pool (user_pool s) a then Some True else None) = Some u"
  proof (cases u)
    case True
    then have "\<not> page_from_pool (kernel_pool s) a"
      using wf i page_from_pool_iff [of "kernel_pool s" a] by (simp add: wf_palloc_def p_def pool_of_def)
    then show ?thesis using True fp by (simp add: p_def pool_of_def)
  next
    case False
    then show ?thesis using fp by (simp add: p_def pool_of_def)
  qed
  have "bitmap_all (used_map p) i n = Some True"
    using bits by (simp add: bitmap_all_ok [OF wfb i(2)] del: nth_bits_of)
  then have "palloc_free_multiple a n s = Some (set_pool u (p\<lparr>used_map := b\<rparr>)
      (s\<lparr>ram := memset_ram (ram s) a 0xcc (4096 * n)\<rparr>))"
    unfolding palloc_free_multiple_def sel using al n b(1) by (simp add: p_def [symmetric] Let_def)
  then show ?thesis by (rule that) (use b idx in simp_all)
qed

text \<open>The page allocator as an allocator of runs of bytes, for requests of either pool.\<close>

definition get_pages :: "nat \<Rightarrow> page_allocator \<Rightarrow> u32 \<times> nat \<Rightarrow> (page_allocator \<times> nat option) option" where
  "get_pages cur s r = do {
     (s, pages) \<leftarrow> palloc_get_multiple cur (fst r) (snd r) s;
     Some (s, if pages = 0 then None else Some pages) }"

definition page_request :: "u32 \<times> nat \<Rightarrow> bool" where
  "page_request r \<longleftrightarrow> fst r AND PAL_ASSERT = 0"

definition put_pages :: "page_allocator \<Rightarrow> nat \<Rightarrow> nat \<Rightarrow> page_allocator option" where
  "put_pages s a n = palloc_free_multiple a n s"

lemma in_pool_update [simp]:
  "bit_cnt b = bit_cnt (used_map p) \<Longrightarrow> in_pool (p\<lparr>lock_holder := h, used_map := b\<rparr>) a n = in_pool p a n"
  by (simp add: in_pool_def)

lemma get_pages_law:
  assumes wf: "wf_palloc s" and r: "page_request r"
  shows "\<exists>s' p. get_pages cur s r = Some (s', p) \<and> wf_palloc s' \<and>
    (case p of None \<Rightarrow> used_ram s' = used_ram s
     | Some a \<Rightarrow> in_some_pool s' a (snd r) \<and> page_span a (snd r) \<inter> used_ram s = {} \<and>
         used_ram s' = used_ram s \<union> page_span a (snd r)) \<and>
    (\<forall>a n. in_some_pool s' a n = in_some_pool s a n)"
proof (cases "snd r = 0")
  case True
  then show ?thesis using wf by (auto simp: get_pages_def palloc_get_multiple_def)
next
  case False
  define u where "u = (fst r AND PAL_USER \<noteq> 0)"
  define q where "q = pool_of u s"
  have flag: "fst r AND PAL_ASSERT = 0" using r by (simp add: page_request_def)
  have n: "0 < snd r" using False by simp
  show ?thesis
  proof (rule palloc_get_multiple_ok [OF wf n u_def, of cur, folded q_def])
    fix i s'
    let ?a = "base q + 4096 * i"
    assume s': "palloc_get_multiple cur (fst r) (snd r) s = Some (s', ?a)" "free_pages q i (snd r)"
      "wf_palloc s'" "used_bytes (pool_of u s') = used_bytes q \<union> page_span ?a (snd r)"
      "pool_of (\<not> u) s' = pool_of (\<not> u) s"
      "base (pool_of u s') = base q" "bit_cnt (used_map (pool_of u s')) = bit_cnt (used_map q)"
    have inq: "in_pool (pool_of u s) ?a (snd r)" using s'(2) by (auto simp: in_pool_def free_pages_def free_run_def q_def)
    have keep: "in_pool (pool_of v s') = in_pool (pool_of v s)" for v
      using s'(5-7) by (cases "v = u") (auto simp: fun_eq_iff q_def in_pool_def)
    have fresh: "page_span ?a (snd r) \<inter> used_bytes q = {}"
      using s'(2) by (auto simp: used_bytes_def page_span_idx free_pages_def free_run_def simp del: nth_bits_of)
    moreover have "page_span ?a (snd r) \<inter> used_bytes (pool_of (\<not> u) s) = {}"
      by (rule pools_apart [OF wf inq]) simp
    moreover have "0 < ?a" using wf_pool_of [OF wf, of u] by (simp add: wf_pool_def q_def)
    ultimately show ?thesis using s' inq keep n
      by (auto simp: get_pages_def used_ram_split [of _ u] in_some_pool_def q_def)
  next
    assume "palloc_get_multiple cur (fst r) (snd r) s = (if fst r AND PAL_ASSERT = 0 then Some (s, 0) else None)"
    then show ?thesis using flag wf by (simp add: get_pages_def)
  qed
qed

lemma put_pages_law:
  assumes wf: "wf_palloc s" and run: "in_some_pool s a n" and used: "page_span a n \<subseteq> used_ram s"
  shows "\<exists>s'. put_pages s a n = Some s' \<and> wf_palloc s' \<and> used_ram s' = used_ram s - page_span a n \<and>
    (\<forall>a n. in_some_pool s' a n = in_some_pool s a n)"
proof -
  from run obtain u where u: "in_pool (pool_of u s) a n" and n: "0 < n" by (auto simp: in_some_pool_def)
  define p where "p = pool_of u s"
  have other: "page_span a n \<inter> used_bytes (pool_of (\<not> u) s) = {}" by (rule pools_apart [OF wf u]) simp
  then have mine: "page_span a n \<subseteq> used_bytes (pool_of u s)" using used unfolding used_ram_split [of s u] by blast
  obtain b where b: "palloc_free_multiple a n s = Some (set_pool u (p\<lparr>used_map := b\<rparr>)
      (s\<lparr>ram := memset_ram (ram s) a 0xcc (4096 * n)\<rparr>))" "wf_bitmap b" "bit_cnt b = bit_cnt (used_map p)"
    "\<And>j. j < bit_cnt b \<Longrightarrow> bits_of b ! j =
       (if (a - base p) div 4096 \<le> j \<and> j < (a - base p) div 4096 + n then False else bits_of (used_map p) ! j)"
    by (rule palloc_free_multiple_ok [OF wf u n mine, folded p_def]) blast
  from u obtain i where i: "a = base p + 4096 * i" "i + n \<le> bit_cnt (used_map p)"
    by (auto simp: in_pool_def p_def)
  have lk: "lock_holder p = None" using wf_pool_of [OF wf, of u] by (simp add: wf_pool_def p_def)
  let ?s = "set_pool u (p\<lparr>used_map := b\<rparr>) (s\<lparr>ram := memset_ram (ram s) a 0xcc (4096 * n)\<rparr>)"
  have eq: "?s = (set_pool u (p\<lparr>lock_holder := None, used_map := b\<rparr>) s)\<lparr>ram := memset_ram (ram s) a 0xcc (4096 * n)\<rparr>"
    using lk by (cases u) (simp_all add: set_pool_def)
  have "used_bytes (p\<lparr>lock_holder := None, used_map := b\<rparr>) = used_bytes p - page_span (base p + 4096 * i) n"
    using used_bytes_update [OF b(3), of i n False] b(3,4) i by simp
  then have ur: "used_ram ?s = used_ram s - page_span a n"
    using other unfolding eq by (auto simp: used_ram_split [of _ u] p_def i)
  have "wf_palloc (set_pool u (p\<lparr>lock_holder := None, used_map := b\<rparr>) s)" unfolding p_def
    by (rule wf_palloc_set_pool) (use wf b(2,3) in \<open>simp_all add: p_def\<close>)
  then have "wf_palloc ?s" unfolding eq by simp
  moreover have "in_pool (pool_of v ?s) = in_pool (pool_of v s)" for v
    using b(3) by (cases "v = u") (auto simp: fun_eq_iff p_def in_pool_def)
  ultimately show ?thesis using b(1) ur by (auto simp: put_pages_def in_some_pool_def)
qed

interpretation page_runs: run_allocator wf_palloc used_ram page_span page_request snd "get_pages cur"
  put_pages in_some_pool for cur
proof
  fix s r assume "wf_palloc s" "page_request r"
  from get_pages_law [OF this, of cur] show "\<exists>s' p. get_pages cur s r = Some (s', p) \<and> wf_palloc s' \<and>
      (case p of None \<Rightarrow> used_ram s' = used_ram s
       | Some i \<Rightarrow> in_some_pool s' i (snd r) \<and> page_span i (snd r) \<inter> used_ram s = {} \<and>
           used_ram s' = used_ram s \<union> page_span i (snd r)) \<and>
      (\<forall>j m. in_some_pool s j m \<longrightarrow> in_some_pool s' j m)"
    by (elim exE conjE) (intro exI conjI, assumption+, simp)
next
  fix s i n assume "wf_palloc s" "in_some_pool s i n" "page_span i n \<subseteq> used_ram s"
  from put_pages_law [OF this] show "\<exists>s'. put_pages s i n = Some s' \<and> wf_palloc s' \<and>
      used_ram s' = used_ram s - page_span i n \<and>
      (\<forall>j m. in_some_pool s j m \<and> page_span j m \<inter> page_span i n = {} \<longrightarrow> in_some_pool s' j m)"
    by (elim exE conjE) (intro exI conjI, assumption+, simp)
qed

subsection \<open>Initialisation\<close>

lemma bitmap_pages_fit:
  assumes "0 < n" and "n < 2 ^ 20"
  shows "DIV_ROUND_UP (bitmap_buf_size n) PGSIZE \<le> n"
    and "elem_cnt (n - m) \<le> (DIV_ROUND_UP (bitmap_buf_size n) PGSIZE * PGSIZE - 8) div 4"
    and "bitmap_buf_size (n - m) \<le> DIV_ROUND_UP (bitmap_buf_size n) PGSIZE * PGSIZE"
proof -
  have e: "elem_cnt n = DIV_ROUND_UP n 32" "elem_cnt (n - m) = DIV_ROUND_UP (n - m) 32"
    using assms by (simp_all add: elem_cnt_ok)
  have "DIV_ROUND_UP n 32 \<le> n" using assms by (simp add: DIV_ROUND_UP_le_iff)
  then have "8 + 4 * DIV_ROUND_UP n 32 \<le> n * 4096" using assms by linarith
  then show "DIV_ROUND_UP (bitmap_buf_size n) PGSIZE \<le> n" by (simp add: DIV_ROUND_UP_le_iff PGSIZE_def bitmap_buf_size_def byte_cnt_def e)
  have "n \<le> DIV_ROUND_UP n 32 * 32" using DIV_ROUND_UP_ge [of 32 n] by simp
  then have le: "DIV_ROUND_UP (n - m) 32 \<le> DIV_ROUND_UP n 32"
    by (subst DIV_ROUND_UP_le_iff) auto
  have "bitmap_buf_size n \<le> DIV_ROUND_UP (bitmap_buf_size n) PGSIZE * PGSIZE"
    using DIV_ROUND_UP_ge [of PGSIZE "bitmap_buf_size n"] by (simp add: PGSIZE_def)
  then show "elem_cnt (n - m) \<le> (DIV_ROUND_UP (bitmap_buf_size n) PGSIZE * PGSIZE - 8) div 4"
    and "bitmap_buf_size (n - m) \<le> DIV_ROUND_UP (bitmap_buf_size n) PGSIZE * PGSIZE"
    using le by (auto simp: bitmap_buf_size_def byte_cnt_def e)
qed

lemma init_pool_ok:
  assumes "0 < n" and "n < 2 ^ 20" and "0 < start" and "start mod 4096 = 0" and "start + 4096 * n < 2 ^ 32"
  obtains p where "init_pool m start n = Some p" and "wf_pool p" and "used_bytes p = {}"
    and "start \<le> base p" and "base p + 4096 * bit_cnt (used_map p) = start + 4096 * n"
proof -
  define k where "k = DIV_ROUND_UP (bitmap_buf_size n) PGSIZE"
  define ws where "ws = words_at m (start + 8) ((k * PGSIZE - 8) div 4)"
  note fit = bitmap_pages_fit(1) [OF assms(1,2), folded k_def] bitmap_pages_fit(2,3) [OF assms(1,2), of k, folded k_def]
  have "wf_bitmap \<lparr>bit_cnt = n - k, bits = ws\<rparr>"
    using assms(2) fit(2) by (simp add: wf_bitmap_def ws_def words_at_def)
  then obtain b where b: "bitmap_set_all \<lparr>bit_cnt = n - k, bits = ws\<rparr> False = Some b" "wf_bitmap b"
    "bit_cnt b = n - k" "bits_of b = replicate (n - k) False"
    by (rule bitmap_set_all_ok [where v = False]) simp
  let ?p = "\<lparr>lock_holder = None, used_map = b, base = addr (start + k * PGSIZE)\<rparr>"
  have init: "init_pool m start n = Some ?p"
    using fit(1,3) b(1) by (simp add: init_pool_def k_def [symmetric] ws_def [symmetric] Let_def bitmap_create_in_buf_def)
  have a: "addr (start + k * PGSIZE) = start + 4096 * k"
    using fit(1) assms(5) by (simp add: PGSIZE_def)
  have "wf_pool ?p" unfolding wf_pool_def a
    using assms fit(1) b by (auto simp: a mod_add_eq [symmetric])
  moreover have "used_bytes ?p = {}"
  proof -
    have "\<not> bits_of b ! ((x - start') div 4096)" if "start' \<le> x" "x < start' + 4096 * (n - k)" for x start'
    proof -
      have "(x - start') div 4096 < n - k" using that by (subst div_less_iff_less_mult) auto
      then show ?thesis by (simp add: b(4))
    qed
    then show ?thesis by (auto simp: used_bytes_def b(3))
  qed
  ultimately show ?thesis using fit(1) by (intro that [OF init]) (auto simp: a b(3))
qed

lemma palloc_init_ok:
  assumes ram: "258 \<le> init_ram_pages" "init_ram_pages < 2 ^ 18" and lim: "0 < user_page_limit"
  obtains s where "palloc_init init_ram_pages m user_page_limit = Some s" and "wf_palloc s" and "used_ram s = {}"
    and "0xc0100000 \<le> base (kernel_pool s)"
    and "base (user_pool s) + 4096 * bit_cnt (used_map (user_pool s)) = 0xc0000000 + 4096 * init_ram_pages"
proof -
  define f where "f = init_ram_pages - 256"
  define u where "u = (if f div 2 > user_page_limit then user_page_limit else f div 2)"
  have f: "init_ram_pages = 256 + f" "2 \<le> f" "f < 2 ^ 18 - 256" using ram by (auto simp: f_def)
  have u: "0 < u" "u < f" using f lim by (auto simp: u_def)
  have fs: "ptov (1024 * 1024) = Some 0xc0100000" by (simp add: ptov_def PHYS_BASE_def)
  have fe: "ptov (init_ram_pages * PGSIZE) = Some (0xc0100000 + 4096 * f)"
    using f(1,3) by (simp add: ptov_def PHYS_BASE_def PGSIZE_def)
  obtain kp where kp: "init_pool m 0xc0100000 (f - u) = Some kp" "wf_pool kp" "used_bytes kp = {}"
    "0xc0100000 \<le> base kp" "base kp + 4096 * bit_cnt (used_map kp) = 0xc0100000 + 4096 * (f - u)"
    by (rule init_pool_ok [where n = "f - u" and start = "0xc0100000" and m = m]) (use f u in auto)
  let ?us = "0xc0100000 + 4096 * (f - u)"
  obtain up where up: "init_pool m ?us u = Some up" "wf_pool up" "used_bytes up = {}"
    "?us \<le> base up" "base up + 4096 * bit_cnt (used_map up) = ?us + 4096 * u"
    by (rule init_pool_ok [where n = u and start = ?us and m = m]) (use f u in \<open>auto simp: mod_add_eq [symmetric]\<close>)
  have "addr (0xc0100000 + (f - u) * PGSIZE) = ?us" using f u by (simp add: PGSIZE_def)
  then have "palloc_init init_ram_pages m user_page_limit = Some \<lparr>kernel_pool = kp, user_pool = up, ram = m\<rparr>"
    unfolding palloc_init_def fs fe using kp(1) up(1)
    by (cases "f div 2 > user_page_limit") (simp_all add: PGSIZE_def Let_def u_def)
  then show ?thesis
    by (rule that) (use kp up u f(1) in \<open>auto simp: wf_palloc_def used_ram_def\<close>)
qed

subsection \<open>Properties\<close>

definition sample_pages :: page_allocator where
  "sample_pages = \<lparr>
     kernel_pool = \<lparr>lock_holder = None, used_map = \<lparr>bit_cnt = 4, bits = [1]\<rparr>, base = 0xc0101000\<rparr>,
     user_pool = \<lparr>lock_holder = None, used_map = \<lparr>bit_cnt = 3, bits = [0]\<rparr>, base = 0xc0106000\<rparr>,
     ram = (\<lambda>_. 7)\<rparr>"

lemma sample_pages_wf: "wf_palloc sample_pages"
  by (simp add: wf_palloc_def wf_pool_def sample_pages_def wf_bitmap_def elem_cnt_def size_add_def ELEM_BITS_def)

text \<open>
  C9: the page allocator never hands out a page twice. From any well-formed state, whatever
  sequence of requests (without \<^verbatim>\<open>PAL_ASSERT\<close>, to either pool, of any size) and releases of
  held runs is made, no call stops the kernel, no pool lock is left held, any two runs held at
  the end have no byte in common, and the bytes in use are those in use before together with
  the bytes of the held runs.
\<close>

theorem palloc_runs_disjoint:
  assumes "wf_palloc s" and "valid_requests page_request rs"
  shows "\<exists>s' held. run_client (get_pages cur) snd put_pages s [] rs = Some (s', held) \<and> wf_palloc s' \<and>
    (\<forall>j < length held. \<forall>i < j. page_span (fst (held ! i)) (snd (held ! i)) \<inter>
       page_span (fst (held ! j)) (snd (held ! j)) = {}) \<and>
    used_ram s' = used_ram s \<union> (\<Union>(a, n) \<in> set held. page_span a n)"
  using assms by (rule page_runs.clients_disjoint)

theorem palloc_runs_disjoint_witness:
  "\<exists>s' held. run_client (get_pages 1) snd put_pages sample_pages []
       [Get (0, 2), Get (PAL_USER, 1), Put 0, Get (PAL_ZERO, 3)] = Some (s', held) \<and> wf_palloc s' \<and>
    (\<forall>j < length held. \<forall>i < j. page_span (fst (held ! i)) (snd (held ! i)) \<inter>
       page_span (fst (held ! j)) (snd (held ! j)) = {})"
proof -
  have "valid_requests page_request [Get (0, 2), Get (PAL_USER, 1), Put 0, Get (PAL_ZERO, 3)]"
    by (simp add: valid_requests_def page_request_def PAL_USER_def PAL_ZERO_def PAL_ASSERT_def)
  from palloc_runs_disjoint [OF sample_pages_wf this] show ?thesis by blast
qed

text \<open>
  \<^verbatim>\<open>palloc_get_multiple\<close> is first fit on the pool its flags choose. If that pool has \<open>n\<close>
  free pages in a row it returns the lowest such run, marks exactly its pages, leaves the
  other pool alone, zeroes exactly the run under \<^verbatim>\<open>PAL_ZERO\<close> and otherwise writes no memory;
  if it has none, it returns a null pointer and changes nothing, and panics exactly under
  \<^verbatim>\<open>PAL_ASSERT\<close>.
\<close>

theorem palloc_get_multiple_first_fit:
  assumes "wf_palloc s" and "0 < n"
  shows "let u = (flags AND PAL_USER \<noteq> 0); p = pool_of u s in
    if \<exists>k. free_pages p k n
    then \<exists>i s'. palloc_get_multiple cur flags n s = Some (s', base p + 4096 * i) \<and> wf_palloc s' \<and>
      free_pages p i n \<and> (\<forall>k < i. \<not> free_pages p k n) \<and>
      used_bytes (pool_of u s') = used_bytes p \<union> page_span (base p + 4096 * i) n \<and>
      pool_of (\<not> u) s' = pool_of (\<not> u) s \<and>
      (\<forall>a. ram s' a = (if flags AND PAL_ZERO \<noteq> 0 \<and> a \<in> page_span (base p + 4096 * i) n then 0 else ram s a))
    else palloc_get_multiple cur flags n s = (if flags AND PAL_ASSERT = 0 then Some (s, 0) else None)"
proof -
  define u where "u = (flags AND PAL_USER \<noteq> 0)"
  define p where "p = pool_of u s"
  note defs = u_def [symmetric] p_def [symmetric] Let_def
  show ?thesis
  proof (rule palloc_get_multiple_ok [OF assms u_def, of cur, folded p_def])
    fix i s'
    assume "palloc_get_multiple cur flags n s = Some (s', base p + 4096 * i)" "free_pages p i n"
      "\<And>k. k < i \<Longrightarrow> \<not> free_pages p k n" "wf_palloc s'"
      "used_bytes (pool_of u s') = used_bytes p \<union> page_span (base p + 4096 * i) n"
      "pool_of (\<not> u) s' = pool_of (\<not> u) s"
      "ram s' = (if flags AND PAL_ZERO \<noteq> 0 then memset_ram (ram s) (base p + 4096 * i) 0 (4096 * n) else ram s)"
    then show ?thesis unfolding defs
      by (auto simp: memset_ram_def page_span_def intro!: exI [of _ i] exI [of _ s'])
  next
    assume "\<And>k. \<not> free_pages p k n"
      "palloc_get_multiple cur flags n s = (if flags AND PAL_ASSERT = 0 then Some (s, 0) else None)"
    then show ?thesis unfolding defs by simp
  qed
qed

theorem palloc_get_multiple_first_fit_witness:
  "\<exists>i s'. palloc_get_multiple 1 PAL_ZERO 2 sample_pages = Some (s', 0xc0101000 + 4096 * i) \<and>
    (\<forall>a \<in> page_span (0xc0101000 + 4096 * i) 2. ram s' a = 0)"
proof -
  have p: "pool_of (PAL_ZERO AND PAL_USER \<noteq> 0) sample_pages = kernel_pool sample_pages"
    and z: "PAL_ZERO AND PAL_ZERO \<noteq> 0"
    by (simp_all add: pool_of_def PAL_ZERO_def PAL_USER_def)
  have "1 \<le> j \<and> j < 1 + 2 \<longleftrightarrow> j = 1 \<or> j = (2::nat)" for j by auto
  then have "free_pages (kernel_pool sample_pages) 1 2"
    by (auto simp: free_pages_def free_run_def sample_pages_def bit_at_def bit_1_iff)
  then have "\<exists>k. free_pages (kernel_pool sample_pages) k 2" ..
  moreover have "base (kernel_pool sample_pages) = 0xc0101000" by (simp add: sample_pages_def)
  ultimately show ?thesis
    using palloc_get_multiple_first_fit [OF sample_pages_wf, of 2 PAL_ZERO 1] z
    unfolding Let_def p by (auto split: if_splits)
qed

text \<open>
  \<^verbatim>\<open>palloc_init\<close> builds a well-formed allocator. With at least 258 pages of RAM (two pages
  above 1 MB), less than 1 GB, and a nonzero limit for the user pool, whatever the memory
  holds, it returns; no page is in use; the pools do not overlap each other or the bitmaps,
  start above the first megabyte and end at the end of RAM.
\<close>

theorem palloc_init_correct:
  assumes "258 \<le> init_ram_pages" and "init_ram_pages < 2 ^ 18" and "0 < user_page_limit"
  shows "\<exists>s. palloc_init init_ram_pages m user_page_limit = Some s \<and> wf_palloc s \<and> used_ram s = {} \<and>
    0xc0100000 \<le> base (kernel_pool s) \<and>
    base (user_pool s) + 4096 * bit_cnt (used_map (user_pool s)) = 0xc0000000 + 4096 * init_ram_pages"
  by (rule palloc_init_ok [OF assms, of m]) blast

theorem palloc_init_correct_witness:
  "\<exists>s. palloc_init 1024 (\<lambda>a. of_nat a) 1048576 = Some s \<and> wf_palloc s \<and> used_ram s = {}"
  using palloc_init_correct [of 1024 1048576 "\<lambda>a. of_nat a"] by auto

end
