(* ===== verification/Threads.thy ===== *)
theory Threads
  imports List_Order Palloc
begin

section \<open>Threads and the scheduler (threads/thread.c, threads/interrupt.c)\<close>

text \<open>
  The kernel runs on one processor. Its state is the record \<open>kernel\<close>: the thread structures
  that exist, by the address of their page; the run queue, the list of all threads and the
  list of sleeping threads; the processor's interrupt flag; the page allocator the threads'
  pages come from; and the synchronisation objects of \<^verbatim>\<open>synch.c\<close>. A kernel list of threads
  is represented by the sequence it holds: theories \<open>Linked_List\<close> and \<open>List_Order\<close> show
  that the list functions act on it as the sequence operations used here.

  Control. A thread that is not running is suspended inside \<^verbatim>\<open>switch_threads\<close>, below the
  kernel functions that led there. What is left to do of those functions is the thread's
  stack of \<open>frame\<close>s, and a thread that is switched to goes on with the top one. A frame is
  a point at which the C code can lose the processor: after \<^verbatim>\<open>thread_block\<close> or
  \<^verbatim>\<open>thread_yield\<close>, or between two calls made with interrupts enabled.

  Timer ticks and tids are mathematical integers: neither counter comes near the bounds of
  its type. The process state a thread carries for \<^verbatim>\<open>userprog\<close> (children, open files) is
  not part of the record, and \<^verbatim>\<open>process_exit\<close> is made of ordinary operations of the thread
  that precede \<^verbatim>\<open>thread_exit\<close>.
\<close>

datatype thread_status = THREAD_RUNNING | THREAD_READY | THREAD_BLOCKED | THREAD_DYING

text \<open>A semaphore is either the one inside the lock with the given address or a plain one.\<close>

datatype sema_id = Lock_sema nat | Sema nat

datatype frame =
    Set_level bool
  | Sema_loop sema_id bool
  | Sema_down sema_id
  | Sema_up sema_id
  | Set_holder nat
  | Lock_acquire nat
  | Cond_signal nat nat
  | Cond_broadcast nat nat

record thread =
  tid :: int
  status :: thread_status
  name :: string
  stack :: nat
  priority :: int
  pagedir :: nat
  info :: nat
  next_fd :: int
  thread_file :: nat
  magic :: u32
  ticks :: int

record semaphore =
  sema_value :: nat
  waiters :: "nat list"

record kernel =
  threads :: "nat \<rightharpoonup> thread"
  stacks :: "nat \<Rightarrow> frame list"
  running :: nat
  ready_list :: "nat list"
  all_list :: "nat list"
  sleep_list :: "nat list"
  idle_thread :: nat
  initial_thread :: nat
  next_tid :: int
  tid_lock :: "nat option"
  intr_on :: bool
  in_external_intr :: bool
  yield_on_return :: bool
  thread_ticks :: nat
  idle_ticks :: nat
  kernel_ticks :: nat
  user_ticks :: nat
  now :: int
  active_pagedir :: nat
  pages :: page_allocator
  semas :: "sema_id \<Rightarrow> semaphore"
  holder :: "nat \<Rightarrow> nat"
  conds :: "nat \<Rightarrow> nat list"

definition THREAD_MAGIC :: u32 where "THREAD_MAGIC = 0xcd6abf4b"
definition PRI_MIN :: int where "PRI_MIN = 0"
definition PRI_DEFAULT :: int where "PRI_DEFAULT = 31"
definition PRI_MAX :: int where "PRI_MAX = 63"
definition TID_ERROR :: int where "TID_ERROR = - 1"
definition TIME_SLICE :: nat where "TIME_SLICE = 4"

subsection \<open>Interrupt level\<close>

definition intr_context :: "kernel \<Rightarrow> bool" where
  "intr_context s = in_external_intr s"

definition intr_enable :: "kernel \<Rightarrow> kernel option" where
  "intr_enable s = do { _ \<leftarrow> ASSERT (\<not> intr_context s); Some (s\<lparr>intr_on := True\<rparr>) }"

definition intr_disable :: "kernel \<Rightarrow> kernel" where
  "intr_disable s = s\<lparr>intr_on := False\<rparr>"

definition intr_set_level :: "bool \<Rightarrow> kernel \<Rightarrow> kernel option" where
  "intr_set_level level s = (if level then intr_enable s else Some (intr_disable s))"

definition intr_yield_on_return :: "kernel \<Rightarrow> kernel option" where
  "intr_yield_on_return s = do { _ \<leftarrow> ASSERT (intr_context s); Some (s\<lparr>yield_on_return := True\<rparr>) }"

subsection \<open>Thread structures\<close>

definition is_thread :: "kernel \<Rightarrow> nat \<Rightarrow> bool" where
  "is_thread s t \<longleftrightarrow> t \<noteq> 0 \<and> (case threads s t of None \<Rightarrow> False | Some th \<Rightarrow> magic th = THREAD_MAGIC)"

definition upd_thread :: "nat \<Rightarrow> (thread \<Rightarrow> thread) \<Rightarrow> kernel \<Rightarrow> kernel" where
  "upd_thread t f s = s\<lparr>threads := (threads s)(t := map_option f (threads s t))\<rparr>"

definition running_thread :: "kernel \<Rightarrow> nat" where
  "running_thread s = running s"

definition thread_current :: "kernel \<Rightarrow> nat option" where
  "thread_current s = do {
     let t = running_thread s;
     _ \<leftarrow> ASSERT (is_thread s t);
     th \<leftarrow> threads s t;
     _ \<leftarrow> ASSERT (status th = THREAD_RUNNING);
     Some t }"

definition cur_thread :: "kernel \<Rightarrow> thread option" where
  "cur_thread s = do { t \<leftarrow> thread_current s; threads s t }"

definition thread_name :: "kernel \<Rightarrow> string option" where
  "thread_name s = map_option name (cur_thread s)"

definition thread_tid :: "kernel \<Rightarrow> int option" where
  "thread_tid s = map_option tid (cur_thread s)"

definition thread_get_priority :: "kernel \<Rightarrow> int option" where
  "thread_get_priority s = map_option priority (cur_thread s)"

definition thread_set_priority :: "int \<Rightarrow> kernel \<Rightarrow> kernel option" where
  "thread_set_priority new_priority s = do {
     t \<leftarrow> thread_current s;
     Some (upd_thread t (priority_update (\<lambda>_. new_priority)) s) }"

definition push_frames :: "frame list \<Rightarrow> kernel \<Rightarrow> kernel" where
  "push_frames fs s = s\<lparr>stacks := (stacks s)(running s := fs @ stacks s (running s))\<rparr>"

subsection \<open>Scheduling\<close>

definition next_thread_to_run :: "kernel \<Rightarrow> kernel \<times> nat" where
  "next_thread_to_run s =
     (case ready_list s of [] \<Rightarrow> (s, idle_thread s) | t # ts \<Rightarrow> (s\<lparr>ready_list := ts\<rparr>, t))"

text \<open>\<^verbatim>\<open>process_activate\<close> loads the page directory of the thread that is now current.\<close>

definition process_activate :: "kernel \<Rightarrow> kernel option" where
  "process_activate s = do { th \<leftarrow> cur_thread s; Some (s\<lparr>active_pagedir := pagedir th\<rparr>) }"

definition thread_schedule_tail :: "nat \<Rightarrow> kernel \<Rightarrow> kernel option" where
  "thread_schedule_tail prev s = do {
     let cur = running_thread s;
     _ \<leftarrow> ASSERT (\<not> intr_on s);
     let s = upd_thread cur (status_update (\<lambda>_. THREAD_RUNNING)) s;
     let s = s\<lparr>thread_ticks := 0\<rparr>;
     s \<leftarrow> process_activate s;
     if prev \<noteq> 0 then do {
       th \<leftarrow> threads s prev;
       if status th = THREAD_DYING \<and> prev \<noteq> initial_thread s then do {
         _ \<leftarrow> ASSERT (prev \<noteq> cur);
         pg \<leftarrow> palloc_free_page prev (pages s);
         Some (s\<lparr>pages := pg, threads := (threads s)(prev := None)\<rparr>) }
       else Some s }
     else Some s }"

definition schedule :: "kernel \<Rightarrow> kernel option" where
  "schedule s = do {
     let cur = running_thread s;
     let (s, nxt) = next_thread_to_run s;
     _ \<leftarrow> ASSERT (\<not> intr_on s);
     th \<leftarrow> threads s cur;
     _ \<leftarrow> ASSERT (status th \<noteq> THREAD_RUNNING);
     _ \<leftarrow> ASSERT (is_thread s nxt);
     if cur \<noteq> nxt then thread_schedule_tail cur (s\<lparr>running := nxt\<rparr>)
     else thread_schedule_tail 0 s }"

definition thread_block :: "kernel \<Rightarrow> kernel option" where
  "thread_block s = do {
     _ \<leftarrow> ASSERT (\<not> intr_context s);
     _ \<leftarrow> ASSERT (\<not> intr_on s);
     t \<leftarrow> thread_current s;
     schedule (upd_thread t (status_update (\<lambda>_. THREAD_BLOCKED)) s) }"

definition thread_unblock :: "nat \<Rightarrow> kernel \<Rightarrow> kernel option" where
  "thread_unblock t s = do {
     _ \<leftarrow> ASSERT (is_thread s t);
     let old_level = intr_on s;
     let s = intr_disable s;
     th \<leftarrow> threads s t;
     _ \<leftarrow> ASSERT (status th = THREAD_BLOCKED);
     let s = s\<lparr>ready_list := ready_list s @ [t]\<rparr>;
     let s = upd_thread t (status_update (\<lambda>_. THREAD_READY)) s;
     intr_set_level old_level s }"

definition thread_yield :: "kernel \<Rightarrow> kernel option" where
  "thread_yield s = do {
     cur \<leftarrow> thread_current s;
     _ \<leftarrow> ASSERT (\<not> intr_context s);
     let old_level = intr_on s;
     let s = intr_disable s;
     let s = (if cur \<noteq> idle_thread s then s\<lparr>ready_list := ready_list s @ [cur]\<rparr> else s);
     let s = push_frames [Set_level old_level] s;
     schedule (upd_thread cur (status_update (\<lambda>_. THREAD_READY)) s) }"

text \<open>\<^verbatim>\<open>thread_exit\<close> from the point where \<^verbatim>\<open>process_exit\<close> has returned.\<close>

definition thread_exit :: "kernel \<Rightarrow> kernel option" where
  "thread_exit s = do {
     _ \<leftarrow> ASSERT (\<not> intr_context s);
     let s = intr_disable s;
     t \<leftarrow> thread_current s;
     let s = s\<lparr>all_list := remove1 t (all_list s)\<rparr>;
     t \<leftarrow> thread_current s;
     schedule (upd_thread t (status_update (\<lambda>_. THREAD_DYING)) s) }"

subsection \<open>Creation\<close>

definition allocate_tid :: "kernel \<Rightarrow> (kernel \<times> int) option" where
  "allocate_tid s = do {
     h \<leftarrow> take_lock (running s) (tid_lock s);
     let t = next_tid s;
     let s = s\<lparr>next_tid := t + 1\<rparr>;
     h \<leftarrow> drop_lock (running s) h;
     Some (s\<lparr>tid_lock := h\<rparr>, t) }"

definition init_thread :: "nat \<Rightarrow> string \<Rightarrow> int \<Rightarrow> kernel \<Rightarrow> kernel option" where
  "init_thread t nm prio s = do {
     _ \<leftarrow> ASSERT (t \<noteq> 0);
     _ \<leftarrow> ASSERT (PRI_MIN \<le> prio \<and> prio \<le> PRI_MAX);
     let th = \<lparr>tid = 0, status = THREAD_BLOCKED, name = take 15 nm, stack = t + PGSIZE, priority = prio,
               pagedir = 0, info = 0, next_fd = 2, thread_file = 0, magic = THREAD_MAGIC, ticks = 0\<rparr>;
     let old_level = intr_on s;
     let s = intr_disable s;
     let s = s\<lparr>threads := (threads s)(t \<mapsto> th), all_list := all_list s @ [t]\<rparr>;
     intr_set_level old_level s }"

definition alloc_frame :: "nat \<Rightarrow> nat \<Rightarrow> kernel \<Rightarrow> (kernel \<times> nat) option" where
  "alloc_frame t frame_size s = do {
     _ \<leftarrow> ASSERT (is_thread s t);
     _ \<leftarrow> ASSERT (frame_size mod 4 = 0);
     let s = upd_thread t (stack_update (\<lambda>p. p - frame_size)) s;
     th \<leftarrow> threads s t;
     Some (s, stack th) }"

text \<open>
  \<^verbatim>\<open>thread_create\<close>: the three frames it lays out make the new thread enter \<^verbatim>\<open>kernel_thread\<close>,
  whose first action is \<^verbatim>\<open>intr_enable\<close>; \<open>has_function\<close> is the condition that \<^verbatim>\<open>function\<close> is
  not null, \<open>aux_info\<close> the address passed as \<^verbatim>\<open>info\<close>.
\<close>

definition kernel_thread :: "frame list" where
  "kernel_thread = [Set_level True]"

definition thread_create :: "string \<Rightarrow> int \<Rightarrow> bool \<Rightarrow> nat \<Rightarrow> kernel \<Rightarrow> (kernel \<times> int) option" where
  "thread_create nm prio has_function aux_info s = do {
     _ \<leftarrow> ASSERT has_function;
     (pg, t) \<leftarrow> palloc_get_page (running s) PAL_ZERO (pages s);
     let s = s\<lparr>pages := pg\<rparr>;
     if t = 0 then Some (s, TID_ERROR)
     else do {
       s \<leftarrow> init_thread t nm prio s;
       (s, new_tid) \<leftarrow> allocate_tid s;
       let s = upd_thread t (tid_update (\<lambda>_. new_tid)) s;
       let s = upd_thread t (info_update (\<lambda>_. aux_info)) s;
       (s, kf) \<leftarrow> alloc_frame t 12 s;
       (s, ef) \<leftarrow> alloc_frame t 4 s;
       (s, sf) \<leftarrow> alloc_frame t 28 s;
       let s = s\<lparr>stacks := (stacks s)(t := kernel_thread)\<rparr>;
       s \<leftarrow> thread_unblock t s;
       Some (s, new_tid) } }"

text \<open>\<^verbatim>\<open>thread_init\<close> of a machine whose boot stack is in page \<open>boot\<close>.\<close>

definition thread_init :: "nat \<Rightarrow> kernel \<Rightarrow> kernel option" where
  "thread_init boot s = do {
     _ \<leftarrow> ASSERT (\<not> intr_on s);
     let s = s\<lparr>tid_lock := None, ready_list := [], all_list := [], sleep_list := [], running := boot\<rparr>;
     let s = s\<lparr>initial_thread := running_thread s\<rparr>;
     s \<leftarrow> init_thread (initial_thread s) ''main'' PRI_DEFAULT s;
     let s = upd_thread (initial_thread s) (status_update (\<lambda>_. THREAD_RUNNING)) s;
     (s, new_tid) \<leftarrow> allocate_tid s;
     Some (upd_thread (initial_thread s) (tid_update (\<lambda>_. new_tid)) s) }"

definition thread_foreach :: "(nat \<Rightarrow> kernel \<Rightarrow> kernel option) \<Rightarrow> kernel \<Rightarrow> kernel option" where
  "thread_foreach func s = do {
     _ \<leftarrow> ASSERT (\<not> intr_on s);
     fold (\<lambda>t r. r \<bind> func t) (all_list s) (Some s) }"

definition thread_tick :: "kernel \<Rightarrow> kernel option" where
  "thread_tick s = do {
     t \<leftarrow> thread_current s;
     th \<leftarrow> threads s t;
     let s = (if t = idle_thread s then s\<lparr>idle_ticks := idle_ticks s + 1\<rparr>
              else if pagedir th \<noteq> 0 then s\<lparr>user_ticks := user_ticks s + 1\<rparr>
              else s\<lparr>kernel_ticks := kernel_ticks s + 1\<rparr>);
     let s = s\<lparr>thread_ticks := thread_ticks s + 1\<rparr>;
     if thread_ticks s \<ge> TIME_SLICE then intr_yield_on_return s else Some s }"

text \<open>
  The loop of the idle thread: it blocks with interrupts off, and \<^verbatim>\<open>sti; hlt\<close> is what it
  does when it is switched to.
\<close>

definition idle :: "kernel \<Rightarrow> kernel option" where
  "idle s = thread_block (push_frames [Set_level True] (intr_disable s))"

definition wake_time :: "kernel \<Rightarrow> nat \<Rightarrow> int" where
  "wake_time s t = (case threads s t of Some th \<Rightarrow> ticks th | None \<Rightarrow> 0)"

definition cmp_ticks :: "kernel \<Rightarrow> nat \<Rightarrow> nat \<Rightarrow> bool" where
  "cmp_ticks s a b = (if wake_time s a < wake_time s b then True else False)"

interpretation sleep_order: list_less "cmp_ticks s" for s
  by unfold_locales (auto simp: cmp_ticks_def split: if_splits)

subsection \<open>Where every thread is\<close>

text \<open>
  \<open>st s t\<close> is the status of thread \<open>t\<close>, if there is one. \<open>queues_ok\<close> is the comment on
  \<^verbatim>\<open>struct thread\<close> about the two uses of \<^verbatim>\<open>elem\<close>, made precise: the run queue holds exactly
  the ready threads, a blocked thread is on exactly one wait list, no thread is on two lists
  or twice on one, and only one thread is running. The idle thread alone is on no list.
  \<open>run\<close> is the running thread, or \<open>None\<close> inside the scheduler, and only threads of \<open>D\<close>
  are dying.
\<close>

definition st :: "kernel \<Rightarrow> nat \<Rightarrow> thread_status option" where
  "st s t = map_option status (threads s t)"

definition queues_ok :: "(nat \<Rightarrow> thread_status option) \<Rightarrow> nat option \<Rightarrow> nat list \<Rightarrow> nat list \<Rightarrow>
    (sema_id \<Rightarrow> nat list) \<Rightarrow> nat \<Rightarrow> nat set \<Rightarrow> bool" where
  "queues_ok f run ready sleep wt idl D \<longleftrightarrow>
     (\<forall>t. f t = Some THREAD_RUNNING \<longleftrightarrow> run = Some t) \<and>
     distinct ready \<and> (\<forall>t. t \<in> set ready \<longleftrightarrow> f t = Some THREAD_READY \<and> t \<noteq> idl) \<and>
     distinct sleep \<and> (\<forall>x. distinct (wt x)) \<and> (\<forall>x t. t \<in> set (wt x) \<longrightarrow> t \<notin> set sleep) \<and>
     (\<forall>x y t. t \<in> set (wt x) \<longrightarrow> t \<in> set (wt y) \<longrightarrow> x = y) \<and>
     (\<forall>t. (t \<in> set sleep \<or> (\<exists>x. t \<in> set (wt x))) \<longleftrightarrow> f t = Some THREAD_BLOCKED \<and> t \<noteq> idl) \<and>
     (\<forall>t. f t = Some THREAD_DYING \<longrightarrow> t \<in> D) \<and>
     f idl \<noteq> None \<and> f idl \<noteq> Some THREAD_DYING"

abbreviation (input) kqueues :: "kernel \<Rightarrow> nat option \<Rightarrow> nat set \<Rightarrow> bool" where
  "kqueues s run D \<equiv> queues_ok (st s) run (ready_list s) (sleep_list s) (\<lambda>x. waiters (semas s x))
     (idle_thread s) D"

text \<open>Every thread structure is a live page of the allocator, except the initial thread's.\<close>

definition mem_ok :: "kernel \<Rightarrow> bool" where
  "mem_ok s \<longleftrightarrow> wf_palloc (pages s) \<and> \<not> in_some_pool (pages s) (initial_thread s) 1 \<and>
     (\<forall>t th. threads s t = Some th \<longrightarrow> t \<noteq> 0 \<and> magic th = THREAD_MAGIC \<and>
        (t \<noteq> initial_thread s \<longrightarrow>
           in_some_pool (pages s) t 1 \<and> page_span t 1 \<subseteq> used_ram (pages s)))"

definition kinv :: "kernel \<Rightarrow> bool" where
  "kinv s \<longleftrightarrow> mem_ok s \<and> tid_lock s = None \<and> \<not> in_external_intr s \<and>
     kqueues s (Some (running s)) {initial_thread s} \<and>
     sorted (map (wake_time s) (sleep_list s))"

text \<open>What the scheduler leaves alone.\<close>

definition sched_frame :: "kernel \<Rightarrow> kernel \<Rightarrow> bool" where
  "sched_frame s s' \<longleftrightarrow> stacks s' = stacks s \<and> all_list s' = all_list s \<and> sleep_list s' = sleep_list s \<and>
     idle_thread s' = idle_thread s \<and> initial_thread s' = initial_thread s \<and> next_tid s' = next_tid s \<and>
     tid_lock s' = tid_lock s \<and> intr_on s' = intr_on s \<and> in_external_intr s' = in_external_intr s \<and>
     now s' = now s \<and> semas s' = semas s \<and> holder s' = holder s \<and> conds s' = conds s \<and>
     (\<forall>t th'. threads s' t = Some th' \<longrightarrow> wake_time s' t = wake_time s t) \<and>
     (\<forall>t. t \<noteq> running s \<longrightarrow> threads s t \<noteq> None \<longrightarrow> threads s' t \<noteq> None)"

lemma upd_thread_simps [simp]:
  "stacks (upd_thread t f s) = stacks s" "all_list (upd_thread t f s) = all_list s"
  "sleep_list (upd_thread t f s) = sleep_list s" "ready_list (upd_thread t f s) = ready_list s"
  "idle_thread (upd_thread t f s) = idle_thread s" "initial_thread (upd_thread t f s) = initial_thread s"
  "next_tid (upd_thread t f s) = next_tid s" "tid_lock (upd_thread t f s) = tid_lock s"
  "intr_on (upd_thread t f s) = intr_on s" "in_external_intr (upd_thread t f s) = in_external_intr s"
  "now (upd_thread t f s) = now s" "semas (upd_thread t f s) = semas s" "holder (upd_thread t f s) = holder s"
  "conds (upd_thread t f s) = conds s" "running (upd_thread t f s) = running s" "pages (upd_thread t f s) = pages s"
  "threads (upd_thread t f s) = (threads s)(t := map_option f (threads s t))"
  "yield_on_return (upd_thread t f s) = yield_on_return s" "thread_ticks (upd_thread t f s) = thread_ticks s"
  by (simp_all add: upd_thread_def)

lemma st_upd_status:
  "threads s t \<noteq> None \<Longrightarrow> st (upd_thread t (status_update (\<lambda>_. v)) s) = (st s)(t \<mapsto> v)"
  by (auto simp: st_def fun_eq_iff)

lemma wake_time_upd_status [simp]: "wake_time (upd_thread t (status_update (\<lambda>_. v)) s) = wake_time s"
  by (auto simp: wake_time_def fun_eq_iff split: option.splits)

lemma queues_okD:
  assumes "queues_ok f run ready sleep wt idl D"
  shows "f t = Some THREAD_RUNNING \<longleftrightarrow> run = Some t"
    and "distinct ready" and "t \<in> set ready \<longleftrightarrow> f t = Some THREAD_READY \<and> t \<noteq> idl"
    and "distinct sleep" and "distinct (wt x)" and "t \<in> set (wt x) \<Longrightarrow> t \<notin> set sleep"
    and "t \<in> set (wt x) \<Longrightarrow> t \<in> set (wt y) \<Longrightarrow> x = y"
    and "t \<in> set sleep \<or> (\<exists>x. t \<in> set (wt x)) \<longleftrightarrow> f t = Some THREAD_BLOCKED \<and> t \<noteq> idl"
    and "f t = Some THREAD_DYING \<Longrightarrow> t \<in> D" and "f idl \<noteq> None" and "f idl \<noteq> Some THREAD_DYING"
  by (insert assms, unfold queues_ok_def, (elim conjE, simp only: simp_thms)+)

lemma queues_mono:
  assumes q: "queues_ok f run ready sleep wt idl D" and D: "D \<subseteq> D'"
  shows "queues_ok f run ready sleep wt idl D'"
proof -
  have "\<forall>t. f t = Some THREAD_DYING \<longrightarrow> t \<in> D'" using queues_okD(9) [OF q] D by auto
  then show ?thesis using q unfolding queues_ok_def by (elim conjE) (intro conjI; assumption)
qed

lemma queues_pick:
  assumes q: "queues_ok f None ready sleep wt idl D" and nxt: "nxt = hd (ready @ [idl])"
  shows "f nxt \<noteq> None" and "f nxt \<noteq> Some THREAD_DYING" and "f nxt = Some THREAD_BLOCKED \<Longrightarrow> nxt = idl"
proof -
  have "nxt = idl \<or> f nxt = Some THREAD_READY"
    using nxt queues_okD(3) [OF q, of nxt] by (cases ready) auto
  then show "f nxt \<noteq> None" and "f nxt \<noteq> Some THREAD_DYING" and "f nxt = Some THREAD_BLOCKED \<Longrightarrow> nxt = idl"
    using queues_okD(10,11) [OF q] by auto
qed

lemma queues_switch:
  assumes q: "queues_ok f None ready sleep wt idl D" and nxt: "nxt = hd (ready @ [idl])"
    and D: "D \<subseteq> {ini, cur}"
    and g: "\<And>t. g t = (if t = nxt then Some THREAD_RUNNING
      else if t = cur \<and> f t = Some THREAD_DYING \<and> t \<noteq> ini then None else f t)"
  shows "queues_ok g (Some nxt) (tl ready) sleep wt idl {ini}"
proof -
  note pick = queues_pick [OF q nxt]
  have rd: "t \<in> set (tl ready) \<longleftrightarrow> t \<in> set ready \<and> t \<noteq> nxt" for t
    using nxt queues_okD(2) [OF q] queues_okD(3) [OF q, of idl] by (cases ready) auto
  show ?thesis unfolding queues_ok_def
  proof (intro conjI allI)
    show "distinct (tl ready)" using queues_okD(2) [OF q] by (rule distinct_tl)
    show "(t \<in> set (tl ready)) = (g t = Some THREAD_READY \<and> t \<noteq> idl)" for t
      unfolding rd using queues_okD(3) [OF q, of t] by (auto simp: g)
    show "(t \<in> set sleep \<or> (\<exists>x. t \<in> set (wt x))) = (g t = Some THREAD_BLOCKED \<and> t \<noteq> idl)" for t
      unfolding queues_okD(8) [OF q] using pick(3) by (auto simp: g)
    show "g t = Some THREAD_DYING \<longrightarrow> t \<in> {ini}" for t
      using queues_okD(9) [OF q, of t] D by (auto simp: g)
    show "(g t = Some THREAD_RUNNING) = (Some nxt = Some t)" for t
      using queues_okD(1) [OF q, of t] by (auto simp: g)
    show "g idl \<noteq> None" and "g idl \<noteq> Some THREAD_DYING"
      using queues_okD(10,11) [OF q] by (auto simp: g)
  qed (use queues_okD(4,5,6,7) [OF q] in blast)+
qed

text \<open>The moves between the queues, one per way a thread changes its status.\<close>

lemma queues_move:
  assumes q: "queues_ok f run ready sleep wt idl D" and c: "f c \<noteq> Some THREAD_DYING"
    and run: "\<And>t. (if t = c then v = THREAD_RUNNING else run = Some t) \<longleftrightarrow> run' = Some t"
    and ready: "distinct ready'" "\<And>t. t \<in> set ready' \<longleftrightarrow> t \<noteq> idl \<and> (if t = c then v = THREAD_READY else t \<in> set ready)"
    and sleep: "distinct sleep'" and wt: "\<And>x. distinct (wt' x)"
    and one: "\<And>x t. t \<in> set (wt' x) \<Longrightarrow> t \<notin> set sleep'"
      "\<And>x y t. t \<in> set (wt' x) \<Longrightarrow> t \<in> set (wt' y) \<Longrightarrow> x = y"
    and wait: "\<And>t. (t \<in> set sleep' \<or> (\<exists>x. t \<in> set (wt' x))) \<longleftrightarrow> t \<noteq> idl \<and>
      (if t = c then v = THREAD_BLOCKED else t \<in> set sleep \<or> (\<exists>x. t \<in> set (wt x)))"
    and D: "D \<subseteq> D'" "v = THREAD_DYING \<Longrightarrow> c \<in> D' \<and> c \<noteq> idl"
  shows "queues_ok (f(c \<mapsto> v)) run' ready' sleep' wt' idl D'"
  unfolding queues_ok_def
proof (intro conjI allI)
  show "((f(c \<mapsto> v)) t = Some THREAD_RUNNING) = (run' = Some t)" for t
    using run [of t] queues_okD(1) [OF q, of t] by (auto split: if_splits)
  show "(t \<in> set ready') = ((f(c \<mapsto> v)) t = Some THREAD_READY \<and> t \<noteq> idl)" for t
    using ready(2) [of t] queues_okD(3) [OF q, of t] by (auto split: if_splits)
  show "(t \<in> set sleep' \<or> (\<exists>x. t \<in> set (wt' x))) = ((f(c \<mapsto> v)) t = Some THREAD_BLOCKED \<and> t \<noteq> idl)" for t
    unfolding wait queues_okD(8) [OF q] by auto
  show "(f(c \<mapsto> v)) t = Some THREAD_DYING \<longrightarrow> t \<in> D'" for t
    using queues_okD(9) [OF q, of t] D by auto
  show "(f(c \<mapsto> v)) idl \<noteq> None" and "(f(c \<mapsto> v)) idl \<noteq> Some THREAD_DYING"
    using queues_okD(10,11) [OF q] D(2) by auto
qed (use ready(1) sleep wt one in blast)+

lemma queues_block_wait:
  assumes q: "queues_ok f (Some c) ready sleep wt idl D" and c: "c \<noteq> idl"
  shows "queues_ok (f(c \<mapsto> THREAD_BLOCKED)) None ready sleep (wt(x := wt x @ [c])) idl D"
proof (rule queues_move [OF q])
  have fc: "f c = Some THREAD_RUNNING" using queues_okD(1) [OF q, of c] by simp
  then show "f c \<noteq> Some THREAD_DYING" by simp
  have fresh: "c \<notin> set ready" "c \<notin> set sleep" "\<And>y. c \<notin> set (wt y)"
    using fc queues_okD(3) [OF q, of c] queues_okD(8) [OF q, of c] by auto
  show "t \<in> set ready \<longleftrightarrow> t \<noteq> idl \<and> (if t = c then THREAD_BLOCKED = THREAD_READY else t \<in> set ready)" for t
    using fresh queues_okD(3) [OF q, of t] by auto
  show "distinct ((wt(x := wt x @ [c])) y)" for y using fresh queues_okD(5) [OF q] by simp
  show "t \<in> set ((wt(x := wt x @ [c])) y) \<Longrightarrow> t \<notin> set sleep" for y t
    using fresh queues_okD(6) [OF q] by (auto split: if_splits)
  show "t \<in> set ((wt(x := wt x @ [c])) y) \<Longrightarrow> t \<in> set ((wt(x := wt x @ [c])) z) \<Longrightarrow> y = z" for y z t
    using fresh queues_okD(7) [OF q, of t] by (auto split: if_splits)
  show "(t \<in> set sleep \<or> (\<exists>y. t \<in> set ((wt(x := wt x @ [c])) y))) \<longleftrightarrow> t \<noteq> idl \<and>
      (if t = c then THREAD_BLOCKED = THREAD_BLOCKED else t \<in> set sleep \<or> (\<exists>x. t \<in> set (wt x)))" for t
    using c queues_okD(8) [OF q, of t] by (cases "t = c") (auto split: if_splits)
qed (use queues_okD(2,4) [OF q] in auto)

lemma queues_block_sleep:
  assumes q: "queues_ok f (Some c) ready sleep wt idl D" and c: "c \<noteq> idl"
    and sl: "mset sleep' = add_mset c (mset sleep)"
  shows "queues_ok (f(c \<mapsto> THREAD_BLOCKED)) None ready sleep' wt idl D"
proof (rule queues_move [OF q])
  have fc: "f c = Some THREAD_RUNNING" using queues_okD(1) [OF q, of c] by simp
  then show "f c \<noteq> Some THREAD_DYING" by simp
  have fresh: "c \<notin> set ready" "c \<notin> set sleep" "\<And>y. c \<notin> set (wt y)"
    using fc queues_okD(3) [OF q, of c] queues_okD(8) [OF q, of c] by auto
  have set_sl: "set sleep' = insert c (set sleep)" using arg_cong [OF sl, of set_mset] by simp
  show "distinct sleep'" using fresh(2) queues_okD(4) [OF q] mset_eq_imp_distinct_iff [of sleep' "c # sleep"] sl
    by simp
  show "t \<in> set ready \<longleftrightarrow> t \<noteq> idl \<and> (if t = c then THREAD_BLOCKED = THREAD_READY else t \<in> set ready)" for t
    using fresh queues_okD(3) [OF q, of t] by auto
  show "t \<in> set (wt y) \<Longrightarrow> t \<notin> set sleep'" for y t
    using fresh queues_okD(6) [OF q] by (auto simp: set_sl)
  show "(t \<in> set sleep' \<or> (\<exists>y. t \<in> set (wt y))) \<longleftrightarrow> t \<noteq> idl \<and>
      (if t = c then THREAD_BLOCKED = THREAD_BLOCKED else t \<in> set sleep \<or> (\<exists>x. t \<in> set (wt x)))" for t
    using c queues_okD(8) [OF q, of t] by (auto simp: set_sl)
qed (use queues_okD(2,5) [OF q] queues_okD(7) [OF q] in auto)

lemma queues_running_out:
  assumes q: "queues_ok f (Some c) ready sleep wt idl D"
    and v: "v = THREAD_BLOCKED \<and> c = idl \<and> ready' = ready \<or> v = THREAD_READY \<and> c = idl \<and> ready' = ready \<or>
      v = THREAD_READY \<and> c \<noteq> idl \<and> ready' = ready @ [c] \<or> v = THREAD_DYING \<and> c \<noteq> idl \<and> ready' = ready"
  shows "queues_ok (f(c \<mapsto> v)) None ready' sleep wt idl (insert c D)"
proof (rule queues_move [OF q])
  have fc: "f c = Some THREAD_RUNNING" using queues_okD(1) [OF q, of c] by simp
  then show "f c \<noteq> Some THREAD_DYING" by simp
  have fresh: "c \<notin> set ready" "c \<notin> set sleep" "\<And>y. c \<notin> set (wt y)"
    using fc queues_okD(3) [OF q, of c] queues_okD(8) [OF q, of c] by auto
  show "distinct ready'" using v fresh queues_okD(2) [OF q] by auto
  show "t \<in> set ready' \<longleftrightarrow> t \<noteq> idl \<and> (if t = c then v = THREAD_READY else t \<in> set ready)" for t
    using v fresh queues_okD(3) [OF q, of t] by auto
  show "(t \<in> set sleep \<or> (\<exists>y. t \<in> set (wt y))) \<longleftrightarrow> t \<noteq> idl \<and>
      (if t = c then v = THREAD_BLOCKED else t \<in> set sleep \<or> (\<exists>x. t \<in> set (wt x)))" for t
    using v fresh queues_okD(8) [OF q, of t] by auto
qed (use v queues_okD(4,5) [OF q] queues_okD(6,7) [OF q] in auto)

lemma queues_unblock:
  assumes q: "queues_ok f run ready sleep wt idl D"
    and t: "sleep = t # sleep' \<and> wt' = wt \<or> sleep' = sleep \<and> wt x = t # ts \<and> wt' = wt(x := ts)"
  shows "queues_ok (f(t \<mapsto> THREAD_READY)) run (ready @ [t]) sleep' wt' idl D"
    and "f t = Some THREAD_BLOCKED" and "t \<noteq> idl"
proof -
  have "t \<in> set sleep \<or> (\<exists>x. t \<in> set (wt x))"
    using t by (elim disjE) (auto intro: exI [of _ x])
  then show ft: "f t = Some THREAD_BLOCKED" and ti: "t \<noteq> idl" using queues_okD(8) [OF q, of t] by auto
  have "t \<notin> set sleep' \<and> t \<notin> set (wt' y)" for y
    using t
  proof
    assume "sleep = t # sleep' \<and> wt' = wt"
    then show ?thesis using queues_okD(4) [OF q] queues_okD(6) [OF q, of t y] by auto
  next
    assume B: "sleep' = sleep \<and> wt x = t # ts \<and> wt' = wt(x := ts)"
    then have "t \<in> set (wt x)" "t \<notin> set ts" using queues_okD(5) [OF q, of x] by auto
    then show ?thesis using B queues_okD(6) [OF q, of t x] queues_okD(7) [OF q, of t x y]
      by (cases "y = x") auto
  qed
  then have gone: "t \<notin> set sleep'" "t \<notin> set (wt' y)" for y by blast+
  have pw: "u \<in> set sleep' \<longleftrightarrow> u \<noteq> t \<and> u \<in> set sleep" "u \<in> set (wt' y) \<longleftrightarrow> u \<noteq> t \<and> u \<in> set (wt y)" for u y
    using t gone gone(2) [of y] by (auto split: if_splits)
  show "queues_ok (f(t \<mapsto> THREAD_READY)) run (ready @ [t]) sleep' wt' idl D"
  proof (rule queues_move [OF q])
    show "distinct (ready @ [t])" using ft queues_okD(2) [OF q] queues_okD(3) [OF q, of t] by auto
    show "u \<in> set (ready @ [t]) \<longleftrightarrow> u \<noteq> idl \<and> (if u = t then THREAD_READY = THREAD_READY else u \<in> set ready)" for u
      using ti queues_okD(3) [OF q, of u] by auto
    show "distinct sleep'" "distinct (wt' y)" for y
      using t queues_okD(4) [OF q] queues_okD(5) [OF q, of y] by (auto split: if_splits)
    show "u \<in> set (wt' y) \<Longrightarrow> u \<notin> set sleep'" for y u
      using t queues_okD(6) [OF q, of u y] by (auto split: if_splits)
    show "u \<in> set (wt' y) \<Longrightarrow> u \<in> set (wt' z) \<Longrightarrow> y = z" for y z u
      using t queues_okD(7) [OF q, of u y z] by (auto split: if_splits)
    show "(u \<in> set sleep' \<or> (\<exists>y. u \<in> set (wt' y))) \<longleftrightarrow> u \<noteq> idl \<and>
        (if u = t then THREAD_READY = THREAD_BLOCKED else u \<in> set sleep \<or> (\<exists>x. u \<in> set (wt x)))" for u
      using queues_okD(8) [OF q, of u] by (auto simp: pw)
    show "(if u = t then THREAD_READY = THREAD_RUNNING else run = Some u) \<longleftrightarrow> run = Some u" for u
      using ft queues_okD(1) [OF q, of t] by auto
  qed (use ft in auto)
qed

lemma queues_create:
  assumes q: "queues_ok f run ready sleep wt idl D" and t: "f t = None"
  shows "queues_ok (f(t \<mapsto> THREAD_READY)) run (ready @ [t]) sleep wt idl D"
proof (rule queues_move [OF q])
  have fresh: "t \<notin> set ready" "t \<notin> set sleep" "\<And>y. t \<notin> set (wt y)" "t \<noteq> idl"
    using t queues_okD(3) [OF q, of t] queues_okD(8) [OF q, of t] queues_okD(10) [OF q] by auto
  show "distinct (ready @ [t])" using fresh queues_okD(2) [OF q] by auto
  show "u \<in> set (ready @ [t]) \<longleftrightarrow> u \<noteq> idl \<and> (if u = t then THREAD_READY = THREAD_READY else u \<in> set ready)" for u
    using fresh queues_okD(3) [OF q, of u] by auto
  show "(u \<in> set sleep \<or> (\<exists>y. u \<in> set (wt y))) \<longleftrightarrow> u \<noteq> idl \<and>
      (if u = t then THREAD_READY = THREAD_BLOCKED else u \<in> set sleep \<or> (\<exists>x. u \<in> set (wt x)))" for u
    using fresh queues_okD(8) [OF q, of u] by auto
  show "(if u = t then THREAD_READY = THREAD_RUNNING else run = Some u) \<longleftrightarrow> run = Some u" for u
    using t queues_okD(1) [OF q, of t] by auto
qed (use t queues_okD(4,5) [OF q] queues_okD(6,7) [OF q] in auto)

subsection \<open>The scheduler keeps the invariant\<close>

lemma thread_pages_apart:
  assumes wf: "wf_palloc s" and a: "in_some_pool s a 1" and b: "in_some_pool s b 1" and "a \<noteq> b"
  shows "page_span a 1 \<inter> page_span b 1 = {}"
proof -
  from a obtain u i where u: "a = base (pool_of u s) + 4096 * i" "i + 1 \<le> bit_cnt (used_map (pool_of u s))"
    by (auto simp: in_some_pool_def in_pool_def)
  from b obtain v j where v: "b = base (pool_of v s) + 4096 * j" "j + 1 \<le> bit_cnt (used_map (pool_of v s))"
    by (auto simp: in_some_pool_def in_pool_def)
  show ?thesis
  proof (cases "u = v")
    case True
    then show ?thesis using u v \<open>a \<noteq> b\<close> by (auto simp: page_span_idx)
  next
    case False
    then show ?thesis
      using u v wf by (cases u; cases v) (auto simp: wf_palloc_def pool_of_def page_span_def)
  qed
qed

lemma mem_ok_threads:
  assumes "mem_ok s" and "pages s' = pages s" and "initial_thread s' = initial_thread s"
    and "\<And>t th'. threads s' t = Some th' \<Longrightarrow> \<exists>th. threads s t = Some th \<and> magic th' = magic th"
  shows "mem_ok s'"
  using assms unfolding mem_ok_def by metis

lemma is_thread_mem: "mem_ok s \<Longrightarrow> is_thread s t \<longleftrightarrow> threads s t \<noteq> None"
  by (auto simp: mem_ok_def is_thread_def split: option.splits)

lemma mem_ok_free:
  assumes m: "mem_ok s" and t: "threads s t = Some th" "t \<noteq> initial_thread s"
  obtains pg where "palloc_free_page t (pages s) = Some pg"
    and "mem_ok (s\<lparr>pages := pg, threads := (threads s)(t := None)\<rparr>)"
proof -
  from m t have run: "wf_palloc (pages s)" "in_some_pool (pages s) t 1" "page_span t 1 \<subseteq> used_ram (pages s)"
    by (auto simp: mem_ok_def)
  from put_pages_law [OF this] obtain pg where pg: "put_pages (pages s) t 1 = Some pg" "wf_palloc pg"
    "used_ram pg = used_ram (pages s) - page_span t 1"
    "\<And>a n. in_some_pool pg a n = in_some_pool (pages s) a n" by blast
  have "page_span u 1 \<subseteq> used_ram pg" if "threads s u = Some th'" "u \<noteq> t" "u \<noteq> initial_thread s" for u th'
  proof -
    have "in_some_pool (pages s) u 1" "page_span u 1 \<subseteq> used_ram (pages s)"
      using m that unfolding mem_ok_def by blast+
    then show ?thesis using thread_pages_apart [OF run(1) _ run(2), of u] that(2) pg(3) by blast
  qed
  then have "mem_ok (s\<lparr>pages := pg, threads := (threads s)(t := None)\<rparr>)"
    using m pg by (auto simp: mem_ok_def)
  then show ?thesis using pg(1) by (intro that) (simp_all add: put_pages_def palloc_free_page_def)
qed

lemma schedule_ok:
  assumes m: "mem_ok s" and lvl: "\<not> intr_on s" and q: "kqueues s None {initial_thread s, running s}"
    and cur: "st s (running s) = Some v"
  defines "nxt \<equiv> hd (ready_list s @ [idle_thread s])"
  obtains s' where "schedule s = Some s'" and "running s' = nxt" and "mem_ok s'" and "sched_frame s s'"
    and "ready_list s' = tl (ready_list s)" and "kqueues s' (Some nxt) {initial_thread s}"
    and "thread_ticks s' = 0" and "v \<noteq> THREAD_DYING \<Longrightarrow> threads s' (running s) \<noteq> None"
proof -
  let ?cur = "running s" and ?ini = "initial_thread s"
  obtain c where c: "threads s ?cur = Some c" "status c = v" using cur by (auto simp: st_def)
  have vr: "v \<noteq> THREAD_RUNNING" using queues_okD(1) [OF q, of ?cur] cur by auto
  note pick = queues_pick [OF q nxt_def [THEN meta_eq_to_obj_eq]]
  obtain n where n: "threads s nxt = Some n" using pick(1) by (auto simp: st_def)
  have dn: "v = THREAD_DYING \<Longrightarrow> ?cur \<noteq> nxt" using pick(2) cur by auto
  define s1 where "s1 = s\<lparr>ready_list := tl (ready_list s), running := nxt\<rparr>"
  define s2 where "s2 = upd_thread nxt (status_update (\<lambda>_. THREAD_RUNNING)) s1\<lparr>thread_ticks := 0\<rparr>"
  define s3 where "s3 = s2\<lparr>active_pagedir := pagedir n\<rparr>"
  have "next_thread_to_run s = (s\<lparr>ready_list := tl (ready_list s)\<rparr>, nxt)"
    by (cases "ready_list s") (simp_all add: next_thread_to_run_def nxt_def)
  moreover have "is_thread (s\<lparr>ready_list := tl (ready_list s)\<rparr>) nxt"
    using is_thread_mem [OF m, of nxt] n by (simp add: is_thread_def)
  moreover have "?cur = nxt \<Longrightarrow> s\<lparr>ready_list := tl (ready_list s)\<rparr> = s1"
    by (cases s) (simp add: s1_def)
  moreover have "intr_on s1 = intr_on s" "threads s1 = threads s" by (simp_all add: s1_def)
  ultimately have sch: "schedule s = thread_schedule_tail (if ?cur \<noteq> nxt then ?cur else 0) s1"
    using lvl c vr by (cases "?cur = nxt") (simp_all add: schedule_def running_thread_def s1_def [symmetric])
  let ?prev = "if ?cur \<noteq> nxt then ?cur else 0"
  let ?dies = "?cur \<noteq> nxt \<and> v = THREAD_DYING \<and> ?cur \<noteq> ?ini"
  have th3: "threads s3 = (threads s)(nxt \<mapsto> n\<lparr>status := THREAD_RUNNING\<rparr>)"
    using n by (simp add: s3_def s2_def s1_def)
  have m3: "mem_ok s3"
    by (rule mem_ok_threads [OF m]) (use n in \<open>auto simp: s3_def s2_def s1_def split: if_splits\<close>)
  have "is_thread s2 nxt" using is_thread_mem [OF m3, of nxt] n
    by (simp add: s3_def s2_def s1_def is_thread_def)
  then have act: "process_activate s2 = Some s3"
    using n by (simp add: process_activate_def cur_thread_def thread_current_def running_thread_def
        s3_def s2_def s1_def)
  have c0: "?cur \<noteq> 0" using m c(1) by (auto simp: mem_ok_def)
  have tail: "thread_schedule_tail ?prev s1 = (if ?dies then do {
      pg \<leftarrow> palloc_free_page ?cur (pages s3);
      Some (s3\<lparr>pages := pg, threads := (threads s3)(?cur := None)\<rparr>) } else Some s3)"
    using lvl act c c0 th3 by (simp add: thread_schedule_tail_def running_thread_def s2_def [symmetric] Let_def)
       (simp add: s1_def s2_def s3_def)
  have st3: "st s3 t = (if t = nxt then Some THREAD_RUNNING else st s t)" for t
    by (simp add: st_def th3)
  have wk: "wake_time s3 = wake_time s" using n by (auto simp: wake_time_def th3 fun_eq_iff)
  have fr3: "sched_frame s s3" using wk by (auto simp: sched_frame_def s3_def s2_def s1_def)
  have f3: "ready_list s3 = tl (ready_list s)" "sleep_list s3 = sleep_list s" "semas s3 = semas s"
    "idle_thread s3 = idle_thread s" "running s3 = nxt" "thread_ticks s3 = 0"
    by (simp_all add: s3_def s2_def s1_def)
  have gone: "queues_ok g (Some nxt) (tl (ready_list s)) (sleep_list s) (\<lambda>x. waiters (semas s x))
      (idle_thread s) {?ini}"
    if "\<And>t. g t = (if t = nxt then Some THREAD_RUNNING
      else if t = ?cur \<and> st s t = Some THREAD_DYING \<and> t \<noteq> ?ini then None else st s t)" for g
    by (rule queues_switch [OF q nxt_def [THEN meta_eq_to_obj_eq] _ that]) simp_all
  show ?thesis
  proof (cases ?dies)
    case True
    have "threads s3 ?cur = Some c" using True c by (simp add: th3)
    with True obtain pg where pg: "palloc_free_page ?cur (pages s3) = Some pg"
      "mem_ok (s3\<lparr>pages := pg, threads := (threads s3)(?cur := None)\<rparr>)"
      using mem_ok_free [OF m3, of ?cur c] by (auto simp: s3_def s2_def s1_def)
    let ?s = "s3\<lparr>pages := pg, threads := (threads s3)(?cur := None)\<rparr>"
    have "schedule s = Some ?s" unfolding sch tail using True pg(1) by simp
    moreover have "sched_frame s ?s"
      using fr3 by (auto simp: sched_frame_def wake_time_def split: if_splits)
    moreover have "st ?s t = (if t = nxt then Some THREAD_RUNNING
        else if t = ?cur \<and> st s t = Some THREAD_DYING \<and> t \<noteq> ?ini then None else st s t)" for t
      using True cur st3 [of t] by (auto simp: st_def)
    then have "kqueues ?s (Some nxt) {?ini}" using gone [of "st ?s"] by (simp add: f3)
    ultimately show ?thesis using pg(2) True by (intro that [of ?s]) (simp_all add: f3)
  next
    case False
    have "schedule s = Some s3" unfolding sch tail by (rule if_not_P [OF False])
    moreover have "st s3 t = (if t = nxt then Some THREAD_RUNNING
        else if t = ?cur \<and> st s t = Some THREAD_DYING \<and> t \<noteq> ?ini then None else st s t)" for t
      using False cur st3 [of t] by auto
    then have "kqueues s3 (Some nxt) {?ini}" using gone [of "st s3"] by (simp add: f3)
    ultimately show ?thesis using m3 fr3 c th3 by (intro that [of s3]) (simp_all add: f3)
  qed
qed

lemma kinvD:
  assumes "kinv s"
  shows "mem_ok s" and "tid_lock s = None" and "\<not> in_external_intr s"
    and "kqueues s (Some (running s)) {initial_thread s}" and "sorted (map (wake_time s) (sleep_list s))"
  using assms by (simp_all add: kinv_def)

lemma kinv_current:
  assumes "kinv s"
  obtains th where "threads s (running s) = Some th" and "status th = THREAD_RUNNING"
    and "thread_current s = Some (running s)" and "cur_thread s = Some th" and "running s \<noteq> 0"
proof -
  have "st s (running s) = Some THREAD_RUNNING" using queues_okD(1) [OF kinvD(4) [OF assms]] by simp
  then obtain th where th: "threads s (running s) = Some th" "status th = THREAD_RUNNING"
    by (auto simp: st_def)
  moreover have "is_thread s (running s)" using is_thread_mem [OF kinvD(1) [OF assms]] th by simp
  ultimately show ?thesis
    by (intro that) (auto simp: thread_current_def running_thread_def cur_thread_def is_thread_def)
qed

lemma sleep_threads_exist:
  assumes "kqueues s run D" and "t \<in> set (sleep_list s)"
  shows "threads s t \<noteq> None"
  using queues_okD(8) [OF assms(1), of t] assms(2) by (auto simp: st_def)

text \<open>
  The current thread leaves the processor: it was marked with its new status and put on the
  queue that goes with it (\<open>q\<close>), and \<^verbatim>\<open>schedule\<close> runs.
\<close>

lemma leave_ok:
  assumes m: "mem_ok s" and lvl: "\<not> intr_on s" "\<not> in_external_intr s" "tid_lock s = None"
    and cur: "threads s (running s) = Some th" and D: "D \<subseteq> {initial_thread s, running s}"
    and q: "queues_ok ((st s)(running s \<mapsto> v)) None (ready_list s) (sleep_list s) (\<lambda>x. waiters (semas s x))
      (idle_thread s) D"
    and sl: "sorted (map (wake_time s) (sleep_list s))"
  defines "s1 \<equiv> upd_thread (running s) (status_update (\<lambda>_. v)) s"
  obtains s' where "schedule s1 = Some s'" and "kinv s'" and "sched_frame s s'" and "thread_ticks s' = 0"
    and "running s' = hd (ready_list s @ [idle_thread s])"
    and "ready_list s' = tl (ready_list s)" and "v \<noteq> THREAD_DYING \<Longrightarrow> threads s' (running s) \<noteq> None"
proof -
  have st1: "st s1 = (st s)(running s \<mapsto> v)" unfolding s1_def by (rule st_upd_status) (simp add: cur)
  have m1: "mem_ok s1"
    by (rule mem_ok_threads [OF m]) (auto simp: s1_def split: if_splits)
  have q1: "kqueues s1 None {initial_thread s1, running s1}"
    using queues_mono [OF q D] unfolding st1 by (simp add: s1_def)
  obtain s' where s': "schedule s1 = Some s'"
    "running s' = hd (ready_list s1 @ [idle_thread s1])" "mem_ok s'" "sched_frame s1 s'"
    "ready_list s' = tl (ready_list s1)"
    "kqueues s' (Some (hd (ready_list s1 @ [idle_thread s1]))) {initial_thread s1}"
    "thread_ticks s' = 0" "v \<noteq> THREAD_DYING \<Longrightarrow> threads s' (running s1) \<noteq> None"
    by (rule schedule_ok [OF m1 _ q1, of v]) (use lvl st1 in \<open>simp_all add: s1_def\<close>)
  have fr: "sched_frame s s'" using s'(4) by (simp add: sched_frame_def s1_def)
  have "wake_time s' t = wake_time s t" if "t \<in> set (sleep_list s)" for t
    using sleep_threads_exist [OF s'(6), of t] fr that by (auto simp: sched_frame_def)
  then have "map (wake_time s') (sleep_list s') = map (wake_time s) (sleep_list s)"
    using fr by (simp add: sched_frame_def)
  then have "sorted (map (wake_time s') (sleep_list s'))" using sl by (simp only:)
  then have "kinv s'" using s' fr lvl by (simp add: kinv_def sched_frame_def s1_def)
  moreover have "ready_list s1 = ready_list s" "idle_thread s1 = idle_thread s" "running s1 = running s"
    by (simp_all add: s1_def)
  note s'(2,5,8) [unfolded this]
  ultimately show ?thesis using that s'(1,7) fr by blast
qed

lemma kinv_set_level [simp]: "kinv (s\<lparr>intr_on := b\<rparr>) = kinv s"
proof -
  have "st (s\<lparr>intr_on := b\<rparr>) = st s" "wake_time (s\<lparr>intr_on := b\<rparr>) = wake_time s"
    by (auto simp: st_def wake_time_def fun_eq_iff)
  then show ?thesis by (simp add: kinv_def mem_ok_def)
qed

lemma intr_set_level_ok: "\<not> in_external_intr s \<or> \<not> b \<Longrightarrow> intr_set_level b s = Some (s\<lparr>intr_on := b\<rparr>)"
  by (auto simp: intr_set_level_def intr_enable_def intr_disable_def intr_context_def)

lemma thread_unblock_eq:
  assumes "is_thread s t" and "threads s t = Some th" "status th = THREAD_BLOCKED"
    and "\<not> in_external_intr s \<or> \<not> intr_on s"
  shows "thread_unblock t s = Some (upd_thread t (status_update (\<lambda>_. THREAD_READY))
    (s\<lparr>ready_list := ready_list s @ [t]\<rparr>))"
  using assms by (cases s)
    (auto simp: thread_unblock_def intr_set_level_ok intr_disable_def upd_thread_def)

lemma thread_unblock_ok:
  "mem_ok s \<Longrightarrow> threads s t = Some th \<Longrightarrow> status th = THREAD_BLOCKED \<Longrightarrow>
   \<not> in_external_intr s \<or> \<not> intr_on s \<Longrightarrow>
   thread_unblock t s = Some (upd_thread t (status_update (\<lambda>_. THREAD_READY))
    (s\<lparr>ready_list := ready_list s @ [t]\<rparr>))"
  by (rule thread_unblock_eq) (simp_all add: is_thread_mem)

lemma kinv_cong:
  assumes "threads s' = threads s" "pages s' = pages s" "initial_thread s' = initial_thread s"
    "tid_lock s' = tid_lock s" "in_external_intr s' = in_external_intr s" "running s' = running s"
    "ready_list s' = ready_list s" "sleep_list s' = sleep_list s" "idle_thread s' = idle_thread s"
    "\<And>x. waiters (semas s' x) = waiters (semas s x)"
  shows "kinv s' = kinv s"
proof -
  have "st s' = st s" "wake_time s' = wake_time s"
    using assms(1) by (auto simp: st_def wake_time_def fun_eq_iff)
  then show ?thesis using assms by (simp add: kinv_def mem_ok_def)
qed

lemma push_frames_simps [simp]:
  "threads (push_frames fs s) = threads s" "running (push_frames fs s) = running s"
  "ready_list (push_frames fs s) = ready_list s" "all_list (push_frames fs s) = all_list s"
  "sleep_list (push_frames fs s) = sleep_list s" "idle_thread (push_frames fs s) = idle_thread s"
  "initial_thread (push_frames fs s) = initial_thread s" "intr_on (push_frames fs s) = intr_on s"
  "in_external_intr (push_frames fs s) = in_external_intr s" "tid_lock (push_frames fs s) = tid_lock s"
  "pages (push_frames fs s) = pages s" "semas (push_frames fs s) = semas s" "holder (push_frames fs s) = holder s"
  "conds (push_frames fs s) = conds s" "now (push_frames fs s) = now s" "next_tid (push_frames fs s) = next_tid s"
  "stacks (push_frames fs s) = (stacks s)(running s := fs @ stacks s (running s))"
  by (simp_all add: push_frames_def)

lemma thread_yield_ok:
  assumes k: "kinv s"
  obtains s' where "thread_yield s = Some s'" and "kinv s'" and "thread_ticks s' = 0"
    and "sched_frame (push_frames [Set_level (intr_on s)] (s\<lparr>intr_on := False\<rparr>)) s'"
    and "running s' = hd (ready_list s @ [running s])"
    and "running s \<noteq> idle_thread s \<Longrightarrow> ready_list s' = tl (ready_list s @ [running s])"
    and "threads s' (running s) \<noteq> None"
proof -
  obtain th where th: "threads s (running s) = Some th" "thread_current s = Some (running s)"
    using kinv_current [OF k] by metis
  define rl where "rl = (if running s \<noteq> idle_thread s then ready_list s @ [running s] else ready_list s)"
  define s1 where "s1 = push_frames [Set_level (intr_on s)] (s\<lparr>intr_on := False, ready_list := rl\<rparr>)"
  have st1: "st s1 = st s" and wk1: "wake_time s1 = wake_time s"
    by (auto simp: s1_def st_def wake_time_def fun_eq_iff)
  have f1: "running s1 = running s" "ready_list s1 = rl" "sleep_list s1 = sleep_list s" "semas s1 = semas s"
    "idle_thread s1 = idle_thread s" "initial_thread s1 = initial_thread s" "threads s1 = threads s"
    "pages s1 = pages s" "tid_lock s1 = tid_lock s" "in_external_intr s1 = in_external_intr s" "\<not> intr_on s1"
    by (simp_all add: s1_def)
  have y: "thread_yield s = schedule (upd_thread (running s1) (status_update (\<lambda>_. THREAD_READY)) s1)"
    using th kinvD(3) [OF k]
    by (simp add: thread_yield_def intr_context_def intr_disable_def rl_def s1_def)
  have q: "queues_ok ((st s)(running s \<mapsto> THREAD_READY)) None rl (sleep_list s) (\<lambda>x. waiters (semas s x))
      (idle_thread s) (insert (running s) {initial_thread s})"
    by (rule queues_running_out [OF kinvD(4) [OF k]]) (simp add: rl_def)
  obtain s' where s': "schedule (upd_thread (running s1) (status_update (\<lambda>_. THREAD_READY)) s1) = Some s'"
    "kinv s'" "sched_frame s1 s'" "thread_ticks s' = 0"
    "running s' = hd (ready_list s1 @ [idle_thread s1])" "ready_list s' = tl (ready_list s1)"
    "threads s' (running s) \<noteq> None"
  proof (rule leave_ok [of s1 th "{initial_thread s, running s}" THREAD_READY])
    show "mem_ok s1" using kinvD(1) [OF k] by (simp add: mem_ok_def f1)
  qed (use kinvD(2,3,5) [OF k] th q in \<open>simp_all add: f1 st1 wk1 insert_commute\<close>)
  have "sched_frame (push_frames [Set_level (intr_on s)] (s\<lparr>intr_on := False\<rparr>)) s'"
    using s'(3) wk1 by (auto simp: sched_frame_def s1_def wake_time_def)
  moreover have "running s' = hd (ready_list s @ [running s])"
    using s'(5) unfolding f1 rl_def by (cases "ready_list s") (auto split: if_splits)
  ultimately show ?thesis using s' y by (intro that [of s']) (simp_all add: f1 rl_def)
qed

lemma thread_exit_ok:
  assumes k: "kinv s" and ni: "running s \<noteq> idle_thread s"
  obtains s' where "thread_exit s = Some s'" and "kinv s'"
    and "sched_frame (s\<lparr>intr_on := False, all_list := remove1 (running s) (all_list s)\<rparr>) s'"
    and "running s' = hd (ready_list s @ [idle_thread s])"
proof -
  obtain th where th: "threads s (running s) = Some th" "thread_current s = Some (running s)"
    using kinv_current [OF k] by metis
  define s1 where "s1 = s\<lparr>intr_on := False, all_list := remove1 (running s) (all_list s)\<rparr>"
  have st1: "st s1 = st s" and wk1: "wake_time s1 = wake_time s"
    by (auto simp: s1_def st_def wake_time_def fun_eq_iff)
  have f1: "running s1 = running s" "ready_list s1 = ready_list s" "sleep_list s1 = sleep_list s"
    "semas s1 = semas s" "idle_thread s1 = idle_thread s" "initial_thread s1 = initial_thread s"
    "threads s1 = threads s" "pages s1 = pages s" "tid_lock s1 = tid_lock s"
    "in_external_intr s1 = in_external_intr s" "\<not> intr_on s1"
    by (simp_all add: s1_def)
  have y: "thread_exit s = schedule (upd_thread (running s1) (status_update (\<lambda>_. THREAD_DYING)) s1)"
    using th kinvD(3) [OF k] unfolding f1
    by (simp add: thread_exit_def intr_context_def intr_disable_def thread_current_def running_thread_def
        is_thread_def s1_def ASSERT_bind_eq_Some split: option.splits)
  have q: "queues_ok ((st s)(running s \<mapsto> THREAD_DYING)) None (ready_list s) (sleep_list s)
      (\<lambda>x. waiters (semas s x)) (idle_thread s) (insert (running s) {initial_thread s})"
    by (rule queues_running_out [OF kinvD(4) [OF k]]) (simp add: ni)
  obtain s' where s': "schedule (upd_thread (running s1) (status_update (\<lambda>_. THREAD_DYING)) s1) = Some s'"
    "kinv s'" "sched_frame s1 s'"
    "running s' = hd (ready_list s1 @ [idle_thread s1])"
  proof (rule leave_ok [of s1 th "{initial_thread s, running s}" THREAD_DYING])
    show "mem_ok s1" using kinvD(1) [OF k] by (simp add: mem_ok_def f1)
  qed (use kinvD(2,3,5) [OF k] th q in \<open>simp_all add: f1 st1 wk1 insert_commute\<close>)
  from s' y show ?thesis unfolding f1 by (intro that [of s']) (simp_all add: s1_def)
qed

lemma thread_block_ok:
  assumes m: "mem_ok s" and lvl: "\<not> intr_on s" "\<not> in_external_intr s" "tid_lock s = None"
    and cur: "st s (running s) = Some THREAD_RUNNING"
    and q: "queues_ok ((st s)(running s \<mapsto> THREAD_BLOCKED)) None (ready_list s) (sleep_list s)
      (\<lambda>x. waiters (semas s x)) (idle_thread s) D" and D: "D \<subseteq> {initial_thread s, running s}"
    and sl: "sorted (map (wake_time s) (sleep_list s))"
  obtains s' where "thread_block s = Some s'" and "kinv s'" and "sched_frame s s'" and "thread_ticks s' = 0"
    and "running s' = hd (ready_list s @ [idle_thread s])" and "threads s' (running s) \<noteq> None"
proof -
  obtain th where th: "threads s (running s) = Some th" "status th = THREAD_RUNNING"
    using cur by (auto simp: st_def)
  have "thread_block s = schedule (upd_thread (running s) (status_update (\<lambda>_. THREAD_BLOCKED)) s)"
    using lvl th is_thread_mem [OF m, of "running s"]
    by (simp add: thread_block_def intr_context_def thread_current_def running_thread_def)
  moreover obtain s' where "schedule (upd_thread (running s) (status_update (\<lambda>_. THREAD_BLOCKED)) s) = Some s'"
    "kinv s'" "sched_frame s s'" "thread_ticks s' = 0"
    "running s' = hd (ready_list s @ [idle_thread s])" "threads s' (running s) \<noteq> None"
    by (rule leave_ok [OF m lvl th(1) D q sl]) blast
  ultimately show ?thesis by (intro that) simp_all
qed

lemma idle_ok:
  assumes k: "kinv s" and i: "running s = idle_thread s"
  obtains s' where "idle s = Some s'" and "kinv s'"
    and "sched_frame (push_frames [Set_level True] (s\<lparr>intr_on := False\<rparr>)) s'"
    and "running s' = hd (ready_list s @ [idle_thread s])" and "threads s' (running s) \<noteq> None"
proof -
  define s1 where "s1 = push_frames [Set_level True] (s\<lparr>intr_on := False\<rparr>)"
  have k1: "kinv s1" using k kinv_cong [of s1 s] by (simp add: s1_def)
  have "queues_ok ((st s1)(running s1 \<mapsto> THREAD_BLOCKED)) None (ready_list s1) (sleep_list s1)
      (\<lambda>x. waiters (semas s1 x)) (idle_thread s1) (insert (running s1) {initial_thread s1})"
    by (rule queues_running_out [OF kinvD(4) [OF k1]]) (use i in \<open>simp add: s1_def\<close>)
  then obtain s' where s': "thread_block s1 = Some s'" "kinv s'" "sched_frame s1 s'"
    "running s' = hd (ready_list s1 @ [idle_thread s1])" "threads s' (running s1) \<noteq> None"
    by (rule thread_block_ok [OF kinvD(1) [OF k1] _ kinvD(3,2) [OF k1] _ _ _ kinvD(5) [OF k1], rotated 2])
      (use queues_okD(1) [OF kinvD(4) [OF k1], of "running s1"] in \<open>auto simp: s1_def\<close>)
  have "ready_list s1 = ready_list s" "idle_thread s1 = idle_thread s" "running s1 = running s"
    by (simp_all add: s1_def)
  with s' show ?thesis by (intro that [of s']) (simp_all add: idle_def intr_disable_def s1_def)
qed

lemma fresh_page:
  assumes m: "mem_ok s"
  obtains pg t where "palloc_get_page (running s) PAL_ZERO (pages s) = Some (pg, t)" and "wf_palloc pg"
    and "\<And>a n. in_some_pool pg a n = in_some_pool (pages s) a n"
    and "t = 0 \<and> used_ram pg = used_ram (pages s) \<or> t \<noteq> 0 \<and> threads s t = None \<and> t \<noteq> initial_thread s \<and>
      in_some_pool pg t 1 \<and> used_ram pg = used_ram (pages s) \<union> page_span t 1"
proof -
  have wf: "wf_palloc (pages s)" using m by (simp add: mem_ok_def)
  have "page_request (PAL_ZERO, 1)" by (simp add: page_request_def PAL_ZERO_def PAL_ASSERT_def)
  from get_pages_law [OF wf this, of "running s", unfolded snd_conv] obtain pg p where
    g: "get_pages (running s) (pages s) (PAL_ZERO, 1) = Some (pg, p)" and wf': "wf_palloc pg"
    and p: "case p of None \<Rightarrow> used_ram pg = used_ram (pages s)
     | Some a \<Rightarrow> in_some_pool pg a 1 \<and> page_span a 1 \<inter> used_ram (pages s) = {} \<and>
         used_ram pg = used_ram (pages s) \<union> page_span a 1"
    and same: "\<And>a n. in_some_pool pg a n = in_some_pool (pages s) a n" by blast
  from g obtain t where t: "palloc_get_page (running s) PAL_ZERO (pages s) = Some (pg, t)"
    "p = (if t = 0 then None else Some t)"
    by (auto simp: get_pages_def palloc_get_page_def bind_eq_Some_conv)
  have "threads s t = None \<and> t \<noteq> initial_thread s" if "t \<noteq> 0"
  proof -
    have pt: "in_some_pool (pages s) t 1" "page_span t 1 \<inter> used_ram (pages s) = {}"
      using p t(2) that same by auto
    then have ni: "t \<noteq> initial_thread s" using m by (auto simp: mem_ok_def)
    moreover have "t \<in> page_span t 1" by (simp add: page_span_def)
    ultimately show ?thesis using m pt unfolding mem_ok_def by (cases "threads s t") blast+
  qed
  then show ?thesis using that [OF t(1) wf' same] p t(2) by (cases "t = 0") auto
qed

definition new_thread :: "nat \<Rightarrow> string \<Rightarrow> int \<Rightarrow> int \<Rightarrow> nat \<Rightarrow> thread" where
  "new_thread t nm prio new_tid aux_info = \<lparr>tid = new_tid, status = THREAD_READY, name = take 15 nm,
     stack = t + PGSIZE - 44, priority = prio, pagedir = 0, info = aux_info, next_fd = 2, thread_file = 0,
     magic = THREAD_MAGIC, ticks = 0\<rparr>"

lemma init_thread_eq:
  "t \<noteq> 0 \<Longrightarrow> PRI_MIN \<le> prio \<Longrightarrow> prio \<le> PRI_MAX \<Longrightarrow> \<not> in_external_intr s \<or> \<not> intr_on s \<Longrightarrow>
   init_thread t nm prio s = Some (s\<lparr>threads := (threads s)(t \<mapsto>
      \<lparr>tid = 0, status = THREAD_BLOCKED, name = take 15 nm, stack = t + PGSIZE, priority = prio,
        pagedir = 0, info = 0, next_fd = 2, thread_file = 0, magic = THREAD_MAGIC, ticks = 0\<rparr>),
      all_list := all_list s @ [t]\<rparr>)"
  by (cases s) (auto simp: Let_def init_thread_def intr_set_level_ok intr_disable_def)

lemma allocate_tid_eq:
  "tid_lock s = None \<Longrightarrow> allocate_tid s = Some (s\<lparr>next_tid := next_tid s + 1\<rparr>, next_tid s)"
  by (cases s) (simp add: allocate_tid_def Let_def)

lemma alloc_frame_eq:
  "t \<noteq> 0 \<Longrightarrow> threads s t = Some th \<Longrightarrow> magic th = THREAD_MAGIC \<Longrightarrow> n mod 4 = 0 \<Longrightarrow>
   alloc_frame t n s = Some (upd_thread t (stack_update (\<lambda>p. p - n)) s, stack th - n)"
  by (simp add: alloc_frame_def is_thread_def)

lemma thread_create_eq:
  assumes k: "tid_lock s = None" "\<not> in_external_intr s" and prio: "PRI_MIN \<le> prio" "prio \<le> PRI_MAX"
    and pg: "palloc_get_page (running s) PAL_ZERO (pages s) = Some (pg, t)" "t \<noteq> 0"
  shows "thread_create nm prio True aux_info s = Some (s\<lparr>pages := pg,
      threads := (threads s)(t \<mapsto> new_thread t nm prio (next_tid s) aux_info), all_list := all_list s @ [t],
      next_tid := next_tid s + 1, stacks := (stacks s)(t := kernel_thread),
      ready_list := ready_list s @ [t]\<rparr>, next_tid s)"
  using k prio pg
  by (simp add: thread_create_def init_thread_eq allocate_tid_eq alloc_frame_eq Let_def thread_unblock_eq is_thread_def)
    (simp add: upd_thread_def new_thread_def PGSIZE_def)

lemma thread_create_ok:
  assumes k: "kinv s" and prio: "PRI_MIN \<le> prio" "prio \<le> PRI_MAX"
  obtains (none) pg where "thread_create nm prio True aux_info s = Some (s\<lparr>pages := pg\<rparr>, TID_ERROR)"
      "kinv (s\<lparr>pages := pg\<rparr>)"
  | (new) s' t where "thread_create nm prio True aux_info s = Some (s', next_tid s)" "kinv s'"
      "threads s t = None" "threads s' = (threads s)(t \<mapsto> new_thread t nm prio (next_tid s) aux_info)"
      "ready_list s' = ready_list s @ [t]" "stacks s' = (stacks s)(t := kernel_thread)" "t \<noteq> 0"
      "running s' = running s" "semas s' = semas s" "holder s' = holder s" "conds s' = conds s"
      "sleep_list s' = sleep_list s" "now s' = now s" "intr_on s' = intr_on s" "all_list s' = all_list s @ [t]"
      "idle_thread s' = idle_thread s" "initial_thread s' = initial_thread s"
proof -
  obtain pg t where pg: "palloc_get_page (running s) PAL_ZERO (pages s) = Some (pg, t)" "wf_palloc pg"
    "\<And>a n. in_some_pool pg a n = in_some_pool (pages s) a n"
    "t = 0 \<and> used_ram pg = used_ram (pages s) \<or> t \<noteq> 0 \<and> threads s t = None \<and> t \<noteq> initial_thread s \<and>
      in_some_pool pg t 1 \<and> used_ram pg = used_ram (pages s) \<union> page_span t 1"
    using fresh_page [OF kinvD(1) [OF k]] by blast
  have m: "mem_ok s" by (rule kinvD(1) [OF k])
  show ?thesis
  proof (cases "t = 0")
    case True
    have "st (s\<lparr>pages := pg\<rparr>) = st s" "wake_time (s\<lparr>pages := pg\<rparr>) = wake_time s"
      by (auto simp: st_def wake_time_def fun_eq_iff)
    then have "kinv (s\<lparr>pages := pg\<rparr>)" using k m pg True by (auto simp: kinv_def mem_ok_def)
    then show ?thesis using pg(1) True by (intro none) (simp add: thread_create_def)
  next
    case False
    define s' where "s' = s\<lparr>pages := pg,
      threads := (threads s)(t \<mapsto> new_thread t nm prio (next_tid s) aux_info), all_list := all_list s @ [t],
      next_tid := next_tid s + 1, stacks := (stacks s)(t := kernel_thread),
      ready_list := ready_list s @ [t]\<rparr>"
    have t: "threads s t = None" "t \<noteq> initial_thread s" "in_some_pool pg t 1"
      "used_ram pg = used_ram (pages s) \<union> page_span t 1" using pg(4) False by auto
    have st': "st s' = (st s)(t \<mapsto> THREAD_READY)"
      by (auto simp: s'_def st_def fun_eq_iff new_thread_def)
    have wk: "wake_time s' u = wake_time s u" if "u \<noteq> t" for u
      using that by (simp add: s'_def wake_time_def)
    have "t \<notin> set (sleep_list s)" using sleep_threads_exist [OF kinvD(4) [OF k], of t] t(1) by auto
    then have "map (wake_time s') (sleep_list s) = map (wake_time s) (sleep_list s)"
      using wk by (metis (no_types, lifting) map_cong)
    moreover have sl: "sleep_list s' = sleep_list s" by (simp add: s'_def)
    ultimately have "sorted (map (wake_time s') (sleep_list s'))" using kinvD(5) [OF k] by (simp only:)
    moreover have "kqueues s' (Some (running s')) {initial_thread s'}"
      using queues_create [OF kinvD(4) [OF k], of t] t(1) unfolding st' by (simp add: s'_def st_def)
    moreover have "mem_ok s'"
      using m pg(2,3) t False by (auto simp: mem_ok_def s'_def new_thread_def split: if_splits) blast
    ultimately have "kinv s'" using kinvD(2,3) [OF k] by (simp add: kinv_def s'_def)
    then show ?thesis using thread_create_eq [OF kinvD(2,3) [OF k] prio pg(1) False, of nm aux_info] t False
      by (intro new [of s' t]) (simp_all add: s'_def)
  qed
qed

end
