(* ===== verification/Synch.thy ===== *)
theory Synch
  imports Threads
begin

section \<open>Semaphores, locks and condition variables (threads/synch.c)\<close>

text \<open>
  The operations of \<^verbatim>\<open>synch.c\<close> on the kernel state. A function that can sleep is cut at the
  points where the thread may lose the processor, and the rest of it is left on the thread's
  frame stack: \<open>Sema_loop\<close> is the \<^verbatim>\<open>while\<close> of \<^verbatim>\<open>sema_down\<close>, tested again after every wake-up,
  \<open>Set_holder\<close> the assignment after \<^verbatim>\<open>sema_down\<close> in \<^verbatim>\<open>lock_acquire\<close>, and so on. \<open>resume\<close> runs
  the running thread's top frame. The \<^verbatim>\<open>semaphore_elem\<close> that \<^verbatim>\<open>cond_wait\<close> keeps on its stack
  is the semaphore whose address is its argument \<open>w\<close>.
\<close>

definition sema_init :: "sema_id \<Rightarrow> nat \<Rightarrow> kernel \<Rightarrow> kernel" where
  "sema_init x v s = s\<lparr>semas := (semas s)(x := \<lparr>sema_value = v, waiters = []\<rparr>)\<rparr>"

definition upd_sema :: "sema_id \<Rightarrow> (semaphore \<Rightarrow> semaphore) \<Rightarrow> kernel \<Rightarrow> kernel" where
  "upd_sema x f s = s\<lparr>semas := (semas s)(x := f (semas s x))\<rparr>"

definition sema_down_loop :: "sema_id \<Rightarrow> bool \<Rightarrow> kernel \<Rightarrow> kernel option" where
  "sema_down_loop x old_level s =
     (if sema_value (semas s x) = 0 then do {
        t \<leftarrow> thread_current s;
        let s = upd_sema x (waiters_update (\<lambda>ws. ws @ [t])) s;
        thread_block (push_frames [Sema_loop x old_level] s) }
      else intr_set_level old_level (upd_sema x (sema_value_update (\<lambda>v. v - 1)) s))"

definition sema_down :: "sema_id \<Rightarrow> kernel \<Rightarrow> kernel option" where
  "sema_down x s = do {
     _ \<leftarrow> ASSERT (\<not> intr_context s);
     let old_level = intr_on s;
     sema_down_loop x old_level (intr_disable s) }"

definition sema_try_down :: "sema_id \<Rightarrow> kernel \<Rightarrow> (kernel \<times> bool) option" where
  "sema_try_down x s = do {
     let old_level = intr_on s;
     let s = intr_disable s;
     let success = (sema_value (semas s x) > 0);
     let s = (if success then upd_sema x (sema_value_update (\<lambda>v. v - 1)) s else s);
     s \<leftarrow> intr_set_level old_level s;
     Some (s, success) }"

definition sema_up :: "sema_id \<Rightarrow> kernel \<Rightarrow> kernel option" where
  "sema_up x s = do {
     let old_level = intr_on s;
     let s = intr_disable s;
     s \<leftarrow> (case waiters (semas s x) of [] \<Rightarrow> Some s
            | t # ts \<Rightarrow> thread_unblock t (upd_sema x (waiters_update (\<lambda>_. ts)) s));
     let s = upd_sema x (sema_value_update (\<lambda>v. (v + 1) mod 2 ^ 32)) s;
     intr_set_level old_level s }"

definition lock_init :: "nat \<Rightarrow> kernel \<Rightarrow> kernel" where
  "lock_init l s = sema_init (Lock_sema l) 1 (s\<lparr>holder := (holder s)(l := 0)\<rparr>)"

definition lock_held_by_current_thread :: "nat \<Rightarrow> kernel \<Rightarrow> bool option" where
  "lock_held_by_current_thread l s = do { t \<leftarrow> thread_current s; Some (holder s l = t) }"

definition lock_acquire :: "nat \<Rightarrow> kernel \<Rightarrow> kernel option" where
  "lock_acquire l s = do {
     _ \<leftarrow> ASSERT (\<not> intr_context s);
     held \<leftarrow> lock_held_by_current_thread l s;
     _ \<leftarrow> ASSERT (\<not> held);
     Some (push_frames [Sema_down (Lock_sema l), Set_holder l] s) }"

definition set_holder :: "nat \<Rightarrow> kernel \<Rightarrow> kernel option" where
  "set_holder l s = do { t \<leftarrow> thread_current s; Some (s\<lparr>holder := (holder s)(l := t)\<rparr>) }"

definition lock_try_acquire :: "nat \<Rightarrow> kernel \<Rightarrow> (kernel \<times> bool) option" where
  "lock_try_acquire l s = do {
     held \<leftarrow> lock_held_by_current_thread l s;
     _ \<leftarrow> ASSERT (\<not> held);
     (s, success) \<leftarrow> sema_try_down (Lock_sema l) s;
     Some (if success then push_frames [Set_holder l] s else s, success) }"

definition lock_release :: "nat \<Rightarrow> kernel \<Rightarrow> kernel option" where
  "lock_release l s = do {
     held \<leftarrow> lock_held_by_current_thread l s;
     _ \<leftarrow> ASSERT held;
     Some (push_frames [Sema_up (Lock_sema l)] (s\<lparr>holder := (holder s)(l := 0)\<rparr>)) }"

definition cond_init :: "nat \<Rightarrow> kernel \<Rightarrow> kernel" where
  "cond_init c s = s\<lparr>conds := (conds s)(c := [])\<rparr>"

definition cond_wait :: "nat \<Rightarrow> nat \<Rightarrow> nat \<Rightarrow> kernel \<Rightarrow> kernel option" where
  "cond_wait c l w s = do {
     _ \<leftarrow> ASSERT (\<not> intr_context s);
     held \<leftarrow> lock_held_by_current_thread l s;
     _ \<leftarrow> ASSERT held;
     let s = sema_init (Sema w) 0 s;
     let s = s\<lparr>conds := (conds s)(c := conds s c @ [w])\<rparr>;
     let s = push_frames [Sema_down (Sema w), Lock_acquire l] s;
     lock_release l s }"

definition cond_signal :: "nat \<Rightarrow> nat \<Rightarrow> kernel \<Rightarrow> kernel option" where
  "cond_signal c l s = do {
     _ \<leftarrow> ASSERT (\<not> intr_context s);
     held \<leftarrow> lock_held_by_current_thread l s;
     _ \<leftarrow> ASSERT held;
     case conds s c of [] \<Rightarrow> Some s
     | w # ws \<Rightarrow> Some (push_frames [Sema_up (Sema w)] (s\<lparr>conds := (conds s)(c := ws)\<rparr>)) }"

definition cond_broadcast :: "nat \<Rightarrow> nat \<Rightarrow> kernel \<Rightarrow> kernel option" where
  "cond_broadcast c l s =
     (if conds s c = [] then Some s
      else Some (push_frames [Cond_signal c l, Cond_broadcast c l] s))"

definition run_frame :: "frame \<Rightarrow> kernel \<Rightarrow> kernel option" where
  "run_frame f s = (case f of
       Set_level b \<Rightarrow> intr_set_level b s
     | Sema_loop x old_level \<Rightarrow> sema_down_loop x old_level s
     | Sema_down x \<Rightarrow> sema_down x s
     | Sema_up x \<Rightarrow> sema_up x s
     | Set_holder l \<Rightarrow> set_holder l s
     | Lock_acquire l \<Rightarrow> lock_acquire l s
     | Cond_signal c l \<Rightarrow> cond_signal c l s
     | Cond_broadcast c l \<Rightarrow> cond_broadcast c l s)"

definition resume :: "kernel \<Rightarrow> kernel option" where
  "resume s = (case stacks s (running s) of [] \<Rightarrow> Some s
     | f # fs \<Rightarrow> run_frame f (s\<lparr>stacks := (stacks s)(running s := fs)\<rparr>))"

subsection \<open>Semaphores keep the scheduler's invariant\<close>

lemma upd_sema_simps [simp]:
  "threads (upd_sema x f s) = threads s" "running (upd_sema x f s) = running s"
  "ready_list (upd_sema x f s) = ready_list s" "all_list (upd_sema x f s) = all_list s"
  "sleep_list (upd_sema x f s) = sleep_list s" "idle_thread (upd_sema x f s) = idle_thread s"
  "initial_thread (upd_sema x f s) = initial_thread s" "intr_on (upd_sema x f s) = intr_on s"
  "in_external_intr (upd_sema x f s) = in_external_intr s" "tid_lock (upd_sema x f s) = tid_lock s"
  "pages (upd_sema x f s) = pages s" "holder (upd_sema x f s) = holder s" "stacks (upd_sema x f s) = stacks s"
  "conds (upd_sema x f s) = conds s" "now (upd_sema x f s) = now s"
  "semas (upd_sema x f s) = (semas s)(x := f (semas s x))"
  by (simp_all add: upd_sema_def)

lemma st_cong: "threads s' = threads s \<Longrightarrow> st s' = st s"
  by (auto simp: st_def fun_eq_iff)

lemma wake_time_cong: "threads s' = threads s \<Longrightarrow> wake_time s' = wake_time s"
  by (auto simp: wake_time_def fun_eq_iff)

lemma thread_current_cong:
  "threads s' = threads s \<Longrightarrow> running s' = running s \<Longrightarrow> thread_current s' = thread_current s"
  by (simp add: thread_current_def running_thread_def is_thread_def)

lemma mem_ok_cong:
  "threads s' = threads s \<Longrightarrow> pages s' = pages s \<Longrightarrow> initial_thread s' = initial_thread s \<Longrightarrow> mem_ok s' = mem_ok s"
  by (simp add: mem_ok_def)

lemma sema_down_loop_ok:
  assumes k: "kinv s" and lvl: "\<not> intr_on s" and ni: "running s \<noteq> idle_thread s"
  obtains (taken) s' where "sema_down_loop x old s = Some s'" "0 < sema_value (semas s x)"
      "s' = (upd_sema x (sema_value_update (\<lambda>v. v - 1)) s)\<lparr>intr_on := old\<rparr>" "kinv s'"
  | (waits) s' where "sema_down_loop x old s = Some s'" "sema_value (semas s x) = 0" "kinv s'"
      "sched_frame (push_frames [Sema_loop x old] (upd_sema x (waiters_update (\<lambda>ws. ws @ [running s])) s)) s'"
      "running s' = hd (ready_list s @ [idle_thread s])" "threads s' (running s) \<noteq> None"
proof (cases "sema_value (semas s x) = 0")
  case False
  let ?s = "(upd_sema x (sema_value_update (\<lambda>v. v - 1)) s)\<lparr>intr_on := old\<rparr>"
  have "kinv ?s" using k kinv_cong [of ?s s] by simp
  moreover have "sema_down_loop x old s = Some ?s"
    using False kinvD(3) [OF k] by (simp add: sema_down_loop_def intr_set_level_ok)
  ultimately show ?thesis using taken False by blast
next
  case True
  define s1 where "s1 = push_frames [Sema_loop x old] (upd_sema x (waiters_update (\<lambda>ws. ws @ [running s])) s)"
  have f1: "threads s1 = threads s" "running s1 = running s" "ready_list s1 = ready_list s"
    "sleep_list s1 = sleep_list s" "idle_thread s1 = idle_thread s" "initial_thread s1 = initial_thread s"
    "pages s1 = pages s" "in_external_intr s1 = in_external_intr s" "tid_lock s1 = tid_lock s" "\<not> intr_on s1"
    using lvl by (simp_all add: s1_def)
  have w1: "(\<lambda>y. waiters (semas s1 y)) = (\<lambda>y. waiters (semas s y))(x := waiters (semas s x) @ [running s])"
    by (auto simp: s1_def fun_eq_iff)
  have "queues_ok ((st s1)(running s1 \<mapsto> THREAD_BLOCKED)) None (ready_list s1) (sleep_list s1)
      (\<lambda>x. waiters (semas s1 x)) (idle_thread s1) {initial_thread s1}"
    using queues_block_wait [OF kinvD(4) [OF k] ni, of x] unfolding w1 st_cong [OF f1(1)] f1 .
  then obtain s' where s': "thread_block s1 = Some s'" "kinv s'" "sched_frame s1 s'"
    "running s' = hd (ready_list s1 @ [idle_thread s1])" "threads s' (running s1) \<noteq> None"
    by (rule thread_block_ok [rotated 5])
      (use kinvD [OF k] queues_okD(1) [OF kinvD(4) [OF k], of "running s"] in
        \<open>auto simp: f1 mem_ok_cong [OF f1(1,7,6)] st_cong [OF f1(1)] wake_time_cong [OF f1(1)]\<close>)
  moreover have "thread_current s = Some (running s)" using kinv_current [OF k] by metis
  ultimately have "sema_down_loop x old s = Some s'" using True by (simp add: sema_down_loop_def s1_def)
  then show ?thesis using waits s' True by (simp add: s1_def)
qed

lemma sema_up_ok:
  assumes k: "kinv s"
  obtains s' where "sema_up x s = Some s'" and "kinv s'" and "running s' = running s"
    and "stacks s' = stacks s" and "holder s' = holder s" and "conds s' = conds s"
    and "intr_on s' = intr_on s" and "idle_thread s' = idle_thread s" and "sleep_list s' = sleep_list s"
    and "now s' = now s" and "\<And>t. wake_time s' t = wake_time s t"
    and "semas s' = (semas s)(x := \<lparr>sema_value = (sema_value (semas s x) + 1) mod 2 ^ 32,
          waiters = tl (waiters (semas s x))\<rparr>)"
    and "ready_list s' = ready_list s @ take 1 (waiters (semas s x))"
    and "\<And>t. st s' t = (if t \<in> set (take 1 (waiters (semas s x))) then Some THREAD_READY else st s t)"
    and "initial_thread s' = initial_thread s"
proof (cases "waiters (semas s x)")
  case Nil
  define s' where "s' = upd_sema x (sema_value_update (\<lambda>v. (v + 1) mod 2 ^ 32)) s"
  have up: "sema_up x s = Some s'"
    using Nil kinvD(3) [OF k] by (cases s) (simp add: sema_up_def intr_set_level_ok intr_disable_def s'_def upd_sema_def)
  have "kinv s'" using k kinv_cong [of s' s] by (simp add: s'_def)
  then show ?thesis
    using Nil by (intro that [OF up]) (auto simp: s'_def st_def wake_time_def fun_eq_iff)
next
  case (Cons t ts)
  let ?wt = "\<lambda>y. waiters (semas s y)"
  have q: "queues_ok ((st s)(t \<mapsto> THREAD_READY)) (Some (running s)) (ready_list s @ [t]) (sleep_list s)
      (?wt(x := ts)) (idle_thread s) {initial_thread s}" and bl: "st s t = Some THREAD_BLOCKED"
    using queues_unblock [OF kinvD(4) [OF k], of t "sleep_list s" "?wt(x := ts)" x ts] Cons by simp_all
  obtain th where th: "threads s t = Some th" "status th = THREAD_BLOCKED" using bl by (auto simp: st_def)
  define s1 where "s1 = upd_sema x (waiters_update (\<lambda>_. ts)) (s\<lparr>intr_on := False\<rparr>)"
  define s2 where "s2 = upd_thread t (status_update (\<lambda>_. THREAD_READY)) (s1\<lparr>ready_list := ready_list s1 @ [t]\<rparr>)"
  define s' where "s' = (upd_sema x (sema_value_update (\<lambda>v. (v + 1) mod 2 ^ 32)) s2)\<lparr>intr_on := intr_on s\<rparr>"
  have "mem_ok s1" using kinvD(1) [OF k] mem_ok_cong [of s1 s] by (simp add: s1_def)
  then have "thread_unblock t s1 = Some s2"
    unfolding s2_def by (rule thread_unblock_ok) (use th in \<open>simp_all add: s1_def\<close>)
  then have up: "sema_up x s = Some s'"
    using Cons kinvD(3) [OF k]
    by (simp add: sema_up_def intr_disable_def s1_def [symmetric] Let_def intr_set_level_ok s'_def)
      (simp add: s2_def s1_def intr_set_level_ok)
  have st': "st s' = (st s)(t \<mapsto> THREAD_READY)"
    using th by (auto simp: s'_def s2_def s1_def st_def fun_eq_iff)
  have wk: "wake_time s' = wake_time s"
    using th by (auto simp: s'_def s2_def s1_def wake_time_def fun_eq_iff)
  have wt': "(\<lambda>y. waiters (semas s' y)) = ?wt(x := ts)" by (auto simp: s'_def s2_def s1_def fun_eq_iff)
  have f': "running s' = running s" "ready_list s' = ready_list s @ [t]" "sleep_list s' = sleep_list s"
    "idle_thread s' = idle_thread s" "initial_thread s' = initial_thread s" "tid_lock s' = tid_lock s"
    "in_external_intr s' = in_external_intr s" "stacks s' = stacks s" "holder s' = holder s" "conds s' = conds s"
    "intr_on s' = intr_on s" "now s' = now s"
    by (simp_all add: s'_def s2_def s1_def)
  have "mem_ok s'"
    by (rule mem_ok_threads [OF kinvD(1) [OF k]]) (use th in \<open>auto simp: s'_def s2_def s1_def split: if_splits\<close>)
  then have "kinv s'" using kinvD [OF k] q unfolding kinv_def st' wt' wk f' by simp
  then show ?thesis
    by (intro that [OF up]) (auto simp: f' st' wk Cons, auto simp: s'_def s2_def s1_def Cons)
qed

end
