(* ===== verification/Timer.thy ===== *)
theory Timer
  imports Synch
begin

unbundle bit_operations_syntax

section \<open>The timer (devices/timer.c) and the interrupt handler (threads/interrupt.c)\<close>

text \<open>
  \<^verbatim>\<open>timer_sleep\<close> puts the current thread on the sleep list, which is kept in the order of
  wake-up times, and \<^verbatim>\<open>timer_interrupt\<close> wakes the threads at its front whose time has come.
  \<open>timer_intr\<close> is \<^verbatim>\<open>intr_handler\<close> for the timer's vector, from the interrupt gate that turns
  interrupts off to the \<^verbatim>\<open>iret\<close> that turns them on again; if the time slice is used up it
  yields before returning, and the \<^verbatim>\<open>iret\<close> is then left on the thread's frame stack.
  How long a loop takes is not part of the kernel state: \<open>too_many_loops\<close> is a parameter of
  the calibration.
\<close>

definition TIMER_FREQ :: int where "TIMER_FREQ = 100"

definition timer_ticks :: "kernel \<Rightarrow> int" where
  "timer_ticks s = now s"

definition timer_elapsed :: "int \<Rightarrow> kernel \<Rightarrow> int" where
  "timer_elapsed since s = timer_ticks s - since"

definition timer_sleep :: "int \<Rightarrow> kernel \<Rightarrow> kernel option" where
  "timer_sleep n s = do {
     _ \<leftarrow> ASSERT (intr_on s);
     if n \<le> 0 then Some s
     else do {
       let old_level = intr_on s;
       let s = intr_disable s;
       t \<leftarrow> thread_current s;
       let s = upd_thread t (ticks_update (\<lambda>_. timer_ticks s + n)) s;
       let s = s\<lparr>sleep_list := insert_ordered_seq (cmp_ticks s) t (sleep_list s)\<rparr>;
       thread_block (push_frames [Set_level old_level] s) } }"

primrec wake_sleepers :: "nat list \<Rightarrow> kernel \<Rightarrow> kernel option" where
  "wake_sleepers [] s = Some s"
| "wake_sleepers (t # ts) s = do {
     th \<leftarrow> threads s t;
     if now s < ticks th then Some s
     else do {
       s \<leftarrow> thread_unblock t (s\<lparr>sleep_list := ts\<rparr>);
       wake_sleepers ts s } }"

definition timer_interrupt :: "kernel \<Rightarrow> kernel option" where
  "timer_interrupt s = do {
     let s = s\<lparr>now := now s + 1\<rparr>;
     s \<leftarrow> thread_tick s;
     wake_sleepers (sleep_list s) s }"

definition timer_intr :: "kernel \<Rightarrow> kernel option" where
  "timer_intr s = do {
     let s = s\<lparr>intr_on := False\<rparr>;
     _ \<leftarrow> ASSERT (\<not> intr_on s);
     _ \<leftarrow> ASSERT (\<not> intr_context s);
     let s = s\<lparr>in_external_intr := True, yield_on_return := False\<rparr>;
     s \<leftarrow> timer_interrupt s;
     _ \<leftarrow> ASSERT (\<not> intr_on s);
     _ \<leftarrow> ASSERT (intr_context s);
     let s = s\<lparr>in_external_intr := False\<rparr>;
     if yield_on_return s then thread_yield (push_frames [Set_level True] s)
     else Some (s\<lparr>intr_on := True\<rparr>) }"

subsection \<open>Delays\<close>

partial_function (option) calibrate_up :: "(u32 \<Rightarrow> bool) \<Rightarrow> u32 \<Rightarrow> u32 option" where
  "calibrate_up too_many loops_per_tick =
     (if \<not> too_many (push_bit 1 loops_per_tick) then do {
        let loops_per_tick = push_bit 1 loops_per_tick;
        _ \<leftarrow> ASSERT (loops_per_tick \<noteq> 0);
        calibrate_up too_many loops_per_tick }
      else Some loops_per_tick)"

partial_function (option) calibrate_down :: "(u32 \<Rightarrow> bool) \<Rightarrow> u32 \<Rightarrow> u32 \<Rightarrow> u32 \<Rightarrow> u32 option" where
  "calibrate_down too_many high_bit test_bit loops_per_tick =
     (if test_bit \<noteq> drop_bit 10 high_bit
      then calibrate_down too_many high_bit (drop_bit 1 test_bit)
        (if \<not> too_many (high_bit OR test_bit) then loops_per_tick OR test_bit else loops_per_tick)
      else Some loops_per_tick)"

definition timer_calibrate :: "(u32 \<Rightarrow> bool) \<Rightarrow> kernel \<Rightarrow> u32 option" where
  "timer_calibrate too_many_loops s = do {
     _ \<leftarrow> ASSERT (intr_on s);
     loops_per_tick \<leftarrow> calibrate_up too_many_loops (push_bit 10 1);
     let high_bit = loops_per_tick;
     calibrate_down too_many_loops high_bit (drop_bit 1 high_bit) loops_per_tick }"

text \<open>
  A busy wait changes nothing but the time; \<open>real_time_delay\<close> returns how many iterations it
  makes. Division truncates, on nonnegative operands.
\<close>

definition busy_wait :: "int \<Rightarrow> nat" where
  "busy_wait loops = nat loops"

definition real_time_delay :: "int \<Rightarrow> int \<Rightarrow> int \<Rightarrow> nat option" where
  "real_time_delay loops_per_tick num denom = do {
     _ \<leftarrow> ASSERT (denom mod 1000 = 0);
     Some (busy_wait (loops_per_tick * num div 1000 * TIMER_FREQ div (denom div 1000))) }"

definition real_time_sleep :: "int \<Rightarrow> int \<Rightarrow> int \<Rightarrow> kernel \<Rightarrow> kernel option" where
  "real_time_sleep loops_per_tick num denom s = do {
     let n = num * TIMER_FREQ div denom;
     _ \<leftarrow> ASSERT (intr_on s);
     if n > 0 then timer_sleep n s
     else do { _ \<leftarrow> real_time_delay loops_per_tick num denom; Some s } }"

definition timer_msleep :: "int \<Rightarrow> int \<Rightarrow> kernel \<Rightarrow> kernel option" where
  "timer_msleep lpt ms s = real_time_sleep lpt ms 1000 s"

definition timer_usleep :: "int \<Rightarrow> int \<Rightarrow> kernel \<Rightarrow> kernel option" where
  "timer_usleep lpt us s = real_time_sleep lpt us (1000 * 1000) s"

definition timer_nsleep :: "int \<Rightarrow> int \<Rightarrow> kernel \<Rightarrow> kernel option" where
  "timer_nsleep lpt ns s = real_time_sleep lpt ns (1000 * 1000 * 1000) s"

definition timer_mdelay :: "int \<Rightarrow> int \<Rightarrow> nat option" where
  "timer_mdelay lpt ms = real_time_delay lpt ms 1000"

definition timer_udelay :: "int \<Rightarrow> int \<Rightarrow> nat option" where
  "timer_udelay lpt us = real_time_delay lpt us (1000 * 1000)"

definition timer_ndelay :: "int \<Rightarrow> int \<Rightarrow> nat option" where
  "timer_ndelay lpt ns = real_time_delay lpt ns (1000 * 1000 * 1000)"

subsection \<open>Sleeping and waking keep the invariant\<close>

lemma timer_sleep_ok:
  assumes k: "kinv s" and on: "intr_on s" and ni: "running s \<noteq> idle_thread s" and n: "0 < n"
  defines "s1 \<equiv> upd_thread (running s) (ticks_update (\<lambda>_. now s + n)) (s\<lparr>intr_on := False\<rparr>)"
  obtains s' where "timer_sleep n s = Some s'" and "kinv s'"
    and "sched_frame (push_frames [Set_level True]
      (s1\<lparr>sleep_list := insert_ordered_seq (cmp_ticks s1) (running s) (sleep_list s)\<rparr>)) s'"
    and "running s' = hd (ready_list s @ [idle_thread s])" and "threads s' (running s) \<noteq> None"
proof -
  obtain th where th: "threads s (running s) = Some th" "thread_current s = Some (running s)"
    using kinv_current [OF k] by metis
  let ?sl = "insert_ordered_seq (cmp_ticks s1) (running s) (sleep_list s)"
  define s2 where "s2 = push_frames [Set_level True] (s1\<lparr>sleep_list := ?sl\<rparr>)"
  have st2: "st s2 = st s" using th by (auto simp: s2_def s1_def st_def fun_eq_iff)
  have f2: "running s2 = running s" "ready_list s2 = ready_list s" "sleep_list s2 = ?sl" "semas s2 = semas s"
    "idle_thread s2 = idle_thread s" "initial_thread s2 = initial_thread s" "pages s2 = pages s"
    "tid_lock s2 = tid_lock s" "in_external_intr s2 = in_external_intr s" "\<not> intr_on s2"
    by (simp_all add: s2_def s1_def)
  have wk: "wake_time s2 = wake_time s1" by (rule wake_time_cong) (simp add: s2_def)
  have notin: "running s \<notin> set (sleep_list s)"
    using queues_okD(1,8) [OF kinvD(4) [OF k], of "running s"] by auto
  have "wake_time s1 t = wake_time s t" if "t \<noteq> running s" for t
    using that by (simp add: s1_def wake_time_def)
  then have eq: "map (wake_time s1) (sleep_list s) = map (wake_time s) (sleep_list s)"
    using notin by (metis (no_types, lifting) map_cong)
  have ord: "in_order (cmp_ticks s1) xs \<longleftrightarrow> sorted (map (wake_time s1) xs)" for xs
    unfolding sleep_order.in_order_sorted_wrt sorted_map by (simp add: cmp_ticks_def not_less)
  have srt: "sorted (map (wake_time s2) (sleep_list s2))"
    unfolding wk f2 ord [symmetric]
    by (rule sleep_order.sorted_insert_ordered_seq) (simp only: ord eq kinvD(5) [OF k])
  have q: "queues_ok ((st s)(running s \<mapsto> THREAD_BLOCKED)) None (ready_list s) ?sl
      (\<lambda>x. waiters (semas s x)) (idle_thread s) {initial_thread s}"
    by (rule queues_block_sleep [OF kinvD(4) [OF k] ni]) simp
  have m2: "mem_ok s2"
    by (rule mem_ok_threads [OF kinvD(1) [OF k]]) (use th in \<open>auto simp: s2_def s1_def split: if_splits\<close>)
  obtain s' where s': "thread_block s2 = Some s'" "kinv s'" "sched_frame s2 s'"
    "running s' = hd (ready_list s2 @ [idle_thread s2])" "threads s' (running s2) \<noteq> None"
    by (rule thread_block_ok [OF m2 f2(10), where D = "{initial_thread s}"])
      (use kinvD(2,3) [OF k] q srt queues_okD(1) [OF kinvD(4) [OF k], of "running s"] in
        \<open>simp_all add: f2 st2\<close>)
  have "timer_sleep n s = thread_block s2"
    using on n th thread_current_cong [of "s\<lparr>intr_on := False\<rparr>" s]
    by (simp add: timer_sleep_def intr_disable_def timer_ticks_def s2_def s1_def Let_def)
  then show ?thesis using s'(1-3) s'(4,5) [unfolded f2] by (intro that [of s']) (simp_all add: s2_def)
qed

lemma kinv_intr_fields:
  "kinv (s\<lparr>in_external_intr := False, intr_on := b, yield_on_return := c\<rparr>) = kinv (s\<lparr>in_external_intr := False\<rparr>)"
  by (rule kinv_cong) simp_all

text \<open>Inside the handler the invariant holds but for the flag that says so.\<close>

definition hinv :: "kernel \<Rightarrow> bool" where
  "hinv s \<longleftrightarrow> kinv (s\<lparr>in_external_intr := False\<rparr>) \<and> \<not> intr_on s \<and> in_external_intr s"

lemma hinvD:
  assumes "hinv s"
  shows "mem_ok s" and "tid_lock s = None" and "kqueues s (Some (running s)) {initial_thread s}"
    and "sorted (map (wake_time s) (sleep_list s))" and "\<not> intr_on s" and "in_external_intr s"
proof -
  let ?s = "s\<lparr>in_external_intr := False\<rparr>"
  have k: "kinv ?s" using assms by (simp add: hinv_def)
  have "st ?s = st s" "wake_time ?s = wake_time s" "mem_ok ?s = mem_ok s"
    by (rule st_cong wake_time_cong mem_ok_cong; simp)+
  then show "mem_ok s" and "tid_lock s = None" and "kqueues s (Some (running s)) {initial_thread s}"
    and "sorted (map (wake_time s) (sleep_list s))"
    using kinvD [OF k] by simp_all
  show "\<not> intr_on s" and "in_external_intr s" using assms by (simp_all add: hinv_def)
qed

lemma hinvI:
  assumes "mem_ok s" and "tid_lock s = None" and "kqueues s (Some (running s)) {initial_thread s}"
    and "sorted (map (wake_time s) (sleep_list s))" and "\<not> intr_on s" and "in_external_intr s"
  shows "hinv s"
proof -
  let ?s = "s\<lparr>in_external_intr := False\<rparr>"
  have "st ?s = st s" "wake_time ?s = wake_time s" "mem_ok ?s = mem_ok s"
    by (rule st_cong wake_time_cong mem_ok_cong; simp)+
  then show ?thesis using assms by (simp add: hinv_def kinv_def)
qed

definition wake_frame :: "kernel \<Rightarrow> kernel \<Rightarrow> bool" where
  "wake_frame s s' \<longleftrightarrow> running s' = running s \<and> stacks s' = stacks s \<and> semas s' = semas s \<and>
     holder s' = holder s \<and> conds s' = conds s \<and> now s' = now s \<and> idle_thread s' = idle_thread s \<and>
     initial_thread s' = initial_thread s \<and> yield_on_return s' = yield_on_return s \<and>
     wake_time s' = wake_time s \<and> thread_ticks s' = thread_ticks s \<and> dom (threads s') = dom (threads s)"

lemma wake_sleepers_ok:
  "hinv s \<Longrightarrow> sleep_list s = xs \<Longrightarrow>
   \<exists>s'. wake_sleepers xs s = Some s' \<and> hinv s' \<and> wake_frame s s' \<and>
     sleep_list s' = dropWhile (\<lambda>t. wake_time s t \<le> now s) xs \<and>
     ready_list s' = ready_list s @ takeWhile (\<lambda>t. wake_time s t \<le> now s) xs"
proof (induction xs arbitrary: s)
  case Nil
  then show ?case by (simp add: wake_frame_def)
next
  case (Cons t ts)
  note q = hinvD(3) [OF Cons.prems(1)]
  obtain th where th: "threads s t = Some th"
    using sleep_threads_exist [OF q, of t] Cons.prems(2) by auto
  then have wt: "wake_time s t = ticks th" by (simp add: wake_time_def)
  show ?case
  proof (cases "now s < ticks th")
    case True
    then show ?thesis using Cons.prems th wt by (simp add: wake_frame_def)
  next
    case False
    define s1 where "s1 = s\<lparr>sleep_list := ts\<rparr>"
    define s2 where "s2 = upd_thread t (status_update (\<lambda>_. THREAD_READY)) (s1\<lparr>ready_list := ready_list s1 @ [t]\<rparr>)"
    have un: "queues_ok ((st s)(t \<mapsto> THREAD_READY)) (Some (running s)) (ready_list s @ [t]) ts
        (\<lambda>x. waiters (semas s x)) (idle_thread s) {initial_thread s}" "st s t = Some THREAD_BLOCKED"
      using queues_unblock [OF q, of t ts] Cons.prems(2) by auto
    then have bl: "status th = THREAD_BLOCKED" using th by (simp add: st_def)
    have "mem_ok s1" using hinvD(1) [OF Cons.prems(1)] mem_ok_cong [of s1 s] by (simp add: s1_def)
    then have ub: "thread_unblock t s1 = Some s2" unfolding s2_def
      by (rule thread_unblock_ok) (use th bl hinvD(5) [OF Cons.prems(1)] in \<open>simp_all add: s1_def\<close>)
    have st2: "st s2 = (st s)(t \<mapsto> THREAD_READY)"
      using th by (auto simp: s2_def s1_def st_def fun_eq_iff)
    have wk: "wake_time s2 = wake_time s"
      using th by (auto simp: s2_def s1_def wake_time_def fun_eq_iff)
    have f2: "running s2 = running s" "ready_list s2 = ready_list s @ [t]" "sleep_list s2 = ts"
      "idle_thread s2 = idle_thread s" "initial_thread s2 = initial_thread s" "tid_lock s2 = tid_lock s"
      "in_external_intr s2 = in_external_intr s" "semas s2 = semas s" "intr_on s2 = intr_on s" "now s2 = now s"
      by (simp_all add: s2_def s1_def)
    have "mem_ok s2"
      by (rule mem_ok_threads [OF hinvD(1) [OF Cons.prems(1)]])
        (use th in \<open>auto simp: s2_def s1_def split: if_splits\<close>)
    moreover have "sorted (map (wake_time s2) (sleep_list s2))"
      using hinvD(4) [OF Cons.prems(1)] Cons.prems(2) by (simp add: wk f2)
    ultimately have "hinv s2" using un(1) hinvD(2,5,6) [OF Cons.prems(1)]
      by (intro hinvI) (simp_all add: f2 st2)
    from Cons.IH [OF this f2(3)] obtain s' where s': "wake_sleepers ts s2 = Some s'" "hinv s'" "wake_frame s2 s'"
      "sleep_list s' = dropWhile (\<lambda>t. wake_time s2 t \<le> now s2) ts"
      "ready_list s' = ready_list s2 @ takeWhile (\<lambda>t. wake_time s2 t \<le> now s2) ts" by blast
    have "dom (threads s2) = dom (threads s)" using th by (auto simp: s2_def s1_def)
    then have "wake_frame s s2" unfolding wake_frame_def wk by (simp add: s2_def s1_def)
    then have "wake_frame s s'" using s'(3) by (simp add: wake_frame_def)
    moreover have "wake_sleepers (t # ts) s = Some s'"
      using th False ub s'(1) by (simp add: s1_def)
    ultimately show ?thesis using s'(2,4,5) False wt unfolding wk f2 by simp
  qed
qed

lemma hinv_cong:
  assumes "hinv s" and "threads s' = threads s" "pages s' = pages s" "initial_thread s' = initial_thread s"
    "tid_lock s' = tid_lock s" "in_external_intr s' = in_external_intr s" "running s' = running s"
    "ready_list s' = ready_list s" "sleep_list s' = sleep_list s" "idle_thread s' = idle_thread s"
    "semas s' = semas s" "intr_on s' = intr_on s"
  shows "hinv s'"
  using hinvD [OF assms(1)] st_cong [OF assms(2)] wake_time_cong [OF assms(2)] mem_ok_cong [OF assms(2-4)] assms(4-)
  by (intro hinvI) simp_all

lemma thread_tick_ok:
  assumes h: "hinv s"
  obtains s' where "thread_tick s = Some s'" and "hinv s'" and "threads s' = threads s"
    and "ready_list s' = ready_list s" and "sleep_list s' = sleep_list s" and "now s' = now s"
    and "running s' = running s" and "stacks s' = stacks s" and "semas s' = semas s" and "holder s' = holder s"
    and "conds s' = conds s" and "idle_thread s' = idle_thread s" and "initial_thread s' = initial_thread s"
    and "thread_ticks s' = Suc (thread_ticks s)"
    and "yield_on_return s' = (yield_on_return s \<or> Suc (thread_ticks s) \<ge> TIME_SLICE)"
proof -
  have "kinv (s\<lparr>in_external_intr := False\<rparr>)" using h by (simp add: hinv_def)
  from kinv_current [OF this] obtain th where th: "threads s (running s) = Some th"
    "thread_current (s\<lparr>in_external_intr := False\<rparr>) = Some (running s)" by auto
  then have cur: "thread_current s = Some (running s)"
    using thread_current_cong [of "s\<lparr>in_external_intr := False\<rparr>" s] by simp
  define s1 where "s1 = (if running s = idle_thread s then s\<lparr>idle_ticks := idle_ticks s + 1\<rparr>
      else if pagedir th \<noteq> 0 then s\<lparr>user_ticks := user_ticks s + 1\<rparr>
      else s\<lparr>kernel_ticks := kernel_ticks s + 1\<rparr>)\<lparr>thread_ticks := thread_ticks s + 1\<rparr>"
  define s' where "s' = (if Suc (thread_ticks s) \<ge> TIME_SLICE then s1\<lparr>yield_on_return := True\<rparr> else s1)"
  have tick: "thread_tick s = Some s'"
    using cur th(1) hinvD(6) [OF h] by (simp add: thread_tick_def intr_yield_on_return_def intr_context_def s'_def s1_def)
  have "hinv s'" by (rule hinv_cong [OF h]) (simp_all add: s'_def s1_def)
  then show ?thesis by (intro that [OF tick]) (simp_all add: s'_def s1_def)
qed

definition due :: "kernel \<Rightarrow> nat \<Rightarrow> bool" where
  "due s t \<longleftrightarrow> wake_time s t \<le> now s + 1"

lemma timer_interrupt_ok:
  assumes h: "hinv s"
  obtains s' where "timer_interrupt s = Some s'" and "hinv s'" and "now s' = now s + 1"
    and "sleep_list s' = dropWhile (due s) (sleep_list s)"
    and "ready_list s' = ready_list s @ takeWhile (due s) (sleep_list s)"
    and "wake_time s' = wake_time s" and "running s' = running s" and "stacks s' = stacks s"
    and "semas s' = semas s" and "holder s' = holder s" and "conds s' = conds s"
    and "idle_thread s' = idle_thread s" and "initial_thread s' = initial_thread s"
    and "yield_on_return s' = (yield_on_return s \<or> Suc (thread_ticks s) \<ge> TIME_SLICE)"
    and "thread_ticks s' = Suc (thread_ticks s)" and "dom (threads s') = dom (threads s)"
proof -
  let ?s = "s\<lparr>now := now s + 1\<rparr>"
  have "hinv ?s" by (rule hinv_cong [OF h]) simp_all
  then obtain s1 where s1: "thread_tick ?s = Some s1" "hinv s1" "threads s1 = threads ?s"
    "ready_list s1 = ready_list ?s" "sleep_list s1 = sleep_list ?s" "now s1 = now ?s"
    "running s1 = running ?s" "stacks s1 = stacks ?s" "semas s1 = semas ?s" "holder s1 = holder ?s"
    "conds s1 = conds ?s" "idle_thread s1 = idle_thread ?s" "initial_thread s1 = initial_thread ?s"
    "thread_ticks s1 = Suc (thread_ticks ?s)"
    "yield_on_return s1 = (yield_on_return ?s \<or> Suc (thread_ticks ?s) \<ge> TIME_SLICE)"
    by (rule thread_tick_ok)
  from wake_sleepers_ok [OF s1(2) refl] obtain s' where s': "wake_sleepers (sleep_list s1) s1 = Some s'" "hinv s'"
    "wake_frame s1 s'" "sleep_list s' = dropWhile (\<lambda>t. wake_time s1 t \<le> now s1) (sleep_list s1)"
    "ready_list s' = ready_list s1 @ takeWhile (\<lambda>t. wake_time s1 t \<le> now s1) (sleep_list s1)" by blast
  have wk: "wake_time s1 = wake_time s" by (rule wake_time_cong) (simp add: s1)
  have due: "(\<lambda>t. wake_time s1 t \<le> now s1) = due s" by (simp add: fun_eq_iff due_def wk s1)
  have "timer_interrupt s = Some s'" using s1(1) s'(1) by (simp add: timer_interrupt_def)
  then show ?thesis
    by (rule that) (use s'(1-3) s'(4,5) [unfolded due] s1 wk in \<open>simp_all add: wake_frame_def\<close>)
qed

text \<open>One timer interrupt, delivered with interrupts on.\<close>

lemma timer_intr_ok:
  assumes k: "kinv s" and on: "intr_on s"
  obtains (returns) s' where "timer_intr s = Some s'" "kinv s'" "Suc (thread_ticks s) < TIME_SLICE"
      "now s' = now s + 1" "sleep_list s' = dropWhile (due s) (sleep_list s)"
      "ready_list s' = ready_list s @ takeWhile (due s) (sleep_list s)" "wake_time s' = wake_time s"
      "running s' = running s" "stacks s' = stacks s" "semas s' = semas s" "holder s' = holder s"
      "conds s' = conds s" "idle_thread s' = idle_thread s" "intr_on s'"
      "thread_ticks s' = Suc (thread_ticks s)" "dom (threads s') = dom (threads s)"
  | (yields) s1 s' where "timer_intr s = Some s'" "kinv s'" "Suc (thread_ticks s) \<ge> TIME_SLICE" "kinv s1"
      "now s1 = now s + 1" "sleep_list s1 = dropWhile (due s) (sleep_list s)"
      "ready_list s1 = ready_list s @ takeWhile (due s) (sleep_list s)" "wake_time s1 = wake_time s"
      "running s1 = running s" "stacks s1 = (stacks s)(running s := Set_level True # stacks s (running s))"
      "semas s1 = semas s" "holder s1 = holder s" "conds s1 = conds s" "idle_thread s1 = idle_thread s"
      "\<not> intr_on s1" "sched_frame (push_frames [Set_level False] s1) s'"
      "running s' = hd (ready_list s1 @ [running s])" "thread_ticks s' = 0"
      "running s \<noteq> idle_thread s \<Longrightarrow> ready_list s' = tl (ready_list s1 @ [running s])"
      "dom (threads s1) = dom (threads s)" "threads s' (running s) \<noteq> None"
proof -
  define h where "h = s\<lparr>intr_on := False, in_external_intr := True, yield_on_return := False\<rparr>"
  have fh: "threads h = threads s" "running h = running s" "now h = now s" "sleep_list h = sleep_list s"
    "ready_list h = ready_list s" "stacks h = stacks s" "semas h = semas s" "holder h = holder s"
    "conds h = conds s" "idle_thread h = idle_thread s" "thread_ticks h = thread_ticks s" "\<not> yield_on_return h"
    by (simp_all add: h_def)
  have "hinv h"
    using kinvD [OF k] st_cong [OF fh(1)] wake_time_cong [OF fh(1)] mem_ok_cong [OF fh(1)]
    by (intro hinvI) (simp_all add: h_def)
  then obtain t where t: "timer_interrupt h = Some t" "hinv t" "now t = now h + 1"
    "sleep_list t = dropWhile (due h) (sleep_list h)"
    "ready_list t = ready_list h @ takeWhile (due h) (sleep_list h)"
    "wake_time t = wake_time h" "running t = running h" "stacks t = stacks h"
    "semas t = semas h" "holder t = holder h" "conds t = conds h" "idle_thread t = idle_thread h"
    "initial_thread t = initial_thread h"
    "yield_on_return t = (yield_on_return h \<or> Suc (thread_ticks h) \<ge> TIME_SLICE)"
    "thread_ticks t = Suc (thread_ticks h)" "dom (threads t) = dom (threads h)"
    by (rule timer_interrupt_ok)
  have due: "due h = due s" and wk: "wake_time h = wake_time s"
    using wake_time_cong [OF fh(1)] by (auto simp: due_def h_def fun_eq_iff)
  note t' = t(3-12,14-16) [unfolded due wk fh]
  define u where "u = t\<lparr>in_external_intr := False\<rparr>"
  have ku: "kinv u" using t(2) by (simp add: hinv_def u_def)
  have wu: "wake_time u = wake_time s" using wake_time_cong [of u t] t(6) wk by (simp add: u_def)
  have ti: "timer_intr s = (if Suc (thread_ticks s) \<ge> TIME_SLICE
      then thread_yield (push_frames [Set_level True] u) else Some (u\<lparr>intr_on := True\<rparr>))"
    using kinvD(3) [OF k] t(1,14) hinvD(5,6) [OF t(2)]
    by (simp add: timer_intr_def intr_context_def h_def [symmetric] u_def Let_def) (simp add: h_def)
  show ?thesis
  proof (cases "Suc (thread_ticks s) \<ge> TIME_SLICE")
    case False
    let ?s = "u\<lparr>intr_on := True\<rparr>"
    have "wake_time ?s = wake_time s" using wake_time_cong [of ?s u] wu by simp
    then show ?thesis using False t' ti ku
      by (intro returns [of ?s]) (simp_all add: u_def)
  next
    case True
    define s1 where "s1 = push_frames [Set_level True] u"
    have k1: "kinv s1" using ku kinv_cong [of s1 u] by (simp add: s1_def)
    have off: "\<not> intr_on s1" using hinvD(5) [OF t(2)] by (simp add: s1_def u_def)
    obtain s' where y: "thread_yield s1 = Some s'" "kinv s'" "thread_ticks s' = 0"
      "sched_frame (push_frames [Set_level (intr_on s1)] (s1\<lparr>intr_on := False\<rparr>)) s'"
      "running s' = hd (ready_list s1 @ [running s1])"
      "running s1 \<noteq> idle_thread s1 \<Longrightarrow> ready_list s' = tl (ready_list s1 @ [running s1])"
      "threads s' (running s1) \<noteq> None"
      by (rule thread_yield_ok [OF k1]) blast
    have lvl: "s1\<lparr>intr_on := False\<rparr> = s1" using off by (cases s1) simp
    have fr: "sched_frame (push_frames [Set_level False] s1) s'" using y(4) off unfolding lvl by simp
    have "wake_time s1 = wake_time s" using wake_time_cong [of s1 u] wu by (simp add: s1_def)
    then show ?thesis
      using True ti y k1 off fr t'
      by (intro yields [of s' s1]) (simp_all add: s1_def u_def)
  qed
qed

subsection \<open>Calibration\<close>

lemma push_pow: "push_bit 1 ((2::u32) ^ j) = 2 ^ Suc j"
  by (simp add: push_bit_eq_mult)

lemma drop_pow: "i < 32 \<Longrightarrow> n \<le> i \<Longrightarrow> drop_bit n ((2::u32) ^ i) = 2 ^ (i - n)"
  by (rule bit_word_eqI) (auto simp: bit_drop_bit_eq bit_exp_iff)

lemma pow_nz: "i < 32 \<Longrightarrow> (2::u32) ^ i \<noteq> 0"
  by simp

lemma pow_inj: "i < 32 \<Longrightarrow> j < 32 \<Longrightarrow> ((2::u32) ^ i = 2 ^ j) = (i = j)"
  using bit_exp_iff [of i i, where 'a = u32] bit_exp_iff [of j i, where 'a = u32] by auto

lemma calibrate_up_pow:
  assumes k: "k < 31" and tm: "too_many (2 ^ Suc k)" "\<And>i. j < i \<Longrightarrow> i \<le> k \<Longrightarrow> \<not> too_many (2 ^ i)" and "j \<le> k"
  shows "calibrate_up too_many (2 ^ j) = Some (2 ^ k)"
  using assms(4,3)
proof (induction j rule: inc_induct)
  case base
  then show ?case using tm(1) by (subst calibrate_up.simps, unfold push_pow) simp
next
  case (step j)
  have "(2::u32) ^ Suc j \<noteq> 0" using step.hyps k by (intro pow_nz) simp
  moreover have "\<not> too_many (2 ^ Suc j)" using step.prems step.hyps by (simp del: power_Suc)
  ultimately show ?case using step by (subst calibrate_up.simps, unfold push_pow Let_def) (simp del: power_Suc)
qed

lemma calibrate_down_bits:
  assumes k: "10 \<le> k" "k < 32" and i: "k \<le> i + 10" "i < k"
  shows "\<exists>r'. calibrate_down too_many (2 ^ k) (2 ^ i) r = Some r' \<and>
    (\<forall>n. bit r' n \<longleftrightarrow> bit r n \<or> (k < n + 10 \<and> n \<le> i \<and> \<not> too_many (2 ^ k OR 2 ^ n)))"
  using i
proof (induction i arbitrary: r rule: less_induct)
  case (less i)
  have d: "drop_bit 10 ((2::u32) ^ k) = 2 ^ (k - 10)" using k by (intro drop_pow)
  show ?case
  proof (cases "i + 10 = k")
    case True
    then have "(2::u32) ^ i = 2 ^ (k - 10)" by auto
    then show ?thesis using True by (subst calibrate_down.simps) (auto simp: d)
  next
    case False
    then have ne: "(2::u32) ^ i \<noteq> 2 ^ (k - 10)" using less.prems k by (simp add: pow_inj)
    have p: "drop_bit (Suc 0) ((2::u32) ^ i) = 2 ^ (i - 1)" using less.prems k False by (subst drop_pow) auto
    define r1 where "r1 = (if \<not> too_many (2 ^ k OR 2 ^ i) then r OR 2 ^ i else r)"
    have i1: "i - 1 < i" "k \<le> i - 1 + 10" "i - 1 < k" using less.prems False k by auto
    obtain r' where r': "calibrate_down too_many (2 ^ k) (2 ^ (i - 1)) r1 = Some r'"
      "\<And>n. bit r' n \<longleftrightarrow> bit r1 n \<or> (k < n + 10 \<and> n \<le> i - 1 \<and> \<not> too_many (2 ^ k OR 2 ^ n))"
      using less.IH [OF i1] by blast
    have "bit r1 n \<longleftrightarrow> bit r n \<or> (n = i \<and> \<not> too_many (2 ^ k OR 2 ^ i))" for n
      using less.prems k by (auto simp: r1_def bit_or_iff bit_exp_iff)
    moreover have "n \<le> i \<longleftrightarrow> n = i \<or> n \<le> i - 1" for n using i1 by auto
    ultimately have "bit r' n \<longleftrightarrow> bit r n \<or> (k < n + 10 \<and> n \<le> i \<and> \<not> too_many (2 ^ k OR 2 ^ n))" for n
      unfolding r'(2) using less.prems False i1 by auto
    moreover have "calibrate_down too_many (2 ^ k) (2 ^ i) r = Some r'"
      using r'(1) ne by (subst calibrate_down.simps) (simp add: d p r1_def)
    ultimately show ?thesis by blast
  qed
qed

end
