(* ===== verification/Kernel_Run.thy ===== *)
theory Kernel_Run
  imports Timer
begin

section \<open>Runs of the kernel\<close>

text \<open>
  The kernel as a state machine. A step is one of: the running thread, which has no unfinished
  kernel function, calls one (\<open>Call\<close>); the running thread goes on with the function it is in
  (\<open>Resume\<close>); the timer interrupts, whenever interrupts are on (\<open>Tick\<close>); the idle thread goes
  round its loop (\<open>Idle_loop\<close>). Which thread calls what and when the timer interrupts is not
  determined, so every interleaving of the threads at the points where C code can lose the
  processor is a run.

  \<open>allowed\<close> is what the comments in \<^verbatim>\<open>synch.c\<close> and \<^verbatim>\<open>thread.c\<close> ask of a caller: a lock is not
  acquired by its holder and released only by it, a condition variable is used under its
  lock, priorities are in range, a thread sleeps with interrupts on, a semaphore is not
  initialised while threads wait for it, and the semaphore inside a lock is left to the lock.
\<close>

datatype kernel_call =
    Create string int nat | Exit | Yield | Sleep int | Set_priority int | Set_intr bool
  | Init_sema nat nat | Down nat | Try_down nat | Up nat
  | Acquire nat | Try_acquire nat | Release nat
  | Wait nat nat nat | Signal nat nat | Broadcast nat nat

datatype label = Call kernel_call | Resume | Tick | Idle_loop

definition do_call :: "kernel_call \<Rightarrow> kernel \<Rightarrow> kernel option" where
  "do_call c s = (case c of
       Create nm prio aux_info \<Rightarrow> map_option fst (thread_create nm prio True aux_info s)
     | Exit \<Rightarrow> thread_exit s
     | Yield \<Rightarrow> thread_yield s
     | Sleep n \<Rightarrow> timer_sleep n s
     | Set_priority p \<Rightarrow> thread_set_priority p s
     | Set_intr b \<Rightarrow> intr_set_level b s
     | Init_sema n v \<Rightarrow> Some (sema_init (Sema n) v s)
     | Down n \<Rightarrow> sema_down (Sema n) s
     | Try_down n \<Rightarrow> map_option fst (sema_try_down (Sema n) s)
     | Up n \<Rightarrow> sema_up (Sema n) s
     | Acquire l \<Rightarrow> lock_acquire l s
     | Try_acquire l \<Rightarrow> map_option fst (lock_try_acquire l s)
     | Release l \<Rightarrow> lock_release l s
     | Wait cv l w \<Rightarrow> cond_wait cv l w s
     | Signal cv l \<Rightarrow> cond_signal cv l s
     | Broadcast cv l \<Rightarrow> cond_broadcast cv l s)"

definition allowed :: "kernel_call \<Rightarrow> kernel \<Rightarrow> bool" where
  "allowed c s \<longleftrightarrow> (case c of
       Create nm prio aux_info \<Rightarrow> PRI_MIN \<le> prio \<and> prio \<le> PRI_MAX
     | Sleep n \<Rightarrow> intr_on s
     | Init_sema n v \<Rightarrow> waiters (semas s (Sema n)) = []
     | Acquire l \<Rightarrow> holder s l \<noteq> running s
     | Try_acquire l \<Rightarrow> holder s l \<noteq> running s
     | Release l \<Rightarrow> holder s l = running s
     | Wait cv l w \<Rightarrow> holder s l = running s \<and> waiters (semas s (Sema w)) = []
     | Signal cv l \<Rightarrow> holder s l = running s
     | Broadcast cv l \<Rightarrow> holder s l = running s
     | _ \<Rightarrow> True)"

definition do_step :: "label \<Rightarrow> kernel \<Rightarrow> kernel option" where
  "do_step a s = (case a of Call c \<Rightarrow> do_call c s | Resume \<Rightarrow> resume s | Tick \<Rightarrow> timer_intr s | Idle_loop \<Rightarrow> idle s)"

definition enabled :: "label \<Rightarrow> kernel \<Rightarrow> bool" where
  "enabled a s \<longleftrightarrow> (case a of
       Call c \<Rightarrow> stacks s (running s) = [] \<and> running s \<noteq> idle_thread s \<and> allowed c s
     | Resume \<Rightarrow> stacks s (running s) \<noteq> []
     | Tick \<Rightarrow> intr_on s
     | Idle_loop \<Rightarrow> stacks s (running s) = [] \<and> running s = idle_thread s)"

inductive step :: "kernel \<Rightarrow> label \<Rightarrow> kernel \<Rightarrow> bool" where
  step: "enabled a s \<Longrightarrow> do_step a s = Some s' \<Longrightarrow> step s a s'"

inductive run :: "kernel \<Rightarrow> label list \<Rightarrow> kernel \<Rightarrow> bool" where
  run_nil: "run s [] s"
| run_snoc: "run s as s1 \<Longrightarrow> step s1 a s2 \<Longrightarrow> run s (as @ [a]) s2"

inductive_simps step_iff: "step s a s'"

subsection \<open>What a suspended thread is doing\<close>

datatype activity =
    Free
  | Waiting nat bool
  | Acquiring nat
  | Acq_waiting nat bool
  | Taking nat
  | Releasing nat
  | Cw_release nat nat
  | Cw_down nat nat
  | Cw_waiting nat nat bool
  | Cw_reacquire nat
  | Signalling nat
  | Bc_signalling nat nat nat
  | Bc_signal nat nat
  | Bcasting nat nat

fun frames_of :: "activity \<Rightarrow> frame list" where
  "frames_of Free = []"
| "frames_of (Waiting n b) = [Sema_loop (Sema n) b]"
| "frames_of (Acquiring l) = [Sema_down (Lock_sema l), Set_holder l]"
| "frames_of (Acq_waiting l b) = [Sema_loop (Lock_sema l) b, Set_holder l]"
| "frames_of (Taking l) = [Set_holder l]"
| "frames_of (Releasing l) = [Sema_up (Lock_sema l)]"
| "frames_of (Cw_release l w) = [Sema_up (Lock_sema l), Sema_down (Sema w), Lock_acquire l]"
| "frames_of (Cw_down l w) = [Sema_down (Sema w), Lock_acquire l]"
| "frames_of (Cw_waiting l w b) = [Sema_loop (Sema w) b, Lock_acquire l]"
| "frames_of (Cw_reacquire l) = [Lock_acquire l]"
| "frames_of (Signalling w) = [Sema_up (Sema w)]"
| "frames_of (Bc_signalling c l w) = [Sema_up (Sema w), Cond_broadcast c l]"
| "frames_of (Bc_signal c l) = [Cond_signal c l, Cond_broadcast c l]"
| "frames_of (Bcasting c l) = [Cond_broadcast c l]"

fun loops :: "activity \<Rightarrow> bool" where
  "loops (Waiting n b) = True" | "loops (Acq_waiting l b) = True" | "loops (Cw_waiting l w b) = True"
| "loops _ = False"

text \<open>The thread is between taking a lock's semaphore and entering itself as holder, or the converse.\<close>

fun mid :: "nat \<Rightarrow> activity \<Rightarrow> bool" where
  "mid l (Taking m) = (l = m)" | "mid l (Releasing m) = (l = m)" | "mid l (Cw_release m w) = (l = m)"
| "mid l _ = False"

fun needs_lock :: "nat \<Rightarrow> activity \<Rightarrow> bool" where
  "needs_lock l (Bc_signalling c m w) = (l = m)" | "needs_lock l (Bc_signal c m) = (l = m)"
| "needs_lock l (Bcasting c m) = (l = m)" | "needs_lock l _ = False"

fun lacks_lock :: "nat \<Rightarrow> activity \<Rightarrow> bool" where
  "lacks_lock l (Cw_release m w) = (l = m)" | "lacks_lock l (Cw_down m w) = (l = m)"
| "lacks_lock l (Cw_waiting m w b) = (l = m)" | "lacks_lock l (Cw_reacquire m) = (l = m)"
| "lacks_lock l _ = False"

definition lock_ok :: "(nat \<Rightarrow> bool) \<Rightarrow> nat \<Rightarrow> nat \<Rightarrow> bool" where
  "lock_ok M h v \<longleftrightarrow> h = 0 \<and> v = 1 \<and> (\<forall>t. \<not> M t) \<or> h \<noteq> 0 \<and> v = 0 \<and> (\<forall>t. \<not> M t) \<or>
     h = 0 \<and> v = 0 \<and> (\<exists>t. M t \<and> (\<forall>u. M u \<longrightarrow> u = t))"

definition linv :: "(nat \<Rightarrow> activity) \<Rightarrow> kernel \<Rightarrow> bool" where
  "linv A s \<longleftrightarrow>
     (\<forall>t. \<exists>lv. stacks s t = map Set_level lv @ frames_of (A t) \<and> (loops (A t) \<longrightarrow> lv = [])) \<and>
     A (idle_thread s) = Free \<and> (\<forall>t. A t \<noteq> Free \<longrightarrow> threads s t \<noteq> None) \<and>
     (loops (A (running s)) \<longrightarrow> \<not> intr_on s) \<and>
     (\<forall>t l. needs_lock l (A t) \<longrightarrow> holder s l = t) \<and>
     (\<forall>t l. lacks_lock l (A t) \<longrightarrow> holder s l \<noteq> t) \<and>
     (\<forall>l. lock_ok (\<lambda>t. mid l (A t)) (holder s l) (sema_value (semas s (Lock_sema l))))"

definition kernel_ok :: "kernel \<Rightarrow> bool" where
  "kernel_ok s \<longleftrightarrow> kinv s \<and> (\<exists>A. linv A s)"

subsection \<open>How the invariant on locks and frames changes\<close>

lemma linvD:
  assumes "linv A s"
  shows "\<exists>lv. stacks s t = map Set_level lv @ frames_of (A t) \<and> (loops (A t) \<longrightarrow> lv = [])"
    and "A (idle_thread s) = Free" and "A t \<noteq> Free \<Longrightarrow> threads s t \<noteq> None"
    and "loops (A (running s)) \<Longrightarrow> \<not> intr_on s"
    and "needs_lock l (A t) \<Longrightarrow> holder s l = t" and "lacks_lock l (A t) \<Longrightarrow> holder s l \<noteq> t"
    and "lock_ok (\<lambda>t. mid l (A t)) (holder s l) (sema_value (semas s (Lock_sema l)))"
  using assms by (simp_all add: linv_def)

lemma linv_update:
  assumes L: "linv A s"
    and stk: "stacks s' = (stacks s)(c := map Set_level lv @ frames_of a)" "loops a \<Longrightarrow> lv = []"
    and idl: "idle_thread s' = idle_thread s" "c = idle_thread s \<Longrightarrow> a = Free"
    and th: "a \<noteq> Free \<Longrightarrow> threads s' c \<noteq> None"
      "\<And>t. t \<noteq> c \<Longrightarrow> threads s t \<noteq> None \<Longrightarrow> threads s' t \<noteq> None"
    and lvl: "loops ((A(c := a)) (running s')) \<Longrightarrow> \<not> intr_on s'"
    and nl: "\<And>l. needs_lock l a \<Longrightarrow> holder s' l = c" "\<And>l. lacks_lock l a \<Longrightarrow> holder s' l \<noteq> c"
    and nl': "\<And>t l. t \<noteq> c \<Longrightarrow> needs_lock l (A t) \<Longrightarrow> holder s' l = t"
      "\<And>t l. t \<noteq> c \<Longrightarrow> lacks_lock l (A t) \<Longrightarrow> holder s' l \<noteq> t"
    and lk: "\<And>l. lock_ok (\<lambda>t. mid l ((A(c := a)) t)) (holder s' l) (sema_value (semas s' (Lock_sema l)))"
  shows "linv (A(c := a)) s'"
  unfolding linv_def
proof (intro conjI allI impI)
  show "\<exists>lv. stacks s' t = map Set_level lv @ frames_of ((A(c := a)) t) \<and> (loops ((A(c := a)) t) \<longrightarrow> lv = [])" for t
    using linvD(1) [OF L, of t] stk by auto
  show "(A(c := a)) (idle_thread s') = Free" using linvD(2) [OF L] idl by auto
  show "(A(c := a)) t \<noteq> Free \<Longrightarrow> threads s' t \<noteq> None" for t
    using linvD(3) [OF L, of t] th by (auto split: if_splits)
  show "needs_lock l ((A(c := a)) t) \<Longrightarrow> holder s' l = t" for t l using nl nl' by (auto split: if_splits)
  show "lacks_lock l ((A(c := a)) t) \<Longrightarrow> holder s' l \<noteq> t" for t l
    using nl(2) [of l] nl'(2) [of t l] by (cases "t = c") auto
qed (use lvl lk in auto)

lemma linv_update_same:
  assumes L: "linv A s"
    and stk: "stacks s' = (stacks s)(c := map Set_level lv @ frames_of a)" "loops a \<Longrightarrow> lv = []"
    and idl: "idle_thread s' = idle_thread s" "c = idle_thread s \<Longrightarrow> a = Free"
    and th: "a \<noteq> Free \<Longrightarrow> threads s' c \<noteq> None"
      "\<And>t. t \<noteq> c \<Longrightarrow> threads s t \<noteq> None \<Longrightarrow> threads s' t \<noteq> None"
    and lvl: "loops ((A(c := a)) (running s')) \<Longrightarrow> \<not> intr_on s'"
    and nl: "\<And>l. needs_lock l a \<Longrightarrow> holder s l = c" "\<And>l. lacks_lock l a \<Longrightarrow> holder s l \<noteq> c"
    and same: "holder s' = holder s" "\<And>l. sema_value (semas s' (Lock_sema l)) = sema_value (semas s (Lock_sema l))"
    and mid: "\<And>l. mid l a = mid l (A c)"
  shows "linv (A(c := a)) s'"
proof (rule linv_update [OF L stk idl th lvl])
  show "lock_ok (\<lambda>t. mid l ((A(c := a)) t)) (holder s' l) (sema_value (semas s' (Lock_sema l)))" for l
  proof -
    have "(\<lambda>t. mid l ((A(c := a)) t)) = (\<lambda>t. mid l (A t))" using mid by auto
    then show ?thesis using linvD(7) [OF L, of l] same by simp
  qed
qed (use nl same linvD(5,6) [OF L] in auto)

lemma linv_keep:
  assumes L: "linv A s" and "stacks s' = stacks s" "idle_thread s' = idle_thread s" "running s' = running s"
    "holder s' = holder s" "\<And>l. sema_value (semas s' (Lock_sema l)) = sema_value (semas s (Lock_sema l))"
    "dom (threads s) \<subseteq> dom (threads s')" "intr_on s' = intr_on s \<or> \<not> loops (A (running s))"
  shows "linv A s'"
proof -
  have "A t \<noteq> Free \<Longrightarrow> threads s' t \<noteq> None" for t using linvD(3) [OF L, of t] assms(7) by auto
  then show ?thesis using assms by (auto simp: linv_def)
qed

lemma free_stack:
  assumes "linv A s" and "stacks s t = []"
  shows "A t = Free"
  using linvD(1) [OF assms(1), of t] assms(2) by (cases "A t") auto

lemma lock_ok_take:
  "lock_ok M h v \<Longrightarrow> 0 < v \<Longrightarrow> \<not> M c \<Longrightarrow> lock_ok (\<lambda>t. if t = c then True else M t) h (v - 1)"
  by (auto simp: lock_ok_def)

lemma lock_ok_unique: "lock_ok M h v \<Longrightarrow> M c \<Longrightarrow> h = 0 \<and> v = 0 \<and> (\<forall>t. M t \<longrightarrow> t = c)"
  by (auto simp: lock_ok_def)

lemma lock_ok_held: "lock_ok M h v \<Longrightarrow> h \<noteq> 0 \<Longrightarrow> v = 0 \<and> (\<forall>t. \<not> M t)"
  by (auto simp: lock_ok_def)

subsection \<open>Semaphore operations in a thread's activity\<close>

lemma down_step:
  assumes k: "kinv s" and L: "linv A s" and c: "c = running s" "c \<noteq> idle_thread s"
    and s0: "s0 = s\<lparr>stacks := (stacks s)(c := frames_of a1), intr_on := False\<rparr>"
    and a1: "\<not> loops a1" "\<And>l. mid l a1 = (x = Lock_sema l)" "\<And>l. \<not> needs_lock l a1"
      "\<And>l. lacks_lock l a1 \<Longrightarrow> lacks_lock l (A c)"
    and a2: "frames_of a2 = Sema_loop x old # frames_of a1" "\<And>l. \<not> mid l a2" "\<And>l. \<not> needs_lock l a2"
      "\<And>l. lacks_lock l a2 \<Longrightarrow> lacks_lock l (A c)"
    and nm: "\<And>l. \<not> mid l (A c)"
  shows "\<exists>s'. sema_down_loop x old s0 = Some s' \<and> kernel_ok s' \<and> holder s' = holder s"
proof -
  have k0: "kinv s0" using k kinv_cong [of s0 s] by (simp add: s0)
  have f0: "\<not> intr_on s0" "running s0 \<noteq> idle_thread s0" "semas s0 = semas s" "running s0 = c"
    "idle_thread s0 = idle_thread s" "holder s0 = holder s" "threads s0 = threads s"
    using c by (simp_all add: s0)
  have tc: "threads s c \<noteq> None" using kinv_current [OF k] c by auto
  show ?thesis
  proof (rule sema_down_loop_ok [OF k0 f0(1,2), of x old])
    fix s'
    assume s': "sema_down_loop x old s0 = Some s'" "0 < sema_value (semas s0 x)"
      "s' = (upd_sema x (sema_value_update (\<lambda>v. v - 1)) s0)\<lparr>intr_on := old\<rparr>" "kinv s'"
    have "linv (A(c := a1)) s'"
    proof (rule linv_update [OF L, where lv = "[]"])
      show "lock_ok (\<lambda>t. mid l ((A(c := a1)) t)) (holder s' l) (sema_value (semas s' (Lock_sema l)))" for l
      proof (cases "x = Lock_sema l")
        case True
        have "(\<lambda>t. mid l ((A(c := a1)) t)) = (\<lambda>t. if t = c then True else mid l (A t))"
          using a1(2) True by auto
        then show ?thesis using lock_ok_take [OF linvD(7) [OF L, of l], of c] s'(2) True nm
          by (simp add: s'(3) f0)
      next
        case False
        have "(\<lambda>t. mid l ((A(c := a1)) t)) = (\<lambda>t. mid l (A t))" using a1(2) False nm by auto
        then show ?thesis using linvD(7) [OF L, of l] False by (auto simp: s'(3) f0)
      qed
    qed (use a1 c tc linvD(5,6) [OF L] in \<open>simp_all add: s'(3) s0\<close>)
    then show ?thesis using s' by (auto simp: kernel_ok_def f0)
  next
    fix s'
    assume s': "sema_down_loop x old s0 = Some s'" "kinv s'"
      "sched_frame (push_frames [Sema_loop x old] (upd_sema x (waiters_update (\<lambda>ws. ws @ [running s0])) s0)) s'"
      "threads s' (running s0) \<noteq> None"
    have "linv (A(c := a2)) s'"
    proof (rule linv_update_same [OF L, where lv = "[]"])
      show "stacks s' = (stacks s)(c := map Set_level [] @ frames_of a2)"
        using s'(3) c by (auto simp: sched_frame_def a2 s0)
    qed (use s'(3,4) a2 nm c linvD(6) [OF L] in \<open>auto simp: sched_frame_def s0\<close>)
    then show ?thesis using s' by (auto simp: kernel_ok_def f0 sched_frame_def)
  qed
qed

lemma up_step:
  assumes k: "kinv s" and L: "linv A s" and c: "c = running s"
    and s0: "s0 = s\<lparr>stacks := (stacks s)(c := frames_of a1)\<rparr>" and ni: "c = idle_thread s \<Longrightarrow> a1 = Free"
    and a1: "\<not> loops a1" "\<And>l. \<not> mid l a1" "\<And>l. needs_lock l a1 \<Longrightarrow> needs_lock l (A c)"
      "\<And>l. lacks_lock l a1 \<Longrightarrow> lacks_lock l (A c)"
    and m: "\<And>l. mid l (A c) = (x = Lock_sema l)"
  shows "\<exists>s'. sema_up x s0 = Some s' \<and> kernel_ok s' \<and> holder s' = holder s"
proof -
  have k0: "kinv s0" using k kinv_cong [of s0 s] by (simp add: s0)
  have tc: "threads s c \<noteq> None" using kinv_current [OF k] c by auto
  obtain s' where s': "sema_up x s0 = Some s'" "kinv s'" "running s' = running s0" "stacks s' = stacks s0"
    "holder s' = holder s0" "intr_on s' = intr_on s0" "idle_thread s' = idle_thread s0"
    "semas s' = (semas s0)(x := \<lparr>sema_value = (sema_value (semas s0 x) + 1) mod 2 ^ 32,
          waiters = tl (waiters (semas s0 x))\<rparr>)"
    "\<And>t. st s' t = (if t \<in> set (take 1 (waiters (semas s0 x))) then Some THREAD_READY else st s0 t)"
    by (rule sema_up_ok [OF k0, of x]) blast
  have th: "threads s' t \<noteq> None" if "threads s t \<noteq> None" for t
    using s'(9) [of t] that by (auto simp: st_def s0 split: if_splits)
  have "linv (A(c := a1)) s'"
  proof (rule linv_update [OF L, where lv = "[]"])
    show "lock_ok (\<lambda>t. mid l ((A(c := a1)) t)) (holder s' l) (sema_value (semas s' (Lock_sema l)))" for l
    proof (cases "x = Lock_sema l")
      case True
      have u: "holder s l = 0 \<and> sema_value (semas s x) = 0 \<and> (\<forall>t. mid l (A t) \<longrightarrow> t = c)"
        using lock_ok_unique [OF linvD(7) [OF L, of l], of c] m True by simp
      then have "\<forall>t. \<not> mid l ((A(c := a1)) t)" using a1(2) by auto
      then show ?thesis using u True by (simp add: lock_ok_def s' s0)
    next
      case False
      have "(\<lambda>t. mid l ((A(c := a1)) t)) = (\<lambda>t. mid l (A t))" using a1(2) False m by auto
      then show ?thesis using linvD(7) [OF L, of l] False by (auto simp: s' s0)
    qed
  qed (use a1 c tc th ni linvD(5,6) [OF L] s' in \<open>simp_all add: s0\<close>)
  then show ?thesis using s' by (auto simp: kernel_ok_def s0)
qed

lemma set_holder_step:
  assumes k: "kinv s" and L: "linv A s" and c: "c = running s" and a: "A c = Taking l"
    and s0: "s0 = s\<lparr>stacks := (stacks s)(c := [])\<rparr>"
  shows "\<exists>s'. set_holder l s0 = Some s' \<and> kernel_ok s' \<and> holder s' = (holder s)(l := c) \<and> holder s l = 0"
proof -
  have k0: "kinv s0" using k kinv_cong [of s0 s] by (simp add: s0)
  have cur: "thread_current s0 = Some c" and c0: "c \<noteq> 0" using kinv_current [OF k0] c by (auto simp: s0)
  let ?s = "s0\<lparr>holder := (holder s0)(l := c)\<rparr>"
  have u: "holder s l = 0 \<and> sema_value (semas s (Lock_sema l)) = 0 \<and> (\<forall>t. mid l (A t) \<longrightarrow> t = c)"
    using lock_ok_unique [OF linvD(7) [OF L, of l], of c] a by simp
  have A0: "A 0 = Free" using linvD(3) [OF L, of 0] kinvD(1) [OF k] by (auto simp: mem_ok_def)
  have "linv (A(c := Free)) ?s"
  proof (rule linv_update [OF L, where lv = "[]"])
    show "lock_ok (\<lambda>t. mid j ((A(c := Free)) t)) (holder ?s j) (sema_value (semas ?s (Lock_sema j)))" for j
    proof (cases "j = l")
      case True
      then have "\<forall>t. \<not> mid j ((A(c := Free)) t)" using u by auto
      then show ?thesis using u True c0 by (simp add: lock_ok_def s0)
    next
      case False
      then have "(\<lambda>t. mid j ((A(c := Free)) t)) = (\<lambda>t. mid j (A t))" using a by auto
      then show ?thesis using linvD(7) [OF L, of j] False by (simp add: s0)
    qed
    show "needs_lock j (A t) \<Longrightarrow> holder ?s j = t" if "t \<noteq> c" for t j
      using linvD(5) [OF L, of j t] u A0 that by (cases "j = l") (auto simp: s0)
    show "lacks_lock j (A t) \<Longrightarrow> holder ?s j \<noteq> t" if "t \<noteq> c" for t j
      using linvD(6) [OF L, of j t] that by (auto simp: s0)
  qed (use c in \<open>simp_all add: s0\<close>)
  moreover have "kinv ?s" using k0 kinv_cong [of ?s s0] by simp
  moreover have "set_holder l s0 = Some ?s" using cur by (simp add: set_holder_def)
  ultimately show ?thesis using u by (auto simp: kernel_ok_def s0)
qed

lemma release_step:
  assumes k: "kinv s" and L: "linv A s" and c: "c = running s" and a: "A c = Free" and ni: "c \<noteq> idle_thread s"
    and h: "holder s l = c"
    and s': "s' = s\<lparr>stacks := (stacks s)(c := frames_of a1), holder := (holder s)(l := 0), conds := cs, semas := sm\<rparr>"
    and sm: "\<And>x. waiters (sm x) = waiters (semas s x)" "\<And>j. sm (Lock_sema j) = semas s (Lock_sema j)"
    and a1: "\<not> loops a1" "\<And>j. mid j a1 = (j = l)" "\<And>j. \<not> needs_lock j a1" "\<And>j. lacks_lock j a1 \<Longrightarrow> j = l"
  shows "kernel_ok s'"
proof -
  have c0: "c \<noteq> 0" and tc: "threads s c \<noteq> None" using kinv_current [OF k] c by auto
  have u: "sema_value (semas s (Lock_sema l)) = 0 \<and> (\<forall>t. \<not> mid l (A t))"
    using lock_ok_held [OF linvD(7) [OF L, of l]] h c0 by simp
  have A0: "A 0 = Free" using linvD(3) [OF L, of 0] kinvD(1) [OF k] by (auto simp: mem_ok_def)
  have "linv (A(c := a1)) s'"
  proof (rule linv_update [OF L, where lv = "[]"])
    show "lock_ok (\<lambda>t. mid j ((A(c := a1)) t)) (holder s' j) (sema_value (semas s' (Lock_sema j)))" for j
    proof (cases "j = l")
      case True
      then have "mid j ((A(c := a1)) t) \<longleftrightarrow> t = c" for t using u a1(2) by simp
      then show ?thesis using u True by (auto simp: lock_ok_def s' sm)
    next
      case False
      have "mid j ((A(c := a1)) t) = mid j (A t)" for t
        by (cases "t = c") (simp_all add: a a1(2) False)
      then have "(\<lambda>t. mid j ((A(c := a1)) t)) = (\<lambda>t. mid j (A t))" by (rule ext)
      then show ?thesis using linvD(7) [OF L, of j] False by (simp add: s' sm)
    qed
    show "needs_lock j (A t) \<Longrightarrow> holder s' j = t" if "t \<noteq> c" for t j
      using linvD(5) [OF L, of j t] h that by (cases "j = l") (auto simp: s')
    show "lacks_lock j (A t) \<Longrightarrow> holder s' j \<noteq> t" if "t \<noteq> c" for t j
      using linvD(6) [OF L, of j t] A0 by (cases "t = 0") (auto simp: s')
    show "lacks_lock j a1 \<Longrightarrow> holder s' j \<noteq> c" for j using a1(4) [of j] c0 by (simp add: s')
  qed (use c ni tc a1 in \<open>simp_all add: s'\<close>)
  moreover have "kinv s'" using k kinv_cong [of s' s] by (simp add: s' sm)
  ultimately show ?thesis by (auto simp: kernel_ok_def)
qed

lemma frames_step:
  assumes k: "kinv s" and L: "linv A s" and c: "c = running s"
    and s': "s' = s\<lparr>stacks := (stacks s)(c := map Set_level lv @ frames_of a1), conds := cs, intr_on := b, semas := sm\<rparr>"
    and sm: "\<And>x. waiters (sm x) = waiters (semas s x)" "\<And>j. sm (Lock_sema j) = semas s (Lock_sema j)"
    and a1: "\<not> loops a1" "c = idle_thread s \<Longrightarrow> a1 = Free" "\<And>l. mid l a1 = mid l (A c)"
      "\<And>l. needs_lock l a1 \<Longrightarrow> holder s l = c" "\<And>l. lacks_lock l a1 \<Longrightarrow> holder s l \<noteq> c"
  shows "kernel_ok s'"
proof -
  have tc: "threads s c \<noteq> None" using kinv_current [OF k] c by auto
  have "linv (A(c := a1)) s'"
    by (rule linv_update_same [OF L, where lv = lv]) (use c tc a1 in \<open>simp_all add: s' sm\<close>)
  moreover have "kinv s'" using k kinv_cong [of s' s] by (simp add: s' sm)
  ultimately show ?thesis by (auto simp: kernel_ok_def)
qed

text \<open>
  A thread goes on with what it is doing: \<open>pop s fs\<close> is the state in which its top frame has
  been taken off and \<open>fs\<close> is left, and \<open>goes_on\<close> says that the frame runs and keeps the
  invariant, taking no lock from its holder.
\<close>

definition pop :: "kernel \<Rightarrow> frame list \<Rightarrow> kernel" where
  "pop s fs = s\<lparr>stacks := (stacks s)(running s := fs)\<rparr>"

definition goes_on :: "kernel \<Rightarrow> kernel option \<Rightarrow> bool" where
  "goes_on s r \<longleftrightarrow> (\<exists>s'. r = Some s' \<and> kernel_ok s' \<and> (\<forall>l. holder s l \<noteq> 0 \<longrightarrow> holder s' l = holder s l))"

lemma pop_simps:
  assumes "kinv s"
  shows "thread_current (pop s fs) = Some (running s)" and "\<not> intr_context (pop s fs)"
    and "push_frames gs (pop s fs) = pop s (gs @ fs)" and "conds (pop s fs) = conds s"
    and "lock_held_by_current_thread l (pop s fs) = Some (holder s l = running s)"
proof -
  have k: "kinv (pop s fs)" using assms kinv_cong [of "pop s fs" s] by (simp add: pop_def)
  have r: "running (pop s fs) = running s" by (simp add: pop_def)
  show c: "thread_current (pop s fs) = Some (running s)" using kinv_current [OF k] r by metis
  show "\<not> intr_context (pop s fs)" using kinvD(3) [OF k] by (simp add: intr_context_def)
  show "lock_held_by_current_thread l (pop s fs) = Some (holder s l = running s)"
    using c by (simp add: lock_held_by_current_thread_def) (simp add: pop_def)
qed (simp_all add: push_frames_def pop_def)

lemma push_conds: "push_frames gs ((pop s fs)\<lparr>conds := cs\<rparr>) = (pop s (gs @ fs))\<lparr>conds := cs\<rparr>"
  by (cases s) (simp add: push_frames_def pop_def)

lemma goes_on_down:
  assumes k: "kinv s" and L: "linv A s" and ni: "running s \<noteq> idle_thread s"
    and a: "\<not> loops a1" "\<And>l. mid l a1 = (x = Lock_sema l)" "\<And>l. \<not> needs_lock l a1"
      "\<And>l. lacks_lock l a1 \<Longrightarrow> lacks_lock l (A (running s))" "\<And>old. frames_of (a2 old) = Sema_loop x old # frames_of a1"
      "\<And>l old. \<not> mid l (a2 old)" "\<And>l old. \<not> needs_lock l (a2 old)"
      "\<And>l old. lacks_lock l (a2 old) \<Longrightarrow> lacks_lock l (A (running s))" "\<And>l. \<not> mid l (A (running s))"
  shows "goes_on s (sema_down x (pop s (frames_of a1)))"
    and "loops (A (running s)) \<Longrightarrow> goes_on s (sema_down_loop x old (pop s (frames_of a1)))"
proof -
  let ?s = "\<lambda>fs. s\<lparr>stacks := (stacks s)(running s := fs), intr_on := False\<rparr>"
  have d: "goes_on s (sema_down_loop x old (?s (frames_of a1)))" for old
  proof -
    have "\<exists>s'. sema_down_loop x old (?s (frames_of a1)) = Some s' \<and> kernel_ok s' \<and> holder s' = holder s"
      by (rule down_step [OF k L refl ni refl, where ?a2.0 = "a2 old"]) (use a in auto)
    then show ?thesis by (auto simp: goes_on_def)
  qed
  then show "goes_on s (sema_down x (pop s (frames_of a1)))"
    using pop_simps(2) [OF k] by (simp add: sema_down_def intr_disable_def pop_def)
  show "goes_on s (sema_down_loop x old (pop s (frames_of a1)))" if "loops (A (running s))"
  proof -
    have "pop s fs = ?s fs" for fs using linvD(4) [OF L that] by (cases s) (simp add: pop_def)
    then show ?thesis using d by simp
  qed
qed

lemma goes_on_up:
  assumes k: "kinv s" and L: "linv A s" and ni: "running s \<noteq> idle_thread s"
    and a: "\<not> loops a1" "\<And>l. \<not> mid l a1" "\<And>l. needs_lock l a1 \<Longrightarrow> needs_lock l (A (running s))"
      "\<And>l. lacks_lock l a1 \<Longrightarrow> lacks_lock l (A (running s))" "\<And>l. mid l (A (running s)) = (x = Lock_sema l)"
  shows "goes_on s (sema_up x (pop s (frames_of a1)))"
  using up_step [OF k L refl refl _ a] ni by (auto simp: pop_def goes_on_def)

lemma goes_on_frames:
  assumes k: "kinv s" and L: "linv A s" and ni: "running s \<noteq> idle_thread s"
    and a: "\<not> loops a1" "\<And>l. mid l a1 = mid l (A (running s))"
      "\<And>l. needs_lock l a1 \<Longrightarrow> needs_lock l (A (running s))"
      "\<And>l. lacks_lock l a1 \<Longrightarrow> lacks_lock l (A (running s))"
  shows "goes_on s (Some ((pop s (frames_of a1))\<lparr>conds := cs\<rparr>))"
proof -
  have "kernel_ok ((pop s (frames_of a1))\<lparr>conds := cs\<rparr>)"
    by (rule frames_step [OF k L refl, where lv = "[]" and cs = cs and b = "intr_on s" and sm = "semas s" and ?a1.0 = a1])
      (use a ni linvD(5,6) [OF L] in \<open>auto simp: pop_def\<close>)
  then show ?thesis by (auto simp: goes_on_def pop_def)
qed

lemma resume_step:
  assumes k: "kinv s" and L: "linv A s" and ne: "stacks s (running s) \<noteq> []"
  shows "goes_on s (resume s)"
proof -
  let ?c = "running s"
  obtain lv where lv: "stacks s ?c = map Set_level lv @ frames_of (A ?c)" "loops (A ?c) \<Longrightarrow> lv = []"
    using linvD(1) [OF L, of ?c] by blast
  have res: "stacks s ?c = f # fs \<Longrightarrow> resume s = run_frame f (pop s fs)" for f fs
    by (simp add: resume_def pop_def)
  note ps = pop_simps [OF k]
  have same: "pop s fs = (pop s fs)\<lparr>conds := conds s\<rparr>" for fs by (simp add: pop_def)
  show ?thesis
  proof (cases lv)
    case (Cons b lv')
    let ?s = "s\<lparr>stacks := (stacks s)(?c := map Set_level lv' @ frames_of (A ?c)), conds := conds s, intr_on := b,
        semas := semas s\<rparr>"
    have "kernel_ok ?s"
      by (rule frames_step [OF k L refl refl]) (use lv Cons linvD(2,5,6) [OF L] in auto)
    moreover have "resume s = Some ?s"
      using ps(2) res lv(1) Cons by (simp add: run_frame_def intr_set_level_ok intr_context_def pop_def)
    ultimately show ?thesis by (simp add: goes_on_def)
  next
    case Nil
    then have fs: "stacks s ?c = frames_of (A ?c)" using lv(1) by simp
    then have ni: "?c \<noteq> idle_thread s" using ne linvD(2) [OF L] by auto
    show ?thesis
    proof (cases "A ?c")
      case Free
      then show ?thesis using fs ne by simp
    next
      case (Waiting n b)
      then show ?thesis using fs res goes_on_down(2) [OF k L ni, of Free "Sema n" "Waiting n" b]
        by (auto simp: run_frame_def)
    next
      case (Acquiring l)
      then show ?thesis using fs res goes_on_down(1) [OF k L ni, of "Taking l" "Lock_sema l" "Acq_waiting l"]
        by (auto simp: run_frame_def)
    next
      case (Acq_waiting l b)
      then show ?thesis using fs res goes_on_down(2) [OF k L ni, of "Taking l" "Lock_sema l" "Acq_waiting l" b]
        by (auto simp: run_frame_def)
    next
      case (Taking l)
      then show ?thesis using fs res set_holder_step [OF k L refl Taking refl]
        by (auto simp: run_frame_def goes_on_def pop_def)
    next
      case (Releasing l)
      then show ?thesis using fs res goes_on_up [OF k L ni, of Free "Lock_sema l"] by (auto simp: run_frame_def)
    next
      case (Cw_release l w)
      then show ?thesis using fs res goes_on_up [OF k L ni, of "Cw_down l w" "Lock_sema l"]
        by (auto simp: run_frame_def)
    next
      case (Cw_down l w)
      then show ?thesis using fs res goes_on_down(1) [OF k L ni, of "Cw_reacquire l" "Sema w" "Cw_waiting l w"]
        by (auto simp: run_frame_def)
    next
      case (Cw_waiting l w b)
      then show ?thesis using fs res goes_on_down(2) [OF k L ni, of "Cw_reacquire l" "Sema w" "Cw_waiting l w" b]
        by (auto simp: run_frame_def)
    next
      case (Cw_reacquire l)
      then have "holder s l \<noteq> ?c" using linvD(6) [OF L, of l ?c] by simp
      then show ?thesis using Cw_reacquire fs res goes_on_frames [OF k L ni, of "Acquiring l" "conds s"] ps
        by (simp add: run_frame_def lock_acquire_def same [symmetric])
    next
      case (Signalling w)
      then show ?thesis using fs res goes_on_up [OF k L ni, of Free "Sema w"] by (simp add: run_frame_def)
    next
      case (Bc_signalling cv l w)
      then show ?thesis using fs res goes_on_up [OF k L ni, of "Bcasting cv l" "Sema w"] by (simp add: run_frame_def)
    next
      case (Bc_signal cv l)
      then have h: "holder s l = ?c" using linvD(5) [OF L, of l ?c] by simp
      show ?thesis
      proof (cases "conds s cv")
        case Nil
        then show ?thesis using h Bc_signal fs res goes_on_frames [OF k L ni, of "Bcasting cv l" "conds s"] ps
          by (simp add: run_frame_def cond_signal_def same [symmetric])
      next
        case (Cons w ws)
        then show ?thesis using h Bc_signal fs res ps
            goes_on_frames [OF k L ni, of "Bc_signalling cv l w" "(conds s)(cv := ws)"]
          by (simp add: run_frame_def cond_signal_def push_conds)
      qed
    next
      case (Bcasting cv l)
      then show ?thesis using fs res goes_on_frames [OF k L ni, of Free "conds s"]
          goes_on_frames [OF k L ni, of "Bc_signal cv l" "conds s"] ps
        by (simp add: run_frame_def cond_broadcast_def same [symmetric])
    qed
  qed
qed

subsection \<open>Calls\<close>

lemma goes_onI: "r = Some s' \<Longrightarrow> kinv s' \<Longrightarrow> linv A s' \<Longrightarrow> holder s' = holder s \<Longrightarrow> goes_on s r"
  by (auto simp: goes_on_def kernel_ok_def)

text \<open>A thread with no unfinished function that gives up the processor.\<close>

lemma leave_step:
  assumes L: "linv A s" and fr: "sched_frame s1 s'" and k': "kinv s'"
    and s1: "stacks s1 = (stacks s)(running s := map Set_level lv)" "running s1 = running s"
      "idle_thread s1 = idle_thread s" "holder s1 = holder s" "semas s1 = semas s" "\<not> intr_on s1"
      "dom (threads s1) = dom (threads s)" and free: "A (running s) = Free"
  shows "linv A s'"
proof -
  have "threads s t \<noteq> None \<Longrightarrow> threads s1 t \<noteq> None" for t using s1(7) by (metis domIff)
  then have "linv (A(running s := Free)) s'"
    by (intro linv_update_same [OF L, where lv = lv]) (use fr s1 free in \<open>auto simp: sched_frame_def\<close>)
  moreover have "A(running s := Free) = A" using free by auto
  ultimately show ?thesis by simp
qed

lemma create_step:
  assumes k: "kinv s" and L: "linv A s" and p: "PRI_MIN \<le> prio" "prio \<le> PRI_MAX"
  shows "goes_on s (map_option fst (thread_create nm prio True aux_info s))"
proof (rule thread_create_ok [OF k p, of nm aux_info])
  fix pg assume "thread_create nm prio True aux_info s = Some (s\<lparr>pages := pg\<rparr>, TID_ERROR)"
    "kinv (s\<lparr>pages := pg\<rparr>)"
  moreover have "linv A (s\<lparr>pages := pg\<rparr>)" by (rule linv_keep [OF L]) simp_all
  ultimately show ?thesis by (intro goes_onI [where A = A and s' = "s\<lparr>pages := pg\<rparr>"]) simp_all
next
  fix s' t
  assume c: "thread_create nm prio True aux_info s = Some (s', next_tid s)" "kinv s'"
    "threads s t = None" "threads s' = (threads s)(t \<mapsto> new_thread t nm prio (next_tid s) aux_info)"
    "stacks s' = (stacks s)(t := kernel_thread)" "running s' = running s" "semas s' = semas s"
    "holder s' = holder s" "intr_on s' = intr_on s" "idle_thread s' = idle_thread s"
  have At: "A t = Free" using linvD(3) [OF L, of t] c(3) by auto
  then have "A(t := Free) = A" by auto
  then have "linv (A(t := Free)) s'"
    by (intro linv_update_same [OF L, where lv = "[True]"])
      (use c At linvD(4) [OF L] in \<open>auto simp: kernel_thread_def\<close>)
  then show ?thesis using c by (intro goes_onI [where A = "A(t := Free)" and s' = s']) simp_all
qed

lemma yield_step:
  assumes k: "kinv s" and L: "linv A s" and e: "stacks s (running s) = []"
  shows "goes_on s (thread_yield s)"
proof (rule thread_yield_ok [OF k])
  fix s' assume y: "thread_yield s = Some s'" "kinv s'"
    "sched_frame (push_frames [Set_level (intr_on s)] (s\<lparr>intr_on := False\<rparr>)) s'"
  have "linv A s'"
    by (rule leave_step [OF L y(3,2), where lv = "[intr_on s]"]) (use e free_stack [OF L e] in simp_all)
  then show ?thesis using y by (intro goes_onI [where A = A and s' = s']) (simp_all add: sched_frame_def)
qed

lemma exit_step:
  assumes k: "kinv s" and L: "linv A s" and e: "stacks s (running s) = []" and ni: "running s \<noteq> idle_thread s"
  shows "goes_on s (thread_exit s)"
proof (rule thread_exit_ok [OF k ni])
  fix s' assume y: "thread_exit s = Some s'" "kinv s'"
    "sched_frame (s\<lparr>intr_on := False, all_list := remove1 (running s) (all_list s)\<rparr>) s'"
  have "(stacks s)(running s := []) = stacks s" using e by auto
  then have "linv A s'"
    by (intro leave_step [OF L y(3,2), where lv = "[]"]) (use free_stack [OF L e] in simp_all)
  then show ?thesis using y by (intro goes_onI [where A = A and s' = s']) (simp_all add: sched_frame_def)
qed

lemma sleep_step:
  assumes k: "kinv s" and L: "linv A s" and e: "stacks s (running s) = []" and ni: "running s \<noteq> idle_thread s"
    and on: "intr_on s"
  shows "goes_on s (timer_sleep n s)"
proof (cases "0 < n")
  case False
  then show ?thesis using k L on by (intro goes_onI [where s' = s and A = A]) (simp_all add: timer_sleep_def)
next
  case True
  let ?s1 = "upd_thread (running s) (ticks_update (\<lambda>_. now s + n)) (s\<lparr>intr_on := False\<rparr>)"
  show ?thesis
  proof (rule timer_sleep_ok [OF k on ni True])
    fix s' assume y: "timer_sleep n s = Some s'" "kinv s'"
      "sched_frame (push_frames [Set_level True]
        (?s1\<lparr>sleep_list := insert_ordered_seq (cmp_ticks ?s1) (running s) (sleep_list s)\<rparr>)) s'"
    have th: "threads s (running s) \<noteq> None" using kinv_current [OF k] by auto
    have "linv A s'"
      by (rule leave_step [OF L y(3,2), where lv = "[True]"]) (use e th free_stack [OF L e] in auto)
    then show ?thesis using y by (intro goes_onI [where A = A and s' = s']) (simp_all add: sched_frame_def)
  qed
qed

lemma tick_step:
  assumes k: "kinv s" and L: "linv A s" and on: "intr_on s"
  shows "goes_on s (timer_intr s)"
proof -
  have nl: "\<not> loops (A (running s))" using linvD(4) [OF L] on by blast
  obtain lv where lv: "stacks s (running s) = map Set_level lv @ frames_of (A (running s))"
    using linvD(1) [OF L, of "running s"] by blast
  show ?thesis
  proof (rule timer_intr_ok [OF k on])
    fix s' assume t: "timer_intr s = Some s'" "kinv s'" "running s' = running s" "stacks s' = stacks s"
      "semas s' = semas s" "holder s' = holder s" "idle_thread s' = idle_thread s"
      "dom (threads s') = dom (threads s)"
    have "linv A s'" by (rule linv_keep [OF L]) (use t nl in simp_all)
    then show ?thesis using t by (intro goes_onI [where A = A and s' = s']) simp_all
  next
    fix s1 s'
    assume t: "timer_intr s = Some s'" "kinv s'" "running s1 = running s"
      "stacks s1 = (stacks s)(running s := Set_level True # stacks s (running s))"
      "semas s1 = semas s" "holder s1 = holder s" "idle_thread s1 = idle_thread s" "\<not> intr_on s1"
      "sched_frame (push_frames [Set_level False] s1) s'" "dom (threads s1) = dom (threads s)"
      "threads s' (running s) \<noteq> None"
    have d: "threads s t \<noteq> None \<Longrightarrow> threads s1 t \<noteq> None" for t using t(10) by (metis domIff)
    have stk: "stacks s' = (stacks s)(running s := map Set_level (False # True # lv) @ frames_of (A (running s)))"
      using t(3,4,9) lv by (auto simp: sched_frame_def)
    have "linv (A(running s := A (running s))) s'"
      by (rule linv_update_same [OF L stk])
        (use t nl d linvD(2,5,6) [OF L] in \<open>auto simp: sched_frame_def\<close>)
    then show ?thesis using t by (intro goes_onI [where A = A and s' = s']) (simp_all add: sched_frame_def)
  qed
qed

lemma idle_step:
  assumes k: "kinv s" and L: "linv A s" and e: "stacks s (running s) = []" and i: "running s = idle_thread s"
  shows "goes_on s (idle s)"
proof (rule idle_ok [OF k i])
  fix s' assume y: "idle s = Some s'" "kinv s'"
    "sched_frame (push_frames [Set_level True] (s\<lparr>intr_on := False\<rparr>)) s'"
  have "linv A s'"
    by (rule leave_step [OF L y(3,2), where lv = "[True]"]) (use e free_stack [OF L e] in simp_all)
  then show ?thesis using y by (intro goes_onI [where A = A and s' = s']) (simp_all add: sched_frame_def)
qed

lemma push_frames_nil [simp]: "push_frames [] s = s"
  by (cases s) (simp add: push_frames_def)

lemma pop_nil: "stacks s (running s) = [] \<Longrightarrow> pop s [] = s"
  by (cases s) (auto simp: pop_def)

lemma sema_init_step:
  assumes k: "kinv s" and L: "linv A s" and w: "waiters (semas s (Sema n)) = []"
  shows "goes_on s (Some (sema_init (Sema n) v s))"
proof -
  let ?s = "sema_init (Sema n) v s"
  have "kinv ?s" using k kinv_cong [of ?s s] w by (simp add: sema_init_def)
  moreover have "linv A ?s" by (rule linv_keep [OF L]) (simp_all add: sema_init_def)
  ultimately show ?thesis by (intro goes_onI [where A = A and s' = ?s]) (simp_all add: sema_init_def)
qed

lemma sema_try_down_eq:
  assumes k: "kinv s"
  shows "sema_try_down x s = Some (if 0 < sema_value (semas s x) then upd_sema x (sema_value_update (\<lambda>v. v - 1)) s else s,
      0 < sema_value (semas s x))"
  using kinvD(3) [OF k] by (cases s) (simp add: sema_try_down_def intr_disable_def intr_set_level_ok upd_sema_def)

text \<open>A successful \<^verbatim>\<open>sema_try_down\<close> leaves what a \<^verbatim>\<open>sema_down\<close> that does not wait leaves.\<close>

lemma sema_down_eq_try:
  assumes k: "kinv s" and v: "0 < sema_value (semas s x)" and e: "stacks s (running s) = []"
  shows "sema_down x (pop s fs) = Some (push_frames fs (upd_sema x (sema_value_update (\<lambda>v. v - 1)) s))"
  using kinvD(3) [OF k] v e
  by (cases s) (simp add: sema_down_def sema_down_loop_def intr_context_def intr_disable_def intr_set_level_ok
      upd_sema_def pop_def push_frames_def)

lemma prio_step:
  assumes k: "kinv s" and L: "linv A s"
  shows "goes_on s (thread_set_priority p s)"
proof -
  let ?s = "upd_thread (running s) (priority_update (\<lambda>_. p)) s"
  have "st ?s = st s" "wake_time ?s = wake_time s"
    by (auto simp: st_def wake_time_def fun_eq_iff option.map_comp comp_def split: option.splits)
  moreover have "mem_ok ?s" by (rule mem_ok_threads [OF kinvD(1) [OF k]]) (auto split: if_splits)
  ultimately have "kinv ?s" using kinvD [OF k] by (simp add: kinv_def)
  moreover have "linv A ?s" by (rule linv_keep [OF L]) auto
  moreover have "thread_current s = Some (running s)" using kinv_current [OF k] by metis
  then have "thread_set_priority p s = Some ?s" by (simp add: thread_set_priority_def)
  ultimately show ?thesis by (intro goes_onI [where A = A and s' = ?s]) simp_all
qed

lemma set_intr_step:
  assumes k: "kinv s" and L: "linv A s" and e: "stacks s (running s) = []"
  shows "goes_on s (intr_set_level b s)"
proof -
  have "linv A (s\<lparr>intr_on := b\<rparr>)" by (rule linv_keep [OF L]) (simp_all add: free_stack [OF L e])
  moreover have "kinv (s\<lparr>intr_on := b\<rparr>)" using k kinv_cong [of "s\<lparr>intr_on := b\<rparr>" s] by simp
  moreover have "intr_set_level b s = Some (s\<lparr>intr_on := b\<rparr>)" using kinvD(3) [OF k] by (simp add: intr_set_level_ok)
  ultimately show ?thesis by (intro goes_onI [where A = A and s' = "s\<lparr>intr_on := b\<rparr>"]) simp_all
qed

lemma lock_call_step:
  assumes k: "kinv s" and L: "linv A s" and e: "stacks s (running s) = []" and ni: "running s \<noteq> idle_thread s"
  shows "goes_on s (sema_down (Sema n) s)" and "goes_on s (map_option fst (sema_try_down (Sema n) s))"
    and "goes_on s (sema_up (Sema n) s)"
    and "holder s l \<noteq> running s \<Longrightarrow> goes_on s (lock_acquire l s)"
    and "holder s l \<noteq> running s \<Longrightarrow> goes_on s (map_option fst (lock_try_acquire l s))"
    and "holder s l = running s \<Longrightarrow> goes_on s (cond_signal cv l s)"
    and "holder s l = running s \<Longrightarrow> goes_on s (cond_broadcast cv l s)"
proof -
  note free = free_stack [OF L e]
  note nil = pop_nil [OF e]
  note ps = pop_simps [OF k, where fs = "[]", unfolded nil]
  have stay: "goes_on s (Some s)" using k L by (intro goes_onI [where A = A and s' = s]) simp_all
  show dn: "goes_on s (sema_down (Sema n) s)"
    using goes_on_down(1) [OF k L ni, of Free "Sema n" "Waiting n"] free by (simp add: nil)
  show "goes_on s (map_option fst (sema_try_down (Sema n) s))"
  proof (cases "0 < sema_value (semas s (Sema n))")
    case True
    then show ?thesis using dn sema_down_eq_try [OF k True e, of "[]"]
      by (simp add: sema_try_down_eq [OF k] nil)
  qed (use stay in \<open>simp add: sema_try_down_eq [OF k]\<close>)
  show "goes_on s (sema_up (Sema n) s)"
    using goes_on_up [OF k L ni, of Free "Sema n"] free by (simp add: nil)
  show "goes_on s (lock_acquire l s)" if "holder s l \<noteq> running s"
    using goes_on_frames [OF k L ni, of "Acquiring l" "conds s"] free that ps
    by (simp add: lock_acquire_def) (simp add: pop_def)
  show "goes_on s (map_option fst (lock_try_acquire l s))" if h: "holder s l \<noteq> running s"
  proof (cases "0 < sema_value (semas s (Lock_sema l))")
    case True
    then show ?thesis
      using goes_on_down(1) [OF k L ni, of "Taking l" "Lock_sema l" "Acq_waiting l"] free
        sema_down_eq_try [OF k True e, of "[Set_holder l]"] h ps
      by (auto simp: lock_try_acquire_def sema_try_down_eq [OF k])
  qed (use stay h ps in \<open>simp add: lock_try_acquire_def sema_try_down_eq [OF k]\<close>)
  show "goes_on s (cond_signal cv l s)" if h: "holder s l = running s"
  proof (cases "conds s cv")
    case (Cons w ws)
    then show ?thesis
      using goes_on_frames [OF k L ni, of "Signalling w" "(conds s)(cv := ws)"] free h ps e
        push_conds [where gs = "[Sema_up (Sema w)]" and s = s and fs = "[]" and cs = "(conds s)(cv := ws)"]
      by (simp add: cond_signal_def nil)
  qed (use stay h ps in \<open>simp add: cond_signal_def\<close>)
  show "goes_on s (cond_broadcast cv l s)" if h: "holder s l = running s"
  proof (cases "conds s cv = []")
    case False
    have "kernel_ok (s\<lparr>stacks := (stacks s)(running s := map Set_level [] @ frames_of (Bc_signal cv l)),
        conds := conds s, intr_on := intr_on s, semas := semas s\<rparr>)"
      by (rule frames_step [OF k L refl refl]) (use free h ni in auto)
    then show ?thesis using False e by (simp add: cond_broadcast_def goes_on_def push_frames_def)
  qed (use stay in \<open>simp add: cond_broadcast_def\<close>)
qed

text \<open>Giving up a lock: \<^verbatim>\<open>lock_release\<close> and \<^verbatim>\<open>cond_wait\<close>.\<close>

lemma give_up_step:
  assumes k: "kinv s" and L: "linv A s" and e: "stacks s (running s) = []" and ni: "running s \<noteq> idle_thread s"
    and h: "holder s l = running s"
  shows "\<exists>s'. lock_release l s = Some s' \<and> kernel_ok s' \<and> holder s' = (holder s)(l := 0)"
    and "waiters (semas s (Sema w)) = [] \<Longrightarrow>
      \<exists>s'. cond_wait cv l w s = Some s' \<and> kernel_ok s' \<and> holder s' = (holder s)(l := 0)"
proof -
  note free = free_stack [OF L e]
  note ps = pop_simps [OF k, where fs = "[]", unfolded pop_nil [OF e]]
  have "kernel_ok (s\<lparr>stacks := (stacks s)(running s := frames_of (Releasing l)), holder := (holder s)(l := 0),
      conds := conds s, semas := semas s\<rparr>)"
    by (rule release_step [OF k L refl free ni h refl]) auto
  then show "\<exists>s'. lock_release l s = Some s' \<and> kernel_ok s' \<and> holder s' = (holder s)(l := 0)"
    using ps h e by (cases s) (simp add: lock_release_def push_frames_def)
  show "\<exists>s'. cond_wait cv l w s = Some s' \<and> kernel_ok s' \<and> holder s' = (holder s)(l := 0)"
    if w: "waiters (semas s (Sema w)) = []"
  proof -
    let ?cs = "(conds s)(cv := conds s cv @ [w])" and ?sm = "(semas s)(Sema w := \<lparr>sema_value = 0, waiters = []\<rparr>)"
    let ?s = "push_frames [Sema_down (Sema w), Lock_acquire l] (s\<lparr>conds := ?cs, semas := ?sm\<rparr>)"
    have ok: "kernel_ok (s\<lparr>stacks := (stacks s)(running s := frames_of (Cw_release l w)), holder := (holder s)(l := 0),
        conds := ?cs, semas := ?sm\<rparr>)"
      by (rule release_step [OF k L refl free ni h refl]) (use w in auto)
    have "thread_current ?s = Some (running s)" using ps(1) by (subst thread_current_cong [of _ s]) simp_all
    then have "lock_held_by_current_thread l ?s = Some True" using h by (simp add: lock_held_by_current_thread_def)
    then show ?thesis using ok ps h e
      by (cases s) (simp add: cond_wait_def lock_release_def sema_init_def push_frames_def)
  qed
qed

subsection \<open>Every step of every run\<close>

definition gives_up :: "nat \<Rightarrow> label \<Rightarrow> bool" where
  "gives_up l a \<longleftrightarrow> a = Call (Release l) \<or> (\<exists>cv w. a = Call (Wait cv l w))"

lemma goes_onD:
  "goes_on s r \<Longrightarrow> \<exists>s'. r = Some s' \<and> kernel_ok s' \<and> (\<forall>l. holder s l \<noteq> 0 \<longrightarrow> holder s' l \<noteq> holder s l \<longrightarrow> P l)"
  by (auto simp: goes_on_def)

lemma step_ok:
  assumes ok: "kernel_ok s" and en: "enabled a s"
  shows "\<exists>s'. do_step a s = Some s' \<and> kernel_ok s' \<and>
    (\<forall>l. holder s l \<noteq> 0 \<longrightarrow> holder s' l \<noteq> holder s l \<longrightarrow> holder s l = running s \<and> gives_up l a)"
proof -
  obtain A where k: "kinv s" and L: "linv A s" using ok by (auto simp: kernel_ok_def)
  show ?thesis
  proof (cases a)
    case (Call c)
    then have e: "stacks s (running s) = []" and ni: "running s \<noteq> idle_thread s" and al: "allowed c s"
      using en by (simp_all add: enabled_def)
    note calls = lock_call_step [OF k L e ni]
    note defs = do_call_def allowed_def gives_up_def Call
    show ?thesis
    proof (cases "\<exists>l. gives_up l a")
      case False
      have "goes_on s (do_call c s)"
      proof (cases c)
        case (Create nm prio i)
        then show ?thesis using al create_step [OF k L] by (simp add: defs)
        next
        case Exit
        then show ?thesis using al exit_step [OF k L e ni] by (simp add: defs)
        next
        case Yield
        then show ?thesis using al yield_step [OF k L e] by (simp add: defs)
        next
        case (Sleep n)
        then show ?thesis using al sleep_step [OF k L e ni] by (simp add: defs)
        next
        case (Set_priority p)
        then show ?thesis using al prio_step [OF k L] by (simp add: defs)
        next
        case (Set_intr b)
        then show ?thesis using al set_intr_step [OF k L e] by (simp add: defs)
        next
        case (Init_sema n v)
        then show ?thesis using al sema_init_step [OF k L] by (simp add: defs)
        next
        case (Down n)
        then show ?thesis using al calls(1) by (simp add: defs)
        next
        case (Try_down n)
        then show ?thesis using al calls(2) by (simp add: defs)
        next
        case (Up n)
        then show ?thesis using al calls(3) by (simp add: defs)
        next
        case (Acquire l)
        then show ?thesis using al calls(4) by (simp add: defs)
        next
        case (Try_acquire l)
        then show ?thesis using al calls(5) by (simp add: defs)
        next
        case (Signal cv l)
        then show ?thesis using al calls(6) by (simp add: defs)
        next
        case (Broadcast cv l)
        then show ?thesis using al calls(7) by (simp add: defs)
        next
        case (Release l)
        then show ?thesis using al False by (simp add: defs)
        next
        case (Wait cv l w)
        then show ?thesis using al False by (simp add: defs)
      qed
      then show ?thesis unfolding Call do_step_def by (simp only: label.case goes_onD)
    next
      case True
      then obtain l where g: "gives_up l a" by blast
      then have h: "holder s l = running s" using al by (auto simp: gives_up_def Call allowed_def)
      have "\<exists>s'. do_step a s = Some s' \<and> kernel_ok s' \<and> holder s' = (holder s)(l := 0)"
        using g al give_up_step [OF k L e ni h]
        by (auto simp: gives_up_def Call do_step_def do_call_def allowed_def)
      then show ?thesis using g h by (auto split: if_splits)
    qed
  next
    case Resume
    then show ?thesis using resume_step [OF k L] en
      by (auto simp: do_step_def enabled_def goes_on_def)
  next
    case Tick
    then show ?thesis using tick_step [OF k L] en by (auto simp: do_step_def enabled_def goes_on_def)
  next
    case Idle_loop
    then show ?thesis using idle_step [OF k L] en by (auto simp: do_step_def enabled_def goes_on_def)
  qed
qed

lemma run_ok: "run s as s' \<Longrightarrow> kernel_ok s \<Longrightarrow> kernel_ok s'"
proof (induction rule: run.induct)
  case (run_snoc s as s1 a s2)
  then show ?case using step_ok [of s1 a] by (auto simp: step_iff)
qed

subsection \<open>Calls against the rules\<close>

text \<open>
  \<open>allowed\<close> has two parts: what the code does not check, \<open>not_asserted\<close>, and the rest, which its
  assertions check. A call that only breaks a rule of the second kind stops the kernel.
\<close>

definition not_asserted :: "kernel_call \<Rightarrow> kernel \<Rightarrow> bool" where
  "not_asserted c s \<longleftrightarrow> (case c of
       Create nm prio aux_info \<Rightarrow> PRI_MIN \<le> prio \<and> prio \<le> PRI_MAX
     | Init_sema n v \<Rightarrow> waiters (semas s (Sema n)) = []
     | Wait cv l w \<Rightarrow> waiters (semas s (Sema w)) = []
     | Broadcast cv l \<Rightarrow> holder s l = running s
     | _ \<Rightarrow> True)"

definition attempted :: "label \<Rightarrow> kernel \<Rightarrow> bool" where
  "attempted a s \<longleftrightarrow> (case a of
       Call c \<Rightarrow> stacks s (running s) = [] \<and> running s \<noteq> idle_thread s \<and> not_asserted c s
     | _ \<Rightarrow> enabled a s)"

lemma attempted_step:
  assumes k: "kernel_ok s" and a: "attempted a s" and s': "do_step a s = Some s'"
  shows "enabled a s"
proof (cases a)
  case (Call c)
  have "kinv s" using k by (simp add: kernel_ok_def)
  then have cur: "thread_current s = Some (running s)" using kinv_current by metis
  have "allowed c s"
  proof (cases c)
    case (Sleep n)
    then show ?thesis using s' Call
      by (simp add: do_step_def do_call_def timer_sleep_def allowed_def ASSERT_bind_eq_Some)
  next
    case (Acquire l)
    then show ?thesis using s' Call cur
      by (auto simp: do_step_def do_call_def lock_acquire_def lock_held_by_current_thread_def allowed_def ASSERT_bind_eq_Some)
  next
    case (Try_acquire l)
    then show ?thesis using s' Call cur
      by (auto simp: do_step_def do_call_def lock_try_acquire_def lock_held_by_current_thread_def allowed_def ASSERT_bind_eq_Some)
  next
    case (Release l)
    then show ?thesis using s' Call cur
      by (auto simp: do_step_def do_call_def lock_release_def lock_held_by_current_thread_def allowed_def ASSERT_bind_eq_Some)
  next
    case (Wait cv l w)
    then show ?thesis using s' Call cur a
      by (auto simp: do_step_def do_call_def cond_wait_def lock_held_by_current_thread_def allowed_def attempted_def
          not_asserted_def ASSERT_bind_eq_Some)
  next
    case (Signal cv l)
    then show ?thesis using s' Call cur
      by (auto simp: do_step_def do_call_def cond_signal_def lock_held_by_current_thread_def allowed_def ASSERT_bind_eq_Some)
  qed (use a Call in \<open>auto simp: attempted_def not_asserted_def allowed_def\<close>)
  then show ?thesis using a Call by (simp add: attempted_def enabled_def)
qed (use a in \<open>simp_all add: attempted_def\<close>)

end
