(* ===== verification/Kernel_Boot.thy ===== *)
theory Kernel_Boot
  imports Kernel_Run
begin

unbundle bit_operations_syntax

section \<open>Starting the kernel, and what holds on all its runs\<close>

text \<open>
  \<open>reset_state\<close> is the kernel's memory when \<^verbatim>\<open>main\<close> has initialised the page allocator: no
  thread structure, interrupts off, every lock initialised by \<^verbatim>\<open>lock_init\<close>. \<open>boot_kernel\<close>
  runs \<^verbatim>\<open>thread_init\<close>, \<^verbatim>\<open>thread_start\<close> up to the point where the initial thread waits for the
  idle thread, and the idle thread up to its loop.
\<close>

definition reset_state :: "page_allocator \<Rightarrow> kernel" where
  "reset_state pg = \<lparr>threads = Map.empty, stacks = (\<lambda>_. []), running = 0, ready_list = [], all_list = [],
     sleep_list = [], idle_thread = 0, initial_thread = 0, next_tid = 1, tid_lock = None, intr_on = False,
     in_external_intr = False, yield_on_return = False, thread_ticks = 0, idle_ticks = 0, kernel_ticks = 0,
     user_ticks = 0, now = 0, active_pagedir = 0, pages = pg,
     semas = (\<lambda>x. case x of Lock_sema l \<Rightarrow> \<lparr>sema_value = 1, waiters = []\<rparr> | Sema n \<Rightarrow> \<lparr>sema_value = 0, waiters = []\<rparr>),
     holder = (\<lambda>_. 0), conds = (\<lambda>_. [])\<rparr>"

definition thread_start :: "nat \<Rightarrow> kernel \<Rightarrow> kernel option" where
  "thread_start idle_started s = do {
     let s = sema_init (Sema idle_started) 0 s;
     (s, _) \<leftarrow> thread_create ''idle'' PRI_MIN True 0 s;
     s \<leftarrow> intr_enable s;
     sema_down (Sema idle_started) s }"

definition idle_start :: "nat \<Rightarrow> kernel \<Rightarrow> kernel option" where
  "idle_start idle_started s = do {
     t \<leftarrow> thread_current s;
     let s = s\<lparr>idle_thread := t\<rparr>;
     sema_up (Sema idle_started) s }"

definition boot_kernel :: "nat \<Rightarrow> page_allocator \<Rightarrow> nat \<Rightarrow> kernel option" where
  "boot_kernel boot pg idle_started = do {
     s \<leftarrow> thread_init boot (reset_state pg);
     s \<leftarrow> thread_start idle_started s;
     s \<leftarrow> resume s;
     idle_start idle_started s }"

definition main_thread :: "nat \<Rightarrow> thread_status \<Rightarrow> thread" where
  "main_thread boot v = \<lparr>tid = 1, status = v, name = ''main'', stack = boot + 4096, priority = PRI_DEFAULT,
     pagedir = 0, info = 0, next_fd = 2, thread_file = 0, magic = THREAD_MAGIC, ticks = 0\<rparr>"

lemma thread_init_eq:
  assumes "boot \<noteq> 0"
  shows "thread_init boot (reset_state pg) = Some ((reset_state pg)\<lparr>running := boot, initial_thread := boot,
     threads := [boot \<mapsto> main_thread boot THREAD_RUNNING], all_list := [boot], next_tid := 2\<rparr>)"
  using assms
  by (simp add: thread_init_def reset_state_def init_thread_eq allocate_tid_eq running_thread_def PRI_DEFAULT_def
      PRI_MIN_def PRI_MAX_def)
    (simp add: upd_thread_def main_thread_def PGSIZE_def PRI_DEFAULT_def)

definition booted :: "nat \<Rightarrow> page_allocator \<Rightarrow> nat \<Rightarrow> nat \<Rightarrow> kernel" where
  "booted boot pg x t = (reset_state pg)\<lparr>running := t, initial_thread := boot, idle_thread := t,
     threads := [boot \<mapsto> main_thread boot THREAD_READY,
       t \<mapsto> (new_thread t ''idle'' PRI_MIN 2 0)\<lparr>status := THREAD_RUNNING\<rparr>],
     stacks := (\<lambda>_. [])(boot := [Sema_loop (Sema x) True]), all_list := [boot, t], ready_list := [boot],
     next_tid := 3, intr_on := True, semas := (semas (reset_state pg))(Sema x := \<lparr>sema_value = 1, waiters = []\<rparr>)\<rparr>"

lemma thread_start_eq:
  fixes s :: kernel
  assumes s: "s = (reset_state pg)\<lparr>running := boot, initial_thread := boot,
     threads := [boot \<mapsto> main_thread boot THREAD_RUNNING], all_list := [boot], next_tid := 2\<rparr>"
    and t: "palloc_get_page boot PAL_ZERO pg = Some (pg', t)" "t \<noteq> 0" "t \<noteq> boot" and b: "boot \<noteq> 0"
  shows "thread_start x s = Some (s\<lparr>running := t, pages := pg',
     threads := [boot \<mapsto> main_thread boot THREAD_BLOCKED,
       t \<mapsto> (new_thread t ''idle'' PRI_MIN 2 0)\<lparr>status := THREAD_RUNNING\<rparr>],
     stacks := (\<lambda>_. [])(t := kernel_thread, boot := [Sema_loop (Sema x) True]), all_list := [boot, t], next_tid := 3,
     semas := (semas s)(Sema x := \<lparr>sema_value = 0, waiters = [boot]\<rparr>)\<rparr>)"
proof -
  define s1 where "s1 = sema_init (Sema x) 0 s"
  have c: "thread_create ''idle'' PRI_MIN True 0 s1 = Some (s1\<lparr>pages := pg',
      threads := (threads s1)(t \<mapsto> new_thread t ''idle'' PRI_MIN (next_tid s1) 0), all_list := all_list s1 @ [t],
      next_tid := next_tid s1 + 1, stacks := (stacks s1)(t := kernel_thread),
      ready_list := ready_list s1 @ [t]\<rparr>, next_tid s1)"
    by (rule thread_create_eq) (use t in \<open>simp_all add: s1_def sema_init_def s reset_state_def PRI_MIN_def PRI_MAX_def\<close>)
  show ?thesis
    using t(2,3) b
    by (simp add: thread_start_def s1_def [symmetric] c)
      (simp add: s1_def sema_init_def s reset_state_def intr_enable_def intr_context_def sema_down_def intr_disable_def
        sema_down_loop_def thread_current_def running_thread_def is_thread_def main_thread_def upd_sema_def push_frames_def
        thread_block_def schedule_def next_thread_to_run_def upd_thread_def thread_schedule_tail_def
        process_activate_def cur_thread_def new_thread_def fun_upd_twist)
qed

lemma boot_kernel_eq:
  assumes t: "palloc_get_page boot PAL_ZERO pg = Some (pg', t)" "t \<noteq> 0" "t \<noteq> boot" and b: "boot \<noteq> 0"
  shows "boot_kernel boot pg x = Some (booted boot pg' x t)"
  using t(2,3) b
  by (simp add: boot_kernel_def thread_init_eq thread_start_eq [OF refl t b])
    (simp add: resume_def kernel_thread_def run_frame_def intr_set_level_def intr_enable_def intr_context_def
      idle_start_def thread_current_def running_thread_def is_thread_def main_thread_def new_thread_def
      sema_up_def intr_disable_def upd_sema_def thread_unblock_def upd_thread_def reset_state_def booted_def
      fun_upd_twist, auto simp: fun_eq_iff)

lemma booted_ok:
  assumes wf: "wf_palloc pg" and t: "in_some_pool pg t 1" "page_span t 1 \<subseteq> used_ram pg" "t \<noteq> 0"
    and b: "boot \<noteq> 0" "\<not> in_some_pool pg boot 1"
  shows "kernel_ok (booted boot pg x t)"
proof -
  let ?s = "booted boot pg x t"
  have ne: "t \<noteq> boot" using t(1) b(2) by auto
  have f: "threads ?s = [boot \<mapsto> main_thread boot THREAD_READY,
       t \<mapsto> (new_thread t ''idle'' PRI_MIN 2 0)\<lparr>status := THREAD_RUNNING\<rparr>]" "running ?s = t"
    "ready_list ?s = [boot]" "sleep_list ?s = []" "idle_thread ?s = t" "initial_thread ?s = boot" "pages ?s = pg"
    "tid_lock ?s = None" "\<not> in_external_intr ?s" "stacks ?s = (\<lambda>_. [])(boot := [Sema_loop (Sema x) True])"
    "holder ?s l = 0" "sema_value (semas ?s (Lock_sema l)) = 1" "waiters (semas ?s y) = []" for l y
    by (simp_all add: booted_def reset_state_def split: sema_id.split)
  have "st ?s = [boot \<mapsto> THREAD_READY, t \<mapsto> THREAD_RUNNING]"
    by (auto simp: st_def fun_eq_iff f main_thread_def)
  then have "kqueues ?s (Some (running ?s)) {initial_thread ?s}" using ne by (auto simp: queues_ok_def f)
  moreover have "mem_ok ?s"
    using wf t b by (auto simp: mem_ok_def f main_thread_def new_thread_def split: if_splits)
  ultimately have "kinv ?s" by (simp add: kinv_def f)
  moreover have "linv ((\<lambda>_. Free)(boot := Waiting x True)) ?s" using ne by (auto simp: linv_def f lock_ok_def)
  ultimately show ?thesis by (auto simp: kernel_ok_def)
qed

definition boot_page :: "nat \<Rightarrow> page_allocator \<Rightarrow> bool" where
  "boot_page boot pg \<longleftrightarrow> wf_palloc pg \<and> boot \<noteq> 0 \<and> \<not> in_some_pool pg boot 1 \<and> (\<exists>i. free_pages (kernel_pool pg) i 1)"

lemma boot_kernel_ok:
  assumes b: "boot_page boot pg"
  obtains pg' t where "boot_kernel boot pg x = Some (booted boot pg' x t)" and "kernel_ok (booted boot pg' x t)"
    and "t \<noteq> boot"
proof -
  define s where "s = (reset_state pg)\<lparr>running := boot, initial_thread := boot\<rparr>"
  have m: "mem_ok s" using b by (simp add: s_def mem_ok_def boot_page_def reset_state_def)
  obtain pg' t where g: "palloc_get_page (running s) PAL_ZERO (pages s) = Some (pg', t)" "wf_palloc pg'"
    "\<And>a n. in_some_pool pg' a n = in_some_pool (pages s) a n"
    "t = 0 \<and> used_ram pg' = used_ram (pages s) \<or> t \<noteq> 0 \<and> threads s t = None \<and> t \<noteq> initial_thread s \<and>
      in_some_pool pg' t 1 \<and> used_ram pg' = used_ram (pages s) \<union> page_span t 1"
    using fresh_page [OF m] by blast
  have wf: "wf_palloc pg" using b by (simp add: boot_page_def)
  have pool: "pool_of (PAL_ZERO AND PAL_USER \<noteq> 0) pg = kernel_pool pg"
    by (simp add: pool_of_def PAL_ZERO_def PAL_USER_def)
  have bk: "0 < base (kernel_pool pg)" using wf by (simp add: wf_palloc_def wf_pool_def)
  have "t \<noteq> 0"
  proof (rule palloc_get_multiple_ok [OF wf zero_less_one refl, of boot PAL_ZERO])
    fix i s' assume "palloc_get_multiple boot PAL_ZERO 1 pg =
      Some (s', base (pool_of (PAL_ZERO AND PAL_USER \<noteq> 0) pg) + 4096 * i)"
    then show ?thesis using g(1) bk unfolding pool by (simp add: palloc_get_page_def s_def reset_state_def)
  next
    assume "\<And>k. \<not> free_pages (pool_of (PAL_ZERO AND PAL_USER \<noteq> 0) pg) k 1"
    then show ?thesis using b unfolding pool by (auto simp: boot_page_def)
  qed
  then have t: "t \<noteq> 0" "t \<noteq> boot" "in_some_pool pg' t 1" "page_span t 1 \<subseteq> used_ram pg'"
    using g(4) by (auto simp: s_def)
  have bn: "boot \<noteq> 0" "\<not> in_some_pool pg' boot 1" using b g(3) by (auto simp: boot_page_def s_def reset_state_def)
  have "boot_kernel boot pg x = Some (booted boot pg' x t)"
    by (rule boot_kernel_eq) (use g(1) t bn in \<open>simp_all add: s_def reset_state_def\<close>)
  then show ?thesis using booted_ok [OF g(2) t(3,4,1) bn] t(2) by (rule that)
qed

subsection \<open>What a step does to the run queue\<close>

text \<open>
  \<open>queued s zs s'\<close>: the threads \<open>zs\<close> were appended to the run queue. \<open>switched s zs s'\<close>: they
  were appended, and then the thread at the front, or the idle thread, was switched to.
\<close>

definition queued :: "kernel \<Rightarrow> nat list \<Rightarrow> kernel \<Rightarrow> bool" where
  "queued s zs s' \<longleftrightarrow> running s' = running s \<and> ready_list s' = ready_list s @ zs \<and> idle_thread s' = idle_thread s"

definition switched :: "kernel \<Rightarrow> nat list \<Rightarrow> kernel \<Rightarrow> bool" where
  "switched s zs s' \<longleftrightarrow> running s' = hd (ready_list s @ zs @ [idle_thread s]) \<and> ready_list s' = tl (ready_list s @ zs)"

definition queue_step :: "kernel \<Rightarrow> kernel \<Rightarrow> bool" where
  "queue_step s s' \<longleftrightarrow> (\<exists>zs. queued s zs s' \<or> switched s zs s')"

lemma queued_trans: "queued s zs s1 \<Longrightarrow> queue_step s1 s' \<Longrightarrow> queue_step s s'"
  unfolding queue_step_def queued_def switched_def by (metis append_assoc)

lemma queued_same: "queue_step s1 s' \<Longrightarrow> running s1 = running s \<Longrightarrow> ready_list s1 = ready_list s \<Longrightarrow>
  idle_thread s1 = idle_thread s \<Longrightarrow> queue_step s s'"
  by (simp add: queue_step_def queued_def switched_def)

lemma queue_stepI: "running s' = running s \<Longrightarrow> ready_list s' = ready_list s @ zs \<Longrightarrow> idle_thread s' = idle_thread s \<Longrightarrow>
  queue_step s s'"
  by (auto simp: queue_step_def queued_def)

lemma tail_queue:
  "thread_schedule_tail prev s = Some s' \<Longrightarrow> running s' = running s \<and> ready_list s' = ready_list s"
  by (auto simp: thread_schedule_tail_def process_activate_def Let_def bind_eq_Some_conv split: if_splits)

lemma schedule_queue: "schedule s = Some s' \<Longrightarrow> switched s [] s'"
  by (cases "ready_list s")
    (auto simp: schedule_def next_thread_to_run_def running_thread_def switched_def Let_def bind_eq_Some_conv
      split: if_splits dest: tail_queue)

lemma schedule_queue_step: "schedule s1 = Some s' \<Longrightarrow> running s1 = running s \<Longrightarrow> ready_list s1 = ready_list s @ zs \<Longrightarrow>
  idle_thread s1 = idle_thread s \<Longrightarrow> queue_step s s'"
  by (drule schedule_queue) (auto simp: queue_step_def switched_def)

lemma unblock_queue:
  "thread_unblock t s = Some s' \<Longrightarrow> running s' = running s \<and> ready_list s' = ready_list s @ [t] \<and> idle_thread s' = idle_thread s"
  by (auto simp: thread_unblock_def Let_def bind_eq_Some_conv intr_set_level_def intr_enable_def intr_disable_def split: if_splits)

lemma level_queue:
  "intr_set_level b s = Some s' \<Longrightarrow> running s' = running s \<and> ready_list s' = ready_list s \<and> idle_thread s' = idle_thread s"
  by (auto simp: intr_set_level_def intr_enable_def intr_disable_def Let_def bind_eq_Some_conv split: if_splits)

lemma level_queue_step: "intr_set_level b s = Some s' \<Longrightarrow> queue_step s s'"
  by (drule level_queue) (auto intro: queue_stepI [where zs = "[]"])

lemma sched_calls_queue:
  "thread_block s = Some s' \<Longrightarrow> queue_step s s'"
  "thread_yield s = Some s' \<Longrightarrow> queue_step s s'"
  "thread_exit s = Some s' \<Longrightarrow> queue_step s s'"
  "timer_sleep n s = Some s' \<Longrightarrow> queue_step s s'"
  "idle s = Some s' \<Longrightarrow> queue_step s s'"
  "sema_down_loop x old s = Some s' \<Longrightarrow> queue_step s s'"
proof -
  show b: "queue_step s s'" if "thread_block s = Some s'" for s s'
    using that by (auto simp: thread_block_def Let_def bind_eq_Some_conv intro: schedule_queue_step [where zs = "[]"])
  show "queue_step s s'" if "thread_yield s = Some s'"
    using that unfolding thread_yield_def
    by (auto simp: Let_def bind_eq_Some_conv intr_disable_def split: if_splits
      intro: schedule_queue_step [where zs = "[]"] schedule_queue_step [where zs = "[x]" for x])
  show "queue_step s s'" if "thread_exit s = Some s'"
    using that by (auto simp: thread_exit_def Let_def bind_eq_Some_conv intr_disable_def intro: schedule_queue_step [where zs = "[]"])
  have b': "thread_block s1 = Some s' \<Longrightarrow> running s1 = running s \<Longrightarrow> ready_list s1 = ready_list s \<Longrightarrow>
      idle_thread s1 = idle_thread s \<Longrightarrow> queue_step s s'" for s1
    by (rule queued_same [OF b])
  show "queue_step s s'" if "timer_sleep n s = Some s'"
  proof (cases "n \<le> 0")
    case True
    then show ?thesis using that by (auto simp: timer_sleep_def bind_eq_Some_conv intro: queue_stepI [where zs = "[]"])
  next
    case False
    then show ?thesis using that
      by (auto simp: timer_sleep_def Let_def bind_eq_Some_conv intr_disable_def intro: b')
  qed
  show "queue_step s s'" if "idle s = Some s'"
    by (rule b' [OF that [unfolded idle_def]]) (simp_all add: intr_disable_def)
  show "queue_step s s'" if "sema_down_loop x old s = Some s'" for x old
  proof (cases "sema_value (semas s x) = 0")
    case True
    then show ?thesis using that by (auto simp: sema_down_loop_def Let_def bind_eq_Some_conv intro: b')
  next
    case False
    then show ?thesis using that
      by (auto simp: sema_down_loop_def intro!: queue_stepI [where zs = "[]"] dest!: level_queue)
  qed
qed

lemma sema_calls_queue:
  "sema_down x s = Some s' \<Longrightarrow> queue_step s s'"
  "sema_try_down x s = Some (s', r) \<Longrightarrow> queue_step s s'"
  "sema_up x s = Some s' \<Longrightarrow> queue_step s s'"
proof -
  show "queue_step s s'" if "sema_down x s = Some s'"
    using that queued_same [OF sched_calls_queue(6) [of x "intr_on s" "s\<lparr>intr_on := False\<rparr>" s'], of s]
    by (auto simp: sema_down_def bind_eq_Some_conv intr_disable_def)
  show "queue_step s s'" if "sema_try_down x s = Some (s', r)"
    using that by (auto simp: sema_try_down_def Let_def bind_eq_Some_conv intr_disable_def split: if_splits
      intro!: queue_stepI [where zs = "[]"] dest!: level_queue)
  show "queue_step s s'" if "sema_up x s = Some s'"
  proof (cases "waiters (semas s x)")
    case Nil
    then show ?thesis using that by (auto simp: sema_up_def Let_def bind_eq_Some_conv intr_disable_def
      intro!: queue_stepI [where zs = "[]"] dest!: level_queue)
  next
    case (Cons t ts)
    then show ?thesis using that by (auto simp: sema_up_def Let_def bind_eq_Some_conv intr_disable_def
      intro: queue_stepI [where zs = "[t]"] dest!: level_queue unblock_queue)
  qed
qed

lemma lock_calls_queue:
  "lock_acquire l s = Some s' \<Longrightarrow> queue_step s s'"
  "lock_try_acquire l s = Some (s', r) \<Longrightarrow> queue_step s s'"
  "lock_release l s = Some s' \<Longrightarrow> queue_step s s'"
  "set_holder l s = Some s' \<Longrightarrow> queue_step s s'"
  "cond_wait cv l w s = Some s' \<Longrightarrow> queue_step s s'"
  "cond_signal cv l s = Some s' \<Longrightarrow> queue_step s s'"
  "cond_broadcast cv l s = Some s' \<Longrightarrow> queue_step s s'"
proof -
  show "queue_step s s'" if "lock_try_acquire l s = Some (s', r)"
    using that
    by (auto simp: lock_try_acquire_def bind_eq_Some_conv queue_step_def queued_def switched_def
      split: if_splits dest!: sema_calls_queue(2))
qed (auto simp: lock_acquire_def lock_release_def set_holder_def cond_wait_def cond_signal_def cond_broadcast_def
    sema_init_def bind_eq_Some_conv Let_def split: if_splits list.splits intro!: queue_stepI [where zs = "[]"])

lemma create_parts_queue:
  "init_thread t nm prio s = Some s1 \<Longrightarrow> queued s [] s1"
  "allocate_tid s = Some (s1, v) \<Longrightarrow> queued s [] s1"
  "alloc_frame t n s = Some (s1, p) \<Longrightarrow> queued s [] s1"
  by (auto simp: init_thread_def allocate_tid_def alloc_frame_def Let_def bind_eq_Some_conv intr_disable_def queued_def
      dest!: level_queue)

lemma create_queue:
  assumes "thread_create nm prio hf i s = Some (s', r)"
  shows "queue_step s s'"
proof -
  from assms obtain pg t where g: "palloc_get_page (running s) PAL_ZERO (pages s) = Some (pg, t)"
    by (auto simp: thread_create_def bind_eq_Some_conv)
  show ?thesis
  proof (cases "t = 0")
    case True
    then show ?thesis using assms g
      by (auto simp: thread_create_def bind_eq_Some_conv intro: queue_stepI [where zs = "[]"])
  next
    case False
    then obtain s1 s2 v s3 p3 s4 p4 s5 p5 where c: "init_thread t nm prio (s\<lparr>pages := pg\<rparr>) = Some s1"
      "allocate_tid s1 = Some (s2, v)"
      "alloc_frame t 12 (upd_thread t (info_update (\<lambda>_. i)) (upd_thread t (tid_update (\<lambda>_. v)) s2)) = Some (s3, p3)"
      "alloc_frame t 4 s3 = Some (s4, p4)" "alloc_frame t 28 s4 = Some (s5, p5)"
      "thread_unblock t (s5\<lparr>stacks := (stacks s5)(t := kernel_thread)\<rparr>) = Some s'"
      using assms g by (auto simp: thread_create_def bind_eq_Some_conv Let_def)
    then show ?thesis
      using create_parts_queue(1) [OF c(1)] create_parts_queue(2) [OF c(2)] create_parts_queue(3) [OF c(3)]
        create_parts_queue(3) [OF c(4)] create_parts_queue(3) [OF c(5)] unblock_queue [OF c(6)]
      by (intro queue_stepI [where zs = "[t]"]) (simp_all add: queued_def)
  qed
qed

lemma wake_queue: "wake_sleepers xs s = Some s' \<Longrightarrow> \<exists>zs. queued s zs s'"
proof (induction xs arbitrary: s)
  case (Cons t ts)
  show ?case
  proof (cases "now s < ticks (the (threads s t))")
    case True
    then show ?thesis using Cons.prems by (auto simp: queued_def bind_eq_Some_conv)
  next
    case False
    then obtain s1 where s1: "thread_unblock t (s\<lparr>sleep_list := ts\<rparr>) = Some s1" "wake_sleepers ts s1 = Some s'"
      using Cons.prems by (auto simp: bind_eq_Some_conv)
    then show ?thesis using Cons.IH [OF s1(2)] unblock_queue [OF s1(1)] by (auto simp: queued_def)
  qed
qed (auto simp: queued_def)

lemma tick_part_queue:
  assumes "thread_tick s = Some s'"
  shows "queued s [] s'"
proof (cases "TIME_SLICE \<le> Suc (thread_ticks s)")
  case True
  then show ?thesis using assms
    by (simp add: thread_tick_def Let_def bind_eq_Some_conv intr_yield_on_return_def split: if_splits)
      (auto simp: queued_def)
next
  case False
  then show ?thesis using assms
    by (simp add: thread_tick_def Let_def bind_eq_Some_conv split: if_splits) (auto simp: queued_def)
qed

lemma tick_queue:
  assumes "timer_intr s = Some s'"
  shows "queue_step s s'"
proof -
  define s1 where "s1 = s\<lparr>intr_on := False, in_external_intr := True, yield_on_return := False\<rparr>"
  obtain s2 where s2: "timer_interrupt s1 = Some s2"
    and s': "s' = s2\<lparr>in_external_intr := False, intr_on := True\<rparr> \<or>
      thread_yield (push_frames [Set_level True] (s2\<lparr>in_external_intr := False\<rparr>)) = Some s'"
    using assms by (auto simp: timer_intr_def Let_def bind_eq_Some_conv s1_def split: if_splits)
  obtain s3 where s3: "thread_tick (s1\<lparr>now := now s1 + 1\<rparr>) = Some s3" "wake_sleepers (sleep_list s3) s3 = Some s2"
    using s2 by (auto simp: timer_interrupt_def bind_eq_Some_conv)
  have "queued s [] s3" using tick_part_queue [OF s3(1)] by (simp add: queued_def s1_def)
  then obtain zs where zs: "queued s zs s2" using wake_queue [OF s3(2)] by (auto simp: queued_def)
  from s' show ?thesis
  proof
    assume "thread_yield (push_frames [Set_level True] (s2\<lparr>in_external_intr := False\<rparr>)) = Some s'"
    then have "queue_step s2 s'" by (rule queued_same [OF sched_calls_queue(2)]) simp_all
    then show ?thesis by (rule queued_trans [OF zs])
  qed (use zs in \<open>auto simp: queued_def intro!: queue_stepI\<close>)
qed

lemma do_call_queue:
  assumes "do_call c s = Some s'"
  shows "queue_step s s'"
  using assms
  by (cases c) (auto simp: do_call_def thread_set_priority_def sema_init_def bind_eq_Some_conv intro: sched_calls_queue
      sema_calls_queue lock_calls_queue create_queue level_queue_step queue_stepI [where zs = "[]"])

lemma step_queue:
  assumes "step s a s'"
  shows "queue_step s s'"
proof (cases a)
  case Resume
  then have d: "resume s = Some s'" using assms by (simp add: step_iff do_step_def)
  show ?thesis
  proof (cases "stacks s (running s)")
    case Nil
    then show ?thesis using d by (auto simp: resume_def intro: queue_stepI [where zs = "[]"])
  next
    case (Cons f fs)
    let ?s = "s\<lparr>stacks := (stacks s)(running s := fs)\<rparr>"
    have "run_frame f ?s = Some s'" using d Cons by (simp add: resume_def)
    then have "queue_step ?s s'"
      by (cases f) (auto simp: run_frame_def intro: sched_calls_queue sema_calls_queue lock_calls_queue
          level_queue_step)
    then show ?thesis by (rule queued_same) simp_all
  qed
qed (use assms in \<open>auto simp: step_iff do_step_def intro: do_call_queue tick_queue sched_calls_queue\<close>)

subsection \<open>Properties\<close>

definition sample_boot :: nat where "sample_boot = 0xc000e000"

lemma sample_boot_page: "boot_page sample_boot sample_pages"
proof -
  have "free_pages (kernel_pool sample_pages) 1 1"
    by (auto simp: free_pages_def free_run_def sample_pages_def bit_at_def bit_1_iff)
  moreover have "\<not> in_some_pool sample_pages sample_boot 1"
    by (simp add: in_some_pool_def in_pool_def pool_of_def sample_pages_def sample_boot_def)
  ultimately show ?thesis using sample_pages_wf by (auto simp: boot_page_def sample_boot_def)
qed



text \<open>
  C3: locks give mutual exclusion. On every run of the booted kernel, and at every further
  step that a thread attempts, be it within the rules for locks or against them, and that does
  not stop the kernel, a lock that some thread holds changes its holder only if that thread is the
  one running and the step is its own call of \<^verbatim>\<open>lock_release\<close> or \<^verbatim>\<open>cond_wait\<close> on the lock. So
  between a thread's becoming the holder and its giving the lock up no other thread becomes
  the holder.
\<close>

theorem lock_mutual_exclusion:
  assumes "boot_page boot pg" and "boot_kernel boot pg x = Some s0" and "run s0 as s"
    and "attempted a s" and "do_step a s = Some s'" and "holder s l \<noteq> 0" and "holder s' l \<noteq> holder s l"
  shows "holder s l = running s \<and> (a = Call (Release l) \<or> (\<exists>cv w. a = Call (Wait cv l w)))"
proof -
  obtain pg' t where "boot_kernel boot pg x = Some (booted boot pg' x t)" "kernel_ok (booted boot pg' x t)"
    by (rule boot_kernel_ok [OF assms(1), of x])
  then have "kernel_ok s0" using assms(2) by simp
  then have "kernel_ok s" using run_ok [OF assms(3)] by blast
  moreover from this have "enabled a s" using attempted_step assms(4,5) by blast
  ultimately show ?thesis using step_ok [of s a] assms(5-7) unfolding gives_up_def by (metis option.inject)
qed

text \<open>
  A run in which the initial thread, once the idle thread lets it, takes a lock.
\<close>

lemmas run_defs = do_step_def do_call_def enabled_def allowed_def resume_def run_frame_def idle_def thread_block_def
  schedule_def next_thread_to_run_def thread_schedule_tail_def process_activate_def cur_thread_def upd_thread_def
  thread_current_def running_thread_def is_thread_def main_thread_def new_thread_def push_frames_def intr_disable_def
  intr_context_def intr_set_level_def intr_enable_def sema_down_def sema_down_loop_def upd_sema_def
  lock_acquire_def lock_release_def lock_held_by_current_thread_def set_holder_def

lemma lock_taken_run:
  assumes "t \<noteq> boot" and "t \<noteq> 0" and "boot \<noteq> 0"
  shows "\<exists>s. run (booted boot pg 1 t) [Idle_loop, Resume, Call (Acquire l), Resume, Resume] s \<and>
    running s = boot \<and> holder s l = boot \<and> stacks s boot = [] \<and> idle_thread s = t"
proof -
  have run5: "run s0 [a, b, c, d, e] s5" if "step s0 a s1" "step s1 b s2" "step s2 c s3" "step s3 d s4" "step s4 e s5"
    for s0 s1 s2 s3 s4 s5 a b c d e
    using run_snoc [OF run_snoc [OF run_snoc [OF run_snoc [OF run_snoc [OF run_nil that(1)] that(2)] that(3)] that(4)] that(5)]
    by simp
  let ?A = "Call (Acquire l)"
  have "\<exists>s1. step (booted boot pg 1 t) Idle_loop s1 \<and> (\<exists>s2. step s1 Resume s2 \<and> (\<exists>s3. step s2 ?A s3 \<and>
      (\<exists>s4. step s3 Resume s4 \<and> (\<exists>s. step s4 Resume s \<and>
        running s = boot \<and> holder s l = boot \<and> stacks s boot = [] \<and> idle_thread s = t))))"
    using assms by (simp add: step_iff booted_def reset_state_def run_defs)
  then show ?thesis using run5 by blast
qed

theorem lock_mutual_exclusion_witness:
  "\<exists>s0 as s s'. boot_kernel sample_boot sample_pages 1 = Some s0 \<and> run s0 as s \<and> holder s 5 = sample_boot \<and>
    step s (Call (Release 5)) s' \<and> holder s' 5 = 0 \<and> running s = sample_boot"
proof -
  obtain pg' t where b: "boot_kernel sample_boot sample_pages 1 = Some (booted sample_boot pg' 1 t)"
    "kernel_ok (booted sample_boot pg' 1 t)" "t \<noteq> sample_boot" by (rule boot_kernel_ok [OF sample_boot_page, of 1])
  have "t \<noteq> 0" using kinv_current [of "booted sample_boot pg' 1 t"] b(2) by (auto simp: kernel_ok_def booted_def)
  moreover have "sample_boot \<noteq> 0" by (simp add: sample_boot_def)
  ultimately obtain s where s: "run (booted sample_boot pg' 1 t)
      [Idle_loop, Resume, Call (Acquire 5), Resume, Resume] s" "running s = sample_boot" "holder s 5 = sample_boot"
      "stacks s sample_boot = []" "idle_thread s = t"
    using lock_taken_run [OF b(3), of pg' 5] by blast
  let ?s' = "push_frames [Sema_up (Lock_sema 5)] (s\<lparr>holder := (holder s)(5 := 0)\<rparr>)"
  have "kinv s" using run_ok [OF s(1) b(2)] by (simp add: kernel_ok_def)
  then have "thread_current s = Some (running s)" using kinv_current by metis
  then have st: "step s (Call (Release 5)) ?s'"
    using s b(3) by (simp add: step_iff enabled_def allowed_def do_step_def do_call_def lock_release_def
        lock_held_by_current_thread_def)
  then have ar: "attempted (Call (Release 5)) s" and ds: "do_step (Call (Release 5)) s = Some ?s'"
    by (auto simp: step_iff attempted_def enabled_def not_asserted_def)
  have "holder s 5 \<noteq> 0" "holder ?s' 5 \<noteq> holder s 5" "holder ?s' 5 = 0"
    using s \<open>sample_boot \<noteq> 0\<close> by (simp_all add: push_frames_def)
  then have "holder s 5 = running s"
    using lock_mutual_exclusion [OF sample_boot_page b(1) s(1) ar ds] by blast
  then show ?thesis using b(1) s st \<open>holder ?s' 5 = 0\<close> by blast
qed

text \<open>
  C5: the scheduler is first come, first served, so no ready thread is overtaken. Let a thread
  be in the run queue behind the threads \<open>xs\<close>. A step of the kernel either leaves the
  running thread in place and only appends to the queue, or switches to the first thread of
  the queue, which is that thread itself if \<open>xs\<close> is empty, and then only appends. After at most
  \<open>length xs + 1\<close> switches the thread runs, whatever the others do.
\<close>

theorem ready_threads_not_overtaken:
  assumes "step s a s'" and "ready_list s = xs @ t # ys"
  shows "(\<exists>zs. (running s' = running s \<and> ready_list s' = xs @ t # ys @ zs) \<or>
     (xs = [] \<and> running s' = t \<and> ready_list s' = ys @ zs) \<or>
     (xs \<noteq> [] \<and> running s' = hd xs \<and> ready_list s' = tl xs @ t # ys @ zs))"
proof -
  obtain zs where "queued s zs s' \<or> switched s zs s'" using step_queue [OF assms(1)] by (auto simp: queue_step_def)
  then show ?thesis using assms(2) by (cases xs) (auto simp: queued_def switched_def)
qed

theorem ready_threads_not_overtaken_witness:
  "\<exists>s'. step (booted 4 sample_pages 1 8) Idle_loop s' \<and> running s' = 4"
proof -
  let ?s = "booted 4 sample_pages 1 8"
  have "\<exists>s'. step ?s Idle_loop s'" by (simp add: step_iff booted_def reset_state_def run_defs)
  then obtain s' where s': "step ?s Idle_loop s'" ..
  have "step ?s Idle_loop s' \<Longrightarrow> running s' \<noteq> running ?s"
    by (simp add: step_iff booted_def reset_state_def run_defs) (erule subst, simp)
  moreover have "ready_list ?s = [] @ 4 # []" by (simp add: booted_def)
  ultimately show ?thesis using ready_threads_not_overtaken [OF s', of "[]" 4 "[]"] s' by auto
qed

text \<open>
  C7: a timer interrupt wakes exactly the threads whose time has come, and preempts at the end
  of the time slice. It succeeds whenever interrupts are on; the clock advances by one; the
  threads on the sleep list whose wake-up time is not after the new time leave it, in the
  order of their wake-up times, for the end of the run queue, and the others stay. If the
  running thread has used its \<open>TIME_SLICE\<close> ticks, the first thread of that run queue is
  switched to, and the running thread goes to its end; otherwise it keeps the processor.
\<close>

theorem timer_intr_wakes_due:
  assumes "kinv s" and "intr_on s"
  shows "\<exists>s'. timer_intr s = Some s' \<and> now s' = now s + 1 \<and>
    sleep_list s' = filter (\<lambda>t. now s + 1 < wake_time s t) (sleep_list s) \<and>
    (let queue = ready_list s @ filter (\<lambda>t. wake_time s t \<le> now s + 1) (sleep_list s) in
     if thread_ticks s + 1 < TIME_SLICE
     then running s' = running s \<and> ready_list s' = queue \<and> thread_ticks s' = thread_ticks s + 1
     else running s' = hd (queue @ [running s]) \<and> thread_ticks s' = 0 \<and>
       (running s \<noteq> idle_thread s \<longrightarrow> ready_list s' = tl (queue @ [running s])))"
proof -
  have srt: "sorted (map (wake_time s) (sleep_list s))" by (rule kinvD(5) [OF assms(1)])
  have split: "takeWhile (due s) xs = filter (\<lambda>t. wake_time s t \<le> now s + 1) xs \<and>
      dropWhile (due s) xs = filter (\<lambda>t. now s + 1 < wake_time s t) xs" if "sorted (map (wake_time s) xs)" for xs
    using that by (induction xs) (auto simp: due_def intro!: filter_False [symmetric] filter_True [symmetric])
  show ?thesis
  proof (rule timer_intr_ok [OF assms], goal_cases)
    case (1 s')
    then show ?thesis using split [OF srt] by (intro exI [of _ s']) simp
  next
    case (2 s1 s')
    then show ?thesis using split [OF srt] by (intro exI [of _ s']) (simp add: sched_frame_def)
  qed
qed

lemma sleeping_run:
  assumes "t \<noteq> boot" and "t \<noteq> 0" and "boot \<noteq> 0"
  shows "\<exists>s. run (booted boot pg 1 t) [Idle_loop, Resume, Call (Sleep 1), Resume] s \<and>
    intr_on s \<and> sleep_list s = [boot] \<and> ready_list s = [] \<and> wake_time s boot = 1 \<and> now s = 0 \<and> thread_ticks s = 0"
proof -
  have run4: "run s0 [a, b, c, d] s4" if "step s0 a s1" "step s1 b s2" "step s2 c s3" "step s3 d s4"
    for s0 s1 s2 s3 s4 a b c d
    using run_snoc [OF run_snoc [OF run_snoc [OF run_snoc [OF run_nil that(1)] that(2)] that(3)] that(4)] by simp
  have "\<exists>s1. step (booted boot pg 1 t) Idle_loop s1 \<and> (\<exists>s2. step s1 Resume s2 \<and> (\<exists>s3. step s2 (Call (Sleep 1)) s3 \<and>
      (\<exists>s. step s3 Resume s \<and> intr_on s \<and> sleep_list s = [boot] \<and> ready_list s = [] \<and> wake_time s boot = 1 \<and>
        now s = 0 \<and> thread_ticks s = 0)))"
    using assms
    by (simp add: step_iff booted_def reset_state_def run_defs timer_sleep_def timer_ticks_def insert_ordered_seq_def
      wake_time_def)
  then show ?thesis using run4 by blast
qed

theorem timer_intr_wakes_due_witness:
  "\<exists>s s'. timer_intr s = Some s' \<and> sleep_list s = [sample_boot] \<and> sleep_list s' = [] \<and> ready_list s' = [sample_boot]"
proof -
  obtain pg' t where b: "boot_kernel sample_boot sample_pages 1 = Some (booted sample_boot pg' 1 t)"
    "kernel_ok (booted sample_boot pg' 1 t)" "t \<noteq> sample_boot" by (rule boot_kernel_ok [OF sample_boot_page, of 1])
  have "t \<noteq> 0" using kinv_current [of "booted sample_boot pg' 1 t"] b(2) by (auto simp: kernel_ok_def booted_def)
  moreover have "sample_boot \<noteq> 0" by (simp add: sample_boot_def)
  ultimately obtain s where s: "run (booted sample_boot pg' 1 t) [Idle_loop, Resume, Call (Sleep 1), Resume] s"
    "intr_on s" "sleep_list s = [sample_boot]" "ready_list s = []" "wake_time s sample_boot = 1" "now s = 0"
    "thread_ticks s = 0"
    using sleeping_run [OF b(3), of pg'] by blast
  have "kinv s" using run_ok [OF s(1) b(2)] by (simp add: kernel_ok_def)
  from timer_intr_wakes_due [OF this s(2)] show ?thesis using s by (auto simp: TIME_SLICE_def)
qed

text \<open>
  C21: the calibration returns, and its result is determined bit by bit. If \<open>2 ^ (k + 1)\<close> is the
  first power of two from \<open>2 ^ 11\<close> on that is too many loops for one tick, and it is
  representable, then \<^verbatim>\<open>timer_calibrate\<close> terminates with bit \<open>k\<close> set, the nine bits below it set
  where that bit alone next to bit \<open>k\<close> is not too much, and no other bit set; in particular the
  result is at least \<open>2 ^ k\<close> and less than \<open>2 ^ (k + 1)\<close>.
\<close>

theorem timer_calibrate_result:
  assumes "intr_on s" and "10 \<le> k" and "k < 31" and "too_many (2 ^ Suc k)"
    and "\<forall>i \<in> {11..k}. \<not> too_many (2 ^ i)"
  shows "\<exists>r. timer_calibrate too_many s = Some r \<and> 2 ^ k \<le> unat r \<and> unat r < 2 ^ Suc k \<and>
    (\<forall>n. bit r n \<longleftrightarrow> n = k \<or> (k < n + 10 \<and> n < k \<and> \<not> too_many (2 ^ k OR 2 ^ n)))"
proof -
  have up: "calibrate_up too_many (push_bit 10 1) = Some (2 ^ k)"
    using calibrate_up_pow [of k too_many 10] assms by (auto simp: push_bit_of_1)
  have hb: "drop_bit 1 ((2::u32) ^ k) = 2 ^ (k - 1)" using assms(2,3) by (intro drop_pow) auto
  obtain r where r: "calibrate_down too_many (2 ^ k) (2 ^ (k - 1)) (2 ^ k) = Some r"
    "\<And>n. bit r n \<longleftrightarrow> bit ((2::u32) ^ k) n \<or> (k < n + 10 \<and> n \<le> k - 1 \<and> \<not> too_many (2 ^ k OR 2 ^ n))"
    using calibrate_down_bits [of k "k - 1" too_many "2 ^ k"] assms(2,3) by auto
  have b: "bit r n \<longleftrightarrow> n = k \<or> (k < n + 10 \<and> n < k \<and> \<not> too_many (2 ^ k OR 2 ^ n))" for n
    unfolding r(2) using assms(2,3) by (auto simp: bit_exp_iff)
  have "take_bit (Suc k) r = r" by (rule bit_word_eqI) (auto simp: bit_take_bit_iff b)
  then have "take_bit (Suc k) (unat r) = unat r" by (metis unsigned_take_bit_eq)
  then have "unat r < 2 ^ Suc k" by (metis take_bit_nat_less_exp)
  moreover have "2 ^ k \<le> unat r"
  proof (rule ccontr)
    assume "\<not> 2 ^ k \<le> unat r"
    then have "take_bit k (unat r) = unat r" by (simp add: take_bit_nat_eq_self_iff)
    then have "\<not> bit (unat r) k" by (metis bit_take_bit_iff less_irrefl)
    then show False using b [of k] assms(3) by (simp add: bit_unsigned_iff)
  qed
  moreover have "timer_calibrate too_many s = Some r"
    using assms(1) up hb r(1) by (simp add: timer_calibrate_def)
  ultimately show ?thesis using b by blast
qed

theorem timer_calibrate_result_witness:
  "\<exists>r. timer_calibrate (\<lambda>w. 3000 < w) ((reset_state sample_pages)\<lparr>intr_on := True\<rparr>) = Some r \<and> 2048 \<le> unat r \<and> unat r < 4096"
proof -
  have "{11..11::nat} = {11}" by auto
  then show ?thesis
    using timer_calibrate_result [of "(reset_state sample_pages)\<lparr>intr_on := True\<rparr>" 11 "\<lambda>w. 3000 < w"] by auto
qed


end
