(* ===== verification/Hash_Table.thy ===== *)
theory Hash_Table
  imports Pintos_Prelude
begin

unbundle bit_operations_syntax

section \<open>Hash tables (lib/kernel/hash.c)\<close>

text \<open>
  A table is an array of buckets, each a kernel list, represented by the sequence it holds
  (theories \<open>Linked_List\<close> and \<open>List_Order\<close>). The hash function and the order are the
  table's fields, as in \<^verbatim>\<open>struct hash\<close>; the auxiliary pointer is part of them. Whether
  \<^verbatim>\<open>malloc\<close> has room for a given number of bytes is the argument \<open>malloc_ok\<close>. A destructor or
  an action is a function on the caller's state. Counts are natural numbers: there are fewer
  elements than addresses.

  The lemmas show that the table implements a finite map from keys to elements
  (\<open>hash_ops_refine\<close>), that an iteration visits every element once, and how \<^verbatim>\<open>rehash\<close> chooses
  the number of buckets.
\<close>

record 'e hash_table =
  elem_count :: nat
  bucket_cnt :: nat
  buckets :: "'e list list"
  hash_fn :: "'e \<Rightarrow> u32"
  less_fn :: "'e \<Rightarrow> 'e \<Rightarrow> bool"

definition SIZEOF_LIST :: nat where "SIZEOF_LIST = 16"

primrec destroy_bucket :: "('e \<Rightarrow> 's \<Rightarrow> 's) \<Rightarrow> 'e list \<Rightarrow> 's \<Rightarrow> 's" where
  "destroy_bucket destructor [] w = w"
| "destroy_bucket destructor (e # es) w = destroy_bucket destructor es (destructor e w)"

fun clear_buckets :: "('e \<Rightarrow> 's \<Rightarrow> 's) option \<Rightarrow> 'e list list \<Rightarrow> 's \<Rightarrow> 'e list list \<times> 's" where
  "clear_buckets destructor [] w = ([], w)"
| "clear_buckets destructor (b # bs) w =
     (let w = (case destructor of None \<Rightarrow> w | Some f \<Rightarrow> destroy_bucket f b w);
          (bs, w) = clear_buckets destructor bs w
      in ([] # bs, w))"

definition hash_clear :: "'e hash_table \<Rightarrow> ('e \<Rightarrow> 's \<Rightarrow> 's) option \<Rightarrow> 's \<Rightarrow> 'e hash_table \<times> 's" where
  "hash_clear h destructor w =
     (let (bs, w) = clear_buckets destructor (buckets h) w
      in (h\<lparr>buckets := bs, elem_count := 0\<rparr>, w))"

definition hash_init :: "(nat \<Rightarrow> bool) \<Rightarrow> ('e \<Rightarrow> u32) \<Rightarrow> ('e \<Rightarrow> 'e \<Rightarrow> bool) \<Rightarrow> 'e hash_table option" where
  "hash_init malloc_ok hash lt =
     (let h = \<lparr>elem_count = 0, bucket_cnt = 4, buckets = replicate 4 [], hash_fn = hash, less_fn = lt\<rparr>
      in if malloc_ok (SIZEOF_LIST * bucket_cnt h)
         then Some (fst (hash_clear h (None :: ('e \<Rightarrow> unit \<Rightarrow> unit) option) ())) else None)"

definition hash_destroy :: "'e hash_table \<Rightarrow> ('e \<Rightarrow> 's \<Rightarrow> 's) option \<Rightarrow> 's \<Rightarrow> 's" where
  "hash_destroy h destructor w = (if destructor \<noteq> None then snd (hash_clear h destructor w) else w)"

definition find_bucket :: "'e hash_table \<Rightarrow> 'e \<Rightarrow> nat" where
  "find_bucket h e = unat (hash_fn h e) AND (bucket_cnt h - 1)"

primrec find_elem :: "'e hash_table \<Rightarrow> 'e list \<Rightarrow> 'e \<Rightarrow> 'e option" where
  "find_elem h [] e = None"
| "find_elem h (hi # es) e = (if \<not> less_fn h hi e \<and> \<not> less_fn h e hi then Some hi else find_elem h es e)"

definition turn_off_least_1bit :: "nat \<Rightarrow> nat" where
  "turn_off_least_1bit x = x AND (x - 1)"

definition is_power_of_2 :: "nat \<Rightarrow> bool" where
  "is_power_of_2 x \<longleftrightarrow> x \<noteq> 0 \<and> turn_off_least_1bit x = 0"

definition BEST_ELEMS_PER_BUCKET :: nat where "BEST_ELEMS_PER_BUCKET = 2"

partial_function (option) reduce_to_power :: "nat \<Rightarrow> nat option" where
  "reduce_to_power n = (if \<not> is_power_of_2 n then reduce_to_power (turn_off_least_1bit n) else Some n)"

primrec move_bucket :: "'e hash_table \<Rightarrow> 'e list \<Rightarrow> 'e list list \<Rightarrow> 'e list list" where
  "move_bucket h [] bs = bs"
| "move_bucket h (e # es) bs = (let b = find_bucket h e in move_bucket h es (bs[b := e # bs ! b]))"

primrec move_buckets :: "'e hash_table \<Rightarrow> 'e list list \<Rightarrow> 'e list list \<Rightarrow> 'e list list" where
  "move_buckets h [] bs = bs"
| "move_buckets h (old_bucket # old) bs = move_buckets h old (move_bucket h old_bucket bs)"

definition rehash :: "(nat \<Rightarrow> bool) \<Rightarrow> 'e hash_table \<Rightarrow> 'e hash_table option" where
  "rehash malloc_ok h = do {
     let old_buckets = buckets h;
     let old_bucket_cnt = bucket_cnt h;
     let new_bucket_cnt = elem_count h div BEST_ELEMS_PER_BUCKET;
     let new_bucket_cnt = (if new_bucket_cnt < 4 then 4 else new_bucket_cnt);
     new_bucket_cnt \<leftarrow> reduce_to_power new_bucket_cnt;
     if new_bucket_cnt = old_bucket_cnt then Some h
     else if \<not> malloc_ok (SIZEOF_LIST * new_bucket_cnt) then Some h
     else do {
       let h = h\<lparr>buckets := replicate new_bucket_cnt [], bucket_cnt := new_bucket_cnt\<rparr>;
       Some (h\<lparr>buckets := move_buckets h old_buckets (buckets h)\<rparr>) } }"

definition insert_elem :: "'e hash_table \<Rightarrow> nat \<Rightarrow> 'e \<Rightarrow> 'e hash_table" where
  "insert_elem h bucket e =
     h\<lparr>elem_count := elem_count h + 1, buckets := (buckets h)[bucket := e # buckets h ! bucket]\<rparr>"

text \<open>\<^verbatim>\<open>list_remove\<close> takes the element out of the bucket it is linked into.\<close>

definition remove_elem :: "'e hash_table \<Rightarrow> 'e \<Rightarrow> 'e hash_table" where
  "remove_elem h e = h\<lparr>elem_count := elem_count h - 1, buckets := map (remove1 e) (buckets h)\<rparr>"

definition hash_insert :: "(nat \<Rightarrow> bool) \<Rightarrow> 'e hash_table \<Rightarrow> 'e \<Rightarrow> ('e hash_table \<times> 'e option) option" where
  "hash_insert malloc_ok h new = do {
     let bucket = find_bucket h new;
     let old = find_elem h (buckets h ! bucket) new;
     let h = (if old = None then insert_elem h bucket new else h);
     h \<leftarrow> rehash malloc_ok h;
     Some (h, old) }"

definition hash_replace :: "(nat \<Rightarrow> bool) \<Rightarrow> 'e hash_table \<Rightarrow> 'e \<Rightarrow> ('e hash_table \<times> 'e option) option" where
  "hash_replace malloc_ok h new = do {
     let bucket = find_bucket h new;
     let old = find_elem h (buckets h ! bucket) new;
     let h = (case old of None \<Rightarrow> h | Some e \<Rightarrow> remove_elem h e);
     let h = insert_elem h bucket new;
     h \<leftarrow> rehash malloc_ok h;
     Some (h, old) }"

definition hash_find :: "'e hash_table \<Rightarrow> 'e \<Rightarrow> 'e option" where
  "hash_find h e = find_elem h (buckets h ! find_bucket h e) e"

definition hash_delete :: "(nat \<Rightarrow> bool) \<Rightarrow> 'e hash_table \<Rightarrow> 'e \<Rightarrow> ('e hash_table \<times> 'e option) option" where
  "hash_delete malloc_ok h e =
     (case find_elem h (buckets h ! find_bucket h e) e of
        None \<Rightarrow> Some (h, None)
      | Some found \<Rightarrow> do { h \<leftarrow> rehash malloc_ok (remove_elem h found); Some (h, Some found) })"

primrec apply_bucket :: "('e \<Rightarrow> 's \<Rightarrow> 's) \<Rightarrow> 'e list \<Rightarrow> 's \<Rightarrow> 's" where
  "apply_bucket action [] w = w"
| "apply_bucket action (e # es) w = apply_bucket action es (action e w)"

definition hash_apply :: "'e hash_table \<Rightarrow> ('e \<Rightarrow> 's \<Rightarrow> 's) \<Rightarrow> 's \<Rightarrow> 's option" where
  "hash_apply h action w =
     for_range 0 (bucket_cnt h) (\<lambda>i w. if i < length (buckets h) then Some (apply_bucket action (buckets h ! i) w) else None) w"

text \<open>
  An iterator's element is a cell of its bucket's list: cell 0 is the head, cell \<open>n + 1\<close> the
  element at index \<open>n\<close>, and the one after the last element the tail; \<open>None\<close> is the null
  pointer.
\<close>

record hash_iterator =
  it_bucket :: nat
  it_elem :: "nat option"

definition hash_first :: "'e hash_table \<Rightarrow> hash_iterator" where
  "hash_first h = \<lparr>it_bucket = 0, it_elem = Some 0\<rparr>"

definition cell_elem :: "'e hash_table \<Rightarrow> hash_iterator \<Rightarrow> 'e option" where
  "cell_elem h i = (case it_elem i of None \<Rightarrow> None
     | Some c \<Rightarrow> if 0 < c \<and> c \<le> length (buckets h ! it_bucket i) then Some (buckets h ! it_bucket i ! (c - 1)) else None)"

function next_bucket :: "'e hash_table \<Rightarrow> nat \<Rightarrow> nat \<Rightarrow> hash_iterator" where
  "next_bucket h b c =
     (if c = length (buckets h ! b) + 1
      then if b + 1 \<ge> bucket_cnt h then \<lparr>it_bucket = b + 1, it_elem = None\<rparr>
           else next_bucket h (b + 1) 1
      else \<lparr>it_bucket = b, it_elem = Some c\<rparr>)"
  by pat_completeness auto
termination
  by (relation "measure (\<lambda>(h, b, c). bucket_cnt h - b)") auto

declare next_bucket.simps [simp del]

definition hash_next :: "'e hash_table \<Rightarrow> hash_iterator \<Rightarrow> (hash_iterator \<times> 'e option) option" where
  "hash_next h i = do {
     c \<leftarrow> it_elem i;
     let i = next_bucket h (it_bucket i) (c + 1);
     Some (i, cell_elem h i) }"

definition hash_cur :: "'e hash_table \<Rightarrow> hash_iterator \<Rightarrow> 'e option" where
  "hash_cur h i = cell_elem h i"

definition hash_size :: "'e hash_table \<Rightarrow> nat" where
  "hash_size h = elem_count h"

definition hash_empty :: "'e hash_table \<Rightarrow> bool" where
  "hash_empty h \<longleftrightarrow> elem_count h = 0"

definition FNV_32_PRIME :: u32 where "FNV_32_PRIME = 16777619"
definition FNV_32_BASIS :: u32 where "FNV_32_BASIS = 2166136261"

primrec fnv :: "u8 list \<Rightarrow> u32 \<Rightarrow> u32" where
  "fnv [] hash = hash"
| "fnv (b # bs) hash = fnv bs ((hash * FNV_32_PRIME) XOR ucast b)"

definition hash_bytes :: "u8 list \<Rightarrow> u32" where
  "hash_bytes buf = fnv buf FNV_32_BASIS"

text \<open>The bytes of a string up to its null terminator; without one the read runs off the end.\<close>

fun fnv_string :: "u8 list \<Rightarrow> u32 \<Rightarrow> u32 option" where
  "fnv_string [] hash = None"
| "fnv_string (b # bs) hash = (if b \<noteq> 0 then fnv_string bs ((hash * FNV_32_PRIME) XOR ucast b) else Some hash)"

definition hash_string :: "u8 list \<Rightarrow> u32 option" where
  "hash_string s = fnv_string s FNV_32_BASIS"

definition hash_int :: "u32 \<Rightarrow> u32" where
  "hash_int i = hash_bytes (le_bytes i)"

subsection \<open>The number of buckets\<close>

lemma turn_off_even:
  assumes "0 < n"
  shows "turn_off_least_1bit (2 * n) = 2 * turn_off_least_1bit n"
proof -
  have "2 * n - 1 = 1 + 2 * (n - 1)" using assms by simp
  then show ?thesis by (simp add: turn_off_least_1bit_def and_rec [of "2 * n"])
qed

lemma turn_off_odd: "turn_off_least_1bit (2 * n + 1) = 2 * n"
  by (simp add: turn_off_least_1bit_def and_rec [of "Suc (2 * n)"])

lemma turn_off_range:
  "2 ^ k \<le> x \<Longrightarrow> x < 2 ^ Suc k \<Longrightarrow>
   if x = 2 ^ k then turn_off_least_1bit x = 0 else 2 ^ k \<le> turn_off_least_1bit x \<and> turn_off_least_1bit x < x"
proof (induction k arbitrary: x)
  case 0
  then have "x = 1" by simp
  then show ?case by (simp add: turn_off_least_1bit_def)
next
  case (Suc k)
  show ?case
  proof (cases "even x")
    case True
    then obtain n where n: "x = 2 * n" by blast
    then show ?thesis using Suc.IH [of n] Suc.prems turn_off_even [of n] by (auto split: if_splits)
  next
    case False
    then obtain n where n: "x = 2 * n + 1" by (metis oddE)
    have "even ((2::nat) ^ Suc k)" by simp
    then have "x \<noteq> 2 ^ Suc k" using False by metis
    moreover have "2 ^ k \<le> n" using Suc.prems n by auto
    ultimately show ?thesis using turn_off_odd [of n] n by auto
  qed
qed

lemma power_bracket: "0 < (x::nat) \<Longrightarrow> \<exists>k. 2 ^ k \<le> x \<and> x < 2 ^ Suc k"
  using ex_power_ivl1 [of 2 x] by auto

lemma is_power_of_2_iff: "is_power_of_2 x \<longleftrightarrow> (\<exists>k. x = 2 ^ k)"
proof
  assume p: "is_power_of_2 x"
  then obtain k where k: "2 ^ k \<le> x" "x < 2 ^ Suc k" using power_bracket [of x] by (auto simp: is_power_of_2_def)
  have "x = 2 ^ k"
  proof (rule ccontr)
    assume "x \<noteq> 2 ^ k"
    then have "2 ^ k \<le> turn_off_least_1bit x" using turn_off_range [OF k] by simp
    then show False using p by (simp add: is_power_of_2_def)
  qed
  then show "\<exists>k. x = 2 ^ k" ..
next
  assume "\<exists>k. x = 2 ^ k"
  then obtain k where "x = 2 ^ k" ..
  then show "is_power_of_2 x" using turn_off_range [of k x] by (simp add: is_power_of_2_def)
qed

lemma reduce_to_power_ok:
  "0 < x \<Longrightarrow> \<exists>k. reduce_to_power x = Some (2 ^ k) \<and> 2 ^ k \<le> x \<and> x < 2 ^ Suc k"
proof (induction x rule: less_induct)
  case (less x)
  obtain k where k: "2 ^ k \<le> x" "x < 2 ^ Suc k" using power_bracket [OF less.prems] by blast
  show ?case
  proof (cases "x = 2 ^ k")
    case True
    then show ?thesis using k is_power_of_2_iff [of x] by (subst reduce_to_power.simps) auto
  next
    case False
    let ?y = "turn_off_least_1bit x"
    have y: "2 ^ k \<le> ?y" "?y < x" using turn_off_range [OF k] False by simp_all
    have pos: "0 < ?y" by (rule gr0I) (use y(1) in simp)
    then obtain j where j: "reduce_to_power ?y = Some (2 ^ j)" "2 ^ j \<le> ?y" "?y < 2 ^ Suc j"
      using less.IH [OF y(2)] by blast
    have "(2::nat) ^ k < 2 ^ Suc j" "(2::nat) ^ j < 2 ^ Suc k" using j y k by linarith+
    then have "j = k" using power_strict_increasing_iff [of "2::nat"] by (metis less_Suc_eq_le one_less_numeral_iff
        semiring_norm(76) nle_le)
    moreover have "\<not> is_power_of_2 x" using pos by (simp add: is_power_of_2_def)
    ultimately show ?thesis using j(1) k by (subst reduce_to_power.simps) auto
  qed
qed

subsection \<open>The elements of a table\<close>

abbreviation (input) elems :: "'e hash_table \<Rightarrow> 'e list" where
  "elems h \<equiv> concat (buckets h)"

text \<open>
  The invariant, for elements with the given key: the number of buckets is a power of two, no
  two elements have the same key, and every element is in the bucket of its hash.
\<close>

definition placed :: "'e hash_table \<Rightarrow> 'e list list \<Rightarrow> bool" where
  "placed h bs \<longleftrightarrow> (\<forall>i < length bs. \<forall>e \<in> set (bs ! i). find_bucket h e = i)"

definition hash_ok :: "('e \<Rightarrow> 'k) \<Rightarrow> 'e hash_table \<Rightarrow> bool" where
  "hash_ok key h \<longleftrightarrow> (\<exists>k. bucket_cnt h = 2 ^ k) \<and> length (buckets h) = bucket_cnt h \<and>
     elem_count h = length (elems h) \<and> distinct (map key (elems h)) \<and>
     placed h (buckets h)"

definition table_map :: "('e \<Rightarrow> 'k) \<Rightarrow> 'e hash_table \<Rightarrow> 'k \<rightharpoonup> 'e" where
  "table_map key h = map_of (map (\<lambda>e. (key e, e)) (elems h))"

lemma map_of_keyed: "distinct (map key es) \<Longrightarrow>
  map_of (map (\<lambda>e. (key e, e)) es) k = Some e \<longleftrightarrow> e \<in> set es \<and> key e = k"
  by (subst map_of_eq_Some_iff) (auto simp: comp_def)

lemma map_of_keyed_perm:
  assumes "mset es = mset es'" and "distinct (map key es)"
  shows "distinct (map key es')" and "map_of (map (\<lambda>e. (key e, e)) es) = map_of (map (\<lambda>e. (key e, e)) es')"
proof -
  have "mset (map key es) = mset (map key es')" using assms(1) by simp
  then show d: "distinct (map key es')" using assms(2) mset_eq_imp_distinct_iff by blast
  have "set es = set es'" using assms(1) by (rule mset_eq_setD)
  then have iff: "map_of (map (\<lambda>e. (key e, e)) es) k = Some e \<longleftrightarrow> map_of (map (\<lambda>e. (key e, e)) es') k = Some e" for k e
    by (simp add: map_of_keyed [OF assms(2)] map_of_keyed [OF d])
  show "map_of (map (\<lambda>e. (key e, e)) es) = map_of (map (\<lambda>e. (key e, e)) es')"
  proof
    show "map_of (map (\<lambda>e. (key e, e)) es) k = map_of (map (\<lambda>e. (key e, e)) es') k" for k
      using iff [of k] by (metis option.exhaust)
  qed
qed

lemma find_bucket_pow:
  assumes "bucket_cnt h = 2 ^ k"
  shows "find_bucket h e < 2 ^ k"
proof -
  have "find_bucket h e = take_bit k (unat (hash_fn h e))"
    using assms by (simp only: find_bucket_def take_bit_eq_mask mask_eq_exp_minus_1)
  then show ?thesis by simp
qed

lemma find_bucket_less: "hash_ok key h \<Longrightarrow> find_bucket h e < bucket_cnt h"
  using find_bucket_pow [of h _ e] by (auto simp: hash_ok_def)

lemma mset_concat_update:
  "i < length bs \<Longrightarrow> mset (concat (bs[i := e # bs ! i])) = add_mset e (mset (concat bs))"
  by (induction bs arbitrary: i) (auto split: nat.splits)

lemma concat_remove1:
  "distinct (concat bs) \<Longrightarrow> concat (map (remove1 e) bs) = remove1 e (concat bs)"
proof (induction bs)
  case (Cons b bs)
  have "map (remove1 e) bs = bs" if "e \<in> set b"
    using Cons.prems that by (auto intro!: map_idI remove1_idem)
  then show ?case using Cons by (auto simp: remove1_append remove1_idem)
qed simp

lemma elem_in_bucket:
  assumes "hash_ok key h" and "e \<in> set (elems h)"
  shows "e \<in> set (buckets h ! find_bucket h e)"
proof -
  from assms(2) obtain b where b: "b \<in> set (buckets h)" "e \<in> set b" by auto
  then obtain i where i: "i < length (buckets h)" "b = buckets h ! i" by (metis in_set_conv_nth)
  then have "find_bucket h e = i" using assms(1) b unfolding hash_ok_def placed_def by metis
  then show ?thesis using b i by simp
qed

text \<open>The effect of \<^verbatim>\<open>insert_elem\<close>, \<^verbatim>\<open>remove_elem\<close> and \<^verbatim>\<open>rehash\<close> on the invariant.\<close>

lemma hash_okD:
  assumes "hash_ok key h"
  shows "length (buckets h) = bucket_cnt h" and "elem_count h = length (elems h)" and "distinct (map key (elems h))"
    and "i < bucket_cnt h \<Longrightarrow> e \<in> set (buckets h ! i) \<Longrightarrow> find_bucket h e = i"
  using assms by (auto simp: hash_ok_def placed_def)

lemma placedI: "(\<And>i e. i < length bs \<Longrightarrow> e \<in> set (bs ! i) \<Longrightarrow> find_bucket h e = i) \<Longrightarrow> placed h bs"
  by (simp add: placed_def)

lemma placed_push: "placed h bs \<Longrightarrow> placed h (bs[find_bucket h e := e # bs ! find_bucket h e])"
  unfolding placed_def by (metis length_list_update nth_list_update nth_list_update_neq set_ConsD)

lemma placed_cong: "hash_fn h' = hash_fn h \<Longrightarrow> bucket_cnt h' = bucket_cnt h \<Longrightarrow> placed h' bs = placed h bs"
  by (simp add: placed_def find_bucket_def)

lemma insert_elem_ok:
  assumes h: "hash_ok key h" and new: "table_map key h (key e) = None"
  defines "h' \<equiv> insert_elem h (find_bucket h e) e"
  shows "hash_ok key h'" and "table_map key h' = (table_map key h)(key e \<mapsto> e)"
    and "elem_count h' = elem_count h + 1"
proof -
  note b = find_bucket_less [OF h, of e]
  have ms: "mset (elems h') = mset (e # elems h)"
    using mset_concat_update [of "find_bucket h e" "buckets h" e] b hash_okD(1) [OF h]
    by (simp add: h'_def insert_elem_def)
  have ne: "key e \<notin> key ` set (elems h)"
    using new by (auto simp: table_map_def map_of_eq_None_iff image_image)
  then have d: "distinct (map key (e # elems h))" using hash_okD(3) [OF h] by simp
  show "table_map key h' = (table_map key h)(key e \<mapsto> e)"
    using map_of_keyed_perm(2) [OF ms [symmetric] d] by (simp add: table_map_def)
  have "length (elems h') = Suc (length (elems h))" using arg_cong [OF ms, of size] by (simp only: size_mset) simp
  then have "elem_count h' = length (elems h')" using hash_okD(2) [OF h] by (simp add: h'_def insert_elem_def)
  moreover have "distinct (map key (elems h'))" by (rule map_of_keyed_perm(1) [OF ms [symmetric] d])
  moreover have "placed h (buckets h')" using placed_push [of h "buckets h" e] h
    by (simp add: hash_ok_def h'_def insert_elem_def)
  then have "placed h' (buckets h')" by (subst placed_cong [of _ h]) (simp_all add: h'_def insert_elem_def)
  ultimately show "hash_ok key h'" using h by (auto simp: hash_ok_def h'_def insert_elem_def)
  show "elem_count h' = elem_count h + 1" by (simp add: h'_def insert_elem_def)
qed

lemma remove_elem_ok:
  assumes h: "hash_ok key h" and e: "e \<in> set (elems h)"
  defines "h' \<equiv> remove_elem h e"
  shows "hash_ok key h'" and "table_map key h' = (table_map key h)(key e := None)"
    and "elem_count h' = elem_count h - 1"
proof -
  note d = hash_okD(3) [OF h]
  have el: "elems h' = remove1 e (elems h)"
    using concat_remove1 [of "buckets h" e] d by (simp add: h'_def remove_elem_def distinct_map)
  have d': "distinct (map key (elems h'))" using d by (auto simp: el distinct_map intro: inj_on_subset dest: notin_set_remove1)
  have "table_map key h' k = ((table_map key h)(key e := None)) k" for k
  proof -
    have "x \<in> set (elems h') \<and> key x = k \<longleftrightarrow> x \<in> set (elems h) \<and> key x = k \<and> k \<noteq> key e" for x
      using d e by (auto simp: el distinct_map inj_on_def)
    then have "table_map key h' k = Some x \<longleftrightarrow> ((table_map key h)(key e := None)) k = Some x" for x
      by (auto simp: table_map_def map_of_keyed [OF d] map_of_keyed [OF d'])
    then show ?thesis by (metis option.exhaust)
  qed
  then show "table_map key h' = (table_map key h)(key e := None)" by blast
  have fb: "find_bucket h' x = find_bucket h x" for x by (simp add: h'_def remove_elem_def find_bucket_def)
  have "elem_count h' = length (elems h')"
    using hash_okD(2) [OF h] e by (simp add: el length_remove1) (simp add: h'_def remove_elem_def)
  moreover have "placed h' (buckets h')"
  proof (rule placedI)
    show "find_bucket h' x = i" if "i < length (buckets h')" "x \<in> set (buckets h' ! i)" for i x
      using that hash_okD(4) [OF h, of i x] hash_okD(1) [OF h] notin_set_remove1 [of x "buckets h ! i" e] unfolding fb
      by (auto simp: h'_def remove_elem_def)
  qed
  ultimately show "hash_ok key h'" using h d' by (auto simp: hash_ok_def h'_def remove_elem_def)
  show "elem_count h' = elem_count h - 1" by (simp add: h'_def remove_elem_def)
qed

lemma move_bucket_ok:
  assumes "\<And>e. find_bucket h e < length bs" and "placed h bs"
  shows "length (move_bucket h es bs) = length bs \<and> mset (concat (move_bucket h es bs)) = mset es + mset (concat bs) \<and>
    placed h (move_bucket h es bs)"
  using assms
proof (induction es arbitrary: bs)
  case (Cons e es)
  then show ?case using mset_concat_update [OF Cons.prems(1)] placed_push [OF Cons.prems(2)] by (simp add: Let_def)
qed auto

lemma move_buckets_ok:
  assumes "\<And>e. find_bucket h e < length bs" and "placed h bs"
  shows "length (move_buckets h old bs) = length bs \<and>
    mset (concat (move_buckets h old bs)) = mset (concat old) + mset (concat bs) \<and> placed h (move_buckets h old bs)"
  using assms
proof (induction old arbitrary: bs)
  case (Cons b old)
  then show ?case using move_bucket_ok [OF Cons.prems, of b] by simp
qed auto

text \<open>The number of buckets \<^verbatim>\<open>rehash\<close> aims at: the largest power of two not above half the elements, but at least 4.\<close>

definition ideal_buckets :: "nat \<Rightarrow> nat \<Rightarrow> bool" where
  "ideal_buckets n b \<longleftrightarrow> (\<exists>k. b = 2 ^ k) \<and> b \<le> max 4 (n div 2) \<and> max 4 (n div 2) < 2 * b"

lemma rehash_ok:
  assumes h: "hash_ok key h"
  obtains h' b where "rehash malloc_ok h = Some h'" and "hash_ok key h'" and "table_map key h' = table_map key h"
    and "elem_count h' = elem_count h" and "hash_fn h' = hash_fn h" and "less_fn h' = less_fn h"
    and "ideal_buckets (elem_count h) b"
    and "bucket_cnt h' = (if malloc_ok (SIZEOF_LIST * b) then b else bucket_cnt h)"
proof -
  let ?n = "if elem_count h div BEST_ELEMS_PER_BUCKET < 4 then 4 else elem_count h div BEST_ELEMS_PER_BUCKET"
  have n: "?n = max 4 (elem_count h div 2)" by (simp add: BEST_ELEMS_PER_BUCKET_def)
  have "0 < ?n" unfolding n by simp
  from reduce_to_power_ok [OF this] obtain k where
    k: "reduce_to_power ?n = Some (2 ^ k)" "2 ^ k \<le> ?n" "?n < 2 ^ Suc k" by blast
  define b where "b = (2::nat) ^ k"
  have ib: "ideal_buckets (elem_count h) b" using k unfolding ideal_buckets_def n b_def by auto
  have r: "rehash malloc_ok h = (if b = bucket_cnt h then Some h else if \<not> malloc_ok (SIZEOF_LIST * b) then Some h
      else Some ((h\<lparr>buckets := replicate b [], bucket_cnt := b\<rparr>)\<lparr>buckets :=
        move_buckets (h\<lparr>buckets := replicate b [], bucket_cnt := b\<rparr>) (buckets h) (replicate b [])\<rparr>))"
    unfolding rehash_def Let_def k(1) b_def by simp
  show ?thesis
  proof (cases "b = bucket_cnt h \<or> \<not> malloc_ok (SIZEOF_LIST * b)")
    case True
    then have "rehash malloc_ok h = Some h" by (auto simp: r)
    then show ?thesis using True h ib by (intro that [of h b]) auto
  next
    case False
    define h1 where "h1 = h\<lparr>buckets := replicate b [], bucket_cnt := b\<rparr>"
    define h' where "h' = h1\<lparr>buckets := move_buckets h1 (buckets h) (replicate b [])\<rparr>"
    have eq: "rehash malloc_ok h = Some h'" using False unfolding r h'_def h1_def by simp
    have "find_bucket h1 e < length (replicate b [])" for e using find_bucket_pow [of h1 k e] by (simp add: h1_def b_def)
    then have mv: "length (buckets h') = b" "mset (elems h') = mset (elems h)"
      "placed h1 (buckets h')"
      using move_buckets_ok [of h1 "replicate b []" "buckets h"] by (auto simp: h'_def placed_def)
    note perm = map_of_keyed_perm [OF mv(2) [symmetric] hash_okD(3) [OF h]]
    have "placed h' (buckets h')" using mv(3) by (subst placed_cong [of _ h1]) (simp_all add: h'_def)
    moreover have "length (elems h') = length (elems h)" using mv(2) by (metis size_mset)
    moreover have "bucket_cnt h' = b" "elem_count h' = elem_count h" by (simp_all add: h'_def h1_def)
    ultimately have "hash_ok key h'"
      using mv(1) perm(1) hash_okD(2) [OF h] unfolding hash_ok_def b_def by auto
    moreover have "table_map key h' = table_map key h" using perm(2) by (simp add: table_map_def)
    ultimately show ?thesis using False ib by (intro that [OF eq]) (auto simp: h'_def h1_def)
  qed
qed

subsection \<open>The table is a map\<close>

lemma destroy_bucket_fold: "destroy_bucket f b w = fold f b w"
  by (induction b arbitrary: w) simp_all

lemma clear_buckets_eq:
  "clear_buckets d bs w = (map (\<lambda>_. []) bs, case d of None \<Rightarrow> w | Some f \<Rightarrow> fold f (concat bs) w)"
  by (induction bs arbitrary: w) (auto simp: destroy_bucket_fold Let_def split: option.splits)

text \<open>
  What a client sees of a table: a sequence of operations and their results. Each operation
  comes with what \<^verbatim>\<open>malloc\<close> answers during it. \<open>spec_op\<close> is the specification, on a map from
  keys to elements.
\<close>

datatype 'e hash_op = Insert 'e | Replace 'e | Find 'e | Delete 'e

fun table_op :: "'e hash_table \<Rightarrow> (nat \<Rightarrow> bool) \<times> 'e hash_op \<Rightarrow> ('e hash_table \<times> 'e option) option" where
  "table_op h (m, Insert e) = hash_insert m h e"
| "table_op h (m, Replace e) = hash_replace m h e"
| "table_op h (m, Find e) = Some (h, hash_find h e)"
| "table_op h (m, Delete e) = hash_delete m h e"

fun table_ops :: "'e hash_table \<Rightarrow> ((nat \<Rightarrow> bool) \<times> 'e hash_op) list \<Rightarrow> ('e hash_table \<times> 'e option list) option" where
  "table_ops h [] = Some (h, [])"
| "table_ops h (x # xs) = do { (h, r) \<leftarrow> table_op h x; (h, rs) \<leftarrow> table_ops h xs; Some (h, r # rs) }"

fun spec_op :: "('e \<Rightarrow> 'k) \<Rightarrow> ('k \<rightharpoonup> 'e) \<Rightarrow> 'e hash_op \<Rightarrow> ('k \<rightharpoonup> 'e) \<times> 'e option" where
  "spec_op key M (Insert e) = (if M (key e) = None then M(key e \<mapsto> e) else M, M (key e))"
| "spec_op key M (Replace e) = (M(key e \<mapsto> e), M (key e))"
| "spec_op key M (Find e) = (M, M (key e))"
| "spec_op key M (Delete e) = (M(key e := None), M (key e))"

fun spec_ops :: "('e \<Rightarrow> 'k) \<Rightarrow> ('k \<rightharpoonup> 'e) \<Rightarrow> 'e hash_op list \<Rightarrow> ('k \<rightharpoonup> 'e) \<times> 'e option list" where
  "spec_ops key M [] = (M, [])"
| "spec_ops key M (x # xs) =
     (let (M, r) = spec_op key M x; (M, rs) = spec_ops key M xs in (M, r # rs))"

text \<open>
  The client's contract: two elements compare equal exactly when they have the same key, and
  the hash depends on the key only.
\<close>

definition table_ok :: "('e \<Rightarrow> u32) \<Rightarrow> ('e \<Rightarrow> 'e \<Rightarrow> bool) \<Rightarrow> ('e \<Rightarrow> 'k) \<Rightarrow> 'e hash_table \<Rightarrow> bool" where
  "table_ok hash lt key h \<longleftrightarrow> hash_ok key h \<and> hash_fn h = hash \<and> less_fn h = lt"

locale hash_keys =
  fixes hash :: "'e \<Rightarrow> u32"
    and lt :: "'e \<Rightarrow> 'e \<Rightarrow> bool"
    and key :: "'e \<Rightarrow> 'k"
  assumes same_key: "\<not> lt a b \<and> \<not> lt b a \<longleftrightarrow> key a = key b"
    and hash_key: "key a = key b \<Longrightarrow> hash a = hash b"
begin

lemma find_elem_map: "less_fn h = lt \<Longrightarrow> find_elem h es e = map_of (map (\<lambda>x. (key x, x)) es) (key e)"
  by (induction es) (auto simp: same_key)

lemma find_bucket_key: "hash_fn h = hash \<Longrightarrow> key a = key b \<Longrightarrow> find_bucket h a = find_bucket h b"
  using hash_key [of a b] by (simp add: find_bucket_def)

lemma find_elem_table:
  assumes h: "table_ok hash lt key h"
  shows "find_elem h (buckets h ! find_bucket h e) e = table_map key h (key e)"
proof -
  have hk: "hash_ok key h" and f: "less_fn h = lt" "hash_fn h = hash" using h by (simp_all add: table_ok_def)
  have b: "buckets h ! find_bucket h e \<in> set (buckets h)"
    using find_bucket_less [OF hk] hk by (auto simp: hash_ok_def)
  have d: "distinct (map key (elems h))" using hk by (simp add: hash_ok_def)
  have db: "distinct (map key (buckets h ! find_bucket h e))"
    using d b by (auto simp: distinct_map inj_on_def dest: distinct_concat_iff [THEN iffD1])
  have iff: "find_elem h (buckets h ! find_bucket h e) e = Some x \<longleftrightarrow> table_map key h (key e) = Some x" for x
  proof -
    have "x \<in> set (buckets h ! find_bucket h e)" if "x \<in> set (elems h)" "key x = key e"
      using elem_in_bucket [OF hk that(1)] find_bucket_key [OF f(2) that(2)] by simp
    then show ?thesis using b
      by (auto simp: find_elem_map [OF f(1)] map_of_keyed [OF db] table_map_def map_of_keyed [OF d])
  qed
  then show ?thesis by (metis option.exhaust)
qed

lemma hash_find_table: "table_ok hash lt key h \<Longrightarrow> hash_find h e = table_map key h (key e)"
  by (simp add: hash_find_def find_elem_table)

lemma table_elem: "table_ok hash lt key h \<Longrightarrow> table_map key h k = Some e \<longleftrightarrow> e \<in> set (elems h) \<and> key e = k"
  by (simp add: table_ok_def table_map_def map_of_keyed hash_okD(3))

lemma hash_insert_table:
  assumes h: "table_ok hash lt key h"
  shows "\<exists>h'. hash_insert malloc_ok h e = Some (h', table_map key h (key e)) \<and> table_ok hash lt key h' \<and>
    table_map key h' = (if table_map key h (key e) = None then (table_map key h)(key e \<mapsto> e) else table_map key h) \<and>
    elem_count h' = elem_count h + (if table_map key h (key e) = None then 1 else 0)"
proof -
  define h1 where "h1 = (if table_map key h (key e) = None then insert_elem h (find_bucket h e) e else h)"
  have h1: "hash_ok key h1" "table_map key h1 = (if table_map key h (key e) = None then (table_map key h)(key e \<mapsto> e)
      else table_map key h)" "elem_count h1 = elem_count h + (if table_map key h (key e) = None then 1 else 0)"
    using h insert_elem_ok [of key h e] by (auto simp: h1_def table_ok_def)
  have f: "hash_fn h1 = hash" "less_fn h1 = lt" using h by (simp_all add: h1_def table_ok_def insert_elem_def)
  obtain h' where h': "rehash malloc_ok h1 = Some h'" "hash_ok key h'" "table_map key h' = table_map key h1"
    "elem_count h' = elem_count h1" "hash_fn h' = hash_fn h1" "less_fn h' = less_fn h1"
    by (rule rehash_ok [OF h1(1), of malloc_ok])
  then show ?thesis using h1 f by (simp add: hash_insert_def find_elem_table [OF h] h1_def [symmetric] table_ok_def)
qed

lemma hash_replace_table:
  assumes h: "table_ok hash lt key h"
  shows "\<exists>h'. hash_replace malloc_ok h e = Some (h', table_map key h (key e)) \<and> table_ok hash lt key h' \<and>
    table_map key h' = (table_map key h)(key e \<mapsto> e) \<and>
    elem_count h' = elem_count h + (if table_map key h (key e) = None then 1 else 0)"
proof -
  define h0 where "h0 = (case table_map key h (key e) of None \<Rightarrow> h | Some x \<Rightarrow> remove_elem h x)"
  define h1 where "h1 = insert_elem h0 (find_bucket h e) e"
  have h0: "hash_ok key h0 \<and> table_map key h0 = (table_map key h)(key e := None) \<and>
      elem_count h = elem_count h0 + (if table_map key h (key e) = None then 0 else 1)"
  proof (cases "table_map key h (key e)")
    case None
    then show ?thesis using h by (auto simp: h0_def table_ok_def)
  next
    case (Some x)
    then have x: "x \<in> set (elems h)" "key x = key e" using table_elem [OF h] by auto
    then have "0 < elem_count h" using h hash_okD(2) [of key h] by (cases "elems h") (auto simp: table_ok_def)
    then show ?thesis using Some remove_elem_ok [of key h x] h x by (simp add: h0_def table_ok_def)
  qed
  have f: "hash_fn h0 = hash" "less_fn h0 = lt" "find_bucket h0 e = find_bucket h e"
    using h by (simp_all add: h0_def table_ok_def remove_elem_def find_bucket_def split: option.splits)
  have h1: "hash_ok key h1" "table_map key h1 = (table_map key h)(key e \<mapsto> e)" "elem_count h1 = elem_count h0 + 1"
    using h0 insert_elem_ok [of key h0 e] f(3) by (auto simp: h1_def)
  obtain h' where h': "rehash malloc_ok h1 = Some h'" "hash_ok key h'" "table_map key h' = table_map key h1"
    "elem_count h' = elem_count h1" "hash_fn h' = hash_fn h1" "less_fn h' = less_fn h1"
    by (rule rehash_ok [OF h1(1), of malloc_ok])
  have "hash_fn h1 = hash" "less_fn h1 = lt" using f by (simp_all add: h1_def insert_elem_def)
  moreover have "hash_replace malloc_ok h e = Some (h', table_map key h (key e))"
    using h'(1) by (simp add: hash_replace_def find_elem_table [OF h] h0_def [symmetric] h1_def [symmetric])
  ultimately show ?thesis using h' h1 h0 by (auto simp: table_ok_def)
qed

lemma hash_delete_table:
  assumes h: "table_ok hash lt key h"
  shows "\<exists>h'. hash_delete malloc_ok h e = Some (h', table_map key h (key e)) \<and> table_ok hash lt key h' \<and>
    table_map key h' = (table_map key h)(key e := None) \<and>
    elem_count h' + (if table_map key h (key e) = None then 0 else 1) = elem_count h"
proof (cases "table_map key h (key e)")
  case None
  then show ?thesis using h by (auto simp: hash_delete_def find_elem_table [OF h])
next
  case (Some x)
  then have x: "x \<in> set (elems h)" "key x = key e" using table_elem [OF h] by auto
  then have pos: "0 < elem_count h" using h hash_okD(2) [of key h] by (cases "elems h") (auto simp: table_ok_def)
  have h1: "hash_ok key (remove_elem h x)" using remove_elem_ok(1) [of key h x] x(1) h by (simp add: table_ok_def)
  obtain h' where h': "rehash malloc_ok (remove_elem h x) = Some h'" "hash_ok key h'"
    "table_map key h' = table_map key (remove_elem h x)" "elem_count h' = elem_count (remove_elem h x)"
    "hash_fn h' = hash_fn (remove_elem h x)" "less_fn h' = less_fn (remove_elem h x)"
    by (rule rehash_ok [OF h1, of malloc_ok])
  moreover have "hash_fn (remove_elem h x) = hash" "less_fn (remove_elem h x) = lt"
    using h by (simp_all add: table_ok_def remove_elem_def)
  ultimately show ?thesis using Some remove_elem_ok [of key h x] h x pos
    by (simp add: hash_delete_def find_elem_table [OF h] table_ok_def)
qed

lemma size_card: "table_ok hash lt key h \<Longrightarrow> hash_size h = card (dom (table_map key h))"
proof -
  assume h: "table_ok hash lt key h"
  have "dom (table_map key h) = key ` set (elems h)" by (simp add: table_map_def dom_map_of_conv_image_fst image_image)
  moreover have "card (key ` set (elems h)) = length (elems h)"
    using distinct_card [of "map key (elems h)"] hash_okD(3) [of key h] h by (simp add: table_ok_def)
  ultimately show ?thesis using h hash_okD(2) [of key h] by (simp add: table_ok_def hash_size_def)
qed

lemma table_op_refines:
  assumes h: "table_ok hash lt key h"
  shows "\<exists>h'. table_op h (m, x) = Some (h', snd (spec_op key (table_map key h) x)) \<and> table_ok hash lt key h' \<and>
    table_map key h' = fst (spec_op key (table_map key h) x)"
proof (cases x)
  case (Insert e)
  show ?thesis using hash_insert_table [OF h, of m e]
    unfolding Insert table_op.simps spec_op.simps fst_conv snd_conv by blast
next
  case (Replace e)
  then show ?thesis using hash_replace_table [OF h, of m e] by (simp del: fun_upd_apply) blast
next
  case (Find e)
  then show ?thesis using hash_find_table [OF h, of e] h by simp
next
  case (Delete e)
  then show ?thesis using hash_delete_table [OF h, of m e] by (simp del: fun_upd_apply) blast
qed

lemma table_ops_refine:
  "table_ok hash lt key h \<Longrightarrow> \<exists>h'. table_ops h xs = Some (h', snd (spec_ops key (table_map key h) (map snd xs))) \<and> table_ok hash lt key h' \<and>
    table_map key h' = fst (spec_ops key (table_map key h) (map snd xs))"
proof (induction xs arbitrary: h)
  case (Cons x xs)
  obtain m y where x: "x = (m, y)" by (cases x)
  obtain h1 where h1: "table_op h x = Some (h1, snd (spec_op key (table_map key h) y))" "table_ok hash lt key h1"
    "table_map key h1 = fst (spec_op key (table_map key h) y)"
    using table_op_refines [OF Cons.prems] unfolding x by blast
  obtain h' where h': "table_ops h1 xs = Some (h', snd (spec_ops key (table_map key h1) (map snd xs)))" "table_ok hash lt key h'"
    "table_map key h' = fst (spec_ops key (table_map key h1) (map snd xs))" using Cons.IH [OF h1(2)] by blast
  then show ?case using h1 by (simp add: x case_prod_beta)
qed simp

lemma hash_init_ok: "hash_init malloc_ok hash lt = Some h \<Longrightarrow> table_ok hash lt key h \<and> table_map key h = Map.empty"
  by (auto simp: hash_init_def hash_clear_def clear_buckets_eq table_ok_def hash_ok_def placed_def table_map_def Let_def
      intro!: exI [of _ 2] split: if_splits)

end

text \<open>The contract holds for every key in a linear order and every hash of that key.\<close>

interpretation keyed: hash_keys "\<lambda>e. H (key e)" "\<lambda>a b. key a < key b" key
  for H :: "'k::linorder \<Rightarrow> u32" and key :: "'e \<Rightarrow> 'k"
  by unfold_locales auto

subsection \<open>Iteration\<close>

fun collect :: "nat \<Rightarrow> 'e hash_table \<Rightarrow> hash_iterator \<Rightarrow> 'e list option" where
  "collect 0 h i = None"
| "collect (Suc n) h i = do {
     (i, r) \<leftarrow> hash_next h i;
     case r of None \<Rightarrow> Some [] | Some e \<Rightarrow> do { es \<leftarrow> collect n h i; Some (e # es) } }"

definition ahead :: "'e hash_table \<Rightarrow> nat \<Rightarrow> nat \<Rightarrow> 'e list" where
  "ahead h b c = drop (c - 1) (buckets h ! b) @ concat (drop (Suc b) (buckets h))"

lemma next_bucket_ahead:
  "length (buckets h) = bucket_cnt h \<Longrightarrow> b < bucket_cnt h \<Longrightarrow> 1 \<le> c \<Longrightarrow> c \<le> length (buckets h ! b) + 1 \<Longrightarrow>
   (case ahead h b c of [] \<Rightarrow> it_elem (next_bucket h b c) = None
    | e # es \<Rightarrow> \<exists>b' c'. next_bucket h b c = \<lparr>it_bucket = b', it_elem = Some c'\<rparr> \<and> b' < bucket_cnt h \<and> 1 \<le> c' \<and>
        c' \<le> length (buckets h ! b') \<and> buckets h ! b' ! (c' - 1) = e \<and> ahead h b' (c' + 1) = es)"
proof (induction h b c rule: next_bucket.induct)
  case (1 h b c)
  show ?case
  proof (cases "c = length (buckets h ! b) + 1")
    case False
    then have "c - 1 < length (buckets h ! b)" using "1.prems" by linarith
    then have "drop (c - 1) (buckets h ! b) = buckets h ! b ! (c - 1) # drop c (buckets h ! b)"
      using "1.prems"(3) Cons_nth_drop_Suc [of "c - 1" "buckets h ! b"] by simp
    then show ?thesis using False "1.prems" by (auto simp: ahead_def next_bucket.simps [of h b c])
  next
    case True
    show ?thesis
    proof (cases "b + 1 < bucket_cnt h")
      case False
      then show ?thesis using True "1.prems" by (simp add: ahead_def next_bucket.simps [of h b])
    next
      case lt: True
      have "drop (Suc b) (buckets h) = buckets h ! Suc b # drop (Suc (Suc b)) (buckets h)"
        using Cons_nth_drop_Suc [of "Suc b" "buckets h"] lt "1.prems"(1) by simp
      then have "ahead h b c = ahead h (b + 1) 1" using True by (simp add: ahead_def)
      moreover have "next_bucket h b c = next_bucket h (b + 1) 1"
        using True lt by (subst next_bucket.simps) simp
      ultimately show ?thesis using lt by (simp only:) (rule "1.IH" [OF True _ "1.prems"(1)], auto)
    qed
  qed
qed

lemma collect_ahead:
  assumes l: "length (buckets h) = bucket_cnt h"
  shows "b < bucket_cnt h \<Longrightarrow> c \<le> length (buckets h ! b) \<Longrightarrow> length (ahead h b (c + 1)) < n \<Longrightarrow>
    collect n h \<lparr>it_bucket = b, it_elem = Some c\<rparr> = Some (ahead h b (c + 1))"
proof (induction n arbitrary: b c)
  case (Suc n)
  have nx: "case ahead h b (c + 1) of [] \<Rightarrow> it_elem (next_bucket h b (c + 1)) = None
    | e # es \<Rightarrow> \<exists>b' c'. next_bucket h b (c + 1) = \<lparr>it_bucket = b', it_elem = Some c'\<rparr> \<and> b' < bucket_cnt h \<and> 1 \<le> c' \<and>
        c' \<le> length (buckets h ! b') \<and> buckets h ! b' ! (c' - 1) = e \<and> ahead h b' (c' + 1) = es"
    using Suc.prems by (intro next_bucket_ahead [OF l]) auto
  show ?case
  proof (cases "ahead h b (c + 1)")
    case Nil
    then show ?thesis using nx by (simp add: hash_next_def cell_elem_def)
  next
    case (Cons e es)
    then obtain b' c' where n: "next_bucket h b (c + 1) = \<lparr>it_bucket = b', it_elem = Some c'\<rparr>" "b' < bucket_cnt h"
      "1 \<le> c'" "c' \<le> length (buckets h ! b')" "buckets h ! b' ! (c' - 1) = e" "ahead h b' (c' + 1) = es"
      using nx by auto
    have "collect n h \<lparr>it_bucket = b', it_elem = Some c'\<rparr> = Some es"
      using Suc.IH [OF n(2,4)] Suc.prems(3) Cons n(6) by simp
    then show ?thesis using n Cons by (simp add: hash_next_def cell_elem_def)
  qed
qed simp

subsection \<open>Visiting and clearing\<close>

lemma apply_bucket_fold: "apply_bucket f b w = fold f b w"
  by (induction b arbitrary: w) simp_all

lemma concat_empties: "concat (map (\<lambda>_. []) bs) = []"
  by (induction bs) simp_all

lemma hash_apply_fold:
  assumes l: "length (buckets h) = bucket_cnt h"
  shows "hash_apply h f w = Some (fold f (elems h) w)"
proof -
  have "\<exists>w'. hash_apply h f w = Some w' \<and> w' = fold f (concat (take (bucket_cnt h) (buckets h))) w"
    unfolding hash_apply_def
    by (rule for_range_rule [where I = "\<lambda>i w'. w' = fold f (concat (take i (buckets h))) w"])
      (auto simp: l apply_bucket_fold take_Suc_conv_app_nth)
  then show ?thesis using l by simp
qed

lemma hash_string_bytes: "0 \<notin> set bs \<Longrightarrow> hash_string (bs @ 0 # rest) = Some (hash_bytes bs)"
proof -
  have "0 \<notin> set bs \<Longrightarrow> fnv_string (bs @ 0 # rest) v = Some (fnv bs v)" for v
    by (induction bs arbitrary: v) auto
  then show "0 \<notin> set bs \<Longrightarrow> hash_string (bs @ 0 # rest) = Some (hash_bytes bs)"
    by (simp add: hash_string_def hash_bytes_def)
qed

subsection \<open>Properties\<close>

text \<open>
  C11: a hash table refines a finite map. Start from \<^verbatim>\<open>hash_init\<close> with a hash of the elements'
  key and the order of the keys, and do any sequence of insertions, replacements, look-ups
  and deletions, whether or not \<^verbatim>\<open>malloc\<close> finds room for new buckets: no operation fails, every
  result is the one the map from keys to elements gives, and at the end the size is the
  number of keys and every look-up agrees with the map.
\<close>

theorem hash_ops_refine:
  fixes key :: "'e \<Rightarrow> 'k::linorder"
  assumes "hash_init malloc_ok (\<lambda>e. H (key e)) (\<lambda>a b. key a < key b) = Some h"
  shows "\<exists>h'. table_ops h xs = Some (h', snd (spec_ops key Map.empty (map snd xs))) \<and>
    hash_size h' = card (dom (fst (spec_ops key Map.empty (map snd xs)))) \<and>
    (\<forall>e. hash_find h' e = fst (spec_ops key Map.empty (map snd xs)) (key e))"
proof -
  let ?ok = "table_ok (\<lambda>e. H (key e)) (\<lambda>a b. key a < key b) key"
  from keyed.hash_init_ok [OF assms] have h: "?ok h" "table_map key h = Map.empty" by simp_all
  from keyed.table_ops_refine [OF h(1), of xs] obtain h' where
    "table_ops h xs = Some (h', snd (spec_ops key Map.empty (map snd xs)))" "?ok h'"
    "table_map key h' = fst (spec_ops key Map.empty (map snd xs))" unfolding h(2) by blast
  then show ?thesis using keyed.size_card [of H key h'] keyed.hash_find_table [of H key h'] by simp
qed

theorem hash_ops_refine_witness:
  "\<exists>h h'. hash_init (\<lambda>n. n = 64) (\<lambda>e :: nat \<times> nat. word_of_nat (fst e)) (\<lambda>a b. fst a < fst b) = Some h \<and>
    table_ops h [(\<lambda>n. True, Insert (5, 1)), (\<lambda>n. False, Insert (9, 2)), (\<lambda>n. True, Insert (5, 3)),
      (\<lambda>n. True, Replace (9, 4)), (\<lambda>n. True, Delete (5, 0))] = Some (h', [None, None, Some (5, 1), Some (9, 2), Some (5, 1)]) \<and>
    hash_find h' (9, 0) = Some (9, 4)"
proof -
  have "\<exists>h. hash_init (\<lambda>n. n = 64) (\<lambda>e :: nat \<times> nat. word_of_nat (fst e)) (\<lambda>a b. fst a < fst b) = Some h"
    by (simp add: hash_init_def SIZEOF_LIST_def Let_def)
  then obtain h where h: "hash_init (\<lambda>n. n = 64) (\<lambda>e :: nat \<times> nat. word_of_nat (fst e)) (\<lambda>a b. fst a < fst b) = Some h" ..
  from hash_ops_refine [OF h, of "[(\<lambda>n. True, Insert (5, 1)), (\<lambda>n. False, Insert (9, 2)), (\<lambda>n. True, Insert (5, 3)),
      (\<lambda>n. True, Replace (9, 4)), (\<lambda>n. True, Delete (5, 0))]"] h
  show ?thesis by auto
qed

text \<open>
  C23: \<^verbatim>\<open>rehash\<close> terminates with the right number of buckets. On a table that satisfies the
  invariant it returns, keeps the invariant, the map and the size, and, if \<^verbatim>\<open>malloc\<close> succeeds, the number of buckets is
  a power of two, at least four, not above half the number of elements (or four), and
  there are fewer than four elements per bucket on average.
\<close>

theorem rehash_bucket_count:
  assumes "hash_ok key h"
  shows "\<exists>h'. rehash (\<lambda>_. True) h = Some h' \<and> hash_ok key h' \<and> table_map key h' = table_map key h \<and>
    hash_size h' = hash_size h \<and> (\<exists>k. bucket_cnt h' = 2 ^ k) \<and> 4 \<le> bucket_cnt h' \<and>
    bucket_cnt h' \<le> max 4 (hash_size h div 2) \<and> hash_size h < 4 * bucket_cnt h'"
proof -
  obtain h' b where h': "rehash (\<lambda>_. True) h = Some h'" "hash_ok key h'" "table_map key h' = table_map key h"
    "elem_count h' = elem_count h" "ideal_buckets (elem_count h) b" "bucket_cnt h' = b"
    using rehash_ok [OF assms, of "\<lambda>_. True"] by metis
  obtain k where k: "b = 2 ^ k" "b \<le> max 4 (elem_count h div 2)" "max 4 (elem_count h div 2) < 2 * b"
    using h'(5) by (auto simp: ideal_buckets_def)
  have "4 \<le> b"
  proof (rule ccontr)
    assume "\<not> 4 \<le> b"
    then have "(2::nat) ^ k < 2 ^ 2" using k(1) by simp
    then have "k < 2" using power_less_imp_less_exp by (metis one_less_numeral_iff semiring_norm(76))
    then have "k = 0 \<or> k = 1" by auto
    then show False using k by auto
  qed
  then show ?thesis using h' k by (auto simp: hash_size_def)
qed

theorem rehash_bucket_count_witness:
  "\<exists>h'. rehash (\<lambda>_. True) \<lparr>elem_count = 5, bucket_cnt = 1, buckets = [[1, 2, 3, 4, 5]], hash_fn = word_of_nat, less_fn = (<)\<rparr> = Some h' \<and>
    hash_size h' = 5 \<and> 4 \<le> bucket_cnt h'"
proof -
  let ?h = "\<lparr>elem_count = 5, bucket_cnt = 1, buckets = [[1, 2, 3, 4, 5]], hash_fn = word_of_nat, less_fn = (<)\<rparr> :: nat hash_table"
  have "hash_ok id ?h" by (auto simp: hash_ok_def placed_def find_bucket_def intro: exI [of _ 0])
  from rehash_bucket_count [OF this] show ?thesis by (auto simp: hash_size_def)
qed

text \<open>
  An iteration visits every element exactly once. \<^verbatim>\<open>hash_first\<close> followed by calls of
  \<^verbatim>\<open>hash_next\<close> until it returns a null pointer, which takes one call more than there are
  elements, returns each element of the table once, bucket by bucket.
\<close>

theorem hash_iteration_complete:
  assumes "hash_ok key h"
  shows "collect (hash_size h + 1) h (hash_first h) = Some (concat (buckets h)) \<and> distinct (concat (buckets h)) \<and>
    length (concat (buckets h)) = hash_size h"
proof -
  note l = hash_okD(1) [OF assms]
  have pos: "0 < bucket_cnt h" using assms by (auto simp: hash_ok_def)
  have "ahead h 0 1 = concat (buckets h)" using l pos by (cases "buckets h") (simp_all add: ahead_def)
  moreover have "collect (hash_size h + 1) h \<lparr>it_bucket = 0, it_elem = Some 0\<rparr> = Some (ahead h 0 (0 + 1))"
    by (rule collect_ahead [OF l pos]) (use calculation hash_okD(2) [OF assms] in \<open>simp_all add: hash_size_def\<close>)
  ultimately show ?thesis using hash_okD(2,3) [OF assms] by (simp add: hash_first_def hash_size_def distinct_map)
qed

theorem hash_iteration_complete_witness:
  "collect 4 \<lparr>elem_count = 3, bucket_cnt = 2, buckets = [[4, 2], [7]], hash_fn = word_of_nat, less_fn = (<)\<rparr>
     (hash_first \<lparr>elem_count = 3, bucket_cnt = 2, buckets = [[4, 2], [7]], hash_fn = word_of_nat, less_fn = (<)\<rparr>) =
   Some [4, 2, 7 :: nat]"
proof -
  let ?h = "\<lparr>elem_count = 3, bucket_cnt = 2, buckets = [[4, 2], [7]], hash_fn = word_of_nat, less_fn = (<)\<rparr> :: nat hash_table"
  have "hash_ok id ?h" by (auto simp: hash_ok_def placed_def find_bucket_def less_Suc_eq intro: exI [of _ 1])
  from hash_iteration_complete [OF this] show ?thesis by (simp add: hash_size_def)
qed

text \<open>
  \<^verbatim>\<open>hash_apply\<close> and \<^verbatim>\<open>hash_clear\<close> visit every element exactly once. Both call the given
  function on the elements of the table in the order of the buckets, which never names an element
  twice; \<^verbatim>\<open>hash_apply\<close> leaves the table as it is, and \<^verbatim>\<open>hash_clear\<close> leaves an empty table that
  satisfies the invariant.
\<close>

theorem hash_apply_clear_correct:
  assumes "hash_ok key h"
  shows "hash_apply h f w = Some (fold f (concat (buckets h)) w) \<and> distinct (concat (buckets h)) \<and>
    (\<exists>h'. hash_clear h (Some f) w = (h', fold f (concat (buckets h)) w) \<and> hash_ok key h' \<and>
       hash_empty h' \<and> table_map key h' = Map.empty)"
proof -
  note ok = hash_okD [OF assms]
  show ?thesis using assms ok(3) hash_apply_fold [OF ok(1)]
    by (auto simp: hash_clear_def clear_buckets_eq concat_empties hash_ok_def placed_def hash_empty_def table_map_def distinct_map)
qed

theorem hash_apply_clear_correct_witness:
  "hash_apply \<lparr>elem_count = 3, bucket_cnt = 2, buckets = [[4, 2], [7]], hash_fn = word_of_nat, less_fn = (<)\<rparr>
     (\<lambda>e xs. xs @ [e]) [] = Some [4, 2, 7 :: nat]"
proof -
  let ?h = "\<lparr>elem_count = 3, bucket_cnt = 2, buckets = [[4, 2], [7]], hash_fn = word_of_nat, less_fn = (<)\<rparr> :: nat hash_table"
  have "hash_ok id ?h" by (auto simp: hash_ok_def placed_def find_bucket_def less_Suc_eq intro: exI [of _ 1])
  from hash_apply_clear_correct [OF this, of "\<lambda>e xs. xs @ [e]" "[]"] show ?thesis by simp
qed

end
