(* ===== verification/Arithmetic.thy ===== *)
theory Arithmetic
  imports Pintos_Prelude "HOL-Library.Signed_Division"
begin

unbundle bit_operations_syntax

section \<open>64-bit division on a 32-bit machine (lib/arithmetic.c)\<close>

text \<open>
  The division routines the compiler calls for 64-bit operands. Signed operands are words read
  in two's complement. \<open>divl\<close> is the processor's instruction: \<open>None\<close> is a divide error, for a
  zero divisor or a quotient that needs more than 32 bits. The theorems show that no divide
  error occurs for a nonzero divisor, and that the results are those of integer division.
\<close>

definition divl :: "u64 \<Rightarrow> u32 \<Rightarrow> u32 option" where
  "divl n d = (if d = 0 \<or> unat n div unat d \<ge> 2 ^ 32 then None else Some (word_of_nat (unat n div unat d)))"

definition nlz :: "u32 \<Rightarrow> nat" where
  "nlz x =
     (let n = 0;
          (n, x) = (if x \<le> 0x0000FFFF then (n + 16, push_bit 16 x) else (n, x));
          (n, x) = (if x \<le> 0x00FFFFFF then (n + 8, push_bit 8 x) else (n, x));
          (n, x) = (if x \<le> 0x0FFFFFFF then (n + 4, push_bit 4 x) else (n, x));
          (n, x) = (if x \<le> 0x3FFFFFFF then (n + 2, push_bit 2 x) else (n, x));
          n = (if x \<le> 0x7FFFFFFF then n + 1 else n)
      in n)"

definition udiv64 :: "u64 \<Rightarrow> u64 \<Rightarrow> u64 option" where
  "udiv64 n d =
     (if drop_bit 32 d = 0 then do {
        let b = push_bit 32 1;
        let n1 = (ucast (drop_bit 32 n) :: u32);
        let n0 = (ucast n :: u32);
        let d0 = (ucast d :: u32);
        _ \<leftarrow> ASSERT (d0 \<noteq> 0);
        q \<leftarrow> divl (b * ucast (n1 mod d0) + ucast n0) d0;
        Some (ucast q + b * ucast (n1 div d0)) }
      else if n < d then Some 0
      else do {
        let d1 = (ucast (drop_bit 32 d) :: u32);
        let s = nlz d1;
        q \<leftarrow> divl (drop_bit 1 n) (ucast (drop_bit 32 (push_bit s d)));
        let q = (ucast (drop_bit (31 - s) q) :: u64);
        Some (if n - (q - 1) * d < d then q - 1 else q) })"

definition umod64 :: "u64 \<Rightarrow> u64 \<Rightarrow> u32 option" where
  "umod64 n d = do { q \<leftarrow> udiv64 n d; Some (ucast (n - d * q)) }"

definition sdiv64 :: "u64 \<Rightarrow> u64 \<Rightarrow> u64 option" where
  "sdiv64 n d = do {
     let n_abs = (if 0 \<le> sint n then n else - n);
     let d_abs = (if 0 \<le> sint d then d else - d);
     q_abs \<leftarrow> udiv64 n_abs d_abs;
     Some (if (sint n < 0) = (sint d < 0) then q_abs else - q_abs) }"

definition smod64 :: "u64 \<Rightarrow> u64 \<Rightarrow> u32 option" where
  "smod64 n d = do { q \<leftarrow> sdiv64 n d; Some (ucast (n - d * q)) }"

text \<open>The routines GCC calls; a 32-bit remainder is widened, with its sign where it has one.\<close>

definition divdi3 :: "u64 \<Rightarrow> u64 \<Rightarrow> u64 option" where
  "divdi3 n d = sdiv64 n d"

definition moddi3 :: "u64 \<Rightarrow> u64 \<Rightarrow> u64 option" where
  "moddi3 n d = map_option scast (smod64 n d)"

definition udivdi3 :: "u64 \<Rightarrow> u64 \<Rightarrow> u64 option" where
  "udivdi3 n d = udiv64 n d"

definition umoddi3 :: "u64 \<Rightarrow> u64 \<Rightarrow> u64 option" where
  "umoddi3 n d = map_option ucast (umod64 n d)"

subsection \<open>Leading zeros\<close>

text \<open>One step of \<^verbatim>\<open>nlz\<close>: what is shifted out is zero.\<close>

lemma unat_shift_up:
  assumes "unat (x :: u32) < 2 ^ (32 - k)" and "k \<le> 32"
  shows "unat (push_bit k x) = 2 ^ k * unat x"
proof -
  have "2 ^ k * unat x < 2 ^ k * 2 ^ (32 - k)" using assms by simp
  also have "\<dots> = 2 ^ 32" using assms(2) by (metis power_add le_add_diff_inverse)
  finally have "take_bit 32 (2 ^ k * unat x) = 2 ^ k * unat x" by (intro take_bit_nat_eq_self)
  then show ?thesis by (simp only: unsigned_push_bit_eq) (simp add: push_bit_eq_mult mult.commute)
qed

definition norm_step :: "nat \<Rightarrow> nat \<times> u32 \<Rightarrow> nat \<times> u32" where
  "norm_step k p = (if unat (snd p) < 2 ^ (32 - k) then (fst p + k, push_bit k (snd p)) else p)"

lemma nlz_steps:
  "nlz x = (let p = norm_step 2 (norm_step 4 (norm_step 8 (norm_step 16 (0, x))))
            in if unat (snd p) < 2 ^ 31 then fst p + 1 else fst p)"
  by (simp add: nlz_def norm_step_def word_le_nat_alt Let_def less_Suc_eq_le)

lemma norm_step_ok:
  assumes p: "unat (snd p) = 2 ^ fst p * unat (x :: u32)" "x \<noteq> 0" "fst p + k \<le> 31" "0 < k"
    and lo: "2 ^ (32 - 2 * k) \<le> unat (snd p)"
  shows "unat (snd (norm_step k p)) = 2 ^ fst (norm_step k p) * unat x \<and>
    2 ^ (32 - k) \<le> unat (snd (norm_step k p)) \<and> fst (norm_step k p) \<le> fst p + k"
proof (cases "unat (snd p) < 2 ^ (32 - k)")
  case True
  have k: "k \<le> 31" using p(3) by simp
  have "unat (push_bit k (snd p)) = 2 ^ k * unat (snd p)" using True k by (intro unat_shift_up) auto
  moreover have "2 ^ (32 - k) \<le> 2 ^ k * unat (snd p)"
  proof -
    have "32 - k \<le> k + (32 - 2 * k)" by simp
    then have "(2::nat) ^ (32 - k) \<le> 2 ^ (k + (32 - 2 * k))" by (rule power_increasing) simp
    also have "\<dots> \<le> 2 ^ k * unat (snd p)" using lo by (simp add: power_add)
    finally show ?thesis .
  qed
  ultimately show ?thesis using True p(1) by (simp add: norm_step_def power_add mult.assoc mult.left_commute)
next
  case False
  then show ?thesis using p by (simp add: norm_step_def)
qed

lemma power_split: "k \<le> m \<Longrightarrow> (2::nat) ^ m = 2 ^ k * 2 ^ (m - k)"
  by (metis power_add le_add_diff_inverse)

lemma nlz_bounds:
  assumes "(x :: u32) \<noteq> 0"
  shows "nlz x \<le> 31" and "2 ^ (31 - nlz x) \<le> unat x" and "unat x < 2 ^ (32 - nlz x)"
proof -
  define p1 where "p1 = norm_step 16 (0, x)"
  define p2 where "p2 = norm_step 8 p1"
  define p3 where "p3 = norm_step 4 p2"
  define p4 where "p4 = norm_step 2 p3"
  have x1: "1 \<le> unat x" using assms by (simp add: unat_gt_0 Suc_le_eq)
  have p1: "unat (snd p1) = 2 ^ fst p1 * unat x" "2 ^ 16 \<le> unat (snd p1)" "fst p1 \<le> 16"
    using norm_step_ok [of "(0, x)" x 16] assms x1 by (simp_all add: p1_def)
  have p2: "unat (snd p2) = 2 ^ fst p2 * unat x" "2 ^ 24 \<le> unat (snd p2)" "fst p2 \<le> 24"
    using norm_step_ok [of p1 x 8] assms p1 by (simp_all add: p2_def)
  have p3: "unat (snd p3) = 2 ^ fst p3 * unat x" "2 ^ 28 \<le> unat (snd p3)" "fst p3 \<le> 28"
    using norm_step_ok [of p2 x 4] assms p2 by (simp_all add: p3_def)
  have p4: "unat (snd p4) = 2 ^ fst p4 * unat x" "2 ^ 30 \<le> unat (snd p4)" "fst p4 \<le> 30"
    using norm_step_ok [of p3 x 2] assms p3 by (simp_all add: p4_def)
  have n: "nlz x = (if unat (snd p4) < 2 ^ 31 then fst p4 + 1 else fst p4)"
    by (simp add: nlz_steps p4_def p3_def p2_def p1_def Let_def)
  show le: "nlz x \<le> 31" using n p4(3) by simp
  have top: "unat (snd p4) < 2 ^ 32" using unsigned_less [of "snd p4"] by simp
  have v: "2 ^ 31 \<le> 2 ^ nlz x * unat x" "2 ^ nlz x * unat x < 2 ^ 32"
    using n p4 top by (auto simp: mult_ac split: if_splits)
  have s: "(2::nat) ^ 31 = 2 ^ nlz x * 2 ^ (31 - nlz x)" "(2::nat) ^ 32 = 2 ^ nlz x * 2 ^ (32 - nlz x)"
    by (rule power_split, use le in simp)+
  show "2 ^ (31 - nlz x) \<le> unat x" using v(1) unfolding s(1) by simp
  show "unat x < 2 ^ (32 - nlz x)" using v(2) unfolding s(2) by simp
qed

subsection \<open>The estimate of the quotient\<close>

lemma quotient_estimate:
  fixes n d s :: nat
  assumes s: "s \<le> 31" and d: "2 ^ (63 - s) \<le> d" "d < 2 ^ (64 - s)" and n: "d \<le> n" "n < 2 ^ 64"
  defines "V \<equiv> d div 2 ^ (32 - s)"
  shows "2 ^ 31 \<le> V" and "V < 2 ^ 32" and "n div 2 div V < 2 ^ 32"
    and "n div 2 div V div 2 ^ (31 - s) = n div d \<or> n div 2 div V div 2 ^ (31 - s) = n div d + 1"
proof -
  let ?w = "(2::nat) ^ (32 - s)"
  have w63: "(2::nat) ^ (63 - s) = 2 ^ 31 * ?w" "(2::nat) ^ (64 - s) = 2 ^ 32 * ?w"
  proof -
    have e: "63 - s - 31 = 32 - s" "64 - s - 32 = 32 - s" using s by linarith+
    show "(2::nat) ^ (63 - s) = 2 ^ 31 * ?w" "(2::nat) ^ (64 - s) = 2 ^ 32 * ?w"
      using s power_split [of 31 "63 - s", unfolded e] power_split [of 32 "64 - s", unfolded e] by auto
  qed
  show V1: "2 ^ 31 \<le> V" using d(1) unfolding w63 V_def by (simp add: less_eq_div_iff_mult_less_eq)
  show V2: "V < 2 ^ 32" using d(2) unfolding w63 V_def by (simp add: div_less_iff_less_mult)
  have "n div 2 < 2 ^ 63" using n(2) by auto
  also have "(2::nat) ^ 63 \<le> 2 ^ 32 * V" using V1 by simp
  finally show "n div 2 div V < 2 ^ 32" using V1 by (simp add: div_less_iff_less_mult)
  define D where "D = V * ?w"
  have "32 - s - 1 = 31 - s" by simp
  then have w: "?w = 2 * 2 ^ (31 - s)" using s power_split [of 1 "32 - s"] by simp
  have q: "n div 2 div V div 2 ^ (31 - s) = n div D"
    unfolding D_def w by (simp add: div_mult2_eq [symmetric] mult_ac)
  have D: "D \<le> d" "d < D + ?w" unfolding D_def V_def
    using dividend_less_div_times [of ?w d] by (simp_all add: div_times_less_eq_dividend mult.commute)
  have D0: "0 < D" using V1 by (simp add: D_def)
  have up: "n div d \<le> n div D" using div_le_mono2 [OF D0 D(1)] .
  have d0: "0 < d" by (rule less_le_trans [OF _ d(1)]) simp
  have Q: "n div d < 2 ^ (s + 1)"
  proof -
    have "n < 2 ^ 64" by (rule n(2))
    also have "(2::nat) ^ 64 = 2 ^ (s + 1) * 2 ^ (63 - s)" using power_split [of "s + 1" 64] s by simp
    also have "\<dots> \<le> 2 ^ (s + 1) * d" using d(1) by simp
    finally show ?thesis using d0 by (simp add: div_less_iff_less_mult mult.commute del: power_Suc)
  qed
  have "(n div d + 1) * (d - D) \<le> 2 ^ (s + 1) * (?w - 1)"
    using Q D(2) by (intro mult_le_mono) auto
  also have "\<dots> = 2 ^ 33 - 2 ^ (s + 1)" using power_split [of "s + 1" 33] s by (simp add: diff_mult_distrib2)
  also have "\<dots> \<le> 2 ^ (63 - s)"
  proof (cases "s = 31")
    case False
    then have "33 \<le> 63 - s" using s by simp
    then have "(2::nat) ^ 33 \<le> 2 ^ (63 - s)" by (rule power_increasing) simp
    then show ?thesis by linarith
  qed simp
  also have "(2::nat) ^ (63 - s) \<le> D" unfolding w63 D_def using V1 by (intro mult_le_mono1)
  finally have gap: "(n div d + 1) * (d - D) \<le> D" .
  have "n < (n div d + 1) * d" using d0 by (simp add: dividend_less_times_div mult.commute)
  also have "\<dots> = (n div d + 1) * D + (n div d + 1) * (d - D)" using D(1) by (simp add: distrib_left [symmetric])
  also have "\<dots> \<le> (n div d + 2) * D" using gap by simp
  finally have "n div D < n div d + 2" using D0 by (simp add: div_less_iff_less_mult)
  then show "n div 2 div V div 2 ^ (31 - s) = n div d \<or> n div 2 div V div 2 ^ (31 - s) = n div d + 1"
    using up unfolding q by linarith
qed

subsection \<open>Unsigned division\<close>

lemma unat_sum: "unat (a :: u64) = x \<Longrightarrow> unat b = y \<Longrightarrow> x + y < 2 ^ 64 \<Longrightarrow> unat (a + b) = x + y"
  by (simp add: unat_word_ariths)

lemma unat_prod: "unat (a :: u64) = x \<Longrightarrow> unat b = y \<Longrightarrow> x * y < 2 ^ 64 \<Longrightarrow> unat (a * b) = x * y"
  by (simp add: unat_word_ariths)

lemma unat_less: "unat (v :: u32) < 2 ^ 32" "unat (w :: u64) < 2 ^ 64"
  using unsigned_less [of v, where 'a = nat] unsigned_less [of w, where 'a = nat] by simp_all

lemma unat_low: "unat (ucast (w :: u64) :: u32) = unat w mod 2 ^ 32"
  by (simp add: unsigned_ucast_eq take_bit_eq_mod)

lemma unat_shr: "unat (drop_bit k (w :: 'a::len word)) = unat w div 2 ^ k"
  unfolding unat_drop_bit_eq by (simp add: drop_bit_eq_div)

lemma high_zero: "drop_bit 32 (d :: u64) = 0 \<longleftrightarrow> unat d < 2 ^ 32"
  using unat_shr [of 32 d] by (auto simp: word_unat_eq_iff [of "drop_bit 32 d"] div_eq_0_iff)

lemma unat_high: "unat (ucast (drop_bit 32 (w :: u64)) :: u32) = unat w div 2 ^ 32"
proof -
  have "unat (drop_bit 32 w) = unat w div 2 ^ 32" by (rule unat_shr)
  moreover have "unat w div 2 ^ 32 < 2 ^ 32" using unat_less(2) [of w] by (simp add: div_less_iff_less_mult)
  ultimately show ?thesis by (simp add: unat_low)
qed

lemma unat_widen: "unat (ucast (w :: u32) :: u64) = unat w"
  using unat_less(1) [of w] by (simp add: unsigned_ucast_eq take_bit_nat_eq_self)

text \<open>The identity in the comment of \<^verbatim>\<open>udiv64\<close>.\<close>

lemma long_division:
  assumes D: "0 < D"
  shows "N div D = (b * (N div b mod D) + N mod b) div D + b * (N div b div (D::nat))"
proof -
  define h q r where "h = N div b" and "q = N div b div D" and "r = N div b mod D"
  have h: "h = D * q + r" by (simp add: h_def q_def r_def)
  have "N = b * h + N mod b" by (simp add: h_def)
  also have "\<dots> = b * r + N mod b + D * (b * q)" unfolding h by (simp add: distrib_left mult_ac)
  finally have "N div D = (b * r + N mod b + D * (b * q)) div D" by simp
  also have "\<dots> = (b * r + N mod b) div D + b * q" using D by simp
  finally show ?thesis unfolding q_def r_def by simp
qed

lemma udiv64_small:
  assumes d: "d \<noteq> 0" "unat d < 2 ^ 32"
  shows "\<exists>q. udiv64 n d = Some q \<and> unat q = unat n div unat d"
proof -
  let ?N = "unat n" and ?D = "unat d"
  define n1 n0 d0 where "n1 = (ucast (drop_bit 32 n) :: u32)" and "n0 = (ucast n :: u32)" and "d0 = (ucast d :: u32)"
  have v: "unat n1 = ?N div 2 ^ 32" "unat n0 = ?N mod 2 ^ 32" "unat d0 = ?D"
    unfolding n1_def n0_def d0_def by (rule unat_high, rule unat_low) (use d(2) in \<open>simp add: unat_low\<close>)
  have D: "0 < ?D" using d(1) by (simp add: unat_gt_0)
  then have d0: "d0 \<noteq> 0" using v(3) by auto
  have b: "unat (push_bit 32 1 :: u64) = 2 ^ 32" by simp
  let ?m = "2 ^ 32 * (?N div 2 ^ 32 mod ?D) + ?N mod 2 ^ 32"
  have "?N div 2 ^ 32 mod ?D + 1 \<le> ?D" using D by (simp add: Suc_le_eq)
  then have "2 ^ 32 * (?N div 2 ^ 32 mod ?D + 1) \<le> 2 ^ 32 * ?D" by (rule mult_le_mono2)
  moreover have "?N mod 2 ^ 32 < 2 ^ 32" by simp
  ultimately have mlt: "?m < 2 ^ 32 * ?D" unfolding distrib_left by linarith
  also have "\<dots> \<le> 2 ^ 64" using d(2) by simp
  finally have m64: "?m < 2 ^ 64" .
  define x where "x = push_bit 32 1 * ucast (n1 mod d0) + (ucast n0 :: u64)"
  have "unat (ucast (n1 mod d0) :: u64) = ?N div 2 ^ 32 mod ?D" by (simp only: unat_widen unat_mod_distrib v)
  then have px: "unat (push_bit 32 1 * ucast (n1 mod d0) :: u64) = 2 ^ 32 * (?N div 2 ^ 32 mod ?D)"
    using m64 by (intro unat_prod b) linarith+
  have x: "unat x = ?m" unfolding x_def using m64 by (intro unat_sum px) (simp_all only: unat_widen v)
  have qlt: "?m div ?D < 2 ^ 32" using mlt D by (simp add: div_less_iff_less_mult mult.commute)
  have q: "divl x d0 = Some (word_of_nat (?m div ?D))" using d0 qlt by (simp add: divl_def x v)
  have uq: "unat (ucast (word_of_nat (?m div ?D) :: u32) :: u64) = ?m div ?D"
    using qlt by (simp only: unat_widen) (simp add: unat_of_nat)
  have N: "?N div ?D = ?m div ?D + 2 ^ 32 * (?N div 2 ^ 32 div ?D)" by (rule long_division [OF D])
  have "?N div ?D \<le> ?N" by simp
  then have r64: "?m div ?D + 2 ^ 32 * (?N div 2 ^ 32 div ?D) < 2 ^ 64" using N unat_less(2) [of n] by simp
  have "unat (ucast (n1 div d0) :: u64) = ?N div 2 ^ 32 div ?D" by (simp only: unat_widen unat_div_distrib v)
  then have pr: "unat (push_bit 32 1 * ucast (n1 div d0) :: u64) = 2 ^ 32 * (?N div 2 ^ 32 div ?D)"
    using r64 by (intro unat_prod b) linarith+
  have "unat (ucast (word_of_nat (?m div ?D) :: u32) + push_bit 32 1 * ucast (n1 div d0) :: u64) = ?N div ?D"
    unfolding N using r64 by (intro unat_sum uq pr)
  moreover have "drop_bit 32 d = 0" using d(2) by (simp only: high_zero)
  ultimately show ?thesis
    using q d0 unfolding x_def n1_def n0_def d0_def by (simp add: udiv64_def Let_def)
qed

lemma udiv64_large:
  assumes d: "2 ^ 32 \<le> unat d"
  shows "\<exists>q. udiv64 n d = Some q \<and> unat q = unat n div unat d"
proof (cases "n < d")
  case True
  have "drop_bit 32 d \<noteq> 0" using d by (simp only: high_zero not_less)
  then show ?thesis using True by (simp add: udiv64_def word_less_nat_alt)
next
  case False
  let ?N = "unat n" and ?D = "unat d"
  define d1 s where "d1 = (ucast (drop_bit 32 d) :: u32)" and "s = nlz d1"
  have nd: "?D \<le> ?N" using False by (simp add: word_less_nat_alt)
  have v1: "unat d1 = ?D div 2 ^ 32" unfolding d1_def by (rule unat_high)
  have "0 < unat d1" using d by (simp add: v1 div_greater_zero_iff)
  then have "d1 \<noteq> 0" by auto
  note nl = nlz_bounds [OF this, folded s_def]
  have "(2::nat) ^ (31 - s) * 2 ^ 32 \<le> unat d1 * 2 ^ 32" using nl(2) by simp
  also have "\<dots> \<le> ?D" unfolding v1 by (rule div_times_less_eq_dividend)
  finally have lo: "2 ^ (63 - s) \<le> ?D" using nl(1) power_split [of 32 "63 - s"] by (simp add: mult.commute)
  have "?D < (unat d1 + 1) * 2 ^ 32" unfolding v1 by (simp add: dividend_less_div_times)
  also have "\<dots> \<le> 2 ^ (32 - s) * 2 ^ 32" using nl(3) by (intro mult_le_mono1) simp
  finally have hi: "?D < 2 ^ (64 - s)" using nl(1) power_split [of 32 "64 - s"] by (simp add: mult.commute)
  note est = quotient_estimate [OF nl(1) lo hi nd unat_less(2)]
  define V where "V = ?D div 2 ^ (32 - s)"
  have shl: "unat (push_bit s d) = 2 ^ s * ?D"
  proof -
    have "2 ^ s * ?D < 2 ^ s * 2 ^ (64 - s)" using hi by simp
    also have "\<dots> = 2 ^ 64" using nl(1) power_split [of s 64] by simp
    finally have "take_bit 64 (2 ^ s * ?D) = 2 ^ s * ?D" by (intro take_bit_nat_eq_self)
    then show ?thesis by (simp only: unsigned_push_bit_eq) (simp add: push_bit_eq_mult mult.commute)
  qed
  define v where "v = (ucast (drop_bit 32 (push_bit s d)) :: u32)"
  have uv: "unat v = V"
  proof -
    have "unat v = 2 ^ s * ?D div 2 ^ 32" unfolding v_def unat_high shl ..
    also have "\<dots> = 2 ^ s * ?D div (2 ^ s * 2 ^ (32 - s))" using nl(1) power_split [of s 32] by simp
    finally show ?thesis by (simp add: V_def)
  qed
  have half: "unat (drop_bit 1 n) = ?N div 2" using unat_shr [of 1 n] by simp
  have "v \<noteq> 0" using est(1) uv by (auto simp: V_def)
  then have q0: "divl (drop_bit 1 n) v = Some (word_of_nat (?N div 2 div V))"
    using est(3) unfolding divl_def half uv V_def by simp
  define q where "q = (ucast (drop_bit (31 - s) (word_of_nat (?N div 2 div V) :: u32)) :: u64)"
  have uq: "unat q = ?N div 2 div V div 2 ^ (31 - s)"
    unfolding q_def unat_widen unat_shr using est(3) by (simp add: V_def unat_of_nat)
  let ?Q = "?N div ?D"
  have Q1: "1 \<le> ?Q" using nd d by (simp add: div_greater_zero_iff Suc_le_eq)
  have qQ: "unat q = ?Q \<or> unat q = ?Q + 1" using est(4) unfolding uq V_def .
  then have q1: "unat (q - 1) = unat q - 1" using Q1 by (intro unat_minus_one) auto
  have prod: "unat ((q - 1) * d) = (unat q - 1) * ?D" and le: "(unat q - 1) * ?D \<le> ?N"
  proof -
    have "(unat q - 1) * ?D \<le> ?Q * ?D" using qQ by (intro mult_le_mono1) auto
    also have "\<dots> \<le> ?N" by (rule div_times_less_eq_dividend)
    finally show "(unat q - 1) * ?D \<le> ?N" .
    then show "unat ((q - 1) * d) = (unat q - 1) * ?D" using unat_less(2) [of n]
      by (intro unat_prod q1) linarith+
  qed
  have rest: "unat (n - (q - 1) * d) = ?N - (unat q - 1) * ?D"
    using le by (simp add: unat_sub_if' prod)
  have "unat (if n - (q - 1) * d < d then q - 1 else q) = ?Q"
  proof (cases "unat q = ?Q")
    case True
    have "?D \<le> ?N - (?Q - 1) * ?D"
    proof -
      have "(?Q - 1) * ?D + ?D = ?Q * ?D" using Q1 by (metis add.commute le_add_diff_inverse2 mult_Suc plus_1_eq_Suc)
      then show ?thesis using div_times_less_eq_dividend [of ?N ?D] by linarith
    qed
    then show ?thesis using True by (simp add: word_less_nat_alt rest)
  next
    case False
    then have "unat q = ?Q + 1" using qQ by simp
    moreover have "?N - ?Q * ?D < ?D" using d by (simp add: minus_div_mult_eq_mod)
    ultimately show ?thesis using q1 by (simp add: word_less_nat_alt rest)
  qed
  moreover have "drop_bit 32 d \<noteq> 0" using d by (simp only: high_zero not_less)
  ultimately show ?thesis using False q0
    by (auto simp: udiv64_def Let_def d1_def [symmetric] s_def [symmetric] v_def [symmetric] q_def [symmetric]
        split: if_splits)
qed

lemma udiv64_ok: "d \<noteq> 0 \<Longrightarrow> \<exists>q. udiv64 n d = Some q \<and> unat q = unat n div unat d"
  using udiv64_small [of d n] udiv64_large [of d n] by (cases "unat d < 2 ^ 32") auto

subsection \<open>Signed division and remainders\<close>

lemma sint_bounds: "- (2 ^ 63) \<le> sint (w :: u64)" "sint w < 2 ^ 63"
  using sint_greater_eq [of w] sint_less [of w] by simp_all

lemma uint_sint64: "uint (w :: u64) = (if 0 \<le> sint w then sint w else sint w + 2 ^ 64)"
proof (cases "0 \<le> sint w")
  case True
  then show ?thesis using sint_bounds [of w] by (simp add: uint_sint take_bit_eq_mod)
next
  case False
  have "uint w = sint w mod 2 ^ 64" by (simp add: uint_sint take_bit_eq_mod)
  also have "\<dots> = (sint w + 2 ^ 64) mod 2 ^ 64" by (rule mod_add_self2 [symmetric])
  also have "\<dots> = sint w + 2 ^ 64" using False sint_bounds [of w] by (intro mod_pos_pos_trivial) auto
  finally show ?thesis using False by simp
qed

lemma uint_neg64: "uint (- w :: u64) = (if w = 0 then 0 else 2 ^ 64 - uint w)"
proof (cases "w = 0")
  case False
  have "uint w < 2 ^ 64" using unsigned_less [of w, where 'a = int] by simp
  moreover have "0 < uint w" using False by (simp add: word_neq_0_conv [symmetric] uint_0_iff order.strict_iff_order)
  moreover have "uint (- w) = (- uint w) mod 2 ^ 64" by (simp add: uint_word_ariths)
  ultimately show ?thesis using False by (simp add: zmod_zminus1_eq_if)
qed simp

lemma unat_abs64: "unat (if 0 \<le> sint n then n else - n :: u64) = nat \<bar>sint n\<bar>"
proof (cases "0 \<le> sint n")
  case True
  then have "int (unat n) = sint n" using uint_sint64 [of n] by simp
  then have "nat (int (unat n)) = nat (sint n)" by (rule arg_cong)
  then show ?thesis using True by (simp only: nat_int abs_of_nonneg if_True)
next
  case False
  then have "n \<noteq> 0" by auto
  then have "int (unat (- n)) = - sint n" using False uint_sint64 [of n] uint_neg64 [of n] by simp
  then have "nat (int (unat (- n))) = nat (- sint n)" by (rule arg_cong)
  moreover have "\<bar>sint n\<bar> = - sint n" using False by simp
  ultimately show ?thesis using False by (simp only: nat_int if_False)
qed

lemma sint_pos64: "uint (q :: u64) < 2 ^ 63 \<Longrightarrow> sint q = uint q"
  using uint_sint64 [of q] sint_bounds [of q] by (auto split: if_splits)

lemma sint_neg64: "uint (q :: u64) \<le> 2 ^ 63 \<Longrightarrow> sint (- q) = - uint q"
  using uint_sint64 [of "- q"] sint_bounds [of "- q"] uint_neg64 [of q] by (auto split: if_splits)

lemma sdiv64_ok:
  assumes d: "d \<noteq> 0" and ov: "\<not> (sint n = - (2 ^ 63) \<and> sint d = - 1)"
  shows "\<exists>q. sdiv64 n d = Some q \<and> sint q = sint n sdiv sint d"
proof -
  let ?a = "sint n" and ?c = "sint d"
  define na da where "na = (if 0 \<le> ?a then n else - n)" and "da = (if 0 \<le> ?c then d else - d)"
  have u: "unat na = nat \<bar>?a\<bar>" "unat da = nat \<bar>?c\<bar>" unfolding na_def da_def by (rule unat_abs64)+
  have c0: "?c \<noteq> 0" using d uint_sint64 [of d] by (auto simp: uint_0_iff)
  then have "da \<noteq> 0" using u(2) by auto
  then obtain q where q: "udiv64 na da = Some q" "unat q = unat na div unat da" using udiv64_ok by blast
  have uq: "uint q = \<bar>?a\<bar> div \<bar>?c\<bar>"
  proof -
    have "uint q = int (unat q)" by simp
    also have "\<dots> = \<bar>?a\<bar> div \<bar>?c\<bar>" unfolding q(2) u by (simp add: zdiv_int)
    finally show ?thesis .
  qed
  have le: "\<bar>?a\<bar> div \<bar>?c\<bar> \<le> \<bar>?a\<bar>" using c0 zdiv_mono2 [of "\<bar>?a\<bar>" 1 "\<bar>?c\<bar>"] by simp
  have a63: "\<bar>?a\<bar> \<le> 2 ^ 63" using sint_bounds [of n] by auto
  have r: "sdiv64 n d = Some (if (?a < 0) = (?c < 0) then q else - q)"
    using q(1) by (simp add: sdiv64_def na_def da_def)
  show ?thesis
  proof (cases "(?a < 0) = (?c < 0)")
    case True
    have "\<bar>?a\<bar> div \<bar>?c\<bar> < 2 ^ 63"
    proof (cases "\<bar>?c\<bar> = 1")
      case one: True
      then show ?thesis using True ov sint_bounds [of n] c0 by auto
    next
      case False
      then have "\<bar>?a\<bar> div \<bar>?c\<bar> \<le> \<bar>?a\<bar> div 2" using c0 by (intro zdiv_mono2) auto
      then show ?thesis using a63 by auto
    qed
    then have "sint q = \<bar>?a\<bar> div \<bar>?c\<bar>" using sint_pos64 [of q] uq by simp
    then show ?thesis using r True c0 by (auto simp: signed_divide_int_def sgn_if)
  next
    case False
    then have "sint (- q) = - (\<bar>?a\<bar> div \<bar>?c\<bar>)" using sint_neg64 [of q] uq le a63 by simp
    then show ?thesis using r False c0 by (auto simp: signed_divide_int_def sgn_if)
  qed
qed

lemma umod64_ok:
  assumes "d \<noteq> 0"
  shows "\<exists>r. umod64 n d = Some r \<and> unat r = unat n mod unat d mod 2 ^ 32"
proof -
  obtain q where q: "udiv64 n d = Some q" "unat q = unat n div unat d" using udiv64_ok [OF assms] by blast
  have le: "unat d * (unat n div unat d) \<le> unat n" by simp
  then have p: "unat (d * q) = unat d * (unat n div unat d)" using unat_less(2) [of n] by (intro unat_prod q(2)) linarith+
  have "unat (n - d * q) = unat n mod unat d" using le by (simp add: unat_sub_if' p minus_mult_div_eq_mod)
  then show ?thesis using q(1) by (simp add: umod64_def unat_low)
qed

subsection \<open>Properties\<close>

text \<open>
  C16: unsigned 64-bit division is exact. For every nonzero divisor \<^verbatim>\<open>__udivdi3\<close> returns, which
  means that neither of its \<^verbatim>\<open>divl\<close> instructions raises a divide error, and the result is
  the integer quotient.
\<close>

theorem udivdi3_correct:
  assumes "d \<noteq> 0"
  shows "\<exists>q. udivdi3 n d = Some q \<and> unat q = unat n div unat d"
  using udiv64_ok [OF assms, of n] by (simp add: udivdi3_def)

theorem udivdi3_correct_witness:
  "\<exists>q. udivdi3 0xFFFFFFFFFFFFFFFF 0x1000000010 = Some q \<and> unat q = 18446744073709551615 div 68719476752"
proof -
  have "(0x1000000010 :: u64) \<noteq> 0" by simp
  from udivdi3_correct [OF this, of "0xFFFFFFFFFFFFFFFF"] show ?thesis by simp
qed

text \<open>
  Signed 64-bit division truncates toward zero. For every nonzero divisor, except for the
  one quotient that is not representable, \<^verbatim>\<open>__divdi3\<close> returns the quotient rounded toward zero.
\<close>

theorem divdi3_correct:
  assumes "d \<noteq> 0" and "\<not> (sint n = - (2 ^ 63) \<and> sint d = - 1)"
  shows "\<exists>q. divdi3 n d = Some q \<and> sint q = sint n sdiv sint d"
  using sdiv64_ok [OF assms] by (simp add: divdi3_def)

theorem divdi3_correct_witness: "\<exists>q. divdi3 (- 7) 2 = Some q \<and> sint q = - 3"
proof -
  have "(2 :: u64) \<noteq> 0" "\<not> (sint (- 7 :: u64) = - (2 ^ 63) \<and> sint (2 :: u64) = - 1)" by simp_all
  from divdi3_correct [OF this] show ?thesis by (simp add: signed_divide_int_def)
qed

text \<open>
  C24: the unsigned 64-bit remainder is cut to 32 bits. \<^verbatim>\<open>__umoddi3\<close> returns, but the result is the
  remainder modulo \<open>2 ^ 32\<close>, because \<^verbatim>\<open>umod64\<close> returns a \<^verbatim>\<open>uint32_t\<close>: it is the remainder exactly
  when that is below \<open>2 ^ 32\<close>.
\<close>

theorem umoddi3_low_bits:
  assumes "d \<noteq> 0"
  shows "\<exists>r. umoddi3 n d = Some r \<and> unat r = unat n mod unat d mod 2 ^ 32 \<and>
    (unat r = unat n mod unat d \<longleftrightarrow> unat n mod unat d < 2 ^ 32)"
proof -
  obtain r where "umod64 n d = Some r" "unat r = unat n mod unat d mod 2 ^ 32" using umod64_ok [OF assms] by blast
  then show ?thesis using mod_eq_self_iff_div_eq_0 [of "unat n mod unat d" "2 ^ 32 :: nat"]
    by (simp add: umoddi3_def unat_widen div_eq_0_iff)
qed

theorem umoddi3_low_bits_witness:
  "\<exists>r. umoddi3 0x10000000000 0x20000000000 = Some r \<and> unat r = 0 \<and> (2 ^ 40 :: nat) mod 2 ^ 41 \<noteq> 0"
proof -
  have "(0x20000000000 :: u64) \<noteq> 0" by simp
  from umoddi3_low_bits [OF this, of "0x10000000000"] show ?thesis by auto
qed

end
