(* ===== verification/C_String.thy ===== *)
theory C_String
  imports Pintos_Prelude
begin

section \<open>Memory blocks and strings (lib/string.c)\<close>

text \<open>
  Memory is a function from addresses to bytes, and a pointer an address, 0 being the null
  pointer. A function that writes returns the new memory; \<open>None\<close> is a failed assertion or, for a
  search that runs over memory without a terminator, not returning. A string is a zero-terminated
  run of bytes: \<open>str_at m p s\<close> says that the bytes \<open>s\<close> and then a zero are at \<open>p\<close>. The
  lemmas about each function are in terms of the byte sequences at its arguments.
\<close>

type_synonym memory = "nat \<Rightarrow> u8"

abbreviation (input) NUL :: u8 where "NUL \<equiv> 0"

primrec copy_up :: "nat \<Rightarrow> nat \<Rightarrow> nat \<Rightarrow> memory \<Rightarrow> memory" where
  "copy_up dst src 0 m = m"
| "copy_up dst src (Suc sz) m = copy_up (dst + 1) (src + 1) sz (m(dst := m src))"

definition memcpy :: "nat \<Rightarrow> nat \<Rightarrow> nat \<Rightarrow> memory \<Rightarrow> (memory \<times> nat) option" where
  "memcpy dst src sz m = do {
     _ \<leftarrow> ASSERT (dst \<noteq> 0 \<or> sz = 0);
     _ \<leftarrow> ASSERT (src \<noteq> 0 \<or> sz = 0);
     Some (copy_up dst src sz m, dst) }"

primrec copy_down :: "nat \<Rightarrow> nat \<Rightarrow> nat \<Rightarrow> memory \<Rightarrow> memory" where
  "copy_down dst src 0 m = m"
| "copy_down dst src (Suc sz) m = copy_down dst src sz (m(dst + sz := m (src + sz)))"

definition memmove :: "nat \<Rightarrow> nat \<Rightarrow> nat \<Rightarrow> memory \<Rightarrow> (memory \<times> nat) option" where
  "memmove dst src sz m = do {
     _ \<leftarrow> ASSERT (dst \<noteq> 0 \<or> sz = 0);
     _ \<leftarrow> ASSERT (src \<noteq> 0 \<or> sz = 0);
     if dst < src then Some (copy_up dst src sz m, dst + sz)
     else Some (copy_down dst src sz m, dst) }"

primrec memcmp_loop :: "memory \<Rightarrow> nat \<Rightarrow> nat \<Rightarrow> nat \<Rightarrow> int" where
  "memcmp_loop m a b 0 = 0"
| "memcmp_loop m a b (Suc sz) =
     (if m a \<noteq> m b then if m a > m b then 1 else - 1 else memcmp_loop m (a + 1) (b + 1) sz)"

definition memcmp :: "memory \<Rightarrow> nat \<Rightarrow> nat \<Rightarrow> nat \<Rightarrow> int option" where
  "memcmp m a b sz = do {
     _ \<leftarrow> ASSERT (a \<noteq> 0 \<or> sz = 0);
     _ \<leftarrow> ASSERT (b \<noteq> 0 \<or> sz = 0);
     Some (memcmp_loop m a b sz) }"

partial_function (option) strcmp_loop :: "memory \<Rightarrow> nat \<Rightarrow> nat \<Rightarrow> int option" where
  "strcmp_loop m a b =
     (if m a \<noteq> NUL \<and> m a = m b then strcmp_loop m (a + 1) (b + 1)
      else Some (if m a < m b then - 1 else if m a > m b then 1 else 0))"

definition strcmp :: "memory \<Rightarrow> nat \<Rightarrow> nat \<Rightarrow> int option" where
  "strcmp m a b = do { _ \<leftarrow> ASSERT (a \<noteq> 0); _ \<leftarrow> ASSERT (b \<noteq> 0); strcmp_loop m a b }"

primrec memchr_loop :: "memory \<Rightarrow> nat \<Rightarrow> u8 \<Rightarrow> nat \<Rightarrow> nat option" where
  "memchr_loop m block ch 0 = None"
| "memchr_loop m block ch (Suc sz) = (if m block = ch then Some block else memchr_loop m (block + 1) ch sz)"

text \<open>A function that returns a pointer returns \<open>Some None\<close> for the null pointer.\<close>

definition memchr :: "memory \<Rightarrow> nat \<Rightarrow> u8 \<Rightarrow> nat \<Rightarrow> nat option option" where
  "memchr m block ch sz = do { _ \<leftarrow> ASSERT (block \<noteq> 0 \<or> sz = 0); Some (memchr_loop m block ch sz) }"

partial_function (option) strchr_loop :: "memory \<Rightarrow> nat \<Rightarrow> u8 \<Rightarrow> nat option option" where
  "strchr_loop m string c =
     (if m string = c then Some (Some string)
      else if m string = NUL then Some None
      else strchr_loop m (string + 1) c)"

definition strchr :: "memory \<Rightarrow> nat \<Rightarrow> u8 \<Rightarrow> nat option option" where
  "strchr m string c = do { _ \<leftarrow> ASSERT (string \<noteq> 0); strchr_loop m string c }"

partial_function (option) strcspn_loop :: "memory \<Rightarrow> nat \<Rightarrow> nat \<Rightarrow> nat \<Rightarrow> nat option" where
  "strcspn_loop m string stop len =
     (if m (string + len) \<noteq> NUL then do {
        r \<leftarrow> strchr m stop (m (string + len));
        if r \<noteq> None then Some len else strcspn_loop m string stop (len + 1) }
      else Some len)"

definition strcspn :: "memory \<Rightarrow> nat \<Rightarrow> nat \<Rightarrow> nat option" where
  "strcspn m string stop = strcspn_loop m string stop 0"

partial_function (option) strpbrk :: "memory \<Rightarrow> nat \<Rightarrow> nat \<Rightarrow> nat option option" where
  "strpbrk m string stop =
     (if m string \<noteq> NUL then do {
        r \<leftarrow> strchr m stop (m string);
        if r \<noteq> None then Some (Some string) else strpbrk m (string + 1) stop }
      else Some None)"

partial_function (option) strrchr_loop :: "memory \<Rightarrow> nat \<Rightarrow> u8 \<Rightarrow> nat option \<Rightarrow> nat option option" where
  "strrchr_loop m string c p =
     (if m string \<noteq> NUL then strrchr_loop m (string + 1) c (if m string = c then Some string else p)
      else Some p)"

definition strrchr :: "memory \<Rightarrow> nat \<Rightarrow> u8 \<Rightarrow> nat option option" where
  "strrchr m string c = strrchr_loop m string c None"

partial_function (option) strspn_loop :: "memory \<Rightarrow> nat \<Rightarrow> nat \<Rightarrow> nat \<Rightarrow> nat option" where
  "strspn_loop m string skip len =
     (if m (string + len) \<noteq> NUL then do {
        r \<leftarrow> strchr m skip (m (string + len));
        if r = None then Some len else strspn_loop m string skip (len + 1) }
      else Some len)"

definition strspn :: "memory \<Rightarrow> nat \<Rightarrow> nat \<Rightarrow> nat option" where
  "strspn m string skip = strspn_loop m string skip 0"

partial_function (option) strlen_loop :: "memory \<Rightarrow> nat \<Rightarrow> nat option" where
  "strlen_loop m p = (if m p \<noteq> NUL then strlen_loop m (p + 1) else Some p)"

definition strlen :: "memory \<Rightarrow> nat \<Rightarrow> nat option" where
  "strlen m string = do { _ \<leftarrow> ASSERT (string \<noteq> 0); p \<leftarrow> strlen_loop m string; Some (p - string) }"

definition strstr :: "memory \<Rightarrow> nat \<Rightarrow> nat \<Rightarrow> nat option option" where
  "strstr m haystack needle = do {
     haystack_len \<leftarrow> strlen m haystack;
     needle_len \<leftarrow> strlen m needle;
     if haystack_len \<ge> needle_len
     then map_option (map_option (\<lambda>i. haystack + i))
       (find_range 0 (haystack_len - needle_len + 1)
          (\<lambda>i. map_option (\<lambda>r. r = 0) (memcmp m (haystack + i) needle needle_len)))
     else Some None }"

text \<open>
  The first loop of \<^verbatim>\<open>strtok_r\<close> returns \<open>Inl\<close> the position of the end of the string if only
  delimiters are left, and otherwise \<open>Inr\<close> the start of the token; the second returns the
  token's end.
\<close>

partial_function (option) skip_delimiters :: "memory \<Rightarrow> nat \<Rightarrow> nat \<Rightarrow> (nat + nat) option" where
  "skip_delimiters m delimiters s = do {
     r \<leftarrow> strchr m delimiters (m s);
     if r \<noteq> None then if m s = NUL then Some (Inl s) else skip_delimiters m delimiters (s + 1)
     else Some (Inr s) }"

partial_function (option) skip_token :: "memory \<Rightarrow> nat \<Rightarrow> nat \<Rightarrow> nat option" where
  "skip_token m delimiters s = do {
     r \<leftarrow> strchr m delimiters (m s);
     if r = None then skip_token m delimiters (s + 1) else Some s }"

text \<open>\<open>save_ptr\<close> is the value of the caller's variable; the new value is returned with the token.\<close>

definition strtok_r :: "memory \<Rightarrow> nat \<Rightarrow> nat \<Rightarrow> nat \<Rightarrow> (memory \<times> nat \<times> nat option) option" where
  "strtok_r m s delimiters save_ptr = do {
     _ \<leftarrow> ASSERT (delimiters \<noteq> 0);
     let s = (if s = 0 then save_ptr else s);
     _ \<leftarrow> ASSERT (s \<noteq> 0);
     r \<leftarrow> skip_delimiters m delimiters s;
     case r of Inl s \<Rightarrow> Some (m, s, None)
     | Inr token \<Rightarrow> do {
         s \<leftarrow> skip_token m delimiters token;
         if m s \<noteq> NUL then Some (m(s := NUL), s + 1, Some token) else Some (m, s, Some token) } }"

primrec fill :: "nat \<Rightarrow> u8 \<Rightarrow> nat \<Rightarrow> memory \<Rightarrow> memory" where
  "fill dst v 0 m = m"
| "fill dst v (Suc sz) m = fill (dst + 1) v sz (m(dst := v))"

definition memset :: "nat \<Rightarrow> u8 \<Rightarrow> nat \<Rightarrow> memory \<Rightarrow> (memory \<times> nat) option" where
  "memset dst v sz m = do { _ \<leftarrow> ASSERT (dst \<noteq> 0 \<or> sz = 0); Some (fill dst v sz m, dst) }"

function strnlen_loop :: "memory \<Rightarrow> nat \<Rightarrow> nat \<Rightarrow> nat \<Rightarrow> nat" where
  "strnlen_loop m string maxlen len =
     (if m (string + len) \<noteq> NUL \<and> len < maxlen then strnlen_loop m string maxlen (len + 1) else len)"
  by pat_completeness auto
termination
  by (relation "measure (\<lambda>(m, string, maxlen, len). maxlen - len)") auto

declare strnlen_loop.simps [simp del]

definition strnlen :: "memory \<Rightarrow> nat \<Rightarrow> nat \<Rightarrow> nat" where
  "strnlen m string maxlen = strnlen_loop m string maxlen 0"

definition strlcpy :: "nat \<Rightarrow> nat \<Rightarrow> nat \<Rightarrow> memory \<Rightarrow> (memory \<times> nat) option" where
  "strlcpy dst src sz m = do {
     _ \<leftarrow> ASSERT (dst \<noteq> 0);
     _ \<leftarrow> ASSERT (src \<noteq> 0);
     src_len \<leftarrow> strlen m src;
     if sz > 0 then do {
       let dst_len = sz - 1;
       let dst_len = (if src_len < dst_len then src_len else dst_len);
       (m, _) \<leftarrow> memcpy dst src dst_len m;
       Some (m(dst + dst_len := NUL), src_len) }
     else Some (m, src_len) }"

definition strlcat :: "nat \<Rightarrow> nat \<Rightarrow> nat \<Rightarrow> memory \<Rightarrow> (memory \<times> nat) option" where
  "strlcat dst src sz m = do {
     _ \<leftarrow> ASSERT (dst \<noteq> 0);
     _ \<leftarrow> ASSERT (src \<noteq> 0);
     src_len \<leftarrow> strlen m src;
     dst_len \<leftarrow> strlen m dst;
     if sz > 0 \<and> dst_len < sz then do {
       let copy_cnt = sz - dst_len - 1;
       let copy_cnt = (if src_len < copy_cnt then src_len else copy_cnt);
       (m, _) \<leftarrow> memcpy (dst + dst_len) src copy_cnt m;
       Some (m(dst + dst_len + copy_cnt := NUL), src_len + dst_len) }
     else Some (m, src_len + dst_len) }"

subsection \<open>Blocks\<close>

definition moved :: "nat \<Rightarrow> nat \<Rightarrow> nat \<Rightarrow> memory \<Rightarrow> memory" where
  "moved dst src n m = (\<lambda>a. if dst \<le> a \<and> a < dst + n then m (src + (a - dst)) else m a)"

lemma copy_up_moved:
  "dst \<le> src \<or> src + n \<le> dst \<Longrightarrow> copy_up dst src n m = moved dst src n m"
proof (induction n arbitrary: dst src m)
  case (Suc n)
  let ?m = "m(dst := m src)"
  have "copy_up (dst + 1) (src + 1) n ?m = moved (dst + 1) (src + 1) n ?m" using Suc.prems by (intro Suc.IH) auto
  moreover have "moved (dst + 1) (src + 1) n ?m a = moved dst src (Suc n) m a" for a
  proof -
    consider "a = dst" | "dst < a" "a < dst + Suc n" | "a < dst \<or> dst + Suc n \<le> a" by linarith
    then show ?thesis
    proof cases
      case 2
      then have "src + 1 + (a - (dst + 1)) = src + (a - dst)" "src + (a - dst) \<noteq> dst" using Suc.prems by linarith+
      then show ?thesis using 2 by (simp add: moved_def)
    qed (auto simp: moved_def)
  qed
  ultimately show ?case by (simp add: fun_eq_iff)
qed (auto simp: moved_def fun_eq_iff)

lemma copy_down_moved:
  "src \<le> dst \<or> dst + n \<le> src \<Longrightarrow> copy_down dst src n m = moved dst src n m"
proof (induction n arbitrary: m)
  case (Suc n)
  then show ?case by (auto simp: moved_def fun_eq_iff not_less_eq less_Suc_eq)
qed (auto simp: moved_def fun_eq_iff)

lemma fill_eq: "fill dst v n m = (\<lambda>a. if dst \<le> a \<and> a < dst + n then v else m a)"
  by (induction n arbitrary: dst m) (auto simp: fun_eq_iff)

lemma memcmp_loop_eq0: "memcmp_loop m a b n = 0 \<longleftrightarrow> (\<forall>i < n. m (a + i) = m (b + i))"
  by (induction n arbitrary: a b) (auto simp: All_less_Suc2)

subsection \<open>Strings\<close>

fun str_at :: "memory \<Rightarrow> nat \<Rightarrow> u8 list \<Rightarrow> bool" where
  "str_at m p [] \<longleftrightarrow> m p = NUL"
| "str_at m p (c # s) \<longleftrightarrow> c \<noteq> NUL \<and> m p = c \<and> str_at m (p + 1) s"

lemma str_at_append: "str_at m p (s @ t) \<longleftrightarrow>
  (\<forall>i < length s. m (p + i) = s ! i) \<and> NUL \<notin> set s \<and> str_at m (p + length s) t"
  by (induction s arbitrary: p) (auto simp: All_less_Suc2)

lemma str_at_bytes: "str_at m p s \<longleftrightarrow> (\<forall>i < length s. m (p + i) = s ! i) \<and> NUL \<notin> set s \<and> m (p + length s) = NUL"
  using str_at_append [of m p s "[]"] by simp

lemma str_at_cong: "(\<And>a. p \<le> a \<Longrightarrow> a \<le> p + length s \<Longrightarrow> m' a = m a) \<Longrightarrow> str_at m' p s = str_at m p s"
  by (simp add: str_at_bytes)

lemma strlen_loop_ok: "str_at m p s \<Longrightarrow> strlen_loop m p = Some (p + length s)"
  by (induction s arbitrary: p) (auto simp: strlen_loop.simps)

lemma strlen_ok: "str_at m p s \<Longrightarrow> p \<noteq> 0 \<Longrightarrow> strlen m p = Some (length s)"
  by (simp add: strlen_def strlen_loop_ok)

lemma strchr_loop_ok:
  "str_at m p s \<Longrightarrow> strchr_loop m p c =
    Some (if c \<in> set (s @ [NUL]) then Some (p + length (takeWhile (\<lambda>x. x \<noteq> c) (s @ [NUL]))) else None)"
  by (induction s arbitrary: p) (auto simp: strchr_loop.simps)

lemma strchr_ok:
  "str_at m p s \<Longrightarrow> p \<noteq> 0 \<Longrightarrow> strchr m p c =
    Some (if c \<in> set (s @ [NUL]) then Some (p + length (takeWhile (\<lambda>x. x \<noteq> c) (s @ [NUL]))) else None)"
  by (simp add: strchr_def strchr_loop_ok del: set_append)

lemma strcspn_loop_ok:
  assumes "str_at m d ds" "d \<noteq> 0"
  shows "str_at m (p + n) s \<Longrightarrow> strcspn_loop m p d n = Some (n + length (takeWhile (\<lambda>x. x \<notin> set ds) s))"
proof (induction s arbitrary: n)
  case Nil
  then show ?case by (simp add: strcspn_loop.simps)
next
  case (Cons c s)
  then show ?case using Cons.IH [of "n + 1"] by (subst strcspn_loop.simps) (auto simp: strchr_ok [OF assms])
qed

lemma strspn_loop_ok:
  assumes "str_at m d ds" "d \<noteq> 0"
  shows "str_at m (p + n) s \<Longrightarrow> strspn_loop m p d n = Some (n + length (takeWhile (\<lambda>x. x \<in> set ds) s))"
proof (induction s arbitrary: n)
  case Nil
  then show ?case by (simp add: strspn_loop.simps)
next
  case (Cons c s)
  then show ?case using Cons.IH [of "n + 1"] by (subst strspn_loop.simps) (auto simp: strchr_ok [OF assms])
qed

lemma strpbrk_ok:
  assumes "str_at m d ds" "d \<noteq> 0"
  shows "str_at m p s \<Longrightarrow> strpbrk m p d = Some (if set s \<inter> set ds = {} then None
    else Some (p + length (takeWhile (\<lambda>x. x \<notin> set ds) s)))"
proof (induction s arbitrary: p)
  case Nil
  then show ?case by (simp add: strpbrk.simps)
next
  case (Cons c s)
  then show ?case using Cons.IH [of "p + 1"] by (subst strpbrk.simps) (auto simp: strchr_ok [OF assms])
qed

lemma strrchr_loop_ok:
  "str_at m p s \<Longrightarrow> strrchr_loop m p c r = Some (if c \<in> set s
     then Some (p + (length s - 1 - length (takeWhile (\<lambda>x. x \<noteq> c) (rev s)))) else r)"
proof (induction s arbitrary: p r)
  case Nil
  then show ?case by (simp add: strrchr_loop.simps)
next
  case (Cons x s)
  have "length (takeWhile (\<lambda>y. y \<noteq> c) (rev s)) < length s" if "c \<in> set s"
  proof -
    have "dropWhile (\<lambda>y. y \<noteq> c) (rev s) \<noteq> []" using that by simp
    moreover have "length s = length (takeWhile (\<lambda>y. y \<noteq> c) (rev s)) + length (dropWhile (\<lambda>y. y \<noteq> c) (rev s))"
      by (metis length_append length_rev takeWhile_dropWhile_id)
    ultimately show ?thesis by (metis length_greater_0_conv less_add_same_cancel1)
  qed
  then show ?case using Cons by (subst strrchr_loop.simps) (auto simp: takeWhile_append)
qed

lemma strnlen_loop_ok:
  "str_at m (p + n) s \<Longrightarrow> n \<le> k \<Longrightarrow> strnlen_loop m p k n = min (n + length s) k"
proof (induction s arbitrary: n)
  case Nil
  then show ?case by (simp add: strnlen_loop.simps)
next
  case (Cons c s)
  then show ?case using Cons.IH [of "n + 1"] by (subst strnlen_loop.simps) auto
qed

lemma strcmp_loop_ok:
  "str_at m a s \<Longrightarrow> str_at m b t \<Longrightarrow>
   strcmp_loop m a b = Some (if s = t then 0 else if ord_class.lexordp s t then - 1 else 1)"
proof (induction s arbitrary: a b t)
  case Nil
  then show ?case by (cases t; subst strcmp_loop.simps) (auto simp: word_neq_0_conv)
next
  case (Cons c s)
  show ?case
  proof (cases t)
    case Nil
    then show ?thesis using Cons.prems by (subst strcmp_loop.simps) (auto simp: word_neq_0_conv)
  next
    case (Cons d u)
    then show ?thesis using Cons.prems Cons.IH [of "a + 1" "b + 1" u]
      by (subst strcmp_loop.simps) auto
  qed
qed

subsection \<open>Tokens\<close>

text \<open>
  The specification of \<^verbatim>\<open>strtok_r\<close>: the maximal runs of characters that are not delimiters.
  \<open>tokenize\<close> is the loop of the comment in the code, reading each token where the call
  returns it.
\<close>

function tokens :: "u8 set \<Rightarrow> u8 list \<Rightarrow> u8 list list" where
  "tokens D s = (let s1 = dropWhile (\<lambda>c. c \<in> D) s in
     if s1 = [] then [] else takeWhile (\<lambda>c. c \<notin> D) s1 # tokens D (dropWhile (\<lambda>c. c \<notin> D) s1))"
  by pat_completeness auto
termination
proof (relation "measure (\<lambda>(D, s). length s)", goal_cases)
  case (2 D s s1)
  then obtain c r where c: "s1 = c # r" "c \<notin> D" by (metis hd_dropWhile list.exhaust_sel)
  have "length (dropWhile (\<lambda>c. c \<notin> D) s1) < length s1" using c length_dropWhile_le [of "\<lambda>c. c \<notin> D" r] by simp
  moreover have "length s1 \<le> length s" using 2 length_dropWhile_le by blast
  ultimately show ?case by simp
qed simp

declare tokens.simps [simp del]

fun tokenize :: "nat \<Rightarrow> memory \<Rightarrow> nat \<Rightarrow> nat \<Rightarrow> nat \<Rightarrow> u8 list list option" where
  "tokenize 0 m s d save_ptr = None"
| "tokenize (Suc n) m s d save_ptr = do {
     (m, save_ptr, token) \<leftarrow> strtok_r m s d save_ptr;
     case token of None \<Rightarrow> Some []
     | Some q \<Rightarrow> do {
         len \<leftarrow> strlen m q;
         rest \<leftarrow> tokenize n m 0 d save_ptr;
         Some (map (\<lambda>i. m (q + i)) [0..<len] # rest) } }"

lemma skip_delimiters_ok:
  assumes "str_at m d ds" "d \<noteq> 0"
  shows "str_at m p s \<Longrightarrow> skip_delimiters m d p = Some (
    if dropWhile (\<lambda>c. c \<in> set ds) s = [] then Inl (p + length s)
    else Inr (p + length (takeWhile (\<lambda>c. c \<in> set ds) s)))"
proof (induction s arbitrary: p)
  case Nil
  then show ?case by (subst skip_delimiters.simps) (simp add: strchr_ok [OF assms])
next
  case (Cons c s)
  then show ?case using Cons.IH [of "p + 1"] by (subst skip_delimiters.simps) (auto simp: strchr_ok [OF assms])
qed

lemma skip_token_ok:
  assumes "str_at m d ds" "d \<noteq> 0"
  shows "str_at m p s \<Longrightarrow> skip_token m d p = Some (p + length (takeWhile (\<lambda>c. c \<notin> set ds) s))"
proof (induction s arbitrary: p)
  case Nil
  then show ?case by (subst skip_token.simps) (simp add: strchr_ok [OF assms])
next
  case (Cons c s)
  then show ?case using Cons.IH [of "p + 1"] by (subst skip_token.simps) (auto simp: strchr_ok [OF assms])
qed

lemma strtok_r_ok:
  assumes d: "str_at m d ds" "d \<noteq> 0" and s: "str_at m p s" "p \<noteq> 0"
    and apart: "\<And>i j. i \<le> length s \<Longrightarrow> j \<le> length ds \<Longrightarrow> p + i \<noteq> d + j" and start: "st = p \<or> st = 0 \<and> save = p"
  defines "s1 \<equiv> dropWhile (\<lambda>c. c \<in> set ds) s"
  defines "t \<equiv> takeWhile (\<lambda>c. c \<notin> set ds) s1" and "r \<equiv> dropWhile (\<lambda>c. c \<notin> set ds) s1"
  shows "if s1 = [] then strtok_r m st d save = Some (m, p + length s, None)
    else \<exists>m' q. strtok_r m st d save = Some (m', q + length t + (if r = [] then 0 else 1), Some q) \<and>
      str_at m' q t \<and> p \<le> q \<and> str_at m' (q + length t + (if r = [] then 0 else 1)) (tl r) \<and>
      q + length t + length r = p + length s \<and> str_at m' d ds"
proof (cases "s1 = []")
  case True
  then show ?thesis using skip_delimiters_ok [OF d s(1)] s(2) d(2) start by (auto simp: strtok_r_def s1_def)
next
  case False
  define h where "h = takeWhile (\<lambda>c. c \<in> set ds) s"
  define q where "q = p + length h"
  have hs: "s = h @ s1" by (simp add: h_def s1_def)
  have tr: "s1 = t @ r" by (simp add: t_def r_def)
  have at: "str_at m q s1" using s(1) unfolding hs q_def str_at_append by blast
  have e: "m (q + length t) = (case r of [] \<Rightarrow> NUL | c # _ \<Rightarrow> c)" "NUL \<notin> set r"
    using at unfolding tr str_at_append by (cases r, auto simp: str_at_bytes)+
  have len: "q + length t + length r = p + length s" by (simp add: q_def hs tr)
  have sk: "skip_delimiters m d p = Some (Inr q)" "skip_token m d q = Some (q + length t)"
    using skip_delimiters_ok [OF d s(1)] skip_token_ok [OF d at] False by (simp_all add: s1_def q_def h_def t_def)
  show ?thesis
  proof (cases r)
    case Nil
    then have "strtok_r m st d save = Some (m, q + length t, Some q)"
      using sk e s(2) d(2) start by (auto simp: strtok_r_def)
    then show ?thesis using False Nil at len d(1) e tr by (auto simp: q_def)
  next
    case (Cons c r')
    let ?m = "m(q + length t := NUL)"
    have "strtok_r m st d save = Some (?m, q + length t + 1, Some q)"
      using sk e s(2) d(2) start Cons by (auto simp: strtok_r_def)
    moreover have "str_at ?m q t" using at unfolding tr by (auto simp: str_at_bytes nth_append)
    moreover have "str_at ?m (q + length t + 1) r'"
      using at unfolding tr Cons str_at_append by (subst str_at_cong [where m = m]) auto
    moreover have "str_at ?m d ds"
    proof -
      have "d + j \<noteq> q + length t" if "j \<le> length ds" for j
        using apart [of "length h + length t" j] that by (simp add: q_def hs tr add.assoc [symmetric])
      then show ?thesis using d(1) by (auto simp: str_at_bytes)
    qed
    ultimately show ?thesis using False Cons len by (auto simp: q_def)
  qed
qed

lemma tokens_step:
  "tokens D s = (let s1 = dropWhile (\<lambda>c. c \<in> D) s in
     if s1 = [] then [] else takeWhile (\<lambda>c. c \<notin> D) s1 # tokens D (tl (dropWhile (\<lambda>c. c \<notin> D) s1)))"
proof -
  have "tokens D (dropWhile (\<lambda>c. c \<notin> D) x) = tokens D (tl (dropWhile (\<lambda>c. c \<notin> D) x))" for x
  proof (cases "dropWhile (\<lambda>c. c \<notin> D) x")
    case (Cons c r)
    then have "c \<in> D" using hd_dropWhile [of "\<lambda>c. c \<notin> D" x] by simp
    then show ?thesis using Cons tokens.simps [of D "c # r"] tokens.simps [of D r] by simp
  next
    case Nil
    show ?thesis by (simp only: Nil list.sel)
  qed
  then show ?thesis by (subst tokens.simps) (simp add: Let_def)
qed

lemma tokenize_ok:
  assumes "d \<noteq> 0"
  shows "str_at m d ds \<Longrightarrow> str_at m p s \<Longrightarrow> p \<noteq> 0 \<Longrightarrow>
    \<forall>i j. i \<le> length s \<longrightarrow> j \<le> length ds \<longrightarrow> p + i \<noteq> d + j \<Longrightarrow> st = p \<or> st = 0 \<and> save = p \<Longrightarrow> length s < n \<Longrightarrow>
    tokenize n m st d save = Some (tokens (set ds) s)"
proof (induction n arbitrary: m p s st save)
  case (Suc n)
  define s1 where "s1 = dropWhile (\<lambda>c. c \<in> set ds) s"
  define t r where "t = takeWhile (\<lambda>c. c \<notin> set ds) s1" and "r = dropWhile (\<lambda>c. c \<notin> set ds) s1"
  note one = strtok_r_ok [OF Suc.prems(1) assms Suc.prems(2,3) _ Suc.prems(5), folded s1_def, folded t_def r_def]
  show ?case
  proof (cases "s1 = []")
    case True
    then show ?thesis using one Suc.prems(4) tokens_step [of "set ds" s] by (simp add: s1_def Let_def)
  next
    case False
    define k where "k = (if r = [] then 0 else 1::nat)"
    obtain m' q where q: "strtok_r m st d save = Some (m', q + length t + k, Some q)" "str_at m' q t" "p \<le> q"
      "str_at m' (q + length t + k) (tl r)" "q + length t + length r = p + length s" "str_at m' d ds"
      using one Suc.prems(4) False unfolding k_def by (metis (no_types, lifting))
    have q0: "q \<noteq> 0" using q(3) Suc.prems(3) by linarith
    have ln: "strlen m' q = Some (length t)" by (rule strlen_ok [OF q(2) q0])
    have read: "map (\<lambda>i. m' (q + i)) [0..<length t] = t" using q(2) by (auto simp: str_at_bytes intro: nth_equalityI)
    have kr: "k + length (tl r) = length r" by (cases r) (simp_all add: k_def)
    have "0 < length t"
    proof -
      obtain c u where "s1 = c # u" "c \<notin> set ds" using False hd_dropWhile [of "\<lambda>c. c \<in> set ds" s]
        by (metis s1_def list.exhaust_sel)
      then show ?thesis by (simp add: t_def)
    qed
    moreover have "length s1 \<le> length s" unfolding s1_def by (rule length_dropWhile_le)
    moreover have "length t + length r = length s1" by (metis t_def r_def length_append takeWhile_dropWhile_id)
    ultimately have sh: "length (tl r) < n" using Suc.prems(6) unfolding length_tl by linarith
    have ap: "\<forall>i j. i \<le> length (tl r) \<longrightarrow> j \<le> length ds \<longrightarrow> q + length t + k + i \<noteq> d + j"
    proof (intro allI impI)
      fix i j assume ij: "i \<le> length (tl r)" "j \<le> length ds"
      have "q + length t + k + i - p \<le> length s" using q(5) ij kr by linarith
      then have "p + (q + length t + k + i - p) \<noteq> d + j" using Suc.prems(4) ij by blast
      then show "q + length t + k + i \<noteq> d + j" using q(3) by simp
    qed
    have "tokenize n m' 0 d (q + length t + k) = Some (tokens (set ds) (tl r))"
      by (rule Suc.IH [OF q(6,4) _ ap _ sh]) (use q0 in simp_all)
    then show ?thesis using q(1) ln read tokens_step [of "set ds" s] False
      by (simp add: s1_def [symmetric] t_def [symmetric] r_def [symmetric] Let_def)
  qed
qed simp

subsection \<open>Properties\<close>

text \<open>
  C17: \<^verbatim>\<open>memmove\<close> copies correctly however the blocks overlap. Afterwards the destination holds
  the bytes the source held before the call, and no other byte has changed. The pointer it
  returns is the destination only when it is not below the source: otherwise it is the end of
  the destination, whatever its comment says.
\<close>

theorem memmove_correct:
  assumes "dst \<noteq> 0" and "src \<noteq> 0"
  shows "\<exists>m' p. memmove dst src n m = Some (m', p) \<and>
    (\<forall>a. m' a = (if dst \<le> a \<and> a < dst + n then m (src + (a - dst)) else m a)) \<and>
    p = (if dst < src then dst + n else dst)"
  using assms copy_up_moved [of dst src n m] copy_down_moved [of src dst n m]
  by (auto simp: memmove_def moved_def)

theorem memmove_correct_witness:
  "\<exists>m' p. memmove 10 8 4 (\<lambda>a. of_nat a) = Some (m', p) \<and> map m' [8..<14] = [8, 9, 8, 9, 10, 11 :: u8]"
proof -
  have "(10::nat) \<noteq> 0" "(8::nat) \<noteq> 0" by simp_all
  from memmove_correct [OF this, of 4 "\<lambda>a. of_nat a"] show ?thesis by (auto simp: upt_rec)
qed

text \<open>
  C18: \<^verbatim>\<open>strlcpy\<close> never writes outside the buffer. For a source string that does not overlap the
  buffer of the given size it returns the length of the source; if the size is not zero, the buffer holds the
  source cut to one byte less than the size, zero-terminated; and no byte outside the buffer changes.
\<close>

theorem strlcpy_correct:
  assumes "str_at m src s" and "dst \<noteq> 0" and "src \<noteq> 0" and "dst + n \<le> src \<or> src + length s < dst"
  shows "\<exists>m'. strlcpy dst src n m = Some (m', length s) \<and> (0 < n \<longrightarrow> str_at m' dst (take (n - 1) s)) \<and>
    (\<forall>a. a < dst \<or> dst + n \<le> a \<longrightarrow> m' a = m a)"
proof (cases "n = 0")
  case True
  then show ?thesis using assms by (simp add: strlcpy_def strlen_ok)
next
  case False
  define k where "k = (if length s < n - 1 then length s else n - 1)"
  let ?m = "(moved dst src k m)(dst + k := NUL)"
  have "copy_up dst src k m = moved dst src k m"
    using assms(4) False by (intro copy_up_moved) (auto simp: k_def)
  then have "strlcpy dst src n m = Some (?m, length s)"
    using False assms strlen_ok [OF assms(1,3)] unfolding strlcpy_def memcpy_def k_def [symmetric] Let_def by (simp add: k_def)
  moreover have "str_at ?m dst (take (n - 1) s)"
    using assms(1,4) False by (auto simp: str_at_bytes moved_def k_def dest: in_set_takeD)
  moreover have "a < dst \<or> dst + n \<le> a \<Longrightarrow> ?m a = m a" for a using False by (auto simp: moved_def k_def)
  ultimately show ?thesis by blast
qed

definition sample_memory :: memory where
  "sample_memory = ((\<lambda>_. 7)(100 := 65, 101 := 66, 102 := 67, 103 := 0, 200 := 66, 201 := 0))"

lemma sample_strings: "str_at sample_memory 100 [65, 66, 67]" "str_at sample_memory 200 [66]"
  by (simp_all add: sample_memory_def)

theorem strlcpy_correct_witness:
  "\<exists>m'. strlcpy 50 100 3 sample_memory = Some (m', 3) \<and> str_at m' 50 [65, 66] \<and> m' 53 = 7"
proof -
  have "(50::nat) \<noteq> 0" "(100::nat) \<noteq> 0" "(50::nat) + 3 \<le> 100 \<or> 100 + length [65, 66, 67 :: u8] < 50" by simp_all
  from strlcpy_correct [OF sample_strings(1) this] show ?thesis by (auto simp: sample_memory_def)
qed

text \<open>
  C25: \<^verbatim>\<open>strtok_r\<close> splits a string into its tokens. Called first with the string and then with
  null pointers until it returns null, it terminates and returns exactly the maximal runs of
  characters that are not delimiters, in order, each as a zero-terminated string; the
  delimiter string lies outside the string that is split.
\<close>

theorem strtok_r_tokens:
  assumes "str_at m p s" and "str_at m d ds" and "p \<noteq> 0" and "d \<noteq> 0"
    and "p + length s < d \<or> d + length ds < p" and "length s < n"
  shows "tokenize n m p d save = Some (tokens (set ds) s)"
  using assms by (intro tokenize_ok) auto

theorem strtok_r_tokens_witness: "tokenize 4 sample_memory 100 200 0 = Some [[65], [67]]"
proof -
  have "tokens (set [66]) [65, 66, 67 :: u8] = [[65], [67]]" by (simp add: tokens.simps)
  then show ?thesis using strtok_r_tokens [OF sample_strings, of 4 0] by simp
qed

text \<open>
  The searching functions agree with the strings at their arguments. On zero-terminated
  strings each of them returns: \<^verbatim>\<open>strlen\<close> the length, \<^verbatim>\<open>strchr\<close> the first position of the character,
  the terminator included, \<^verbatim>\<open>strspn\<close> and \<^verbatim>\<open>strcspn\<close> the lengths of the longest prefixes inside
  and outside the set, \<^verbatim>\<open>strpbrk\<close> the first position of a character of the set, and \<^verbatim>\<open>strcmp\<close> a
  value whose sign is that of the lexicographic comparison of the strings as unsigned bytes.
\<close>

theorem string_search_correct:
  assumes "str_at m p s" and "str_at m q t" and "p \<noteq> 0" and "q \<noteq> 0"
  shows "strlen m p = Some (length s) \<and>
    strchr m p c = Some (if c \<in> set (s @ [0]) then Some (p + length (takeWhile (\<lambda>x. x \<noteq> c) (s @ [0]))) else None) \<and>
    strspn m p q = Some (length (takeWhile (\<lambda>x. x \<in> set t) s)) \<and>
    strcspn m p q = Some (length (takeWhile (\<lambda>x. x \<notin> set t) s)) \<and>
    strpbrk m p q = Some (if set s \<inter> set t = {} then None else Some (p + length (takeWhile (\<lambda>x. x \<notin> set t) s))) \<and>
    strcmp m p q = Some (if s = t then 0 else if ord_class.lexordp s t then - 1 else 1)"
  using assms strlen_ok strchr_ok strspn_loop_ok [of m q t p 0 s] strcspn_loop_ok [of m q t p 0 s]
    strpbrk_ok [of m q t p s] strcmp_loop_ok [of m p s q t]
  by (simp add: strspn_def strcspn_def strcmp_def)

theorem string_search_correct_witness:
  "strlen sample_memory 100 = Some 3 \<and> strchr sample_memory 100 67 = Some (Some 102) \<and>
    strcmp sample_memory 100 200 = Some (- 1)"
  using string_search_correct [OF sample_strings, of 67] by simp

text \<open>
  \<^verbatim>\<open>strstr\<close> finds the first occurrence. On two zero-terminated strings it returns the least
  position of the first at which the second occurs, and a null pointer if there is none.
\<close>

theorem strstr_first:
  assumes "str_at m h hs" and "str_at m n ns" and "h \<noteq> 0" and "n \<noteq> 0"
  shows "strstr m h n = Some (if \<exists>i. take (length ns) (drop i hs) = ns
    then Some (h + (LEAST i. take (length ns) (drop i hs) = ns)) else None)"
proof -
  let ?P = "\<lambda>i. take (length ns) (drop i hs) = ns"
  have b: "\<And>i. i < length hs \<Longrightarrow> m (h + i) = hs ! i" "\<And>i. i < length ns \<Longrightarrow> m (n + i) = ns ! i"
    using assms by (auto simp: str_at_bytes)
  have P: "?P i \<longleftrightarrow> i + length ns \<le> length hs \<and> (\<forall>j < length ns. m (h + i + j) = m (n + j))"
    if "ns \<noteq> [] \<or> i \<le> length hs" for i
  proof (cases "i + length ns \<le> length hs")
    case True
    then have "?P i \<longleftrightarrow> (\<forall>j < length ns. hs ! (i + j) = ns ! j)" by (auto simp: list_eq_iff_nth_eq)
    then show ?thesis using True b by (simp add: add.assoc)
  next
    case False
    then show ?thesis using that by (auto dest: arg_cong [where f = length])
  qed
  show ?thesis
  proof (cases "length ns \<le> length hs")
    case False
    then have "\<not> ?P i" for i by (auto dest: arg_cong [where f = length])
    then show ?thesis using False assms by (simp add: strstr_def strlen_ok)
  next
    case True
    let ?N = "length hs - length ns + 1"
    have cmp: "map_option (\<lambda>r. r = 0) (memcmp m (h + k) n (length ns)) = Some (?P k)" if "k < ?N" for k
    proof -
      have "k + length ns \<le> length hs" using that True by simp
      then have "?P k \<longleftrightarrow> memcmp_loop m (h + k) n (length ns) = 0"
        using P [of k] memcmp_loop_eq0 [of m "h + k" n "length ns"] by simp
      then show ?thesis using assms(3,4) by (simp add: memcmp_def)
    qed
    have bound: "i < ?N" if "?P i" "\<forall>k < i. \<not> ?P k" for i
    proof (cases "ns = []")
      case empty: True
      then show ?thesis using that by (cases i) auto
    next
      case False
      then have "i + length ns \<le> length hs" using P [of i] that by blast
      then show ?thesis by simp
    qed
    have L: "?P (LEAST i. ?P i) \<and> (LEAST i. ?P i) < ?N" if "\<exists>i. ?P i"
    proof
      show "?P (LEAST i. ?P i)" using that by (rule LeastI_ex)
      then show "(LEAST i. ?P i) < ?N" using not_less_Least [of _ ?P] by (intro bound) blast+
    qed
    then have ex: "(\<exists>k. 0 \<le> k \<and> k < ?N \<and> ?P k) \<longleftrightarrow> (\<exists>i. ?P i)" by blast
    have least: "(LEAST k. 0 \<le> k \<and> k < ?N \<and> ?P k) = (LEAST i. ?P i)" if "\<exists>i. ?P i"
      using L [OF that] Least_le [of ?P] by (intro Least_equality) auto
    show ?thesis
      using find_range_spec [of 0 ?N "\<lambda>i. map_option (\<lambda>r. r = 0) (memcmp m (h + i) n (length ns))" ?P, OF cmp]
        True assms ex least by (simp add: strstr_def strlen_ok)
  qed
qed

theorem strstr_first_witness: "strstr sample_memory 100 200 = Some (Some 101)"
proof -
  have "(LEAST i. take (length [66 :: u8]) (drop i [65, 66, 67 :: u8]) = [66]) = 1"
  proof (rule Least_equality)
    show "1 \<le> i" if "take (length [66 :: u8]) (drop i [65, 66, 67 :: u8]) = [66]" for i
      using that by (cases i) auto
  qed simp
  moreover have "\<exists>i. take (length [66 :: u8]) (drop i [65, 66, 67 :: u8]) = [66]" by (rule exI [of _ 1]) simp
  ultimately show ?thesis using strstr_first [OF sample_strings] by simp
qed

end
