(* ===== verification/Stdlib.thy ===== *)
theory Stdlib
  imports Pintos_Prelude
begin

section \<open>Sorting, searching and number parsing (lib/stdlib.c, lib/ctype.h)\<close>

text \<open>
  An array of \<^verbatim>\<open>CNT\<close> elements of \<^verbatim>\<open>SIZE\<close> bytes is the sequence of its elements; the code's
  indexes are 1-based, and so are those of \<open>do_swap\<close>, \<open>do_compare\<close> and \<open>heapify\<close>. The
  comparison function, with its auxiliary data, is a parameter that returns an integer.
  An \<^verbatim>\<open>int\<close> is a 32-bit word read in two's complement, and its arithmetic wraps.
\<close>

definition islower :: "u8 \<Rightarrow> bool" where "islower c \<longleftrightarrow> c \<ge> 97 \<and> c \<le> 122"
definition isupper :: "u8 \<Rightarrow> bool" where "isupper c \<longleftrightarrow> c \<ge> 65 \<and> c \<le> 90"
definition isalpha :: "u8 \<Rightarrow> bool" where "isalpha c \<longleftrightarrow> islower c \<or> isupper c"
definition isdigit :: "u8 \<Rightarrow> bool" where "isdigit c \<longleftrightarrow> c \<ge> 48 \<and> c \<le> 57"
definition isalnum :: "u8 \<Rightarrow> bool" where "isalnum c \<longleftrightarrow> isalpha c \<or> isdigit c"
definition isxdigit :: "u8 \<Rightarrow> bool" where
  "isxdigit c \<longleftrightarrow> isdigit c \<or> (c \<ge> 97 \<and> c \<le> 102) \<or> (c \<ge> 65 \<and> c \<le> 70)"
definition isspace :: "u8 \<Rightarrow> bool" where
  "isspace c \<longleftrightarrow> c = 32 \<or> c = 12 \<or> c = 10 \<or> c = 13 \<or> c = 9 \<or> c = 11"
definition isblank :: "u8 \<Rightarrow> bool" where "isblank c \<longleftrightarrow> c = 32 \<or> c = 9"
definition isgraph :: "u8 \<Rightarrow> bool" where "isgraph c \<longleftrightarrow> c > 32 \<and> c < 127"
definition isprint :: "u8 \<Rightarrow> bool" where "isprint c \<longleftrightarrow> c \<ge> 32 \<and> c < 127"
definition iscntrl :: "u8 \<Rightarrow> bool" where "iscntrl c \<longleftrightarrow> (c \<ge> 0 \<and> c < 32) \<or> c = 127"
definition isascii :: "u8 \<Rightarrow> bool" where "isascii c \<longleftrightarrow> c \<ge> 0 \<and> c < 128"
definition ispunct :: "u8 \<Rightarrow> bool" where "ispunct c \<longleftrightarrow> isprint c \<and> \<not> isalnum c \<and> \<not> isspace c"
definition tolower :: "u8 \<Rightarrow> u8" where "tolower c = (if isupper c then c - 65 + 97 else c)"
definition toupper :: "u8 \<Rightarrow> u8" where "toupper c = (if islower c then c - 97 + 65 else c)"

text \<open>The string is the bytes from the pointer on; running off them is \<open>None\<close>.\<close>

fun skip_space :: "u8 list \<Rightarrow> u8 list option" where
  "skip_space [] = None"
| "skip_space (c # s) = (if isspace c then skip_space s else Some (c # s))"

fun parse_digits :: "u8 list \<Rightarrow> u32 \<Rightarrow> u32 option" where
  "parse_digits [] val = None"
| "parse_digits (c # s) val = (if isdigit c then parse_digits s (val * 10 - (ucast c - 48)) else Some val)"

definition atoi :: "u8 list \<Rightarrow> u32 option" where
  "atoi s = do {
     s \<leftarrow> skip_space s;
     let (negative, s) = (if hd s = 43 then (False, tl s) else if hd s = 45 then (True, tl s) else (False, s));
     val \<leftarrow> parse_digits s 0;
     Some (if \<not> negative then - val else val) }"

definition do_swap :: "'a list \<Rightarrow> nat \<Rightarrow> nat \<Rightarrow> 'a list" where
  "do_swap array a_idx b_idx =
     (let t = array ! (a_idx - 1) in (array[a_idx - 1 := array ! (b_idx - 1)])[b_idx - 1 := t])"

definition do_compare :: "('a \<Rightarrow> 'a \<Rightarrow> int) \<Rightarrow> 'a list \<Rightarrow> nat \<Rightarrow> nat \<Rightarrow> int" where
  "do_compare compare array a_idx b_idx = compare (array ! (a_idx - 1)) (array ! (b_idx - 1))"

definition largest :: "('a \<Rightarrow> 'a \<Rightarrow> int) \<Rightarrow> 'a list \<Rightarrow> nat \<Rightarrow> nat \<Rightarrow> nat" where
  "largest compare array i cnt =
     (let left = 2 * i; right = 2 * i + 1; mx = i;
          mx = (if left \<le> cnt \<and> do_compare compare array left mx > 0 then left else mx);
          mx = (if right \<le> cnt \<and> do_compare compare array right mx > 0 then right else mx)
      in mx)"

lemma largest_cases: "largest compare array i cnt = i \<or> largest compare array i cnt = 2 * i \<and> 2 * i \<le> cnt \<or>
  largest compare array i cnt = 2 * i + 1 \<and> 2 * i + 1 \<le> cnt"
  by (simp add: largest_def Let_def)

function heapify :: "('a \<Rightarrow> 'a \<Rightarrow> int) \<Rightarrow> 'a list \<Rightarrow> nat \<Rightarrow> nat \<Rightarrow> 'a list" where
  "heapify compare array i cnt =
     (let mx = largest compare array i cnt
      in if mx = i then array else heapify compare (do_swap array i mx) mx cnt)"
  by pat_completeness auto
termination
proof (relation "measure (\<lambda>(compare, array, i, cnt). cnt + 1 - i)", goal_cases)
  case (2 compare array i cnt mx)
  then have "mx = 2 * i \<and> 2 * i \<le> cnt \<or> mx = 2 * i + 1 \<and> 2 * i + 1 \<le> cnt"
    using largest_cases [of compare array i cnt] by auto
  moreover have "0 < i \<or> mx = 1" using 2 calculation by (cases i) auto
  ultimately show ?case by auto
qed simp

declare heapify.simps [simp del]

primrec build_heap :: "('a \<Rightarrow> 'a \<Rightarrow> int) \<Rightarrow> nat \<Rightarrow> 'a list \<Rightarrow> nat \<Rightarrow> 'a list" where
  "build_heap compare cnt array 0 = array"
| "build_heap compare cnt array (Suc i) = build_heap compare cnt (heapify compare array (Suc i) cnt) i"

fun sort_heap :: "('a \<Rightarrow> 'a \<Rightarrow> int) \<Rightarrow> 'a list \<Rightarrow> nat \<Rightarrow> 'a list" where
  "sort_heap compare array i =
     (if i > 1 then sort_heap compare (heapify compare (do_swap array 1 i) 1 (i - 1)) (i - 1) else array)"

declare sort_heap.simps [simp del]

definition heap_sort :: "('a \<Rightarrow> 'a \<Rightarrow> int) \<Rightarrow> 'a list \<Rightarrow> 'a list" where
  "heap_sort compare array =
     (let cnt = length array; array = build_heap compare cnt array (cnt div 2)
      in sort_heap compare array cnt)"

definition qsort :: "('a \<Rightarrow> 'a \<Rightarrow> int) \<Rightarrow> 'a list \<Rightarrow> 'a list" where
  "qsort compare array = heap_sort compare array"

function search_loop :: "('k \<Rightarrow> 'a \<Rightarrow> int) \<Rightarrow> 'k \<Rightarrow> 'a list \<Rightarrow> nat \<Rightarrow> nat \<Rightarrow> nat option" where
  "search_loop compare key array fst_idx last_idx =
     (if fst_idx < last_idx then
        let range = last_idx - fst_idx;
            middle = fst_idx + range div 2;
            cmp = compare key (array ! middle)
        in if cmp < 0 then search_loop compare key array fst_idx middle
           else if cmp > 0 then search_loop compare key array (middle + 1) last_idx
           else Some middle
      else None)"
  by pat_completeness auto
termination
  by (relation "measure (\<lambda>(compare, key, array, fst_idx, last_idx). last_idx - fst_idx)") auto

declare search_loop.simps [simp del]

definition binary_search :: "('k \<Rightarrow> 'a \<Rightarrow> int) \<Rightarrow> 'k \<Rightarrow> 'a list \<Rightarrow> nat option" where
  "binary_search compare key array = search_loop compare key array 0 (length array)"

definition bsearch :: "('k \<Rightarrow> 'a \<Rightarrow> int) \<Rightarrow> 'k \<Rightarrow> 'a list \<Rightarrow> nat option" where
  "bsearch compare key array = binary_search compare key array"

subsection \<open>Heaps\<close>

text \<open>
  The contract of a comparison function: a \<^verbatim>\<open>strcmp\<close>-type result, that is the order of some key
  of the elements. \<open>ks\<close> is the sequence of the keys, read at 1-based positions.
\<close>

abbreviation (input) at1 :: "'a list \<Rightarrow> nat \<Rightarrow> 'a" where "at1 xs k \<equiv> xs ! (k - 1)"

definition heap_from :: "('a \<Rightarrow> 'k::linorder) \<Rightarrow> 'a list \<Rightarrow> nat \<Rightarrow> nat \<Rightarrow> bool" where
  "heap_from key xs l n \<longleftrightarrow> (\<forall>k \<le> n. 1 \<le> k div 2 \<longrightarrow> l \<le> k div 2 \<longrightarrow> key (at1 xs k) \<le> key (at1 xs (k div 2)))"

text \<open>The heap has one hole at \<open>j\<close>, whose element may be smaller than its children.\<close>

definition heap_but :: "('a \<Rightarrow> 'k::linorder) \<Rightarrow> 'a list \<Rightarrow> nat \<Rightarrow> nat \<Rightarrow> nat \<Rightarrow> bool" where
  "heap_but key xs l n j \<longleftrightarrow>
     (\<forall>k \<le> n. 1 \<le> k div 2 \<longrightarrow> l \<le> k div 2 \<longrightarrow> k div 2 \<noteq> j \<longrightarrow> key (at1 xs k) \<le> key (at1 xs (k div 2))) \<and>
     (1 \<le> j div 2 \<longrightarrow> l \<le> j div 2 \<longrightarrow> (\<forall>k \<le> n. k div 2 = j \<longrightarrow> key (at1 xs k) \<le> key (at1 xs (j div 2))))"

lemma do_swap_at:
  assumes "1 \<le> a" "a \<le> length xs" "1 \<le> b" "b \<le> length xs" "1 \<le> k"
  shows "at1 (do_swap xs a b) k = (if k = a then at1 xs b else if k = b then at1 xs a else at1 xs k)"
proof -
  obtain A B K where "a = Suc A" "b = Suc B" "k = Suc K"
    using assms by (metis One_nat_def Suc_le_D)
  then show ?thesis using assms by (simp add: do_swap_def Let_def nth_list_update)
qed

lemma length_do_swap [simp]: "length (do_swap xs a b) = length xs"
  by (simp add: do_swap_def Let_def)

lemma mset_do_swap: "1 \<le> a \<Longrightarrow> a \<le> length xs \<Longrightarrow> 1 \<le> b \<Longrightarrow> b \<le> length xs \<Longrightarrow> mset (do_swap xs a b) = mset xs"
  using mset_swap [of "b - 1" xs "a - 1"] by (simp add: do_swap_def Let_def)

lemma drop_do_swap: "1 \<le> a \<Longrightarrow> 1 \<le> b \<Longrightarrow> a \<le> n \<Longrightarrow> b \<le> n \<Longrightarrow> drop n (do_swap xs a b) = drop n xs"
  by (simp add: do_swap_def Let_def drop_update_cancel)

locale comparison =
  fixes compare :: "'a \<Rightarrow> 'a \<Rightarrow> int" and key :: "'a \<Rightarrow> 'k::linorder"
  assumes compare_gt: "compare a b > 0 \<longleftrightarrow> key b < key a"
begin

lemma largest_ok:
  fixes xs :: "'a list" and i cnt :: nat
  defines "mx \<equiv> largest compare xs i cnt"
  shows "mx = i \<or> mx = 2 * i \<and> 2 * i \<le> cnt \<or> mx = 2 * i + 1 \<and> 2 * i + 1 \<le> cnt"
    and "key (at1 xs i) \<le> key (at1 xs mx)" and "2 * i \<le> cnt \<Longrightarrow> key (at1 xs (2 * i)) \<le> key (at1 xs mx)"
    and "2 * i + 1 \<le> cnt \<Longrightarrow> key (at1 xs (2 * i + 1)) \<le> key (at1 xs mx)"
    and "mx \<noteq> i \<Longrightarrow> key (at1 xs i) < key (at1 xs mx)"
proof -
  show "mx = i \<or> mx = 2 * i \<and> 2 * i \<le> cnt \<or> mx = 2 * i + 1 \<and> 2 * i + 1 \<le> cnt"
    unfolding mx_def by (rule largest_cases)
  show "key (at1 xs i) \<le> key (at1 xs mx)" "2 * i \<le> cnt \<Longrightarrow> key (at1 xs (2 * i)) \<le> key (at1 xs mx)"
    "2 * i + 1 \<le> cnt \<Longrightarrow> key (at1 xs (2 * i + 1)) \<le> key (at1 xs mx)"
    "mx \<noteq> i \<Longrightarrow> key (at1 xs i) < key (at1 xs mx)"
    unfolding mx_def by (auto simp: largest_def Let_def do_compare_def compare_gt not_less split: if_splits)
qed

lemma child_cases: "k div 2 = i \<longleftrightarrow> k = 2 * i \<or> k = 2 * i + (1::nat)"
  by auto

lemma heap_but_step:
  assumes h: "heap_but key xs l n j" and j: "1 \<le> j" "j \<le> n" "n \<le> length xs" "l \<le> j"
    and mx: "mx = largest compare xs j n" "mx \<noteq> j"
  shows "heap_but key (do_swap xs j mx) l n mx"
proof -
  note lg = largest_ok [where xs = xs and i = j and cnt = n, folded mx(1)]
  have m: "mx \<le> n" "mx div 2 = j" "1 \<le> mx" "j < mx" using lg(1) mx(2) j by auto
  have sw: "at1 (do_swap xs j mx) k = (if k = j then at1 xs mx else if k = mx then at1 xs j else at1 xs k)" if "1 \<le> k" for k
    using m j that by (intro do_swap_at) auto
  show ?thesis unfolding heap_but_def
  proof (intro conjI allI impI)
    fix k assume k: "k \<le> n" "1 \<le> k div 2" "l \<le> k div 2" "k div 2 \<noteq> mx"
    have k1: "1 \<le> k" "k \<noteq> k div 2" using k by auto
    show "key (at1 (do_swap xs j mx) k) \<le> key (at1 (do_swap xs j mx) (k div 2))"
    proof (cases "k div 2 = j")
      case True
      then have "k = 2 * j \<or> k = 2 * j + 1" by auto
      then have "key (at1 xs k) \<le> key (at1 xs mx)" using lg(3,4) k(1) by auto
      then show ?thesis using sw [OF k1(1)] sw [OF k(2)] True lg(2) k1 by auto
    next
      case False
      then have "key (at1 xs k) \<le> key (at1 xs (k div 2))" using h k unfolding heap_but_def by blast
      moreover have "key (at1 xs mx) \<le> key (at1 xs (k div 2))" if "k = j"
        using h that k(2,3) m unfolding heap_but_def by blast
      ultimately show ?thesis using sw [OF k1(1)] sw [OF k(2)] False k(4) m(2) by auto
    qed
  next
    fix k assume k: "k \<le> n" "k div 2 = mx"
    then have k1: "1 \<le> k" "k \<noteq> j" "k \<noteq> mx" using m by auto
    have "k div 2 \<noteq> j" "1 \<le> k div 2" "l \<le> k div 2" using k m j(4) by auto
    then have "key (at1 xs k) \<le> key (at1 xs (k div 2))" using h k(1) unfolding heap_but_def by blast
    then have "key (at1 xs k) \<le> key (at1 xs mx)" unfolding k(2) .
    then show "key (at1 (do_swap xs j mx) k) \<le> key (at1 (do_swap xs j mx) (mx div 2))"
      using sw [OF k1(1)] sw [OF j(1)] k1 m(2) by auto
  qed
qed

lemma heap_but_done:
  assumes h: "heap_but key xs l n j" and mx: "largest compare xs j n = j"
  shows "heap_from key xs l n"
  unfolding heap_from_def
proof (intro allI impI)
  fix k assume k: "k \<le> n" "1 \<le> k div 2" "l \<le> k div 2"
  note lg = largest_ok [where xs = xs and i = j and cnt = n, unfolded mx]
  show "key (at1 xs k) \<le> key (at1 xs (k div 2))"
  proof (cases "k div 2 = j")
    case True
    then have "k = 2 * j \<or> k = 2 * j + 1" by auto
    then have "key (at1 xs k) \<le> key (at1 xs j)" using lg(3,4) k(1) by auto
    then show ?thesis using True by simp
  next
    case False
    then show ?thesis using h k unfolding heap_but_def by blast
  qed
qed

lemma heapify_ok:
  "heap_but key xs l n j \<Longrightarrow> 1 \<le> j \<Longrightarrow> j \<le> n \<Longrightarrow> n \<le> length xs \<Longrightarrow> l \<le> j \<Longrightarrow>
   heap_from key (heapify compare xs j n) l n \<and> mset (heapify compare xs j n) = mset xs \<and>
   drop n (heapify compare xs j n) = drop n xs"
proof (induction "n + 1 - j" arbitrary: xs j rule: less_induct)
  case (less j xs)
  let ?mx = "largest compare xs j n"
  show ?case
  proof (cases "?mx = j")
    case True
    then show ?thesis using heap_but_done [OF less.prems(1) True] by (simp add: heapify.simps Let_def)
  next
    case False
    then have m: "j < ?mx" "?mx \<le> n" using largest_ok(1) [where xs = xs and i = j and cnt = n] less.prems(2) by auto
    have "heap_but key (do_swap xs j ?mx) l n ?mx"
      using heap_but_step [OF less.prems(1,2,3,4,5) refl False] .
    then have "heap_from key (heapify compare (do_swap xs j ?mx) ?mx n) l n \<and>
        mset (heapify compare (do_swap xs j ?mx) ?mx n) = mset (do_swap xs j ?mx) \<and>
        drop n (heapify compare (do_swap xs j ?mx) ?mx n) = drop n (do_swap xs j ?mx)"
      using m less.prems by (intro less.hyps) auto
    moreover have "mset (do_swap xs j ?mx) = mset xs" "drop n (do_swap xs j ?mx) = drop n xs"
      using m less.prems by (auto intro!: mset_do_swap drop_do_swap)
    moreover have "heapify compare xs j n = heapify compare (do_swap xs j ?mx) ?mx n"
      using False by (subst heapify.simps) (simp add: Let_def)
    ultimately show ?thesis by simp
  qed
qed

lemma build_heap_ok:
  "heap_from key xs (Suc i) n \<Longrightarrow> i \<le> n \<Longrightarrow> n \<le> length xs \<Longrightarrow>
   heap_from key (build_heap compare n xs i) 1 n \<and> mset (build_heap compare n xs i) = mset xs"
proof (induction i arbitrary: xs)
  case (Suc i)
  have "heap_but key xs (Suc i) n (Suc i)"
    using Suc.prems(1) unfolding heap_but_def heap_from_def by auto
  then have *: "heap_from key (heapify compare xs (Suc i) n) (Suc i) n"
      "mset (heapify compare xs (Suc i) n) = mset xs"
    using heapify_ok [of xs "Suc i" n "Suc i"] Suc.prems by auto
  moreover have "length (heapify compare xs (Suc i) n) = length xs"
    using *(2) by (metis size_mset)
  ultimately show ?case using Suc.IH [of "heapify compare xs (Suc i) n"] Suc.prems by simp
qed simp

lemma heap_root_max:
  assumes "heap_from key xs 1 n" "1 \<le> k" "k \<le> n" shows "key (at1 xs k) \<le> key (at1 xs 1)"
  using assms(2,3)
proof (induction k rule: less_induct)
  case (less k)
  show ?case
  proof (cases "k = 1")
    case False
    then have k: "1 \<le> k div 2" "k div 2 < k" using less.prems by auto
    then have "key (at1 xs k) \<le> key (at1 xs (k div 2))"
      using assms(1) less.prems(2) unfolding heap_from_def by blast
    also have "\<dots> \<le> key (at1 xs 1)" using less.IH [of "k div 2"] k less.prems by auto
    finally show ?thesis .
  qed simp
qed

definition sorting :: "'a list \<Rightarrow> nat \<Rightarrow> bool" where
  "sorting xs i \<longleftrightarrow> heap_from key xs 1 i \<and> sorted (map key (drop i xs)) \<and>
     (\<forall>x \<in> set (take i xs). \<forall>y \<in> set (drop i xs). key x \<le> key y)"

lemma sort_step:
  assumes s: "sorting xs i" and i: "1 < i" "i \<le> length xs"
  defines "ys \<equiv> heapify compare (do_swap xs 1 i) 1 (i - 1)"
  shows "sorting ys (i - 1) \<and> mset ys = mset xs"
proof -
  let ?sw = "do_swap xs 1 i"
  have sw: "at1 ?sw k = (if k = 1 then at1 xs i else if k = i then at1 xs 1 else at1 xs k)" if "1 \<le> k" for k
    using i that by (intro do_swap_at) auto
  have "heap_but key ?sw 1 (i - 1) 1" unfolding heap_but_def
  proof (intro conjI allI impI)
    fix k :: nat assume k: "k \<le> i - 1" "1 \<le> k div 2" "k div 2 \<noteq> 1"
    have "key (at1 xs k) \<le> key (at1 xs (k div 2))" using s k i unfolding sorting_def heap_from_def by auto
    moreover have "at1 ?sw k = at1 xs k" "at1 ?sw (k div 2) = at1 xs (k div 2)"
      using sw [of k] sw [of "k div 2"] k i by auto
    ultimately show "key (at1 ?sw k) \<le> key (at1 ?sw (k div 2))" by simp
  qed simp
  then have h: "heap_from key ys 1 (i - 1)" "mset ys = mset ?sw" "drop (i - 1) ys = drop (i - 1) ?sw"
    using heapify_ok [of ?sw 1 "i - 1" 1] i unfolding ys_def by auto
  have msw: "mset ?sw = mset xs" using i by (auto intro: mset_do_swap)
  have d: "drop (i - 1) ys = at1 xs 1 # drop i xs"
  proof -
    have "drop (i - 1) ?sw = at1 ?sw i # drop i ?sw" using i Cons_nth_drop_Suc [of "i - 1" ?sw] by simp
    then show ?thesis using h(3) sw [of i] i drop_do_swap [of 1 i i xs] by simp
  qed
  have tk: "mset (at1 xs 1 # take (i - 1) ys) = mset (take i xs)"
  proof -
    have "mset (take (i - 1) ys) + mset (drop (i - 1) ys) = mset (take i xs) + mset (drop i xs)"
      using h(2) msw by (metis append_take_drop_id mset_append)
    then show ?thesis using d by simp
  qed
  then have st: "insert (at1 xs 1) (set (take (i - 1) ys)) = set (take i xs)"
    by (metis list.simps(15) set_mset_mset)
  have root: "key x \<le> key (at1 xs 1)" if x: "x \<in> set (take i xs)" for x
  proof -
    obtain k where "k < i" "x = xs ! k" using x i by (auto simp: in_set_conv_nth)
    then show ?thesis using heap_root_max [of xs i "Suc k"] s unfolding sorting_def by auto
  qed
  have hi: "key x \<le> key y" if "x \<in> set (take i xs)" "y \<in> set (drop i xs)" for x y
    using s that unfolding sorting_def by blast
  have "sorted (map key (drop (i - 1) ys))" using s hi st unfolding d sorting_def by auto
  moreover have "\<forall>x \<in> set (take (i - 1) ys). \<forall>y \<in> set (drop (i - 1) ys). key x \<le> key y"
    unfolding d using root hi st by auto
  ultimately show ?thesis using h msw unfolding sorting_def by simp
qed

lemma sort_heap_ok:
  "sorting xs i \<Longrightarrow> i \<le> length xs \<Longrightarrow>
   sorted (map key (sort_heap compare xs i)) \<and> mset (sort_heap compare xs i) = mset xs"
proof (induction i arbitrary: xs rule: less_induct)
  case (less i)
  show ?case
  proof (cases "1 < i")
    case True
    let ?ys = "heapify compare (do_swap xs 1 i) 1 (i - 1)"
    have y: "sorting ?ys (i - 1)" "mset ?ys = mset xs" using sort_step [OF less.prems(1) True less.prems(2)] by auto
    then have "length ?ys = length xs" by (metis size_mset)
    then show ?thesis using less.IH [of "i - 1" ?ys] y True less.prems(2)
      by (subst (1 2) sort_heap.simps) auto
  next
    case False
    then have e: "sort_heap compare xs i = xs" by (subst sort_heap.simps) simp
    have "sorted (map key xs)"
    proof (cases "i = 0 \<or> xs = []")
      case True
      then show ?thesis using less.prems(1) unfolding sorting_def by auto
    next
      case 2: False
      then obtain x xs' where "xs = x # xs'" "i = 1" using False by (cases xs) auto
      then show ?thesis using less.prems(1) unfolding sorting_def by auto
    qed
    then show ?thesis using e by simp
  qed
qed

lemma heap_sort_ok:
  "sorted (map key (heap_sort compare xs)) \<and> mset (heap_sort compare xs) = mset xs"
proof -
  let ?n = "length xs" let ?b = "build_heap compare ?n xs (?n div 2)"
  have "heap_from key xs (Suc (?n div 2)) ?n" unfolding heap_from_def
    by (auto dest!: div_le_mono [of _ _ 2])
  then have b: "heap_from key ?b 1 ?n" "mset ?b = mset xs" using build_heap_ok [of xs "?n div 2" ?n] by auto
  then have l: "length ?b = ?n" by (metis size_mset)
  then have "sorting ?b ?n" using b unfolding sorting_def by simp
  then show ?thesis using sort_heap_ok [of ?b ?n] l b by (simp add: heap_sort_def Let_def)
qed

end

interpretation by_key: comparison "\<lambda>a b. if key a < key b then -1 else if key a = key b then 0 else 1" key
  for key :: "'a \<Rightarrow> 'k::linorder"
  by unfold_locales auto

subsection \<open>Binary search\<close>

lemma search_loop_sound:
  "search_loop compare k xs i j = Some m \<Longrightarrow> i \<le> m \<and> m < j \<and> compare k (xs ! m) = 0"
proof (induction compare k xs i j rule: search_loop.induct)
  case (1 compare k xs i j)
  let ?m = "i + (j - i) div 2"
  have ij: "i < j" using 1(3) by (subst (asm) search_loop.simps) (auto split: if_splits)
  then have m: "i \<le> ?m" "?m < j" by auto
  consider "compare k (xs ! ?m) < 0" | "compare k (xs ! ?m) > 0" | "compare k (xs ! ?m) = 0" by linarith
  then show ?case
  proof cases
    case a: 1
    then have "search_loop compare k xs i ?m = Some m"
      using 1(3) ij by (subst (asm) search_loop.simps) (simp add: Let_def)
    then show ?thesis using 1(1) [OF ij refl refl refl a] m by auto
  next
    case a: 2
    then have "search_loop compare k xs (?m + 1) j = Some m"
      using 1(3) ij by (subst (asm) search_loop.simps) (simp add: Let_def)
    then show ?thesis using 1(2) [OF ij refl refl refl _ a] a m by auto
  next
    case a: 3
    then have "m = ?m" using 1(3) ij by (subst (asm) search_loop.simps) (simp add: Let_def)
    then show ?thesis using a m by simp
  qed
qed

text \<open>The array is sorted according to \<open>compare\<close> as seen from the key: the elements below the
  key come first, then those equal to it, then those above it.\<close>

definition sorted_for :: "('k \<Rightarrow> 'a \<Rightarrow> int) \<Rightarrow> 'k \<Rightarrow> 'a list \<Rightarrow> bool" where
  "sorted_for compare k xs \<longleftrightarrow> (\<forall>a < length xs. \<forall>b < a.
     (compare k (xs ! a) > 0 \<longrightarrow> compare k (xs ! b) > 0) \<and> (compare k (xs ! b) < 0 \<longrightarrow> compare k (xs ! a) < 0))"

lemma sorted_forD:
  assumes "sorted_for compare k xs" "b \<le> a" "a < length xs"
  shows "compare k (xs ! a) > 0 \<Longrightarrow> compare k (xs ! b) > 0" and "compare k (xs ! b) < 0 \<Longrightarrow> compare k (xs ! a) < 0"
  using assms unfolding sorted_for_def by (metis le_neq_implies_less)+

lemma search_loop_complete:
  "sorted_for compare k xs \<Longrightarrow> j \<le> length xs \<Longrightarrow> search_loop compare k xs i j = None \<Longrightarrow>
   i \<le> m \<Longrightarrow> m < j \<Longrightarrow> compare k (xs ! m) \<noteq> 0"
proof (induction compare k xs i j rule: search_loop.induct)
  case (1 compare k xs i j)
  let ?m = "i + (j - i) div 2"
  have ij: "i < j" using 1(6,7) by simp
  then have m: "i \<le> ?m" "?m < j" by auto
  have nz: "compare k (xs ! ?m) \<noteq> 0"
    using 1(5) ij by (subst (asm) search_loop.simps) (auto simp: Let_def)
  show ?case
  proof (cases "compare k (xs ! ?m) < 0")
    case True
    then have r: "search_loop compare k xs i ?m = None"
      using 1(5) ij by (subst (asm) search_loop.simps) (simp add: Let_def)
    have "compare k (xs ! m) < 0" if "?m \<le> m"
      using sorted_forD(2) [OF 1(3) that _ True] 1(4,7) by simp
    then show ?thesis using 1(1) [OF ij refl refl refl True 1(3) _ r 1(6)] m 1(4) by force
  next
    case False
    then have gt: "compare k (xs ! ?m) > 0" using nz by simp
    then have r: "search_loop compare k xs (?m + 1) j = None"
      using 1(5) ij by (subst (asm) search_loop.simps) (simp add: Let_def)
    have "compare k (xs ! m) > 0" if "m \<le> ?m"
      using sorted_forD(1) [OF 1(3) that _ gt] 1(4) m by simp
    then show ?thesis using 1(2) [OF ij refl refl refl False gt 1(3,4) r _ 1(7)] by force
  qed
qed

lemma binary_search_ok:
  assumes "sorted_for compare k xs"
  shows "case binary_search compare k xs of
           Some m \<Rightarrow> m < length xs \<and> compare k (xs ! m) = 0
         | None \<Rightarrow> \<forall>x \<in> set xs. compare k x \<noteq> 0"
  using search_loop_sound [of compare k xs 0 "length xs"] search_loop_complete [OF assms, of "length xs" 0]
  by (auto simp: binary_search_def in_set_conv_nth split: option.splits)

definition three_way :: "('a \<Rightarrow> 'k::linorder) \<Rightarrow> 'a \<Rightarrow> 'a \<Rightarrow> int" where
  "three_way key a b = (if key a < key b then -1 else if key a = key b then 0 else 1)"

lemma sorted_for_three_way: "sorted (map key xs) \<Longrightarrow> sorted_for (three_way key) k xs"
  unfolding sorted_for_def three_way_def
  by (auto simp: sorted_iff_nth_mono_less split: if_splits) (metis (no_types, lifting) leD less_trans not_less_iff_gr_or_eq)+

subsection \<open>Numbers\<close>

fun decimal :: "nat \<Rightarrow> u8 list" where
  "decimal n = (if n < 10 then [of_nat (48 + n)] else decimal (n div 10) @ [of_nat (48 + n mod 10)])"

declare decimal.simps [simp del]

lemma digit_simps:
  assumes "d < 10"
  shows "isdigit (of_nat (48 + d))" and "ucast (of_nat (48 + d) :: u8) - 48 = (of_nat d :: u32)"
    and "\<not> isspace (of_nat (48 + d))" and "of_nat (48 + d) \<noteq> (43::u8)" and "of_nat (48 + d) \<noteq> (45::u8)"
proof -
  have "d \<in> {0, 1, 2, 3, 4, 5, 6, 7, 8, 9}" using assms by auto
  then show "isdigit (of_nat (48 + d))" "ucast (of_nat (48 + d) :: u8) - 48 = (of_nat d :: u32)"
    "\<not> isspace (of_nat (48 + d))" "of_nat (48 + d) \<noteq> (43::u8)" "of_nat (48 + d) \<noteq> (45::u8)"
    by (auto simp: isdigit_def isspace_def)
qed

lemma parse_decimal: "parse_digits (decimal n @ s) 0 = parse_digits s (- of_nat n)"
proof (induction n arbitrary: s rule: decimal.induct)
  case (1 n)
  show ?case
  proof (cases "n < 10")
    case True
    then show ?thesis using digit_simps(1,2) [OF True] by (subst decimal.simps) (simp del: of_nat_add)
  next
    case False
    have d: "n mod 10 < 10" by simp
    have "parse_digits (decimal n @ s) 0 = parse_digits (of_nat (48 + n mod 10) # s) (- of_nat (n div 10))"
      using 1 [OF False] False by (subst decimal.simps) (simp del: of_nat_add)
    also have "\<dots> = parse_digits s (- of_nat (n div 10) * 10 - of_nat (n mod 10))"
      using digit_simps(1,2) [OF d] by (simp del: of_nat_add)
    also have "- of_nat (n div 10) * 10 - of_nat (n mod 10) = - (of_nat (n div 10 * 10 + n mod 10) :: u32)"
      by (simp only: of_nat_add of_nat_mult) simp
    finally show ?thesis by simp
  qed
qed

lemma decimal_hd: "\<exists>d ds. decimal n = of_nat (48 + d) # ds \<and> d < 10"
proof (induction n rule: decimal.induct)
  case (1 n)
  show ?case
  proof (cases "n < 10")
    case False
    then obtain d ds where "decimal (n div 10) = of_nat (48 + d) # ds" "d < 10" using 1 by blast
    then show ?thesis using False by (subst decimal.simps) (simp del: of_nat_add, blast)
  qed (subst decimal.simps, simp del: of_nat_add, blast)
qed

lemma skip_space_app: "\<forall>c \<in> set sp. isspace c \<Longrightarrow> \<not> isspace c \<Longrightarrow> skip_space (sp @ c # s) = Some (c # s)"
  by (induction sp) auto

lemma sint_of_int: "- (2 ^ 31) \<le> v \<Longrightarrow> v < 2 ^ 31 \<Longrightarrow> sint (of_int v :: u32) = v"
  using signed_take_bit_int_eq_self [of 31 v] by (simp add: signed_of_int)

text \<open>
  C19: \<^verbatim>\<open>sort\<close> leaves a permutation of the array in the order of the comparison function, for
  every comparison function that is positive exactly when its first argument is the larger.
\<close>

theorem sort_correct:
  fixes key :: "'a \<Rightarrow> 'k::linorder"
  assumes "\<And>a b. compare a b > 0 \<longleftrightarrow> key b < key a"
  shows "sorted (map key (heap_sort compare xs)) \<and> mset (heap_sort compare xs) = mset xs"
  using comparison.heap_sort_ok [OF comparison.intro, OF assms] .

theorem sort_correct_witness:
  "sorted (map (\<lambda>x. x) (heap_sort (\<lambda>a b. a - b) [3, 1, 2 :: int])) \<and>
   mset (heap_sort (\<lambda>a b. a - b) [3, 1, 2 :: int]) = mset [3, 1, 2]"
  by (rule sort_correct) simp

text \<open>
  C26: sorting and then searching with the same three-way comparison finds an element with the
  key wanted exactly when the array has one, and otherwise returns the null pointer.
\<close>

theorem search_after_sort:
  fixes key :: "'a \<Rightarrow> 'k::linorder"
  shows "case bsearch (three_way key) x (qsort (three_way key) xs) of
           None \<Rightarrow> key x \<notin> key ` set xs
         | Some m \<Rightarrow> m < length xs \<and> key (qsort (three_way key) xs ! m) = key x"
proof -
  let ?s = "qsort (three_way key) xs"
  have s: "sorted (map key ?s)" "mset ?s = mset xs"
    using by_key.heap_sort_ok [of key xs] unfolding qsort_def three_way_def [abs_def] by auto
  then have "set ?s = set xs" "length ?s = length xs" by (metis set_mset_mset, metis size_mset)
  moreover have "three_way key x y = 0 \<longleftrightarrow> key y = key x" for y by (auto simp: three_way_def)
  ultimately show ?thesis using binary_search_ok [OF sorted_for_three_way [OF s(1)], of x]
    by (auto simp: bsearch_def split: option.splits)
qed

lemma atoi_reads_decimal:
  assumes "- (2 ^ 31) \<le> v" "v < 2 ^ 31" "\<forall>c \<in> set sp. isspace c" "\<not> isdigit t"
  shows "map_option sint (atoi (sp @ (if v < 0 then [45] else []) @ decimal (nat \<bar>v\<bar>) @ t # rest)) = Some v"
proof -
  obtain d ds where d: "decimal (nat \<bar>v\<bar>) = of_nat (48 + d) # ds" "d < 10" using decimal_hd by blast
  have p: "parse_digits (decimal (nat \<bar>v\<bar>) @ t # rest) 0 = Some (- of_nat (nat \<bar>v\<bar>))"
    using assms(4) by (simp add: parse_decimal)
  have w: "of_nat (nat \<bar>v\<bar>) = (of_int \<bar>v\<bar> :: u32)" by simp
  have sp45: "\<not> isspace 45" by (simp add: isspace_def)
  show ?thesis
  proof (cases "v < 0")
    case True
    have "atoi (sp @ [45] @ decimal (nat \<bar>v\<bar>) @ t # rest) = Some (of_int v)"
      unfolding atoi_def using skip_space_app [OF assms(3) sp45] p True by simp
    then show ?thesis using True sint_of_int [OF assms(1,2)] by simp
  next
    case False
    have "atoi (sp @ decimal (nat \<bar>v\<bar>) @ t # rest) = Some (of_int v)"
      unfolding atoi_def using skip_space_app [OF assms(3) digit_simps(3) [OF d(2)]] p False digit_simps(4,5) [OF d(2)]
      unfolding d(1) by (simp del: of_nat_add)
    then show ?thesis using False sint_of_int [OF assms(1,2)] by simp
  qed
qed

text \<open>
  C27: \<^verbatim>\<open>atoi\<close> reads back every \<^verbatim>\<open>int\<close> from its decimal digits, the smallest one included: after
  any white space, with a minus sign in front of a negative number, up to the first character
  that is not a digit.
\<close>

theorem atoi_decimal:
  assumes "- (2 ^ 31) \<le> v" "v < 2 ^ 31" "\<forall>c \<in> set sp. isspace c" "\<not> isdigit t"
  shows "map_option sint (atoi (sp @ (if v < 0 then [45] else []) @ decimal (nat \<bar>v\<bar>) @ t # rest)) = Some v"
  using assms by (rule atoi_reads_decimal)

theorem atoi_decimal_witness:
  "map_option sint (atoi ([32, 9] @ (if (-2147483648::int) < 0 then [45] else []) @
     decimal (nat \<bar>-2147483648\<bar>) @ 0 # [])) = Some (-2147483648)"
  by (rule atoi_decimal) (simp_all add: isspace_def isdigit_def)

end
