(* ===== verification/Block_Device.thy ===== *)
theory Block_Device
  imports Pintos_Prelude
begin

section \<open>Block devices (devices/block.c)\<close>

text \<open>
  A registered device is a record of its name, kind, size in sectors, driver and driver data,
  with its counters of sectors read and written. The driver is a pair of operations on its data,
  \<^verbatim>\<open>struct block_operations\<close>; the disks behind it are not part of the sources, and what the file
  system relies on is the locale \<open>block_driver\<close>: a sector reads back as it was last written.
  A device is a number, the address of its descriptor. A panic is \<open>None\<close>.
\<close>

type_synonym sector = "u8 list"

definition BLOCK_SECTOR_SIZE :: nat where [simp]: "BLOCK_SECTOR_SIZE = 512"

datatype block_kind = BLOCK_KERNEL | BLOCK_FILESYS | BLOCK_SCRATCH | BLOCK_SWAP | BLOCK_RAW | BLOCK_FOREIGN

record 'd block_operations =
  op_read :: "'d \<Rightarrow> nat \<Rightarrow> ('d \<times> sector) option"
  op_write :: "'d \<Rightarrow> nat \<Rightarrow> sector \<Rightarrow> 'd option"

record 'd block =
  blk_name :: string
  kind :: block_kind
  blk_size :: nat
  ops :: "'d block_operations"
  aux :: 'd
  read_cnt :: u64
  write_cnt :: u64

definition block_type_name :: "block_kind \<Rightarrow> string" where
  "block_type_name type = (case type of BLOCK_KERNEL \<Rightarrow> ''kernel'' | BLOCK_FILESYS \<Rightarrow> ''filesys''
     | BLOCK_SCRATCH \<Rightarrow> ''scratch'' | BLOCK_SWAP \<Rightarrow> ''swap'' | BLOCK_RAW \<Rightarrow> ''raw'' | BLOCK_FOREIGN \<Rightarrow> ''foreign'')"

definition check_sector :: "'d block \<Rightarrow> nat \<Rightarrow> unit option" where
  "check_sector b sector = (if sector \<ge> blk_size b then None else Some ())"

definition block_read :: "'d block \<Rightarrow> nat \<Rightarrow> ('d block \<times> sector) option" where
  "block_read b sector = do {
     _ \<leftarrow> check_sector b sector;
     (d, buffer) \<leftarrow> op_read (ops b) (aux b) sector;
     Some (b\<lparr>aux := d, read_cnt := read_cnt b + 1\<rparr>, buffer) }"

definition block_write :: "'d block \<Rightarrow> nat \<Rightarrow> sector \<Rightarrow> 'd block option" where
  "block_write b sector buffer = do {
     _ \<leftarrow> check_sector b sector;
     _ \<leftarrow> ASSERT (kind b \<noteq> BLOCK_FOREIGN);
     d \<leftarrow> op_write (ops b) (aux b) sector buffer;
     Some (b\<lparr>aux := d, write_cnt := write_cnt b + 1\<rparr>) }"

definition block_size :: "'d block \<Rightarrow> nat" where "block_size b = blk_size b"
definition block_name :: "'d block \<Rightarrow> string" where "block_name b = blk_name b"
definition block_type_of :: "'d block \<Rightarrow> block_kind" where "block_type_of b = kind b"
definition block_read_count :: "'d block \<Rightarrow> u32" where "block_read_count b = ucast (read_cnt b)"
definition block_write_count :: "'d block \<Rightarrow> u32" where "block_write_count b = ucast (write_cnt b)"

text \<open>The registry: the devices in probe order and the device of each role.\<close>

record 'd block_registry =
  devices :: "nat \<rightharpoonup> 'd block"
  all_blocks :: "nat list"
  block_by_role :: "block_kind \<rightharpoonup> nat"

definition is_role :: "block_kind \<Rightarrow> bool" where
  "is_role k \<longleftrightarrow> k \<notin> {BLOCK_RAW, BLOCK_FOREIGN}"

definition block_get_role :: "block_kind \<Rightarrow> 'd block_registry \<Rightarrow> nat option option" where
  "block_get_role role r = do { _ \<leftarrow> ASSERT (is_role role); Some (block_by_role r role) }"

definition block_set_role :: "block_kind \<Rightarrow> nat \<Rightarrow> 'd block_registry \<Rightarrow> 'd block_registry option" where
  "block_set_role role b r = do {
     _ \<leftarrow> ASSERT (is_role role); Some (r\<lparr>block_by_role := (block_by_role r)(role \<mapsto> b)\<rparr>) }"

definition block_first :: "'d block_registry \<Rightarrow> nat option" where
  "block_first r = (case all_blocks r of [] \<Rightarrow> None | b # _ \<Rightarrow> Some b)"

primrec next_in :: "nat list \<Rightarrow> nat \<Rightarrow> nat option" where
  "next_in [] b = None"
| "next_in (c # cs) b = (if c = b then (case cs of [] \<Rightarrow> None | d # _ \<Rightarrow> Some d) else next_in cs b)"

definition block_next :: "nat \<Rightarrow> 'd block_registry \<Rightarrow> nat option" where
  "block_next b r = next_in (all_blocks r) b"

primrec find_named :: "(nat \<rightharpoonup> 'd block) \<Rightarrow> string \<Rightarrow> nat list \<Rightarrow> nat option" where
  "find_named ds nm [] = None"
| "find_named ds nm (b # bs) =
     (if map_option blk_name (ds b) = Some nm then Some b else find_named ds nm bs)"

definition block_get_by_name :: "string \<Rightarrow> 'd block_registry \<Rightarrow> nat option" where
  "block_get_by_name nm r = find_named (devices r) nm (all_blocks r)"

text \<open>\<open>p\<close> is the block that \<^verbatim>\<open>malloc\<close> returns, \<open>0\<close> when it has none; the name keeps 15 characters.\<close>

definition block_register ::
  "nat \<Rightarrow> string \<Rightarrow> block_kind \<Rightarrow> nat \<Rightarrow> 'd block_operations \<Rightarrow> 'd \<Rightarrow> 'd block_registry \<Rightarrow> ('d block_registry \<times> nat) option" where
  "block_register p nm type sz os ax r = do {
     _ \<leftarrow> ASSERT (p \<noteq> 0);
     let b = \<lparr>blk_name = take 15 nm, kind = type, blk_size = sz, ops = os, aux = ax, read_cnt = 0, write_cnt = 0\<rparr>;
     Some (r\<lparr>devices := (devices r)(p \<mapsto> b), all_blocks := all_blocks r @ [p]\<rparr>, p) }"

subsection \<open>What a driver promises\<close>

text \<open>
  The contents of a device with driver data \<open>d\<close> are \<open>view d\<close>: reading a sector returns them and
  leaves them alone, writing a sector changes that sector only. \<open>n\<close> is the number of sectors.
\<close>

definition block_ok :: "'d block_operations \<Rightarrow> nat \<Rightarrow> ('d \<Rightarrow> bool) \<Rightarrow> 'd block \<Rightarrow> bool" where
  "block_ok os n ok b \<longleftrightarrow> ops b = os \<and> blk_size b = n \<and> kind b \<noteq> BLOCK_FOREIGN \<and> ok (aux b)"

locale block_driver =
  fixes os :: "'d block_operations" and n :: nat
    and ok :: "'d \<Rightarrow> bool" and view :: "'d \<Rightarrow> nat \<Rightarrow> sector"
  assumes op_read: "ok d \<Longrightarrow> s < n \<Longrightarrow>
      \<exists>d'. op_read os d s = Some (d', view d s) \<and> ok d' \<and> (\<forall>t < n. view d' t = view d t)"
    and op_write: "ok d \<Longrightarrow> s < n \<Longrightarrow> length x = BLOCK_SECTOR_SIZE \<Longrightarrow>
      \<exists>d'. op_write os d s x = Some d' \<and> ok d' \<and> (\<forall>t < n. view d' t = (if t = s then x else view d t))"
    and view_length: "ok d \<Longrightarrow> s < n \<Longrightarrow> length (view d s) = BLOCK_SECTOR_SIZE"
begin

lemma block_read_ok:
  assumes "block_ok os n ok b" "s < n"
  obtains b' where "block_read b s = Some (b', view (aux b) s)" "block_ok os n ok b'"
    "\<forall>t < n. view (aux b') t = view (aux b) t"
proof -
  obtain d where d: "op_read os (aux b) s = Some (d, view (aux b) s)" "ok d" "\<forall>t < n. view d t = view (aux b) t"
    using op_read [of "aux b" s] assms by (auto simp: block_ok_def)
  show thesis
    by (rule that [of "b\<lparr>aux := d, read_cnt := read_cnt b + 1\<rparr>"])
      (use assms d in \<open>auto simp: block_read_def check_sector_def block_ok_def\<close>)
qed

lemma block_write_ok:
  assumes "block_ok os n ok b" "s < n" "length x = BLOCK_SECTOR_SIZE"
  obtains b' where "block_write b s x = Some b'" "block_ok os n ok b'"
    "\<forall>t < n. view (aux b') t = (if t = s then x else view (aux b) t)"
proof -
  obtain d where d: "op_write os (aux b) s x = Some d" "ok d"
      "\<forall>t < n. view d t = (if t = s then x else view (aux b) t)"
    using op_write [of "aux b" s x] assms by (auto simp: block_ok_def)
  show thesis
    by (rule that [of "b\<lparr>aux := d, write_cnt := write_cnt b + 1\<rparr>"])
      (use assms d in \<open>auto simp: block_write_def check_sector_def block_ok_def\<close>)
qed

lemma block_past_end: "block_ok os n ok b \<Longrightarrow> n \<le> s \<Longrightarrow> block_read b s = None \<and> block_write b s x = None"
  by (simp add: block_read_def block_write_def check_sector_def block_ok_def)

end

text \<open>A disk that keeps its sectors in memory.\<close>

definition ram_disk :: "(nat \<Rightarrow> sector) block_operations" where
  "ram_disk = \<lparr>op_read = (\<lambda>d s. Some (d, d s)), op_write = (\<lambda>d s x. Some (d(s := x)))\<rparr>"

definition ram_disk_ok :: "nat \<Rightarrow> (nat \<Rightarrow> sector) \<Rightarrow> bool" where
  "ram_disk_ok n d \<longleftrightarrow> (\<forall>s < n. length (d s) = BLOCK_SECTOR_SIZE)"

interpretation ram: block_driver ram_disk n "ram_disk_ok n" "\<lambda>d. d" for n
  by unfold_locales (auto simp: ram_disk_def ram_disk_ok_def)

subsection \<open>Partitions (devices/partition.c)\<close>

text \<open>
  A partition is a driver on top of another device. Its descriptor holds the underlying device and
  the first sector.
\<close>

record 'd partition_dev =
  pblock :: "'d block"
  pstart :: nat

definition partition_read :: "'d partition_dev \<Rightarrow> nat \<Rightarrow> ('d partition_dev \<times> sector) option" where
  "partition_read p sector = do {
     (b, buffer) \<leftarrow> block_read (pblock p) ((pstart p + sector) mod 2 ^ 32);
     Some (p\<lparr>pblock := b\<rparr>, buffer) }"

definition partition_write :: "'d partition_dev \<Rightarrow> nat \<Rightarrow> sector \<Rightarrow> 'd partition_dev option" where
  "partition_write p sector buffer = do {
     b \<leftarrow> block_write (pblock p) ((pstart p + sector) mod 2 ^ 32) buffer;
     Some (p\<lparr>pblock := b\<rparr>) }"

definition partition_operations :: "'d partition_dev block_operations" where
  "partition_operations = \<lparr>op_read = partition_read, op_write = partition_write\<rparr>"

locale partition_of = block_driver +
  fixes start sz :: nat
  assumes inside: "start + sz \<le> n" and addressable: "n \<le> 2 ^ 32"
begin

definition part_ok :: "'a partition_dev \<Rightarrow> bool" where
  "part_ok p \<longleftrightarrow> block_ok os n ok (pblock p) \<and> pstart p = start"

definition part_view :: "'a partition_dev \<Rightarrow> nat \<Rightarrow> sector" where
  "part_view p s = view (aux (pblock p)) (start + s)"

lemma sector_shift: "s < sz \<Longrightarrow> start + s < n" "s < sz \<Longrightarrow> (start + s) mod 2 ^ 32 = start + s"
  using inside addressable by auto

lemma partition_read_ok:
  assumes "part_ok p" "s < sz"
  shows "\<exists>p'. partition_read p s = Some (p', part_view p s) \<and> part_ok p' \<and> (\<forall>t < sz. part_view p' t = part_view p t)"
proof -
  obtain b where "block_read (pblock p) (start + s) = Some (b, view (aux (pblock p)) (start + s))" "block_ok os n ok b"
      "\<forall>t < n. view (aux b) t = view (aux (pblock p)) t"
    using block_read_ok [of "pblock p" "start + s"] assms sector_shift(1) by (auto simp: part_ok_def)
  then show ?thesis using assms sector_shift by (simp add: partition_read_def part_ok_def part_view_def)
qed

lemma partition_write_ok:
  assumes "part_ok p" "s < sz" "length x = BLOCK_SECTOR_SIZE"
  shows "\<exists>p'. partition_write p s x = Some p' \<and> part_ok p' \<and>
    (\<forall>t < sz. part_view p' t = (if t = s then x else part_view p t))"
proof -
  obtain b where "block_write (pblock p) (start + s) x = Some b" "block_ok os n ok b"
      "\<forall>t < n. view (aux b) t = (if t = start + s then x else view (aux (pblock p)) t)"
    using block_write_ok [of "pblock p" "start + s" x] assms sector_shift(1) by (auto simp: part_ok_def)
  then show ?thesis using assms sector_shift by (simp add: partition_write_def part_ok_def part_view_def)
qed

lemma part_view_length: "part_ok p \<Longrightarrow> s < sz \<Longrightarrow> length (part_view p s) = BLOCK_SECTOR_SIZE"
  using view_length [of "aux (pblock p)" "start + s"] sector_shift(1)
  by (simp add: part_ok_def part_view_def block_ok_def)

end

sublocale partition_of \<subseteq> part: block_driver partition_operations sz part_ok part_view
  by unfold_locales
    (use partition_read_ok partition_write_ok part_view_length in \<open>simp_all add: partition_operations_def\<close>)

interpretation ram_part: partition_of ram_disk 8192 "ram_disk_ok 8192" "\<lambda>d. d" 64 4096
  by unfold_locales simp_all

end
