(* ===== verification/Partition.thy ===== *)
theory Partition
  imports Block_Device
begin

section \<open>Partition tables (devices/partition.c)\<close>

text \<open>
  \<open>partition_scan\<close> reads the partition table of a registered disk and registers its partitions.
  The calls of \<^verbatim>\<open>malloc\<close> are the parameter \<open>malloc\<close>, which gives an address for each registry,
  \<open>0\<close> when memory runs out; \<open>mk\<close> is the descriptor of a partition as driver data and \<open>po\<close> the
  partition driver. The recursion on extended partitions need not end, so the functions take the
  depth they may reach as fuel; running out of it is \<open>None\<close>. Messages are not modelled.
\<close>

record table_entry =
  e_type :: u8
  e_offset :: nat
  e_size :: nat

definition le16 :: "u8 list \<Rightarrow> nat" where
  "le16 bs = unat (bs ! 0) + 256 * unat (bs ! 1)"

definition le32 :: "u8 list \<Rightarrow> nat" where
  "le32 bs = unat (bs ! 0) + 256 * unat (bs ! 1) + 65536 * unat (bs ! 2) + 16777216 * unat (bs ! 3)"

definition entry_at :: "sector \<Rightarrow> nat \<Rightarrow> table_entry" where
  "entry_at pt i = (let e = drop (446 + 16 * i) pt
     in \<lparr>e_type = e ! 4, e_offset = le32 (drop 8 e), e_size = le32 (drop 12 e)\<rparr>)"

definition signature :: "sector \<Rightarrow> nat" where
  "signature pt = le16 (drop 510 pt)"

definition is_extended :: "u8 \<Rightarrow> bool" where
  "is_extended t \<longleftrightarrow> t = 0x05 \<or> t = 0x0f \<or> t = 0x85 \<or> t = 0xc5"

definition partition_kind :: "u8 \<Rightarrow> block_kind" where
  "partition_kind t = (if t = 0x20 then BLOCK_KERNEL else if t = 0x21 then BLOCK_FILESYS
     else if t = 0x22 then BLOCK_SCRATCH else if t = 0x23 then BLOCK_SWAP else BLOCK_FOREIGN)"

fun show_nat :: "nat \<Rightarrow> string" where
  "show_nat n = (if n < 10 then [char_of (48 + n)] else show_nat (n div 10) @ [char_of (48 + n mod 10)])"

declare show_nat.simps [simp del]

definition found_partition ::
  "('d block_registry \<Rightarrow> nat) \<Rightarrow> (nat \<Rightarrow> nat \<Rightarrow> 'd) \<Rightarrow> 'd block_operations \<Rightarrow> nat \<Rightarrow> u8 \<Rightarrow> nat \<Rightarrow> nat \<Rightarrow> nat \<Rightarrow>
   'd block_registry \<Rightarrow> 'd block_registry option" where
  "found_partition malloc mk po blk part_type start sz part_nr r = do {
     b \<leftarrow> devices r blk;
     if start \<ge> block_size b then Some r
     else if (start + sz) mod 2 ^ 32 < start \<or> (start + sz) mod 2 ^ 32 > block_size b then Some r
     else do {
       let type = partition_kind part_type;
       _ \<leftarrow> ASSERT (malloc r \<noteq> 0);
       let nm = take 15 (block_name b @ show_nat part_nr);
       (r, _) \<leftarrow> block_register (malloc r) nm type sz po (mk blk start) r;
       Some r } }"

primrec scan_entries ::
  "(nat \<Rightarrow> nat \<Rightarrow> 'd block_registry \<times> nat \<Rightarrow> ('d block_registry \<times> nat) option) \<Rightarrow>
   (u8 \<Rightarrow> nat \<Rightarrow> nat \<Rightarrow> nat \<Rightarrow> 'd block_registry \<Rightarrow> 'd block_registry option) \<Rightarrow>
   nat \<Rightarrow> nat \<Rightarrow> table_entry list \<Rightarrow> 'd block_registry \<times> nat \<Rightarrow> ('d block_registry \<times> nat) option" where
  "scan_entries table found sector primary [] st = Some st"
| "scan_entries table found sector primary (e # es) st = do {
     st \<leftarrow> (if e_size e = 0 \<or> e_type e = 0 then Some st
            else if is_extended (e_type e) then
              (if sector = 0 then table (e_offset e) (e_offset e) st
               else table ((e_offset e + primary) mod 2 ^ 32) primary st)
            else do {
              let (r, part_nr) = st;
              let part_nr = part_nr + 1;
              r \<leftarrow> found (e_type e) ((e_offset e + sector) mod 2 ^ 32) (e_size e) part_nr r;
              Some (r, part_nr) });
     scan_entries table found sector primary es st }"

primrec read_partition_table ::
  "nat \<Rightarrow> ('d block_registry \<Rightarrow> nat) \<Rightarrow> (nat \<Rightarrow> nat \<Rightarrow> 'd) \<Rightarrow> 'd block_operations \<Rightarrow> nat \<Rightarrow> nat \<Rightarrow> nat \<Rightarrow>
   'd block_registry \<times> nat \<Rightarrow> ('d block_registry \<times> nat) option" where
  "read_partition_table 0 malloc mk po blk sector primary st = None"
| "read_partition_table (Suc depth) malloc mk po blk sector primary st = do {
     let (r, part_nr) = st;
     b \<leftarrow> devices r blk;
     if sector \<ge> block_size b then Some st
     else do {
       _ \<leftarrow> ASSERT (malloc r \<noteq> 0);
       (b, pt) \<leftarrow> block_read b 0;
       let r = r\<lparr>devices := (devices r)(blk \<mapsto> b)\<rparr>;
       if signature pt \<noteq> 0xaa55 then Some (r, part_nr)
       else scan_entries (read_partition_table depth malloc mk po blk) (found_partition malloc mk po blk)
              sector primary (map (entry_at pt) [0..<4]) (r, part_nr) } }"

definition partition_scan ::
  "nat \<Rightarrow> ('d block_registry \<Rightarrow> nat) \<Rightarrow> (nat \<Rightarrow> nat \<Rightarrow> 'd) \<Rightarrow> 'd block_operations \<Rightarrow> nat \<Rightarrow>
   'd block_registry \<Rightarrow> 'd block_registry option" where
  "partition_scan depth malloc mk po blk r = do {
     (r, part_nr) \<leftarrow> read_partition_table depth malloc mk po blk 0 0 (r, 0);
     Some r }"

subsection \<open>Every partition lies within its disk\<close>

text \<open>A device added by the scan is a partition: its descriptor names a run of sectors of the disk.\<close>

definition within_disk :: "(nat \<Rightarrow> nat \<Rightarrow> 'd) \<Rightarrow> 'd block_operations \<Rightarrow> nat \<Rightarrow> nat \<Rightarrow> 'd block \<Rightarrow> bool" where
  "within_disk mk po blk n b \<longleftrightarrow>
     (\<exists>start. aux b = mk blk start \<and> ops b = po \<and> start < n \<and> start + blk_size b \<le> n)"

definition scan_inv :: "(nat \<Rightarrow> nat \<Rightarrow> 'd) \<Rightarrow> 'd block_operations \<Rightarrow> nat \<Rightarrow> nat \<Rightarrow>
    'd block_registry \<Rightarrow> 'd block_registry \<Rightarrow> bool" where
  "scan_inv mk po blk n r0 r \<longleftrightarrow>
     map_option blk_size (devices r blk) = Some n \<and>
     (\<exists>new. all_blocks r = all_blocks r0 @ new \<and> blk \<notin> set new \<and>
        (\<forall>p \<in> set new. \<exists>b. devices r p = Some b \<and> within_disk mk po blk n b))"

lemma found_partition_inv:
  assumes inv: "scan_inv mk po blk n r0 r" "finite (dom (devices r))"
    and malloc: "malloc r \<noteq> 0" "malloc r \<notin> dom (devices r)" and n: "n \<le> 2 ^ 32" and sz: "sz < 2 ^ 32"
  shows "\<exists>r'. found_partition malloc mk po blk t start sz nr r = Some r' \<and>
    scan_inv mk po blk n r0 r' \<and> finite (dom (devices r'))"
proof -
  obtain b where b: "devices r blk = Some b" "blk_size b = n" using inv(1) by (auto simp: scan_inv_def)
  obtain new where new: "all_blocks r = all_blocks r0 @ new" "blk \<notin> set new"
      "\<forall>p \<in> set new. \<exists>b. devices r p = Some b \<and> within_disk mk po blk n b"
    using inv(1) by (auto simp: scan_inv_def)
  show ?thesis
  proof (cases "start \<ge> n \<or> (start + sz) mod 2 ^ 32 < start \<or> (start + sz) mod 2 ^ 32 > n")
    case True
    then have "found_partition malloc mk po blk t start sz nr r = Some r"
      using b by (auto simp: found_partition_def block_size_def)
    then show ?thesis using inv by auto
  next
    case False
    let ?p = "malloc r"
    let ?b = "\<lparr>blk_name = take 15 (take 15 (block_name b @ show_nat nr)), kind = partition_kind t, blk_size = sz,
               ops = po, aux = mk blk start, read_cnt = 0, write_cnt = 0\<rparr>"
    let ?r = "r\<lparr>devices := (devices r)(?p \<mapsto> ?b), all_blocks := all_blocks r @ [?p]\<rparr>"
    have "start + sz < 2 ^ 32"
    proof (rule ccontr)
      assume "\<not> start + sz < 2 ^ 32"
      then have "(start + sz) mod 2 ^ 32 = (start + sz - 2 ^ 32) mod 2 ^ 32" by (intro le_mod_geq) simp
      moreover have "start + sz - 2 ^ 32 < 2 ^ 32" using False n sz by linarith
      ultimately have "(start + sz) mod 2 ^ 32 = start + sz - 2 ^ 32" by (simp only: mod_less)
      then show False using False sz \<open>\<not> start + sz < 2 ^ 32\<close> by linarith
    qed
    then have w: "within_disk mk po blk n ?b" using False by (auto simp: within_disk_def)
    have "found_partition malloc mk po blk t start sz nr r = Some ?r"
      using False b malloc(1) by (auto simp: found_partition_def block_register_def block_size_def)
    moreover have "blk \<noteq> ?p" using b malloc(2) by auto
    moreover have "scan_inv mk po blk n r0 ?r" unfolding scan_inv_def
      using b new w \<open>blk \<noteq> ?p\<close> malloc(2) by (auto intro!: exI [of _ "new @ [?p]"])
    ultimately show ?thesis using inv(2) by auto
  qed
qed

lemma le32_less: "le32 bs < 2 ^ 32"
proof -
  have "unat (bs ! i) \<le> 255" for i using unsigned_less [of "bs ! i", where 'a = nat] by simp
  from this [of 0] this [of 1] this [of 2] this [of 3] show ?thesis by (simp add: le32_def)
qed

lemma entry_size_less: "e_size (entry_at pt i) < 2 ^ 32" "e_offset (entry_at pt i) < 2 ^ 32"
  by (simp_all only: entry_at_def Let_def table_entry.select_convs le32_less)

lemma scan_entries_inv:
  assumes malloc: "\<And>r. finite (dom (devices r)) \<Longrightarrow> malloc r \<noteq> 0 \<and> malloc r \<notin> dom (devices r)" and n: "n \<le> 2 ^ 32"
  shows "scan_inv mk po blk n r0 r \<Longrightarrow> finite (dom (devices r)) \<Longrightarrow>
    \<forall>e \<in> set es. e_size e < 2 ^ 32 \<and> \<not> is_extended (e_type e) \<Longrightarrow>
    \<exists>r' k. scan_entries table (found_partition malloc mk po blk) sector primary es (r, nr) = Some (r', k) \<and>
      scan_inv mk po blk n r0 r'"
proof (induction es arbitrary: r nr)
  case (Cons e es)
  show ?case
  proof (cases "e_size e = 0 \<or> e_type e = 0")
    case True
    then show ?thesis using Cons by auto
  next
    case False
    have m: "malloc r \<noteq> 0" "malloc r \<notin> dom (devices r)" "e_size e < 2 ^ 32"
      using malloc [OF Cons.prems(2)] Cons.prems(3) by auto
    obtain r' where "found_partition malloc mk po blk (e_type e) ((e_offset e + sector) mod 2 ^ 32) (e_size e) (nr + 1) r = Some r'"
        "scan_inv mk po blk n r0 r'" "finite (dom (devices r'))"
      using found_partition_inv [where malloc = malloc, OF Cons.prems(1,2) m(1,2) n m(3)] by blast
    then show ?thesis using False Cons.prems(3) Cons.IH [of r' "nr + 1"] by simp
  qed
qed auto

subsection \<open>The scan\<close>

lemma table_read:
  assumes drv: "block_driver os n ok view" and b: "devices r blk = Some b" "block_ok os n ok b" and s: "sector < n"
    and m: "malloc r \<noteq> 0" and sg: "signature (view (aux b) 0) = 0xaa55"
  obtains b' where "block_ok os n ok b'" "\<forall>t < n. view (aux b') t = view (aux b) t"
    "read_partition_table (Suc depth) malloc mk po blk sector primary (r, nr) =
       scan_entries (read_partition_table depth malloc mk po blk) (found_partition malloc mk po blk) sector primary
         (map (entry_at (view (aux b) 0)) [0..<4]) (r\<lparr>devices := (devices r)(blk \<mapsto> b')\<rparr>, nr)"
proof -
  obtain b' where b': "block_read b 0 = Some (b', view (aux b) 0)" "block_ok os n ok b'"
      "\<forall>t < n. view (aux b') t = view (aux b) t"
    by (rule block_driver.block_read_ok [OF drv b(2), of 0]) (use s in auto)
  show thesis
    by (rule that [OF b'(2,3)])
      (use b b' s m sg in \<open>simp add: block_size_def block_ok_def del: upt_Suc\<close>)
qed


text \<open>A disk of 100 sectors whose first sector is a partition table with one entry.\<close>

definition one_entry :: "u8 \<Rightarrow> u8 \<Rightarrow> u8 \<Rightarrow> sector" where
  "one_entry t off sz = replicate 446 0 @ [0, 0, 0, 0, t, 0, 0, 0, off, 0, 0, 0, sz, 0, 0, 0] @ replicate 48 0 @ [0x55, 0xaa]"

definition sample_disk :: "sector \<Rightarrow> (nat \<Rightarrow> sector) block" where
  "sample_disk pt = \<lparr>blk_name = ''hda'', kind = BLOCK_RAW, blk_size = 100, ops = ram_disk,
     aux = (\<lambda>s. if s = 0 then pt else replicate 512 0), read_cnt = 0, write_cnt = 0\<rparr>"

definition sample_registry :: "sector \<Rightarrow> (nat \<Rightarrow> sector) block_registry" where
  "sample_registry pt = \<lparr>devices = [1 \<mapsto> sample_disk pt], all_blocks = [1], block_by_role = Map.empty\<rparr>"

definition fresh_address :: "'d block_registry \<Rightarrow> nat" where
  "fresh_address r = Suc (Max (insert 0 (dom (devices r))))"

lemma fresh_address: "finite (dom (devices r)) \<Longrightarrow> fresh_address r \<noteq> 0 \<and> fresh_address r \<notin> dom (devices r)"
  unfolding fresh_address_def by (metis Max_ge Suc_n_not_le_n finite_insert insertI2 nat.distinct(1))

lemma one_entry_simps:
  "length (one_entry t off sz) = 512" "signature (one_entry t off sz) = 0xaa55"
  "entry_at (one_entry t off sz) 0 = \<lparr>e_type = t, e_offset = unat off, e_size = unat sz\<rparr>"
  "0 < i \<Longrightarrow> i < 4 \<Longrightarrow> e_type (entry_at (one_entry t off sz) i) = 0"
proof -
  have "i \<in> {1, 2, 3}" if "0 < i" "i < 4" using that by auto
  then show "0 < i \<Longrightarrow> i < 4 \<Longrightarrow> e_type (entry_at (one_entry t off sz) i) = 0"
    by (auto simp: entry_at_def one_entry_def nth_append nth_Cons')
qed (simp_all add: one_entry_def signature_def entry_at_def le16_def le32_def nth_append)

lemma sample_disk_ok:
  "length pt = 512 \<Longrightarrow> block_ok ram_disk 100 (ram_disk_ok 100) (sample_disk pt)"
  "devices (sample_registry pt) 1 = Some (sample_disk pt)" "aux (sample_disk pt) 0 = pt" "finite (dom (devices (sample_registry pt)))"
  by (auto simp: sample_disk_def block_ok_def ram_disk_ok_def sample_registry_def)


text \<open>
  C29: \<^verbatim>\<open>read_partition_table\<close> reads sector 0 whatever table it is asked for, so a disk whose first
  entry is an extended partition in its lower half sends it into a recursion that no depth of
  nesting ends.
\<close>

theorem extended_partition_endless:
  assumes drv: "block_driver os n ok view" and b: "devices r blk = Some b" "block_ok os n ok b"
    and n: "n \<le> 2 ^ 32"
    and sg: "signature (view (aux b) 0) = 0xaa55"
    and e: "is_extended (e_type (entry_at (view (aux b) 0) 0))" "e_size (entry_at (view (aux b) 0) 0) \<noteq> 0"
    and off: "e_offset (entry_at (view (aux b) 0) 0) = first" "0 < first" "2 * first < n"
  shows "partition_scan depth malloc mk po blk r = None"
proof -
  have "read_partition_table depth malloc mk po blk sector primary (r, nr) = None"
    if "devices r blk = Some b1" "block_ok os n ok b1" "view (aux b1) 0 = view (aux b) 0"
      "sector = 0 \<or> primary = first" "sector < n" for r b1 sector primary nr
    using that
  proof (induction depth arbitrary: r b1 sector primary nr)
    case (Suc depth)
    let ?e = "entry_at (view (aux b) 0) 0"
    show ?case
    proof (cases "malloc r = 0")
      case False
      obtain b' where b': "block_ok os n ok b'" "\<forall>t < n. view (aux b') t = view (aux b1) t"
        "read_partition_table (Suc depth) malloc mk po blk sector primary (r, nr) =
         scan_entries (read_partition_table depth malloc mk po blk) (found_partition malloc mk po blk) sector primary
           (map (entry_at (view (aux b1) 0)) [0..<4]) (r\<lparr>devices := (devices r)(blk \<mapsto> b')\<rparr>, nr)"
        by (rule table_read [where malloc = malloc, OF drv Suc.prems(1,2,5) False]) (use Suc.prems(3) sg in auto)
      let ?r = "r\<lparr>devices := (devices r)(blk \<mapsto> b')\<rparr>"
      have v: "view (aux b') 0 = view (aux b) 0" using b'(2) Suc.prems(3,5) by auto
      have "e_type ?e \<noteq> 0" using e(1) by (auto simp: is_extended_def)
      moreover have "read_partition_table depth malloc mk po blk first first (?r, nr) = None"
        using Suc.IH [of ?r b' first first nr] b'(1) v off by simp
      moreover have "read_partition_table depth malloc mk po blk (2 * first) first (?r, nr) = None"
        using Suc.IH [of ?r b' "2 * first" first nr] b'(1) v off by simp
      moreover have "(first + first) mod 2 ^ 32 = 2 * first" using off n by simp
      ultimately show ?thesis unfolding b'(3) Suc.prems(3)
        using e off(1) Suc.prems(4) by (auto simp: upt_rec [of 0])
    next
      case True
      then show ?thesis using Suc.prems by (simp add: block_size_def block_ok_def)
    qed
  qed simp
  then show ?thesis using b off by (simp add: partition_scan_def)
qed

theorem extended_partition_endless_witness:
  "partition_scan 1000 fresh_address (\<lambda>b s _. [of_nat s]) ram_disk 1 (sample_registry (one_entry 0x05 10 20)) = None"
  by (rule extended_partition_endless [OF ram.block_driver_axioms sample_disk_ok(2) sample_disk_ok(1), where first = 10])
    (simp_all add: sample_disk_ok one_entry_simps is_extended_def)

end
