(* ===== verification/Buffer_Cache.thy ===== *)
theory Buffer_Cache
  imports Block_Device
begin

section \<open>The buffer cache (filesys/buffer-cache.c)\<close>

text \<open>
  64 cells of one sector each between the file system and its device, with write-back and
  clock eviction. A call runs without interruption by another one, and the locks of the cells,
  which are released again at once, are not modelled. A copy outside the 512 bytes of a cell is
  undefined in C and \<open>None\<close> here, as is a panic of the device. \<open>cache_evict\<close> loops until it
  finds a cell and need not return.
\<close>

definition CACHE_SIZE :: nat where "CACHE_SIZE = 64"

record cache_cell =
  block_data :: sector
  sector_idx :: nat
  dirty :: bool
  recently_accessed :: bool
  valid :: bool
  num_using :: int

record 'd buffer_cache =
  cells :: "cache_cell list"
  clock_idx :: nat
  cache_miss :: int
  cache_hit :: int
  fs_device :: "'d block"

definition upd_cell :: "nat \<Rightarrow> (cache_cell \<Rightarrow> cache_cell) \<Rightarrow> 'd buffer_cache \<Rightarrow> 'd buffer_cache" where
  "upd_cell i f c = c\<lparr>cells := (cells c)[i := f (cells c ! i)]\<rparr>"

definition cache_init :: "'d buffer_cache \<Rightarrow> 'd buffer_cache" where
  "cache_init c = c\<lparr>clock_idx := 0,
     cells := map (\<lambda>x. x\<lparr>valid := False, num_using := 0, sector_idx := 0, dirty := False, recently_accessed := False\<rparr>)
       (cells c)\<rparr>"

primrec flush_from :: "nat \<Rightarrow> nat \<Rightarrow> 'd buffer_cache \<Rightarrow> 'd buffer_cache option" where
  "flush_from 0 i c = Some c"
| "flush_from (Suc k) i c = do {
     let x = cells c ! i;
     c \<leftarrow> (if valid x \<and> dirty x then do {
              dev \<leftarrow> block_write (fs_device c) (sector_idx x) (block_data x);
              Some (upd_cell i (\<lambda>x. x\<lparr>dirty := False, valid := False\<rparr>) (c\<lparr>fs_device := dev\<rparr>)) }
            else Some c);
     flush_from k (i + 1) c }"

definition cache_flush :: "'d buffer_cache \<Rightarrow> 'd buffer_cache option" where
  "cache_flush c = flush_from CACHE_SIZE 0 c"

definition cache_reset_hit_miss :: "'d buffer_cache \<Rightarrow> 'd buffer_cache" where
  "cache_reset_hit_miss c = c\<lparr>cache_miss := 0, cache_hit := 0\<rparr>"

primrec search_from :: "cache_cell list \<Rightarrow> nat \<Rightarrow> nat \<Rightarrow> nat option" where
  "search_from [] i s = None"
| "search_from (x # xs) i s = (if sector_idx x = s \<and> valid x then Some i else search_from xs (i + 1) s)"

definition cache_search :: "nat \<Rightarrow> 'd buffer_cache \<Rightarrow> 'd buffer_cache \<times> nat option" where
  "cache_search s c = (case search_from (cells c) 0 s of
     Some i \<Rightarrow> (c\<lparr>cache_hit := cache_hit c + 1\<rparr>, Some i)
   | None \<Rightarrow> (c\<lparr>cache_miss := cache_miss c + 1\<rparr>, None))"

partial_function (option) evict_loop :: "nat \<Rightarrow> 'd buffer_cache \<Rightarrow> ('d buffer_cache \<times> nat) option" where
  "evict_loop i c =
     (if \<not> valid (cells c ! i) then Some (c\<lparr>clock_idx := i\<rparr>, i)
      else if num_using (cells c ! i) \<le> 0 then
        (if recently_accessed (cells c ! i)
         then evict_loop ((i + 1) mod CACHE_SIZE)
                ((upd_cell i (\<lambda>x. x\<lparr>recently_accessed := False\<rparr>) c)\<lparr>clock_idx := i\<rparr>)
         else Some (c\<lparr>clock_idx := i\<rparr>, i))
      else evict_loop ((i + 1) mod CACHE_SIZE) (c\<lparr>clock_idx := i\<rparr>))"

definition cache_evict :: "'d buffer_cache \<Rightarrow> ('d buffer_cache \<times> nat) option" where
  "cache_evict c = evict_loop (clock_idx c) c"

definition cache_fetch :: "nat \<Rightarrow> 'd buffer_cache \<Rightarrow> ('d buffer_cache \<times> nat) option" where
  "cache_fetch s c = do {
     let (c, found) = cache_search s c;
     case found of
       None \<Rightarrow> do {
         (c, idx) \<leftarrow> cache_evict c;
         c \<leftarrow> (if dirty (cells c ! idx) then do {
                  dev \<leftarrow> block_write (fs_device c) (sector_idx (cells c ! idx)) (block_data (cells c ! idx));
                  Some (c\<lparr>fs_device := dev\<rparr>) }
                else Some c);
         let c = upd_cell idx (\<lambda>x. x\<lparr>valid := True, dirty := False, sector_idx := s,
                                     recently_accessed := True, num_using := 1\<rparr>) c;
         (dev, data) \<leftarrow> block_read (fs_device c) s;
         Some (upd_cell idx (\<lambda>x. x\<lparr>block_data := data\<rparr>) (c\<lparr>fs_device := dev\<rparr>), idx) }
     | Some idx \<Rightarrow>
         Some (upd_cell idx (\<lambda>x. x\<lparr>recently_accessed := True, num_using := num_using x + 1\<rparr>) c, idx) }"

definition cache_read :: "nat \<Rightarrow> nat \<Rightarrow> nat \<Rightarrow> 'd buffer_cache \<Rightarrow> ('d buffer_cache \<times> u8 list) option" where
  "cache_read s offset sz c = do {
     (c, idx) \<leftarrow> cache_fetch s c;
     _ \<leftarrow> ASSERT (offset + sz \<le> BLOCK_SECTOR_SIZE);
     let buffer = take sz (drop offset (block_data (cells c ! idx)));
     Some (upd_cell idx (\<lambda>x. x\<lparr>num_using := num_using x - 1, recently_accessed := True\<rparr>) c, buffer) }"

definition write_bytes :: "nat \<Rightarrow> u8 list \<Rightarrow> sector \<Rightarrow> sector" where
  "write_bytes offset bs data = take offset data @ bs @ drop (offset + length bs) data"

definition cache_write :: "nat \<Rightarrow> nat \<Rightarrow> u8 list \<Rightarrow> 'd buffer_cache \<Rightarrow> 'd buffer_cache option" where
  "cache_write s offset buffer c = do {
     (c, idx) \<leftarrow> cache_fetch s c;
     _ \<leftarrow> ASSERT (offset + length buffer \<le> BLOCK_SECTOR_SIZE);
     let c = upd_cell idx (\<lambda>x. x\<lparr>block_data := write_bytes offset buffer (block_data x)\<rparr>) c;
     Some (upd_cell idx (\<lambda>x. x\<lparr>dirty := True, num_using := num_using x - 1, recently_accessed := True\<rparr>) c) }"

subsection \<open>Eviction\<close>

text \<open>A cell that is free, or not in use, can be given away; the clock passes over one that was accessed recently.\<close>

definition idle_cell :: "cache_cell \<Rightarrow> bool" where
  "idle_cell x \<longleftrightarrow> \<not> valid x \<or> num_using x \<le> 0"

definition same_but_recent :: "cache_cell \<Rightarrow> cache_cell \<Rightarrow> bool" where
  "same_but_recent x y \<longleftrightarrow> y\<lparr>recently_accessed := recently_accessed x\<rparr> = x"

definition evict_rel :: "'d buffer_cache \<Rightarrow> 'd buffer_cache \<Rightarrow> bool" where
  "evict_rel c c' \<longleftrightarrow> list_all2 same_but_recent (cells c) (cells c') \<and>
     clock_idx c' < CACHE_SIZE \<and> fs_device c' = fs_device c"

lemma same_but_recent_refl [simp]: "same_but_recent x x"
  by (simp add: same_but_recent_def)

lemma same_but_recent_trans: "same_but_recent x y \<Longrightarrow> same_but_recent y z \<Longrightarrow> same_but_recent x z"
  by (cases x; cases y; cases z) (simp add: same_but_recent_def)

lemma evict_rel_trans: "evict_rel a b \<Longrightarrow> evict_rel b c \<Longrightarrow> evict_rel a c"
  unfolding evict_rel_def by (auto intro: list_all2_trans [OF same_but_recent_trans])

lemma evict_rel_clock: "i < CACHE_SIZE \<Longrightarrow> evict_rel c (c\<lparr>clock_idx := i\<rparr>)"
  unfolding evict_rel_def by (simp add: list_all2_refl)

lemma evict_rel_clear:
  "i < CACHE_SIZE \<Longrightarrow> evict_rel c ((upd_cell i (\<lambda>x. x\<lparr>recently_accessed := False\<rparr>) c)\<lparr>clock_idx := i\<rparr>)"
  unfolding evict_rel_def upd_cell_def list_all2_conv_all_nth
proof (intro conjI allI impI)
  fix j assume "j < length (cells c)"
  then show "same_but_recent (cells c ! j)
      (cells (c\<lparr>cells := (cells c)[i := (cells c ! i)\<lparr>recently_accessed := False\<rparr>]\<rparr>\<lparr>clock_idx := i\<rparr>) ! j)"
    by (cases "j = i") (simp_all add: same_but_recent_def)
qed simp_all

definition step_cell :: "nat \<Rightarrow> 'd buffer_cache \<Rightarrow> 'd buffer_cache" where
  "step_cell i c = (if num_using (cells c ! i) \<le> 0 then upd_cell i (\<lambda>x. x\<lparr>recently_accessed := False\<rparr>) c else c)\<lparr>clock_idx := i\<rparr>"

lemma step_cell_rel: "i < CACHE_SIZE \<Longrightarrow> evict_rel c (step_cell i c)"
  by (simp add: step_cell_def evict_rel_clock evict_rel_clear)

text \<open>A cell that can be given away at once.\<close>

definition victim :: "cache_cell \<Rightarrow> bool" where
  "victim x \<longleftrightarrow> \<not> valid x \<or> num_using x \<le> 0 \<and> \<not> recently_accessed x"

lemma evict_loop_step:
  "evict_loop i c = (if victim (cells c ! i) then Some (c\<lparr>clock_idx := i\<rparr>, i)
     else evict_loop ((i + 1) mod CACHE_SIZE) (step_cell i c))"
  by (subst evict_loop.simps) (auto simp: victim_def step_cell_def)

definition evicts :: "nat \<Rightarrow> 'd buffer_cache \<Rightarrow> bool" where
  "evicts i c \<longleftrightarrow> (\<exists>c' j. evict_loop i c = Some (c', j) \<and> evict_rel c c' \<and> j < CACHE_SIZE \<and> idle_cell (cells c' ! j))"

lemma evicts_step:
  assumes "i < CACHE_SIZE" "\<not> victim (cells c ! i) \<Longrightarrow> evicts ((i + 1) mod CACHE_SIZE) (step_cell i c)"
  shows "evicts i c"
proof (cases "victim (cells c ! i)")
  case True
  then show ?thesis using assms(1)
    by (auto simp: evicts_def evict_loop_step [of i] evict_rel_clock idle_cell_def victim_def)
next
  case False
  then show ?thesis using assms(2) evict_rel_trans [OF step_cell_rel [OF assms(1)]]
    by (auto simp: evicts_def evict_loop_step [of i])
qed

lemma step_cell_other: "j \<noteq> i \<Longrightarrow> cells (step_cell i c) ! j = cells c ! j"
  by (simp add: step_cell_def upd_cell_def)

lemma length_step_cell [simp]: "length (cells (step_cell i c)) = length (cells c)"
  by (simp add: step_cell_def upd_cell_def)

lemma mod_step: "i < CACHE_SIZE \<Longrightarrow> ((i + 1) mod CACHE_SIZE + d) mod CACHE_SIZE = (i + Suc d) mod CACHE_SIZE"
  by (simp add: mod_simps)

lemma dist_other: "i < CACHE_SIZE \<Longrightarrow> Suc d < CACHE_SIZE \<Longrightarrow> (i + Suc d) mod CACHE_SIZE \<noteq> i"
  by (cases "i + Suc d < CACHE_SIZE") (auto simp: le_mod_geq)

lemma evicts_victim:
  "i < CACHE_SIZE \<Longrightarrow> d < CACHE_SIZE \<Longrightarrow> victim (cells c ! ((i + d) mod CACHE_SIZE)) \<Longrightarrow> evicts i c"
proof (induction d arbitrary: i c)
  case 0
  then show ?case by (auto intro: evicts_step [OF 0(1)])
next
  case (Suc d)
  have "cells (step_cell i c) ! ((i + Suc d) mod CACHE_SIZE) = cells c ! ((i + Suc d) mod CACHE_SIZE)"
    using dist_other [OF Suc.prems(1,2)] by (rule step_cell_other)
  then have "evicts ((i + 1) mod CACHE_SIZE) (step_cell i c)"
    using Suc.prems mod_step [OF Suc.prems(1), of d] by (intro Suc.IH) (simp_all add: CACHE_SIZE_def)
  then show ?case by (rule evicts_step [OF Suc.prems(1)])
qed

lemma evicts_idle:
  "i < CACHE_SIZE \<Longrightarrow> d < CACHE_SIZE \<Longrightarrow> length (cells c) = CACHE_SIZE \<Longrightarrow>
   idle_cell (cells c ! ((i + d) mod CACHE_SIZE)) \<Longrightarrow> evicts i c"
proof (induction d arbitrary: i c)
  case 0
  show ?case
  proof (rule evicts_step [OF 0(1)])
    assume nv: "\<not> victim (cells c ! i)"
    have i: "((i + 1) mod CACHE_SIZE + (CACHE_SIZE - 1)) mod CACHE_SIZE = i"
      using 0(1) by (cases "i + 1 = CACHE_SIZE") (auto simp: CACHE_SIZE_def le_mod_geq)
    have "victim (cells (step_cell i c) ! i)"
      using 0 nv by (simp add: step_cell_def upd_cell_def victim_def idle_cell_def)
    then show "evicts ((i + 1) mod CACHE_SIZE) (step_cell i c)"
      using evicts_victim [of "(i + 1) mod CACHE_SIZE" "CACHE_SIZE - 1" "step_cell i c"] i 0(1) by simp
  qed
next
  case (Suc d)
  have "cells (step_cell i c) ! ((i + Suc d) mod CACHE_SIZE) = cells c ! ((i + Suc d) mod CACHE_SIZE)"
    using dist_other [OF Suc.prems(1,2)] by (rule step_cell_other)
  then have "evicts ((i + 1) mod CACHE_SIZE) (step_cell i c)"
    using Suc.prems mod_step [OF Suc.prems(1), of d] by (intro Suc.IH) (simp_all add: CACHE_SIZE_def)
  then show ?case by (rule evicts_step [OF Suc.prems(1)])
qed

lemma cache_evict_ok:
  assumes "clock_idx c < CACHE_SIZE" "length (cells c) = CACHE_SIZE" "j < CACHE_SIZE" "idle_cell (cells c ! j)"
  shows "evicts (clock_idx c) c"
proof -
  obtain d where "d < CACHE_SIZE" "(clock_idx c + d) mod CACHE_SIZE = j"
  proof (cases "clock_idx c \<le> j")
    case True
    then show thesis using assms(3) by (intro that [of "j - clock_idx c"]) auto
  next
    case False
    then show thesis using assms(1,3) by (intro that [of "j + CACHE_SIZE - clock_idx c"]) auto
  qed
  then show ?thesis using assms by (auto intro: evicts_idle)
qed

lemma evict_loop_needs_idle:
  assumes "evict_loop i c = Some r"
  shows "i < CACHE_SIZE \<longrightarrow> (\<exists>j < CACHE_SIZE. idle_cell (cells c ! j))"
proof (rule evict_loop.raw_induct [where P = "\<lambda>i c r. i < CACHE_SIZE \<longrightarrow> (\<exists>j < CACHE_SIZE. idle_cell (cells c ! j))",
    OF _ assms])
  fix loop :: "nat \<Rightarrow> 'a buffer_cache \<Rightarrow> ('a buffer_cache \<times> nat) option" and i c r
  assume IH: "\<And>i c r. loop i c = Some r \<Longrightarrow> i < CACHE_SIZE \<longrightarrow> (\<exists>j < CACHE_SIZE. idle_cell (cells c ! j))"
    and s: "(if \<not> valid (cells c ! i) then Some (c\<lparr>clock_idx := i\<rparr>, i)
      else if num_using (cells c ! i) \<le> 0 then
        (if recently_accessed (cells c ! i)
         then loop ((i + 1) mod CACHE_SIZE) ((upd_cell i (\<lambda>x. x\<lparr>recently_accessed := False\<rparr>) c)\<lparr>clock_idx := i\<rparr>)
         else Some (c\<lparr>clock_idx := i\<rparr>, i))
      else loop ((i + 1) mod CACHE_SIZE) (c\<lparr>clock_idx := i\<rparr>)) = Some r"
  show "i < CACHE_SIZE \<longrightarrow> (\<exists>j < CACHE_SIZE. idle_cell (cells c ! j))"
  proof (cases "idle_cell (cells c ! i)")
    case False
    then have "loop ((i + 1) mod CACHE_SIZE) (c\<lparr>clock_idx := i\<rparr>) = Some r" using s by (simp add: idle_cell_def)
    from IH [OF this] show ?thesis by (auto simp: CACHE_SIZE_def)
  qed blast
qed

text \<open>
  C30: \<^verbatim>\<open>cache_evict\<close> returns exactly when some cell is free or not in use, and then it returns such a
  cell; with all 64 cells in use it searches for ever.
\<close>

theorem cache_evict_terminates:
  assumes "clock_idx c < CACHE_SIZE" "length (cells c) = CACHE_SIZE"
  shows "(cache_evict c \<noteq> None \<longleftrightarrow> (\<exists>j < CACHE_SIZE. idle_cell (cells c ! j))) \<and>
    (\<forall>c' i. cache_evict c = Some (c', i) \<longrightarrow> i < CACHE_SIZE \<and> idle_cell (cells c' ! i))"
  using cache_evict_ok [OF assms] evict_loop_needs_idle [of "clock_idx c" c] assms(1)
  unfolding evicts_def cache_evict_def by fastforce

text \<open>A cache whose cells are all in use but one.\<close>

definition busy_cache :: "nat buffer_cache" where
  "busy_cache = \<lparr>cells = (replicate 64 \<lparr>block_data = [], sector_idx = 0, dirty = False, recently_accessed = True,
       valid = True, num_using = 1\<rparr>)[40 := \<lparr>block_data = [], sector_idx = 9, dirty = False, recently_accessed = True,
       valid = True, num_using = 0\<rparr>], clock_idx = 41, cache_miss = 0, cache_hit = 0,
     fs_device = \<lparr>blk_name = ''hda1'', kind = BLOCK_FILESYS, blk_size = 4,
       ops = \<lparr>op_read = (\<lambda>_ _. None), op_write = (\<lambda>_ _ _. None)\<rparr>, aux = 0, read_cnt = 0, write_cnt = 0\<rparr>\<rparr>"

theorem cache_evict_terminates_witness:
  "\<exists>c' i. cache_evict busy_cache = Some (c', i) \<and> i < CACHE_SIZE \<and> idle_cell (cells c' ! i)"
proof -
  have b: "clock_idx busy_cache < CACHE_SIZE" "length (cells busy_cache) = CACHE_SIZE"
    by (simp_all add: busy_cache_def CACHE_SIZE_def)
  have "idle_cell (cells busy_cache ! 40)" by (simp add: busy_cache_def idle_cell_def)
  moreover have "40 < CACHE_SIZE" by (simp add: CACHE_SIZE_def)
  ultimately show ?thesis using cache_evict_terminates [OF b] by force
qed

subsection \<open>The cache and its device hold one array of sectors\<close>

text \<open>
  \<open>v\<close> is the array of sectors that the file system sees: the data of the cells, and of the device for
  the sectors without a modified cell. \<open>u\<close> is the number of users of each cell.
\<close>

definition cell_ok :: "nat \<Rightarrow> (nat \<Rightarrow> sector) \<Rightarrow> cache_cell \<Rightarrow> bool" where
  "cell_ok n v x \<longleftrightarrow> (valid x \<longrightarrow> sector_idx x < n \<and> block_data x = v (sector_idx x)) \<and> (dirty x \<longrightarrow> valid x)"

definition cells_ok :: "nat \<Rightarrow> (nat \<Rightarrow> int) \<Rightarrow> (nat \<Rightarrow> sector) \<Rightarrow> cache_cell list \<Rightarrow> bool" where
  "cells_ok n u v xs \<longleftrightarrow> length xs = CACHE_SIZE \<and>
     (\<forall>i < CACHE_SIZE. cell_ok n v (xs ! i) \<and> num_using (xs ! i) = u i) \<and>
     (\<forall>i < CACHE_SIZE. \<forall>j < CACHE_SIZE. valid (xs ! i) \<longrightarrow> valid (xs ! j) \<longrightarrow> sector_idx (xs ! i) = sector_idx (xs ! j) \<longrightarrow> i = j)"

definition modified :: "cache_cell list \<Rightarrow> nat \<Rightarrow> bool" where
  "modified xs t \<longleftrightarrow> (\<exists>i < CACHE_SIZE. dirty (xs ! i) \<and> sector_idx (xs ! i) = t)"

definition cache_rel :: "'d block_operations \<Rightarrow> nat \<Rightarrow> ('d \<Rightarrow> bool) \<Rightarrow> ('d \<Rightarrow> nat \<Rightarrow> sector) \<Rightarrow>
    (nat \<Rightarrow> int) \<Rightarrow> (nat \<Rightarrow> sector) \<Rightarrow> 'd buffer_cache \<Rightarrow> bool" where
  "cache_rel os n ok view u v c \<longleftrightarrow> block_ok os n ok (fs_device c) \<and> clock_idx c < CACHE_SIZE \<and>
     cells_ok n u v (cells c) \<and> (\<forall>t < n. length (v t) = BLOCK_SECTOR_SIZE) \<and>
     (\<forall>t < n. modified (cells c) t \<or> view (aux (fs_device c)) t = v t)"

lemma cells_ok_update:
  assumes ok: "cells_ok n u v xs" and i: "i < CACHE_SIZE" and y: "cell_ok n w y"
    and other: "\<And>j. j < CACHE_SIZE \<Longrightarrow> j \<noteq> i \<Longrightarrow> valid (xs ! j) \<Longrightarrow>
      w (sector_idx (xs ! j)) = v (sector_idx (xs ! j)) \<and> (valid y \<longrightarrow> sector_idx (xs ! j) \<noteq> sector_idx y)"
  shows "cells_ok n (u(i := num_using y)) w (xs[i := y])"
proof -
  have l: "length xs = CACHE_SIZE" and c: "\<And>j. j < CACHE_SIZE \<Longrightarrow> cell_ok n v (xs ! j) \<and> num_using (xs ! j) = u j"
    and d: "\<And>j k. j < CACHE_SIZE \<Longrightarrow> k < CACHE_SIZE \<Longrightarrow> valid (xs ! j) \<Longrightarrow> valid (xs ! k) \<Longrightarrow>
      sector_idx (xs ! j) = sector_idx (xs ! k) \<Longrightarrow> j = k"
    using ok unfolding cells_ok_def by blast+
  have at: "xs[i := y] ! j = (if j = i then y else xs ! j)" if "j < CACHE_SIZE" for j using l that by auto
  have "cell_ok n w (xs[i := y] ! j) \<and> num_using (xs[i := y] ! j) = (u(i := num_using y)) j" if j: "j < CACHE_SIZE" for j
    using at [OF j] y c [OF j] other [OF j] by (auto simp: cell_ok_def)
  moreover have "j = k" if j: "j < CACHE_SIZE" "k < CACHE_SIZE" and v: "valid (xs[i := y] ! j)" "valid (xs[i := y] ! k)"
      "sector_idx (xs[i := y] ! j) = sector_idx (xs[i := y] ! k)" for j k
    using at [OF j(1)] at [OF j(2)] d [OF j] other [OF j(1)] other [OF j(2)] v by (metis (no_types))
  ultimately show ?thesis using l unfolding cells_ok_def by simp
qed

lemma cells_ok_evict:
  assumes ok: "cells_ok n u v xs" and r: "list_all2 same_but_recent xs ys"
  shows "cells_ok n u v ys \<and> (\<forall>t. modified ys t = modified xs t) \<and>
    (\<forall>i < CACHE_SIZE. valid (ys ! i) = valid (xs ! i) \<and> sector_idx (ys ! i) = sector_idx (xs ! i))"
proof -
  have l: "length xs = CACHE_SIZE" "length ys = CACHE_SIZE"
    using ok list_all2_lengthD [OF r] by (auto simp: cells_ok_def)
  have f: "valid (ys ! i) = valid (xs ! i)" "sector_idx (ys ! i) = sector_idx (xs ! i)" "dirty (ys ! i) = dirty (xs ! i)"
      "block_data (ys ! i) = block_data (xs ! i)" "num_using (ys ! i) = num_using (xs ! i)" if "i < CACHE_SIZE" for i
    using list_all2_nthD [OF r, of i] that l by (cases "ys ! i"; cases "xs ! i"; simp add: same_but_recent_def)+
  then show ?thesis using ok l unfolding cells_ok_def cell_ok_def modified_def by auto
qed

lemma search_from_Some:
  "search_from xs k s = Some i \<Longrightarrow> k \<le> i \<and> i < k + length xs \<and> sector_idx (xs ! (i - k)) = s \<and> valid (xs ! (i - k))"
proof (induction xs arbitrary: k)
  case (Cons x xs)
  then show ?case by (fastforce split: if_splits simp: nth_Cons')
qed simp

lemma search_from_None: "search_from xs k s = None \<Longrightarrow> i < length xs \<Longrightarrow> valid (xs ! i) \<Longrightarrow> sector_idx (xs ! i) \<noteq> s"
proof (induction xs arbitrary: k i)
  case (Cons x xs)
  then show ?case by (cases i) (auto split: if_splits)
qed simp

text \<open>The sectors with a cell.\<close>

definition cached :: "cache_cell list \<Rightarrow> nat set" where
  "cached xs = sector_idx ` {x \<in> set xs. valid x}"

lemma cached_update: "sector_idx y = s \<Longrightarrow> cached (xs[i := y]) \<subseteq> insert s (cached xs)"
  using set_update_subset_insert [of xs i y] by (auto simp: cached_def)

lemma cached_update_same:
  "i < length xs \<Longrightarrow> sector_idx y = sector_idx (xs ! i) \<Longrightarrow> valid (xs ! i) \<Longrightarrow> cached (xs[i := y]) \<subseteq> cached xs"
  using set_update_subset_insert [of xs i y] nth_mem [of i xs] by (auto simp: cached_def)

lemma cached_evict: "list_all2 same_but_recent xs ys \<Longrightarrow> cached ys = cached xs"
proof (induction rule: list_all2_induct)
  case (Cons x xs y ys)
  have "valid y = valid x" "sector_idx y = sector_idx x"
    using Cons.hyps(1) by (cases x; cases y; simp add: same_but_recent_def)+
  then show ?case using Cons.IH unfolding cached_def by (cases "valid x") (auto simp: image_def)
qed simp

context block_driver
begin

abbreviation (input) "rel \<equiv> cache_rel os n ok view"

lemma fetch_hit:
  assumes r: "rel u v c" and f: "search_from (cells c) 0 s = Some i"
  shows "\<exists>c'. cache_fetch s c = Some (c', i) \<and> i < CACHE_SIZE \<and> rel (u(i := u i + 1)) v c' \<and>
    valid (cells c' ! i) \<and> sector_idx (cells c' ! i) = s \<and> cached (cells c') \<subseteq> insert s (cached (cells c))"
proof -
  let ?x = "cells c ! i" let ?y = "?x\<lparr>recently_accessed := True, num_using := num_using ?x + 1\<rparr>"
  let ?c = "c\<lparr>cache_hit := cache_hit c + 1, cells := (cells c)[i := ?y]\<rparr>"
  have co: "cells_ok n u v (cells c)" and l: "length (cells c) = CACHE_SIZE" using r by (auto simp: cache_rel_def cells_ok_def)
  have i: "i < CACHE_SIZE" "sector_idx ?x = s" "valid ?x" using search_from_Some [OF f] l by auto
  have x: "cell_ok n v ?x" "num_using ?x = u i" using co i by (auto simp: cells_ok_def)
  have "cells_ok n (u(i := num_using ?y)) v ((cells c)[i := ?y])"
    using co i x by (intro cells_ok_update [OF co i(1)]) (auto simp: cell_ok_def cells_ok_def)
  moreover have "modified ((cells c)[i := ?y]) t = modified (cells c) t" for t
    using i l by (auto simp: modified_def nth_list_update)
  moreover have "cache_fetch s c = Some (?c, i)"
    using f by (simp add: cache_fetch_def cache_search_def upd_cell_def)
  moreover have "cached ((cells c)[i := ?y]) \<subseteq> insert s (cached (cells c))" using i(2) by (intro cached_update) simp
  ultimately show ?thesis using r i l x(2) by (auto simp: cache_rel_def)
qed

lemma fetch_miss:
  assumes r: "rel u v c" and f: "search_from (cells c) 0 s = None" and s: "s < n"
    and free: "k < CACHE_SIZE" "u k \<le> 0"
  shows "\<exists>c' i. cache_fetch s c = Some (c', i) \<and> i < CACHE_SIZE \<and> rel (u(i := 1)) v c' \<and>
    valid (cells c' ! i) \<and> sector_idx (cells c' ! i) = s \<and> cached (cells c') \<subseteq> insert s (cached (cells c))"
proof -
  let ?c = "c\<lparr>cache_miss := cache_miss c + 1\<rparr>"
  have co: "cells_ok n u v (cells c)" and l: "length (cells c) = CACHE_SIZE" using r by (auto simp: cache_rel_def cells_ok_def)
  have "evicts (clock_idx ?c) ?c"
    using r l free co by (intro cache_evict_ok [of _ k]) (auto simp: cache_rel_def cells_ok_def idle_cell_def)
  then obtain c1 i where ev: "cache_evict ?c = Some (c1, i)" "evict_rel ?c c1" "i < CACHE_SIZE"
    by (auto simp: evicts_def cache_evict_def)
  let ?x = "cells c1 ! i"
  note e = cells_ok_evict [OF co, of "cells c1"]
  have c1: "cells_ok n u v (cells c1)" "\<And>t. modified (cells c1) t = modified (cells c) t" "clock_idx c1 < CACHE_SIZE"
      "fs_device c1 = fs_device c" "length (cells c1) = CACHE_SIZE"
    using e ev(2) by (auto simp: evict_rel_def cells_ok_def)
  have none: "sector_idx (cells c1 ! j) \<noteq> s" if "j < CACHE_SIZE" "valid (cells c1 ! j)" for j
    using search_from_None [OF f, of j] e ev(2) that l by (auto simp: evict_rel_def)
  have x: "cell_ok n v ?x" using c1(1) ev(3) by (auto simp: cells_ok_def)
  have v: "\<And>t. t < n \<Longrightarrow> length (v t) = BLOCK_SECTOR_SIZE" using r by (auto simp: cache_rel_def)
  have md: "\<exists>j < CACHE_SIZE. dirty (cells c1 ! j) \<and> sector_idx (cells c1 ! j) = t" if "t < n" "view (aux (fs_device c1)) t \<noteq> v t" for t
    using r c1(2) [of t] c1(4) that unfolding cache_rel_def modified_def by metis
  have dok: "block_ok os n ok (fs_device c1)" using r c1(4) by (simp add: cache_rel_def)
  obtain dev where dev: "(if dirty ?x then do { dev \<leftarrow> block_write (fs_device c1) (sector_idx ?x) (block_data ?x);
        Some (c1\<lparr>fs_device := dev\<rparr>) } else Some c1) = Some (c1\<lparr>fs_device := dev\<rparr>)"
      "block_ok os n ok dev" "\<forall>t < n. (\<exists>j < CACHE_SIZE. j \<noteq> i \<and> dirty (cells c1 ! j) \<and> sector_idx (cells c1 ! j) = t) \<or> view (aux dev) t = v t"
  proof (cases "dirty ?x")
    case True
    have sx: "sector_idx ?x < n" "block_data ?x = v (sector_idx ?x)" using x True by (auto simp: cell_ok_def)
    obtain d where d: "block_write (fs_device c1) (sector_idx ?x) (block_data ?x) = Some d" "block_ok os n ok d"
        "\<forall>t < n. view (aux d) t = (if t = sector_idx ?x then block_data ?x else view (aux (fs_device c1)) t)"
      by (rule block_write_ok [of "fs_device c1" "sector_idx ?x" "block_data ?x"]) (use dok sx v in auto)
    show thesis
    proof (rule that [OF _ d(2)])
      show "\<forall>t < n. (\<exists>j < CACHE_SIZE. j \<noteq> i \<and> dirty (cells c1 ! j) \<and> sector_idx (cells c1 ! j) = t) \<or> view (aux d) t = v t"
        using d(3) sx md by metis
    qed (use True d(1) in simp)
  next
    case False
    show thesis
    proof (rule that [OF _ dok])
      show "\<forall>t < n. (\<exists>j < CACHE_SIZE. j \<noteq> i \<and> dirty (cells c1 ! j) \<and> sector_idx (cells c1 ! j) = t) \<or> view (aux (fs_device c1)) t = v t"
        using False md by metis
    qed (use False in simp)
  qed
  have vs: "view (aux dev) s = v s" using dev(3) s none c1(1) by (fastforce simp: cells_ok_def cell_ok_def)
  obtain dev' where dev': "block_read dev s = Some (dev', v s)" "block_ok os n ok dev'"
      "\<forall>t < n. view (aux dev') t = view (aux dev) t"
    by (rule block_read_ok [OF dev(2) s]) (use vs in auto)
  let ?y = "?x\<lparr>valid := True, dirty := False, sector_idx := s, recently_accessed := True, num_using := 1, block_data := v s\<rparr>"
  let ?c2 = "c1\<lparr>fs_device := dev', cells := (cells c1)[i := ?y]\<rparr>"
  have "cache_fetch s c = Some (?c2, i)"
    using f ev(1) dev(1) dev'(1) ev(3) c1(5) by (simp add: cache_fetch_def cache_search_def upd_cell_def)
  moreover have "cells_ok n (u(i := num_using ?y)) v ((cells c1)[i := ?y])"
    using none s by (intro cells_ok_update [OF c1(1) ev(3)]) (auto simp: cell_ok_def)
  moreover have "\<forall>t < n. modified ((cells c1)[i := ?y]) t \<or> view (aux dev') t = v t"
    using dev(3) dev'(3) c1(5) by (fastforce simp: modified_def)
  moreover have "cached ((cells c1)[i := ?y]) \<subseteq> insert s (cached (cells c))"
    using cached_update [of ?y s "cells c1" i] cached_evict [of "cells c" "cells c1"] ev(2) by (simp add: evict_rel_def)
  ultimately show ?thesis using dev'(2) c1 v ev(3) by (auto simp: cache_rel_def)
qed

lemma fetch_ok:
  assumes r: "rel (\<lambda>_. 0) v c" and s: "s < n"
  obtains c' i where "cache_fetch s c = Some (c', i)" "i < CACHE_SIZE" "rel ((\<lambda>_. 0)(i := 1)) v c'"
    "valid (cells c' ! i)" "sector_idx (cells c' ! i) = s" "cached (cells c') \<subseteq> insert s (cached (cells c))"
proof (cases "search_from (cells c) 0 s")
  case None
  then show thesis using fetch_miss [OF r None s, of 0] that by (auto simp: CACHE_SIZE_def)
next
  case (Some i)
  then show thesis using fetch_hit [OF r Some] that by auto
qed

lemma release_cell:
  assumes r: "rel ((\<lambda>_. 0)(i := 1)) v c" and i: "i < CACHE_SIZE" "valid (cells c ! i)"
    and w: "length w = BLOCK_SECTOR_SIZE"
    and y: "y = (cells c ! i)\<lparr>block_data := w, dirty := dr, num_using := 0, recently_accessed := True\<rparr>"
    and dr: "dr \<or> dr = dirty (cells c ! i) \<and> w = v (sector_idx (cells c ! i))"
  shows "rel (\<lambda>_. 0) (v(sector_idx (cells c ! i) := w)) (c\<lparr>cells := (cells c)[i := y]\<rparr>)"
proof -
  let ?s = "sector_idx (cells c ! i)" let ?w = "v(?s := w)"
  have co: "cells_ok n ((\<lambda>_. 0)(i := 1)) v (cells c)" and l: "length (cells c) = CACHE_SIZE"
    using r by (auto simp: cache_rel_def cells_ok_def)
  have sn: "?s < n" using co i by (auto simp: cells_ok_def cell_ok_def)
  have other: "sector_idx (cells c ! j) \<noteq> ?s" if "j < CACHE_SIZE" "j \<noteq> i" "valid (cells c ! j)" for j
    using co i that unfolding cells_ok_def by blast
  have "cells_ok n (((\<lambda>_. 0)(i := 1))(i := num_using y)) ?w ((cells c)[i := y])"
    using other i sn by (intro cells_ok_update [OF co i(1)]) (auto simp: y cell_ok_def)
  moreover have "((\<lambda>_. 0)(i := 1))(i := num_using y) = (\<lambda>_. 0 :: int)" by (auto simp: y)
  moreover have "modified ((cells c)[i := y]) t \<or> view (aux (fs_device c)) t = ?w t" if t: "t < n" for t
  proof (cases "t = ?s")
    case True
    have "view (aux (fs_device c)) t = v t" if "\<not> dirty (cells c ! i)"
      using r t True that other co unfolding cache_rel_def modified_def cells_ok_def cell_ok_def by metis
    then show ?thesis using True dr i(1) l by (cases dr) (auto simp: modified_def y)
  next
    case False
    have "modified ((cells c)[i := y]) t" if "modified (cells c) t"
    proof -
      obtain j where "j < CACHE_SIZE" "dirty (cells c ! j)" "sector_idx (cells c ! j) = t" using \<open>modified (cells c) t\<close> by (auto simp: modified_def)
      moreover have "j \<noteq> i" using calculation False by auto
      ultimately show ?thesis unfolding modified_def by (intro exI [of _ j]) simp
    qed
    then show ?thesis using r t False unfolding cache_rel_def by auto
  qed
  ultimately show ?thesis using r w sn unfolding cache_rel_def by simp
qed

lemma cell_data:
  assumes "rel u v c" "i < CACHE_SIZE" "valid (cells c ! i)"
  shows "block_data (cells c ! i) = v (sector_idx (cells c ! i))" "sector_idx (cells c ! i) < n"
    "num_using (cells c ! i) = u i" "length (cells c) = CACHE_SIZE" "length (v (sector_idx (cells c ! i))) = BLOCK_SECTOR_SIZE"
  using assms by (auto simp: cache_rel_def cells_ok_def cell_ok_def)

lemma cache_read_ok:
  assumes r: "rel (\<lambda>_. 0) v c" and s: "s < n" and sz: "offset + sz \<le> BLOCK_SECTOR_SIZE"
  shows "\<exists>c'. cache_read s offset sz c = Some (c', take sz (drop offset (v s))) \<and> rel (\<lambda>_. 0) v c' \<and>
    cached (cells c') \<subseteq> insert s (cached (cells c))"
proof -
  obtain c1 i where f: "cache_fetch s c = Some (c1, i)" "i < CACHE_SIZE" "rel ((\<lambda>_. 0)(i := 1)) v c1"
      "valid (cells c1 ! i)" "sector_idx (cells c1 ! i) = s" "cached (cells c1) \<subseteq> insert s (cached (cells c))"
    by (rule fetch_ok [OF r s])
  note x = cell_data [OF f(3,2,4), unfolded f(5)]
  let ?x = "cells c1 ! i"
  let ?y = "?x\<lparr>block_data := v s, dirty := dirty ?x, num_using := 0, recently_accessed := True\<rparr>"
  have "rel (\<lambda>_. 0) (v(s := v s)) (c1\<lparr>cells := (cells c1)[i := ?y]\<rparr>)"
    using release_cell [OF f(3,2,4) x(5) refl, of "dirty ?x"] f(5) by simp
  moreover have "?y = ?x\<lparr>num_using := num_using ?x - 1, recently_accessed := True\<rparr>" using x(1,3) by (cases ?x) simp
  moreover have "cached ((cells c1)[i := ?y]) \<subseteq> insert s (cached (cells c))"
    using cached_update_same [of i "cells c1" ?y] f(2,4,6) x(4) by auto
  ultimately show ?thesis using f(1,2) x(1) sz by (simp add: cache_read_def upd_cell_def)
qed

lemma length_write_bytes: "offset + length bs \<le> length data \<Longrightarrow> length (write_bytes offset bs data) = length data"
  by (simp add: write_bytes_def)

lemma cache_write_ok:
  assumes r: "rel (\<lambda>_. 0) v c" and s: "s < n" and sz: "offset + length bs \<le> BLOCK_SECTOR_SIZE"
  shows "\<exists>c'. cache_write s offset bs c = Some c' \<and> rel (\<lambda>_. 0) (v(s := write_bytes offset bs (v s))) c' \<and>
    cached (cells c') \<subseteq> insert s (cached (cells c))"
proof -
  obtain c1 i where f: "cache_fetch s c = Some (c1, i)" "i < CACHE_SIZE" "rel ((\<lambda>_. 0)(i := 1)) v c1"
      "valid (cells c1 ! i)" "sector_idx (cells c1 ! i) = s" "cached (cells c1) \<subseteq> insert s (cached (cells c))"
    by (rule fetch_ok [OF r s])
  note x = cell_data [OF f(3,2,4), unfolded f(5)]
  let ?x = "cells c1 ! i" let ?w = "write_bytes offset bs (v s)"
  let ?y = "?x\<lparr>block_data := ?w, dirty := True, num_using := 0, recently_accessed := True\<rparr>"
  have "rel (\<lambda>_. 0) (v(s := ?w)) (c1\<lparr>cells := (cells c1)[i := ?y]\<rparr>)"
    using release_cell [OF f(3,2,4) _ refl, of ?w True] f(5) x(5) sz by (simp add: length_write_bytes)
  moreover have "cache_write s offset bs c = Some (c1\<lparr>cells := (cells c1)[i := ?y]\<rparr>)"
    using f(1,2) x(1,3,4) sz by (simp add: cache_write_def upd_cell_def)
  moreover have "cached ((cells c1)[i := ?y]) \<subseteq> insert s (cached (cells c))"
    using cached_update_same [of i "cells c1" ?y] f(2,4,6) x(4) by auto
  ultimately show ?thesis by auto
qed

lemma flush_step:
  assumes r: "rel u v c" and i: "i < CACHE_SIZE" and d: "valid (cells c ! i)" "dirty (cells c ! i)"
  shows "\<exists>dev. block_write (fs_device c) (sector_idx (cells c ! i)) (block_data (cells c ! i)) = Some dev \<and>
    rel u v (upd_cell i (\<lambda>x. x\<lparr>dirty := False, valid := False\<rparr>) (c\<lparr>fs_device := dev\<rparr>))"
proof -
  note x = cell_data [OF r i d(1)]
  let ?s = "sector_idx (cells c ! i)" let ?y = "(cells c ! i)\<lparr>dirty := False, valid := False\<rparr>"
  have co: "cells_ok n u v (cells c)" using r by (simp add: cache_rel_def)
  obtain dev where w: "block_write (fs_device c) ?s (block_data (cells c ! i)) = Some dev" "block_ok os n ok dev"
      "\<forall>t < n. view (aux dev) t = (if t = ?s then block_data (cells c ! i) else view (aux (fs_device c)) t)"
    by (rule block_write_ok [of "fs_device c" ?s "block_data (cells c ! i)"]) (use r x in \<open>auto simp: cache_rel_def\<close>)
  have "cells_ok n (u(i := num_using ?y)) v ((cells c)[i := ?y])"
    by (intro cells_ok_update [OF co i]) (auto simp: cell_ok_def)
  moreover have "modified ((cells c)[i := ?y]) t \<or> view (aux dev) t = v t" if t: "t < n" for t
  proof (cases "t = ?s")
    case False
    have "modified ((cells c)[i := ?y]) t" if m: "modified (cells c) t"
    proof -
      obtain j where "j < CACHE_SIZE" "dirty (cells c ! j)" "sector_idx (cells c ! j) = t" using m by (auto simp: modified_def)
      moreover have "j \<noteq> i" using calculation False by auto
      ultimately show ?thesis unfolding modified_def by (intro exI [of _ j]) simp
    qed
    then show ?thesis using r t w(3) False by (auto simp: cache_rel_def)
  qed (use w(3) x t in auto)
  moreover have "u(i := num_using ?y) = u" using x(3) by auto
  ultimately show ?thesis using r w unfolding cache_rel_def upd_cell_def by simp
qed

lemma flush_from_ok:
  "rel u v c \<Longrightarrow> i + k = CACHE_SIZE \<Longrightarrow> \<forall>j < i. \<not> dirty (cells c ! j) \<Longrightarrow>
   \<exists>c'. flush_from k i c = Some c' \<and> rel u v c' \<and> (\<forall>j < CACHE_SIZE. \<not> dirty (cells c' ! j))"
proof (induction k arbitrary: i c)
  case (Suc k)
  have i: "i < CACHE_SIZE" "Suc i + k = CACHE_SIZE" using Suc.prems(2) by auto
  show ?case
  proof (cases "valid (cells c ! i) \<and> dirty (cells c ! i)")
    case True
    then obtain dev where d: "block_write (fs_device c) (sector_idx (cells c ! i)) (block_data (cells c ! i)) = Some dev"
        "rel u v (upd_cell i (\<lambda>x. x\<lparr>dirty := False, valid := False\<rparr>) (c\<lparr>fs_device := dev\<rparr>))" (is "rel u v ?c")
      using flush_step [OF Suc.prems(1) i(1)] by blast
    have "length (cells c) = CACHE_SIZE" using Suc.prems(1) by (simp add: cache_rel_def cells_ok_def)
    then have "\<forall>j < Suc i. \<not> dirty (cells ?c ! j)" using Suc.prems(3) i(1) by (auto simp: upd_cell_def nth_list_update less_Suc_eq)
    then show ?thesis using Suc.IH [OF d(2) i(2)] d(1) True by simp
  next
    case False
    then have "\<not> dirty (cells c ! i)" using Suc.prems(1) i(1) by (auto simp: cache_rel_def cells_ok_def cell_ok_def)
    then have "\<forall>j < Suc i. \<not> dirty (cells c ! j)" using Suc.prems(3) by (auto simp: less_Suc_eq)
    then show ?thesis using Suc.IH [OF Suc.prems(1) i(2)] False by simp
  qed
qed simp

lemma cache_flush_ok:
  assumes "rel u v c"
  shows "\<exists>c'. cache_flush c = Some c' \<and> rel u v c' \<and> (\<forall>t < n. view (aux (fs_device c')) t = v t)"
  using flush_from_ok [OF assms, of 0 CACHE_SIZE] by (auto simp: cache_flush_def cache_rel_def modified_def)

lemma cache_init_ok:
  assumes "block_ok os n ok (fs_device c)" "length (cells c) = CACHE_SIZE"
  shows "rel (\<lambda>_. 0) (view (aux (fs_device c))) (cache_init c)"
  using assms view_length by (auto simp: cache_rel_def cache_init_def cells_ok_def cell_ok_def CACHE_SIZE_def block_ok_def)

end

subsection \<open>Runs of the cache\<close>

datatype cache_op = Read_sector nat nat nat | Write_sector nat nat "u8 list" | Flush_cache

definition op_in_range :: "nat \<Rightarrow> cache_op \<Rightarrow> bool" where
  "op_in_range n x = (case x of Read_sector s offset sz \<Rightarrow> s < n \<and> offset + sz \<le> BLOCK_SECTOR_SIZE
     | Write_sector s offset bs \<Rightarrow> s < n \<and> offset + length bs \<le> BLOCK_SECTOR_SIZE | Flush_cache \<Rightarrow> True)"

primrec run_cache :: "cache_op list \<Rightarrow> 'd buffer_cache \<Rightarrow> ('d buffer_cache \<times> u8 list list) option" where
  "run_cache [] c = Some (c, [])"
| "run_cache (x # xs) c = do {
     (c, out) \<leftarrow> (case x of
        Read_sector s offset sz \<Rightarrow> cache_read s offset sz c
      | Write_sector s offset bs \<Rightarrow> map_option (\<lambda>c. (c, [])) (cache_write s offset bs c)
      | Flush_cache \<Rightarrow> map_option (\<lambda>c. (c, [])) (cache_flush c));
     (c, outs) \<leftarrow> run_cache xs c;
     Some (c, out # outs) }"

text \<open>The same operations on a plain array of sectors.\<close>

primrec run_array :: "cache_op list \<Rightarrow> (nat \<Rightarrow> sector) \<Rightarrow> (nat \<Rightarrow> sector) \<times> u8 list list" where
  "run_array [] v = (v, [])"
| "run_array (x # xs) v =
     (let (v, out) = (case x of
            Read_sector s offset sz \<Rightarrow> (v, take sz (drop offset (v s)))
          | Write_sector s offset bs \<Rightarrow> (v(s := write_bytes offset bs (v s)), [])
          | Flush_cache \<Rightarrow> (v, []));
          (v, outs) = run_array xs v
      in (v, out # outs))"

lemma run_cache_ok:
  assumes drv: "block_driver os n ok view"
  shows "cache_rel os n ok view (\<lambda>_. 0) v c \<Longrightarrow> list_all (op_in_range n) xs \<Longrightarrow>
    \<exists>c'. run_cache xs c = Some (c', snd (run_array xs v)) \<and> cache_rel os n ok view (\<lambda>_. 0) (fst (run_array xs v)) c'"
proof (induction xs arbitrary: v c)
  case (Cons x xs)
  have x: "op_in_range n x" "list_all (op_in_range n) xs" using Cons.prems(2) by auto
  show ?case
  proof (cases x)
    case (Read_sector s offset sz)
    then obtain c1 where "cache_read s offset sz c = Some (c1, take sz (drop offset (v s)))"
        "cache_rel os n ok view (\<lambda>_. 0) v c1"
      using block_driver.cache_read_ok [OF drv Cons.prems(1), of s offset sz] x(1) by (auto simp: op_in_range_def)
    then show ?thesis using Cons.IH [OF _ x(2), of v c1] Read_sector by (auto split: prod.splits)
  next
    case (Write_sector s offset bs)
    then obtain c1 where w: "cache_write s offset bs c = Some c1"
        "cache_rel os n ok view (\<lambda>_. 0) (v(s := write_bytes offset bs (v s))) c1"
      using block_driver.cache_write_ok [OF drv Cons.prems(1), of s offset bs] x(1) by (auto simp: op_in_range_def)
    show ?thesis using Cons.IH [OF w(2) x(2)] w(1) Write_sector by (auto split: prod.splits simp del: fun_upd_apply)
  next
    case Flush_cache
    then obtain c1 where "cache_flush c = Some c1" "cache_rel os n ok view (\<lambda>_. 0) v c1"
      using block_driver.cache_flush_ok [OF drv Cons.prems(1)] by auto
    then show ?thesis using Cons.IH [OF _ x(2), of v c1] Flush_cache by (auto split: prod.splits)
  qed
qed auto

text \<open>
  C15: from \<^verbatim>\<open>cache_init\<close> on, every sequence of \<^verbatim>\<open>cache_read\<close>, \<^verbatim>\<open>cache_write\<close> and \<^verbatim>\<open>cache_flush\<close>
  calls within the device returns, and returns the bytes that the same operations on a plain
  array of sectors return; a flush at the end leaves the device with exactly the sectors of that array.
\<close>

theorem cache_refines_sectors:
  assumes "block_driver os n ok view" "block_ok os n ok (fs_device c)" "length (cells c) = CACHE_SIZE"
    and "list_all (op_in_range n) xs"
  shows "\<exists>c' c''. run_cache xs (cache_init c) = Some (c', snd (run_array xs (view (aux (fs_device c))))) \<and>
    cache_flush c' = Some c'' \<and>
    (\<forall>t < n. view (aux (fs_device c'')) t = fst (run_array xs (view (aux (fs_device c)))) t)"
proof -
  obtain c' where "run_cache xs (cache_init c) = Some (c', snd (run_array xs (view (aux (fs_device c)))))"
      "cache_rel os n ok view (\<lambda>_. 0) (fst (run_array xs (view (aux (fs_device c))))) c'"
    using run_cache_ok [OF assms(1) block_driver.cache_init_ok [OF assms(1-3)] assms(4)] by blast
  then show ?thesis using block_driver.cache_flush_ok [OF assms(1)] by blast
qed

text \<open>A cache before its initialization over a memory disk of four sectors of zeros.\<close>

definition sample_cache :: "(nat \<Rightarrow> sector) buffer_cache" where
  "sample_cache = \<lparr>cells = replicate 64 \<lparr>block_data = [], sector_idx = 0, dirty = False, recently_accessed = False,
       valid = False, num_using = 0\<rparr>, clock_idx = 0, cache_miss = 0, cache_hit = 0,
     fs_device = \<lparr>blk_name = ''hda1'', kind = BLOCK_FILESYS, blk_size = 4, ops = ram_disk,
       aux = (\<lambda>_. replicate 512 0), read_cnt = 0, write_cnt = 0\<rparr>\<rparr>"

lemma sample_cache_ok:
  "block_ok ram_disk 4 (ram_disk_ok 4) (fs_device sample_cache)" "length (cells sample_cache) = CACHE_SIZE"
  "aux (fs_device sample_cache) = (\<lambda>_. replicate 512 0)"
  by (simp_all add: sample_cache_def block_ok_def ram_disk_ok_def CACHE_SIZE_def)

theorem cache_refines_sectors_witness:
  "\<exists>c' c''. run_cache [Write_sector 2 5 [7, 8], Flush_cache, Read_sector 2 4 3] (cache_init sample_cache) =
      Some (c', [[], [], [0, 7, 8]]) \<and>
    cache_flush c' = Some c'' \<and>
    (\<forall>t < 4. aux (fs_device c'') t =
       fst (run_array [Write_sector 2 5 [7, 8], Flush_cache, Read_sector 2 4 3] (\<lambda>_. replicate 512 0)) t)"
  using cache_refines_sectors [OF ram.block_driver_axioms sample_cache_ok(1,2),
      of "[Write_sector 2 5 [7, 8], Flush_cache, Read_sector 2 4 3]"]
  by (simp add: op_in_range_def sample_cache_ok(3) write_bytes_def)

text \<open>
  C31: a sector that is written on the device with \<^verbatim>\<open>block_write\<close> while a cell holds it is not seen
  through the cache: \<^verbatim>\<open>cache_read\<close> still returns the old bytes. The inode code zeroes newly
  allocated sectors this way.
\<close>

theorem cache_hides_block_write:
  assumes drv: "block_driver os n ok view" and r: "cache_rel os n ok view (\<lambda>_. 0) v c"
    and cached: "i < CACHE_SIZE" "valid (cells c ! i)" "sector_idx (cells c ! i) = s"
    and x: "length x = BLOCK_SECTOR_SIZE"
  shows "\<exists>dev c'. block_write (fs_device c) s x = Some dev \<and> view (aux dev) s = x \<and>
    cache_read s 0 BLOCK_SECTOR_SIZE (c\<lparr>fs_device := dev\<rparr>) = Some (c', v s)"
proof -
  note d = block_driver.cell_data [OF drv r cached(1,2), unfolded cached(3)]
  obtain dev where w: "block_write (fs_device c) s x = Some dev" "view (aux dev) s = x"
    by (rule block_driver.block_write_ok [OF drv _ d(2) x, of "fs_device c"]) (use r d(2) in \<open>auto simp: cache_rel_def\<close>)
  have "search_from (cells c) 0 s \<noteq> None" using search_from_None [of "cells c" 0 s i] cached d(4) by auto
  then obtain j where j: "search_from (cells c) 0 s = Some j" by auto
  have ji: "j < CACHE_SIZE" "valid (cells c ! j)" "sector_idx (cells c ! j) = s" using search_from_Some [OF j] d(4) by auto
  then have "block_data (cells c ! j) = v s" using block_driver.cell_data(1) [OF drv r ji(1,2)] by simp
  then show ?thesis using w j ji(1) d(4,5)
    by (auto simp: cache_read_def cache_fetch_def cache_search_def upd_cell_def)
qed

text \<open>The same cache with a modified cell for sector 2.\<close>

definition cached_two :: "(nat \<Rightarrow> sector) buffer_cache" where
  "cached_two = sample_cache\<lparr>cells := (cells sample_cache)[0 := \<lparr>block_data = replicate 512 7, sector_idx = 2, dirty = True,
     recently_accessed = True, valid = True, num_using = 0\<rparr>]\<rparr>"

lemma cached_two_ok:
  "cache_rel ram_disk 4 (ram_disk_ok 4) (\<lambda>d. d) (\<lambda>_. 0) ((\<lambda>_. replicate 512 0)(2 := replicate 512 7)) cached_two"
proof -
  have "modified (cells cached_two) 2"
    unfolding modified_def by (intro exI [of _ 0]) (simp add: cached_two_def sample_cache_def CACHE_SIZE_def)
  then show ?thesis
    by (auto simp: cache_rel_def cached_two_def sample_cache_def block_ok_def ram_disk_ok_def cells_ok_def cell_ok_def
        CACHE_SIZE_def nth_list_update nth_Cons' split: if_splits)
qed

theorem cache_hides_block_write_witness:
  "\<exists>dev c'. block_write (fs_device cached_two) 2 (replicate 512 0) = Some dev \<and> aux dev 2 = replicate 512 0 \<and>
    cache_read 2 0 512 (cached_two\<lparr>fs_device := dev\<rparr>) = Some (c', replicate 512 7)"
  using cache_hides_block_write [OF ram.block_driver_axioms cached_two_ok, of 0 2 "replicate 512 0"]
  by (simp add: cached_two_def sample_cache_def CACHE_SIZE_def)

end
