(* ===== verification/Inode.thy ===== *)
theory Inode
  imports Bitmap Buffer_Cache
begin

section \<open>The free map and inodes (filesys/free-map.c, filesys/inode.c)\<close>

text \<open>
  The file system's state: the buffer cache over the file system device, the free map and its
  file, the open inodes by address and the open files by address. Metadata (inodes and indirect
  blocks) are read and written on the device directly, file data through the cache, as in the code.

  Sector numbers, offsets and sizes are natural numbers; the code's \<^verbatim>\<open>off_t\<close> is a 32-bit signed
  integer, and the offsets of the model stand for those that are not negative and do not
  overflow it. \<open>malloc\<close> is a parameter: the address of the next block, \<open>0\<close> when memory runs out.
  \<open>junk\<close> is what an uninitialised \<^verbatim>\<open>struct indirect_block\<close> on the stack holds. Locks are not modelled:
  each operation runs without interruption.
\<close>

definition INODE_MAGIC :: nat where "INODE_MAGIC = 0x494e4f44"
definition DIRECT_BLOCKS :: nat where "DIRECT_BLOCKS = 10"
definition INDIRECT_INDEX :: nat where "INDIRECT_INDEX = 10"
definition DOUBLE_INDIRECT_INDEX :: nat where "DOUBLE_INDIRECT_INDEX = 20"
definition INDIRECT_BLOCK_PTRS :: nat where "INDIRECT_BLOCK_PTRS = 128"
definition INODE_BLOCK_PTRS :: nat where "INODE_BLOCK_PTRS = 21"
definition INDIRECT_BLOCKS_COUNT :: nat where "INDIRECT_BLOCKS_COUNT = 1280"
definition FREE_MAP_SECTOR :: nat where "FREE_MAP_SECTOR = 0"
definition ROOT_DIR_SECTOR :: nat where "ROOT_DIR_SECTOR = 1"

lemmas inode_consts = DIRECT_BLOCKS_def INDIRECT_INDEX_def DOUBLE_INDIRECT_INDEX_def INDIRECT_BLOCK_PTRS_def
  INODE_BLOCK_PTRS_def INDIRECT_BLOCKS_COUNT_def

record inode_disk =
  d_length :: nat
  d_magic :: nat
  d_direct_blk_idx :: nat
  d_indirect_blk_idx :: nat
  d_double_indirect_blk_idx :: nat
  d_is_dir :: bool
  d_parent :: nat
  d_ptrs :: "nat list"

record inode =
  inumber :: nat
  open_cnt :: int
  removed :: bool
  deny_write_cnt :: int
  ilength :: nat
  read_length :: nat
  direct_blk_idx :: nat
  indirect_blk_idx :: nat
  double_indirect_blk_idx :: nat
  is_dir :: bool
  parent :: nat
  ptrs :: "nat list"

record open_file =
  file_inode :: nat
  pos :: nat
  deny_write :: bool

record 'd filesys =
  cache :: "'d buffer_cache"
  free_map :: bitmap
  free_map_file :: nat
  inodes :: "nat \<rightharpoonup> inode"
  open_inodes :: "nat list"
  files :: "nat \<rightharpoonup> open_file"

definition bytes_to_sectors :: "nat \<Rightarrow> nat" where
  "bytes_to_sectors sz = DIV_ROUND_UP sz BLOCK_SECTOR_SIZE"

subsection \<open>Layout of metadata sectors\<close>

definition encode_block :: "nat list \<Rightarrow> sector" where
  "encode_block ns = concat (map (\<lambda>n. le_bytes (of_nat n)) ns)"

definition decode_block :: "sector \<Rightarrow> nat list" where
  "decode_block x = map unat (le_words x)"

definition encode_inode :: "inode_disk \<Rightarrow> sector" where
  "encode_inode d = encode_block ([d_length d, d_magic d, d_direct_blk_idx d, d_indirect_blk_idx d,
     d_double_indirect_blk_idx d, of_bool (d_is_dir d), d_parent d] @ d_ptrs d @ replicate 100 0)"

definition decode_inode :: "sector \<Rightarrow> inode_disk" where
  "decode_inode x = (let w = decode_block x in
     \<lparr>d_length = w ! 0, d_magic = w ! 1, d_direct_blk_idx = w ! 2, d_indirect_blk_idx = w ! 3,
      d_double_indirect_blk_idx = w ! 4, d_is_dir = (w ! 5 mod 256 \<noteq> 0), d_parent = w ! 6,
      d_ptrs = take INODE_BLOCK_PTRS (drop 7 w)\<rparr>)"

subsection \<open>Access to the device and to the cache\<close>

definition dev_read :: "nat \<Rightarrow> 'd filesys \<Rightarrow> ('d filesys \<times> sector) option" where
  "dev_read sec s = do {
     (dev, x) \<leftarrow> block_read (fs_device (cache s)) sec;
     Some (s\<lparr>cache := (cache s)\<lparr>fs_device := dev\<rparr>\<rparr>, x) }"

definition dev_write :: "nat \<Rightarrow> sector \<Rightarrow> 'd filesys \<Rightarrow> 'd filesys option" where
  "dev_write sec x s = do {
     dev \<leftarrow> block_write (fs_device (cache s)) sec x;
     Some (s\<lparr>cache := (cache s)\<lparr>fs_device := dev\<rparr>\<rparr>) }"

definition nth_opt :: "'a list \<Rightarrow> nat \<Rightarrow> 'a option" where
  "nth_opt xs i = (if i < length xs then Some (xs ! i) else None)"

definition set_inode :: "nat \<Rightarrow> inode \<Rightarrow> 'd filesys \<Rightarrow> 'd filesys" where
  "set_inode ip i s = s\<lparr>inodes := (inodes s)(ip \<mapsto> i)\<rparr>"

subsection \<open>Reading and writing data\<close>

text \<open>The sector of byte \<open>p\<close> of a file of \<open>len\<close> bytes; past the end it is \<^verbatim>\<open>-1\<close>.\<close>

definition byte_to_sector :: "inode \<Rightarrow> nat \<Rightarrow> nat \<Rightarrow> 'd filesys \<Rightarrow> ('d filesys \<times> nat) option" where
  "byte_to_sector i len p s =
     (if p \<ge> len then Some (s, 2 ^ 32 - 1)
      else
        let index = p div BLOCK_SECTOR_SIZE in
        if index < DIRECT_BLOCKS then do { n \<leftarrow> nth_opt (ptrs i) index; Some (s, n) }
        else if index < DIRECT_BLOCKS + INDIRECT_BLOCKS_COUNT then do {
          let p = p - BLOCK_SECTOR_SIZE * DIRECT_BLOCKS;
          let idx = p div (BLOCK_SECTOR_SIZE * INDIRECT_BLOCK_PTRS) + DIRECT_BLOCKS;
          n \<leftarrow> nth_opt (ptrs i) idx;
          (s, indirect_block) \<leftarrow> dev_read n s;
          let p = p mod (BLOCK_SECTOR_SIZE * INDIRECT_BLOCK_PTRS);
          r \<leftarrow> nth_opt (decode_block indirect_block) (p div BLOCK_SECTOR_SIZE);
          Some (s, r) }
        else do {
          n \<leftarrow> nth_opt (ptrs i) DOUBLE_INDIRECT_INDEX;
          (s, indirect_block) \<leftarrow> dev_read n s;
          let p = p - BLOCK_SECTOR_SIZE * (DIRECT_BLOCKS + INDIRECT_BLOCKS_COUNT);
          let idx = p div (BLOCK_SECTOR_SIZE * INDIRECT_BLOCK_PTRS);
          n \<leftarrow> nth_opt (decode_block indirect_block) idx;
          (s, indirect_block) \<leftarrow> dev_read n s;
          let p = p mod (BLOCK_SECTOR_SIZE * INDIRECT_BLOCK_PTRS);
          r \<leftarrow> nth_opt (decode_block indirect_block) (p div BLOCK_SECTOR_SIZE);
          Some (s, r) })"

function read_loop :: "inode \<Rightarrow> nat \<Rightarrow> nat \<Rightarrow> nat \<Rightarrow> 'd filesys \<Rightarrow> ('d filesys \<times> u8 list) option" where
  "read_loop i len sz offset s =
     (if sz > 0 then do {
        (s, sec) \<leftarrow> byte_to_sector i len offset s;
        let sector_ofs = offset mod BLOCK_SECTOR_SIZE;
        let inode_left = len - offset;
        let sector_left = BLOCK_SECTOR_SIZE - sector_ofs;
        let min_left = min inode_left sector_left;
        let chunk_size = min sz min_left;
        if chunk_size = 0 then Some (s, [])
        else do {
          (c, bs) \<leftarrow> cache_read sec sector_ofs chunk_size (cache s);
          (s, rest) \<leftarrow> read_loop i len (sz - chunk_size) (offset + chunk_size) (s\<lparr>cache := c\<rparr>);
          Some (s, bs @ rest) } }
      else Some (s, []))"
  by pat_completeness auto
termination
proof (relation "measure (\<lambda>(i, len, sz, offset, s). sz)", goal_cases)
  case prems: 2
  show ?case unfolding in_measure prod.case by (rule diff_less [OF _ prems(1)]) (use prems in blast)
qed (rule wf_measure)

declare read_loop.simps [simp del]

definition inode_read_at :: "nat \<Rightarrow> nat \<Rightarrow> nat \<Rightarrow> 'd filesys \<Rightarrow> ('d filesys \<times> u8 list) option" where
  "inode_read_at ip sz offset s = do {
     i \<leftarrow> inodes s ip;
     let len = read_length i;
     if offset \<ge> len then Some (s, []) else read_loop i len sz offset s }"

definition inode_length :: "inode \<Rightarrow> nat" where
  "inode_length i = ilength i"

function write_loop :: "inode \<Rightarrow> u8 list \<Rightarrow> nat \<Rightarrow> 'd filesys \<Rightarrow> ('d filesys \<times> nat) option" where
  "write_loop i buffer offset s =
     (if length buffer > 0 then do {
        (s, sec) \<leftarrow> byte_to_sector i (inode_length i) offset s;
        let sector_ofs = offset mod BLOCK_SECTOR_SIZE;
        let inode_left = inode_length i - offset;
        let sector_left = BLOCK_SECTOR_SIZE - sector_ofs;
        let min_left = min inode_left sector_left;
        let chunk_size = min (length buffer) min_left;
        if chunk_size = 0 then Some (s, 0)
        else do {
          c \<leftarrow> cache_write sec sector_ofs (take chunk_size buffer) (cache s);
          (s, n) \<leftarrow> write_loop i (drop chunk_size buffer) (offset + chunk_size) (s\<lparr>cache := c\<rparr>);
          Some (s, chunk_size + n) } }
      else Some (s, 0))"
  by pat_completeness auto
termination
proof (relation "measure (\<lambda>(i, buffer, offset, s). length buffer)", goal_cases)
  case prems: 2
  show ?case unfolding in_measure prod.case length_drop by (rule diff_less [OF _ prems(1)]) (use prems in blast)
qed (rule wf_measure)

declare write_loop.simps [simp del]

text \<open>
  \<^verbatim>\<open>inode_write_at\<close> with the growth of the file as an argument, which returns the changed inode
  and the new length.
\<close>

definition write_at_by :: "(inode \<Rightarrow> nat \<Rightarrow> 'd filesys \<Rightarrow> ('d filesys \<times> inode \<times> nat) option) \<Rightarrow>
    nat \<Rightarrow> u8 list \<Rightarrow> nat \<Rightarrow> 'd filesys \<Rightarrow> ('d filesys \<times> nat) option" where
  "write_at_by grow ip buffer offset s = do {
     i \<leftarrow> inodes s ip;
     if deny_write_cnt i \<noteq> 0 then Some (s, 0)
     else do {
       (s, i) \<leftarrow> (if offset + length buffer > inode_length i then do {
                    (s, i, len) \<leftarrow> grow i (offset + length buffer) s;
                    let i = i\<lparr>ilength := len\<rparr>;
                    Some (set_inode ip i s, i) }
                  else Some (s, i));
       (s, bytes_written) \<leftarrow> write_loop i buffer offset s;
       let i = i\<lparr>read_length := inode_length i\<rparr>;
       Some (set_inode ip i s, bytes_written) } }"

subsection \<open>The free map\<close>

text \<open>
  The free map is kept in a file of its own, whose size never changes: a write that would have
  to grow it is not modelled (\<open>None\<close>).
\<close>

definition file_write_fixed :: "nat \<Rightarrow> 'd filesys \<Rightarrow> u8 list \<Rightarrow> nat \<Rightarrow> ('d filesys \<times> nat) option" where
  "file_write_fixed fp s buffer offset = do {
     f \<leftarrow> files s fp;
     write_at_by (\<lambda>_ _ _. None) (file_inode f) buffer offset s }"

definition free_map_init :: "bool \<Rightarrow> u32 list option \<Rightarrow> 'd filesys \<Rightarrow> 'd filesys option" where
  "free_map_init b_ok mem s = do {
     b \<leftarrow> bitmap_create b_ok mem (block_size (fs_device (cache s)));
     b \<leftarrow> b;
     b \<leftarrow> bitmap_mark b FREE_MAP_SECTOR;
     b \<leftarrow> bitmap_mark b ROOT_DIR_SECTOR;
     Some (s\<lparr>free_map := b\<rparr>) }"

text \<open>\<open>sectorp\<close> is the sector number that \<^verbatim>\<open>*SECTORP\<close> holds before and, in the result, after the call.\<close>

definition free_map_allocate :: "nat \<Rightarrow> nat \<Rightarrow> 'd filesys \<Rightarrow> ('d filesys \<times> nat \<times> bool) option" where
  "free_map_allocate cnt sectorp s = do {
     (b, sec) \<leftarrow> bitmap_scan_and_flip (free_map s) 0 cnt False;
     let s = s\<lparr>free_map := b\<rparr>;
     (s, sec) \<leftarrow> (if sec \<noteq> BITMAP_ERROR \<and> free_map_file s \<noteq> 0 then do {
                    (s, ok) \<leftarrow> bitmap_write (file_write_fixed (free_map_file s)) (free_map s) s;
                    if \<not> ok then do {
                      b \<leftarrow> bitmap_set_multiple (free_map s) sec cnt False;
                      Some (s\<lparr>free_map := b\<rparr>, BITMAP_ERROR) }
                    else Some (s, sec) }
                  else Some (s, sec));
     Some (s, if sec \<noteq> BITMAP_ERROR then sec else sectorp, sec \<noteq> BITMAP_ERROR) }"

definition free_map_release :: "nat \<Rightarrow> nat \<Rightarrow> 'd filesys \<Rightarrow> 'd filesys option" where
  "free_map_release sec cnt s = do {
     all \<leftarrow> bitmap_all (free_map s) sec cnt;
     _ \<leftarrow> ASSERT all;
     b \<leftarrow> bitmap_set_multiple (free_map s) sec cnt False;
     let s = s\<lparr>free_map := b\<rparr>;
     (s, ok) \<leftarrow> bitmap_write (file_write_fixed (free_map_file s)) (free_map s) s;
     Some s }"

subsection \<open>Growing an inode\<close>

definition zeros :: sector where "zeros = replicate BLOCK_SECTOR_SIZE 0"

text \<open>\<^verbatim>\<open>--new_sectors\<close> on a \<^verbatim>\<open>size_t\<close>.\<close>

definition size_dec :: "nat \<Rightarrow> nat" where
  "size_dec n = (if n = 0 then 2 ^ 32 - 1 else n - 1)"

definition set_ptr :: "nat \<Rightarrow> nat \<Rightarrow> inode \<Rightarrow> inode" where
  "set_ptr k sec i = i\<lparr>ptrs := (ptrs i)[k := sec]\<rparr>"

function map_alloc :: "inode \<Rightarrow> nat \<Rightarrow> 'd filesys \<Rightarrow> ('d filesys \<times> inode \<times> nat) option" where
  "map_alloc i new_sectors s =
     (if direct_blk_idx i < INDIRECT_INDEX then do {
        old \<leftarrow> nth_opt (ptrs i) (direct_blk_idx i);
        (s, sec, _) \<leftarrow> free_map_allocate 1 old s;
        s \<leftarrow> dev_write sec zeros s;
        let i' = (set_ptr (direct_blk_idx i) sec i)\<lparr>direct_blk_idx := direct_blk_idx i + 1\<rparr>;
        let new_sectors = size_dec new_sectors;
        if new_sectors = 0 then Some (s, i', new_sectors) else map_alloc i' new_sectors s }
      else Some (s, i, new_sectors))"
  by pat_completeness auto
termination
proof (relation "measure (\<lambda>(i, new_sectors, s). INDIRECT_INDEX - direct_blk_idx i)", goal_cases)
  case prems: 2
  show ?case unfolding in_measure prod.case using prems(1,7) by simp
qed (rule wf_measure)

declare map_alloc.simps [simp del]

text \<open>
  \<^verbatim>\<open>map_alloc_indirect\<close> gets its block by value: the sectors it allocates are entered in its own copy
  only, and are not part of the result.
\<close>

function map_alloc_indirect :: "nat list \<Rightarrow> nat \<Rightarrow> nat \<Rightarrow> 'd filesys \<Rightarrow> ('d filesys \<times> nat \<times> nat) option" where
  "map_alloc_indirect block index new_sectors s =
     (if index < INDIRECT_BLOCK_PTRS then do {
        old \<leftarrow> nth_opt block index;
        (s, sec, _) \<leftarrow> free_map_allocate 1 old s;
        let block = block[index := sec];
        s \<leftarrow> dev_write sec zeros s;
        let new_sectors = size_dec new_sectors;
        if new_sectors = 0 then Some (s, index + 1, new_sectors)
        else map_alloc_indirect block (index + 1) new_sectors s }
      else Some (s, index, new_sectors))"
  by pat_completeness auto
termination
proof (relation "measure (\<lambda>(block, index, new_sectors, s). INDIRECT_BLOCK_PTRS - index)", goal_cases)
  case prems: 2
  show ?case unfolding in_measure prod.case using prems(1) by simp
qed (rule wf_measure)

declare map_alloc_indirect.simps [simp del]

text \<open>The loop of \<^verbatim>\<open>inode_grow_indirect_block\<close>, over the indirect block and the inode.\<close>

function fill_indirect :: "inode \<Rightarrow> nat list \<Rightarrow> nat \<Rightarrow> 'd filesys \<Rightarrow> ('d filesys \<times> inode \<times> nat list \<times> nat) option" where
  "fill_indirect i block new_sectors s =
     (if indirect_blk_idx i < INDIRECT_BLOCK_PTRS then do {
        old \<leftarrow> nth_opt block (indirect_blk_idx i);
        (s, sec, _) \<leftarrow> free_map_allocate 1 old s;
        let block = block[indirect_blk_idx i := sec];
        s \<leftarrow> dev_write sec zeros s;
        let i' = i\<lparr>indirect_blk_idx := indirect_blk_idx i + 1\<rparr>;
        let new_sectors = size_dec new_sectors;
        if new_sectors = 0 then Some (s, i', block, new_sectors) else fill_indirect i' block new_sectors s }
      else Some (s, i, block, new_sectors))"
  by pat_completeness auto
termination
proof (relation "measure (\<lambda>(i, block, new_sectors, s). INDIRECT_BLOCK_PTRS - indirect_blk_idx i)", goal_cases)
  case prems: 2
  show ?case unfolding in_measure prod.case using prems(1,8) by simp
qed (rule wf_measure)

declare fill_indirect.simps [simp del]

definition inode_grow_indirect_block :: "nat list \<Rightarrow> inode \<Rightarrow> nat \<Rightarrow> 'd filesys \<Rightarrow> ('d filesys \<times> inode \<times> nat) option" where
  "inode_grow_indirect_block junk i new_sectors s = do {
     p \<leftarrow> nth_opt (ptrs i) (direct_blk_idx i);
     (s, i, block) \<leftarrow> (if indirect_blk_idx i = 0 then do {
                         (s, sec, _) \<leftarrow> free_map_allocate 1 p s;
                         Some (s, set_ptr (direct_blk_idx i) sec i, junk) }
                       else do {
                         (s, x) \<leftarrow> dev_read p s;
                         Some (s, i, decode_block x) });
     (s, i, block, new_sectors) \<leftarrow> fill_indirect i block new_sectors s;
     p \<leftarrow> nth_opt (ptrs i) (direct_blk_idx i);
     s \<leftarrow> dev_write p (encode_block block) s;
     let i = (if indirect_blk_idx i = INDIRECT_BLOCK_PTRS
              then i\<lparr>indirect_blk_idx := 0, direct_blk_idx := direct_blk_idx i + 1\<rparr> else i);
     Some (s, i, new_sectors) }"

partial_function (option) grow_indirect_loop ::
  "nat list \<Rightarrow> inode \<Rightarrow> nat \<Rightarrow> 'd filesys \<Rightarrow> ('d filesys \<times> inode \<times> nat) option" where
  "grow_indirect_loop junk i new_sectors s =
     (if direct_blk_idx i < DOUBLE_INDIRECT_INDEX then do {
        (s, i, new_sectors) \<leftarrow> inode_grow_indirect_block junk i new_sectors s;
        if new_sectors = 0 then Some (s, i, new_sectors) else grow_indirect_loop junk i new_sectors s }
      else Some (s, i, new_sectors))"

definition inode_grow_double_indirect_block_lvl2 ::
  "nat list \<Rightarrow> inode \<Rightarrow> nat list \<Rightarrow> nat \<Rightarrow> 'd filesys \<Rightarrow> ('d filesys \<times> inode \<times> nat list \<times> nat) option" where
  "inode_grow_double_indirect_block_lvl2 junk i outer_block new_sectors s = do {
     p \<leftarrow> nth_opt outer_block (indirect_blk_idx i);
     (s, outer_block, inner_block) \<leftarrow> (if double_indirect_blk_idx i = 0 then do {
                         (s, sec, _) \<leftarrow> free_map_allocate 1 p s;
                         Some (s, outer_block[indirect_blk_idx i := sec], junk) }
                       else do {
                         (s, x) \<leftarrow> dev_read p s;
                         Some (s, outer_block, decode_block x) });
     (s, index, new_sectors) \<leftarrow> map_alloc_indirect inner_block (double_indirect_blk_idx i) new_sectors s;
     let i = i\<lparr>double_indirect_blk_idx := index\<rparr>;
     s \<leftarrow> dev_write (outer_block ! indirect_blk_idx i) (encode_block inner_block) s;
     let i = (if double_indirect_blk_idx i = INDIRECT_BLOCK_PTRS
              then i\<lparr>double_indirect_blk_idx := 0, indirect_blk_idx := indirect_blk_idx i + 1\<rparr> else i);
     Some (s, i, outer_block, new_sectors) }"

partial_function (option) grow_double_loop ::
  "nat list \<Rightarrow> inode \<Rightarrow> nat list \<Rightarrow> nat \<Rightarrow> 'd filesys \<Rightarrow> ('d filesys \<times> inode \<times> nat list \<times> nat) option" where
  "grow_double_loop junk i block new_sectors s =
     (if indirect_blk_idx i < INDIRECT_BLOCK_PTRS then do {
        (s, i, block, new_sectors) \<leftarrow> inode_grow_double_indirect_block_lvl2 junk i block new_sectors s;
        if new_sectors = 0 then Some (s, i, block, new_sectors) else grow_double_loop junk i block new_sectors s }
      else Some (s, i, block, new_sectors))"

definition inode_grow_double_indirect_block :: "nat list \<Rightarrow> inode \<Rightarrow> nat \<Rightarrow> 'd filesys \<Rightarrow> ('d filesys \<times> inode \<times> nat) option" where
  "inode_grow_double_indirect_block junk i new_sectors s = do {
     p \<leftarrow> nth_opt (ptrs i) (direct_blk_idx i);
     (s, i, block) \<leftarrow> (if double_indirect_blk_idx i = 0 \<and> indirect_blk_idx i = 0 then do {
                         (s, sec, _) \<leftarrow> free_map_allocate 1 p s;
                         Some (s, set_ptr (direct_blk_idx i) sec i, junk) }
                       else do {
                         (s, x) \<leftarrow> dev_read p s;
                         Some (s, i, decode_block x) });
     (s, i, block, new_sectors) \<leftarrow> grow_double_loop junk i block new_sectors s;
     p \<leftarrow> nth_opt (ptrs i) (direct_blk_idx i);
     s \<leftarrow> dev_write p (encode_block block) s;
     Some (s, i, new_sectors) }"

definition inode_grow :: "nat list \<Rightarrow> inode \<Rightarrow> nat \<Rightarrow> 'd filesys \<Rightarrow> ('d filesys \<times> inode \<times> nat) option" where
  "inode_grow junk i new_length s =
     (let new_sectors = bytes_to_sectors new_length - bytes_to_sectors (ilength i) in
      if new_sectors = 0 then Some (s, i, new_length)
      else do {
        (s, i, new_sectors) \<leftarrow> map_alloc i new_sectors s;
        if new_sectors = 0 then Some (s, i, new_length)
        else do {
          (s, i, new_sectors) \<leftarrow> grow_indirect_loop junk i new_sectors s;
          if new_sectors = 0 then Some (s, i, new_length)
          else do {
            (s, i, new_sectors) \<leftarrow> (if direct_blk_idx i = DOUBLE_INDIRECT_INDEX
               then inode_grow_double_indirect_block junk i new_sectors s else Some (s, i, new_sectors));
            Some (s, i, new_length - new_sectors * BLOCK_SECTOR_SIZE) } } })"

definition inode_write_at :: "nat list \<Rightarrow> nat \<Rightarrow> u8 list \<Rightarrow> nat \<Rightarrow> 'd filesys \<Rightarrow> ('d filesys \<times> nat) option" where
  "inode_write_at junk = write_at_by (inode_grow junk)"

definition empty_inode :: inode where
  "empty_inode = \<lparr>inumber = 0, open_cnt = 0, removed = False, deny_write_cnt = 0, ilength = 0, read_length = 0,
     direct_blk_idx = 0, indirect_blk_idx = 0, double_indirect_blk_idx = 0, is_dir = False, parent = 0,
     ptrs = replicate INODE_BLOCK_PTRS 0\<rparr>"

definition inode_allocate :: "nat list \<Rightarrow> inode_disk \<Rightarrow> 'd filesys \<Rightarrow> ('d filesys \<times> inode_disk \<times> bool) option" where
  "inode_allocate junk d s = do {
     (s, i, _) \<leftarrow> inode_grow junk empty_inode (d_length d) s;
     let d = d\<lparr>d_direct_blk_idx := direct_blk_idx i, d_indirect_blk_idx := indirect_blk_idx i,
               d_double_indirect_blk_idx := double_indirect_blk_idx i, d_ptrs := ptrs i\<rparr>;
     Some (s, d, True) }"

subsection \<open>Creating, opening and closing inodes\<close>

text \<open>\<open>calloc_ok\<close> says whether \<^verbatim>\<open>calloc\<close> has memory for the buffer.\<close>

definition inode_create :: "nat list \<Rightarrow> bool \<Rightarrow> nat \<Rightarrow> nat \<Rightarrow> bool \<Rightarrow> 'd filesys \<Rightarrow> ('d filesys \<times> bool) option" where
  "inode_create junk calloc_ok sec len dir s =
     (if calloc_ok then do {
        let d = \<lparr>d_length = len, d_magic = INODE_MAGIC, d_direct_blk_idx = 0, d_indirect_blk_idx = 0,
                 d_double_indirect_blk_idx = 0, d_is_dir = dir, d_parent = ROOT_DIR_SECTOR,
                 d_ptrs = replicate INODE_BLOCK_PTRS 0\<rparr>;
        (s, d, ok) \<leftarrow> inode_allocate junk d s;
        if ok then do { s \<leftarrow> dev_write sec (encode_inode d) s; Some (s, True) } else Some (s, False) }
      else Some (s, False))"

definition inode_reopen :: "nat \<Rightarrow> 'd filesys \<Rightarrow> ('d filesys \<times> nat) option" where
  "inode_reopen ip s =
     (if ip \<noteq> 0 then do {
        i \<leftarrow> inodes s ip;
        Some (set_inode ip (i\<lparr>open_cnt := open_cnt i + 1\<rparr>) s, ip) }
      else Some (s, ip))"

primrec find_open :: "(nat \<rightharpoonup> inode) \<Rightarrow> nat \<Rightarrow> nat list \<Rightarrow> nat option" where
  "find_open m sec [] = None"
| "find_open m sec (ip # ips) = (if map_option inumber (m ip) = Some sec then Some ip else find_open m sec ips)"

definition inode_init :: "'d filesys \<Rightarrow> 'd filesys" where
  "inode_init s = s\<lparr>open_inodes := []\<rparr>"

definition inode_open :: "('d filesys \<Rightarrow> nat) \<Rightarrow> nat \<Rightarrow> 'd filesys \<Rightarrow> ('d filesys \<times> nat) option" where
  "inode_open malloc sec s =
     (case find_open (inodes s) sec (open_inodes s) of
       Some ip \<Rightarrow> inode_reopen ip s
     | None \<Rightarrow>
         let ip = malloc s in
         if ip = 0 then Some (s, 0)
         else do {
           let s = s\<lparr>open_inodes := ip # open_inodes s\<rparr>;
           (s, x) \<leftarrow> dev_read sec s;
           let d = decode_inode x;
           let i = \<lparr>inumber = sec, open_cnt = 1, removed = False, deny_write_cnt = 0, ilength = d_length d,
                    read_length = d_length d, direct_blk_idx = d_direct_blk_idx d,
                    indirect_blk_idx = d_indirect_blk_idx d, double_indirect_blk_idx = d_double_indirect_blk_idx d,
                    is_dir = d_is_dir d, parent = d_parent d, ptrs = d_ptrs d\<rparr>;
           Some (set_inode ip i s, ip) })"

definition inode_get_inumber :: "inode \<Rightarrow> nat" where "inode_get_inumber i = inumber i"

definition inode_remove :: "nat \<Rightarrow> 'd filesys \<Rightarrow> 'd filesys option" where
  "inode_remove ip s = do { i \<leftarrow> inodes s ip; Some (set_inode ip (i\<lparr>removed := True\<rparr>) s) }"

definition inode_deny_write :: "nat \<Rightarrow> 'd filesys \<Rightarrow> 'd filesys option" where
  "inode_deny_write ip s = do {
     i \<leftarrow> inodes s ip;
     let i = i\<lparr>deny_write_cnt := deny_write_cnt i + 1\<rparr>;
     _ \<leftarrow> ASSERT (deny_write_cnt i \<le> open_cnt i);
     Some (set_inode ip i s) }"

definition inode_allow_write :: "nat \<Rightarrow> 'd filesys \<Rightarrow> 'd filesys option" where
  "inode_allow_write ip s = do {
     i \<leftarrow> inodes s ip;
     _ \<leftarrow> ASSERT (deny_write_cnt i > 0);
     _ \<leftarrow> ASSERT (deny_write_cnt i \<le> open_cnt i);
     Some (set_inode ip (i\<lparr>deny_write_cnt := deny_write_cnt i - 1\<rparr>) s) }"

text \<open>Releasing the sectors of a removed file.\<close>

primrec release_all :: "nat list \<Rightarrow> 'd filesys \<Rightarrow> 'd filesys option" where
  "release_all [] s = Some s"
| "release_all (n # ns) s = do { s \<leftarrow> free_map_release n 1 s; release_all ns s }"

definition inode_deallocate_indirect_block :: "nat \<Rightarrow> nat \<Rightarrow> 'd filesys \<Rightarrow> 'd filesys option" where
  "inode_deallocate_indirect_block p data_ptrs s = do {
     (s, x) \<leftarrow> dev_read p s;
     let block = decode_block x;
     _ \<leftarrow> ASSERT (data_ptrs \<le> length block);
     s \<leftarrow> release_all (take data_ptrs block) s;
     free_map_release p 1 s }"

primrec deallocate_blocks :: "nat list \<Rightarrow> nat \<Rightarrow> 'd filesys \<Rightarrow> ('d filesys \<times> nat) option" where
  "deallocate_blocks [] data_ptrs s = Some (s, data_ptrs)"
| "deallocate_blocks (p # ps) data_ptrs s = do {
     let data_per_block = (if data_ptrs < INDIRECT_BLOCK_PTRS then data_ptrs else INDIRECT_BLOCK_PTRS);
     s \<leftarrow> inode_deallocate_indirect_block p data_per_block s;
     deallocate_blocks ps (data_ptrs - data_per_block) s }"

definition inode_deallocate_double_indirect_block :: "nat \<Rightarrow> nat \<Rightarrow> nat \<Rightarrow> 'd filesys \<Rightarrow> 'd filesys option" where
  "inode_deallocate_double_indirect_block p indirect_ptrs data_ptrs s = do {
     (s, x) \<leftarrow> dev_read p s;
     let block = decode_block x;
     _ \<leftarrow> ASSERT (indirect_ptrs \<le> length block);
     (s, _) \<leftarrow> deallocate_blocks (take indirect_ptrs block) data_ptrs s;
     free_map_release p 1 s }"

definition inode_deallocate :: "inode \<Rightarrow> 'd filesys \<Rightarrow> 'd filesys option" where
  "inode_deallocate i s = do {
     let data_sectors = bytes_to_sectors (ilength i);
     let indirect_sectors = (if ilength i \<le> BLOCK_SECTOR_SIZE * DIRECT_BLOCKS then 0
           else DIV_ROUND_UP (ilength i - BLOCK_SECTOR_SIZE * DIRECT_BLOCKS) (BLOCK_SECTOR_SIZE * INDIRECT_BLOCK_PTRS));
     let double_indirect_sector =
           (ilength i > BLOCK_SECTOR_SIZE * (DIRECT_BLOCKS + INDIRECT_BLOCKS_COUNT));
     let direct = min data_sectors INDIRECT_INDEX;
     s \<leftarrow> release_all (take direct (ptrs i)) s;
     let indirect = min indirect_sectors (DOUBLE_INDIRECT_INDEX - direct);
     (s, data_sectors) \<leftarrow> deallocate_blocks (take indirect (drop direct (ptrs i))) (data_sectors - direct) s;
     let indirect_sectors = indirect_sectors - indirect;
     if double_indirect_sector then do {
       p \<leftarrow> nth_opt (ptrs i) (direct + indirect);
       inode_deallocate_double_indirect_block p indirect_sectors data_sectors s }
     else Some s }"

definition inode_close :: "nat \<Rightarrow> 'd filesys \<Rightarrow> 'd filesys option" where
  "inode_close ip s =
     (if ip = 0 then Some s
      else do {
        i \<leftarrow> inodes s ip;
        let i = i\<lparr>open_cnt := open_cnt i - 1\<rparr>;
        let s = set_inode ip i s;
        if open_cnt i = 0 then do {
          let s = s\<lparr>open_inodes := remove1 ip (open_inodes s)\<rparr>;
          s \<leftarrow> (if removed i then do {
                   s \<leftarrow> free_map_release (inumber i) 1 s;
                   inode_deallocate i s }
                 else dev_write (inumber i) (encode_inode
                   \<lparr>d_length = ilength i, d_magic = INODE_MAGIC, d_direct_blk_idx = direct_blk_idx i,
                    d_indirect_blk_idx = indirect_blk_idx i, d_double_indirect_blk_idx = double_indirect_blk_idx i,
                    d_is_dir = is_dir i, d_parent = parent i, d_ptrs = ptrs i\<rparr>) s);
          Some (s\<lparr>inodes := (inodes s)(ip := None)\<rparr>) }
        else Some s })"

end
