(* ===== verification/Inode_Data.thy ===== *)
theory Inode_Data
  imports Inode
begin

section \<open>An inode holds an array of bytes\<close>

text \<open>
  What the pointers of an inode and its indirect blocks say: the sector of each block of data, the
  metadata sectors on the way to it, and the bytes of the file. \<open>v\<close> is the array of sectors that the
  cache and the device together stand for.
\<close>

definition block_no :: "inode \<Rightarrow> (nat \<Rightarrow> sector) \<Rightarrow> nat \<Rightarrow> nat" where
  "block_no i v k =
     (if k < 10 then ptrs i ! k
      else if k < 1290 then decode_block (v (ptrs i ! (10 + (k - 10) div 128))) ! ((k - 10) mod 128)
      else decode_block (v (decode_block (v (ptrs i ! 20)) ! ((k - 1290) div 128))) ! ((k - 1290) mod 128))"

definition meta :: "inode \<Rightarrow> (nat \<Rightarrow> sector) \<Rightarrow> nat \<Rightarrow> nat set" where
  "meta i v k =
     (if k < 10 then {}
      else if k < 1290 then {ptrs i ! (10 + (k - 10) div 128)}
      else {ptrs i ! 20, decode_block (v (ptrs i ! 20)) ! ((k - 1290) div 128)})"

definition layout_ok :: "nat \<Rightarrow> (nat \<Rightarrow> sector) \<Rightarrow> inode \<Rightarrow> nat \<Rightarrow> bool" where
  "layout_ok n v i nb \<longleftrightarrow> length (ptrs i) = INODE_BLOCK_PTRS \<and> nb \<le> 17674 \<and>
     (\<forall>k < nb. block_no i v k < n \<and> meta i v k \<subseteq> {..<n}) \<and> inj_on (block_no i v) {..<nb} \<and>
     (\<forall>k < nb. \<forall>j < nb. block_no i v k \<notin> meta i v j)"

definition byte_at :: "inode \<Rightarrow> (nat \<Rightarrow> sector) \<Rightarrow> nat \<Rightarrow> u8" where
  "byte_at i v p = v (block_no i v (p div 512)) ! (p mod 512)"

definition file_bytes :: "inode \<Rightarrow> (nat \<Rightarrow> sector) \<Rightarrow> nat \<Rightarrow> u8 list" where
  "file_bytes i v len = map (byte_at i v) [0..<len]"

lemma length_file_bytes [simp]: "length (file_bytes i v len) = len"
  by (simp add: file_bytes_def)

lemma block_no_cong:
  "\<forall>t \<in> meta i v k. w t = v t \<Longrightarrow> block_no i w k = block_no i v k \<and> meta i w k = meta i v k"
  by (auto simp: block_no_def meta_def split: if_splits)

lemma length_le_words: "length (le_words xs) = length xs div 4"
  by (induction xs rule: le_words.induct) auto

lemma length_decode_block: "length x = 512 \<Longrightarrow> length (decode_block x) = 128"
  by (simp add: decode_block_def length_le_words)

lemma bytes_to_sectors_gt: "p < len \<Longrightarrow> p div 512 < bytes_to_sectors len"
  unfolding bytes_to_sectors_def BLOCK_SECTOR_SIZE_def DIV_ROUND_UP_def by (simp add: div_less_iff_less_mult)

lemma nth_write_bytes:
  assumes "o' + length bs \<le> length d" "q < length d"
  shows "write_bytes o' bs d ! q = (if o' \<le> q \<and> q < o' + length bs then bs ! (q - o') else d ! q)"
  using assms by (auto simp: write_bytes_def nth_append min_def)

subsection \<open>Offsets and indices\<close>

lemma sub_div: "(p - 512 * a) div 512 = p div 512 - (a :: nat)"
proof (cases "512 * a \<le> p")
  case True
  then obtain q where "p = 512 * a + q" using le_Suc_ex by blast
  then show ?thesis by simp
next
  case False
  then show ?thesis by (simp add: div_le_mono)
qed

lemma mod_div: "(m mod (512 * 128)) div 512 = m div 512 mod (128 :: nat)"
proof -
  have "m mod (512 * 128) = 512 * (m div 512 mod 128) + m mod 512" by (rule mod_mult2_eq)
  then show ?thesis by simp
qed

lemma div_div: "m div (512 * 128) = m div 512 div (128 :: nat)"
  by (rule div_mult2_eq)

text \<open>A step of the loops: the block of an offset and the part of it that is left.\<close>

lemma chunk_bytes:
  assumes "o' < len" "c \<le> len - o'" "c \<le> 512 - o' mod 512" "length (v (block_no i v (o' div 512))) = 512"
  shows "take c (drop (o' mod 512) (v (block_no i v (o' div 512)))) = map (byte_at i v) [o'..<o' + c]"
proof (rule nth_equalityI)
  fix q assume q: "q < length (take c (drop (o' mod 512) (v (block_no i v (o' div 512)))))"
  then have qc: "q < c" "o' mod 512 + q < 512" using assms(3) by auto
  have "(o' + q) div 512 = o' div 512" "(o' + q) mod 512 = o' mod 512 + q"
    using qc(2) by (metis div_mult_mod_eq add.assoc div_mult_self3 div_less add.right_neutral zero_neq_numeral,
      metis mod_add_left_eq mod_less)
  then have "byte_at i v (o' + q) = v (block_no i v (o' div 512)) ! (o' mod 512 + q)" by (simp only: byte_at_def)
  moreover have "map (byte_at i v) [o'..<o' + c] ! q = byte_at i v (o' + q)" using qc(1) by simp
  moreover have "take c (drop (o' mod 512) (v (block_no i v (o' div 512)))) ! q = v (block_no i v (o' div 512)) ! (o' mod 512 + q)"
    using qc assms(4) by simp
  ultimately show "take c (drop (o' mod 512) (v (block_no i v (o' div 512)))) ! q = map (byte_at i v) [o'..<o' + c] ! q"
    by (simp only:)
qed (use assms in auto)

subsection \<open>The relation between a file system and its sectors\<close>

definition data_rel :: "'d block_operations \<Rightarrow> nat \<Rightarrow> ('d \<Rightarrow> bool) \<Rightarrow> ('d \<Rightarrow> nat \<Rightarrow> sector) \<Rightarrow>
    (nat \<Rightarrow> sector) \<Rightarrow> inode \<Rightarrow> nat \<Rightarrow> 'd filesys \<Rightarrow> bool" where
  "data_rel os n ok view v i nb s \<longleftrightarrow> cache_rel os n ok view (\<lambda>_. 0) v (cache s) \<and> layout_ok n v i nb \<and>
     (\<forall>k < nb. meta i v k \<inter> cached (cells (cache s)) = {})"

definition only_cache :: "'d filesys \<Rightarrow> 'd filesys \<Rightarrow> bool" where
  "only_cache s s' \<longleftrightarrow> s' = s\<lparr>cache := cache s'\<rparr>"

lemma only_cacheI: "only_cache s (s\<lparr>cache := c\<rparr>)"
  by (simp add: only_cache_def)

lemma only_cache_refl [simp]: "only_cache s s"
  by (simp add: only_cache_def)

lemma only_cache_trans: "only_cache a b \<Longrightarrow> only_cache b c \<Longrightarrow> only_cache a c"
  by (cases a; cases b; cases c) (simp add: only_cache_def)

lemma only_cache_simps:
  "only_cache s s' \<Longrightarrow> inodes s' = inodes s" "only_cache s s' \<Longrightarrow> files s' = files s"
  "only_cache s s' \<Longrightarrow> free_map s' = free_map s" "only_cache s s' \<Longrightarrow> free_map_file s' = free_map_file s"
  "only_cache s s' \<Longrightarrow> open_inodes s' = open_inodes s"
  by (cases s; cases s'; simp add: only_cache_def)+

definition chunk :: "nat \<Rightarrow> nat \<Rightarrow> nat \<Rightarrow> nat" where
  "chunk sz len offset = min sz (min (len - offset) (BLOCK_SECTOR_SIZE - offset mod BLOCK_SECTOR_SIZE))"

lemma read_loop_unfold:
  "read_loop i len sz offset s =
     (if sz = 0 then Some (s, [])
      else do {
        (s, sec) \<leftarrow> byte_to_sector i len offset s;
        if chunk sz len offset = 0 then Some (s, [])
        else do {
          (c, bs) \<leftarrow> cache_read sec (offset mod BLOCK_SECTOR_SIZE) (chunk sz len offset) (cache s);
          (s, rest) \<leftarrow> read_loop i len (sz - chunk sz len offset) (offset + chunk sz len offset) (s\<lparr>cache := c\<rparr>);
          Some (s, bs @ rest) } })"
  unfolding read_loop.simps [of i len sz offset s] Let_def chunk_def by simp

lemma write_loop_unfold:
  "write_loop i buffer offset s =
     (if buffer = [] then Some (s, 0)
      else let c = chunk (length buffer) (ilength i) offset in do {
        (s, sec) \<leftarrow> byte_to_sector i (ilength i) offset s;
        if c = 0 then Some (s, 0)
        else do {
          d \<leftarrow> cache_write sec (offset mod BLOCK_SECTOR_SIZE) (take c buffer) (cache s);
          (s, m) \<leftarrow> write_loop i (drop c buffer) (offset + c) (s\<lparr>cache := d\<rparr>);
          Some (s, c + m) } })"
  unfolding write_loop.simps [of i buffer offset s] Let_def chunk_def inode_length_def by simp

lemma chunk_bounds:
  assumes "0 < sz" "offset < len"
  shows "0 < chunk sz len offset" "chunk sz len offset \<le> sz" "chunk sz len offset \<le> len - offset"
    "chunk sz len offset \<le> 512 - offset mod 512" "offset mod 512 + chunk sz len offset \<le> BLOCK_SECTOR_SIZE"
  using assms by (auto simp: chunk_def)

text \<open>An open inode whose file, of the length the inode says, is laid out properly.\<close>

definition file_ok :: "'d block_operations \<Rightarrow> nat \<Rightarrow> ('d \<Rightarrow> bool) \<Rightarrow> ('d \<Rightarrow> nat \<Rightarrow> sector) \<Rightarrow>
    nat \<Rightarrow> inode \<Rightarrow> (nat \<Rightarrow> sector) \<Rightarrow> 'd filesys \<Rightarrow> bool" where
  "file_ok os n ok view ip i v s \<longleftrightarrow> inodes s ip = Some i \<and> read_length i = ilength i \<and>
     data_rel os n ok view v i (bytes_to_sectors (ilength i)) s"

context block_driver
begin

lemma dev_read_ok:
  assumes r: "cache_rel os n ok view u v (cache s)" and sec: "sec < n" "sec \<notin> cached (cells (cache s))"
  obtains s' where "dev_read sec s = Some (s', v sec)" "only_cache s s'" "cells (cache s') = cells (cache s)"
    "cache_rel os n ok view u v (cache s')"
proof -
  have "\<not> modified (cells (cache s)) sec"
    using sec r by (auto simp: modified_def cached_def cache_rel_def cells_ok_def cell_ok_def)
  then have v: "view (aux (fs_device (cache s))) sec = v sec" using r sec(1) by (auto simp: cache_rel_def)
  obtain dev where d: "block_read (fs_device (cache s)) sec = Some (dev, v sec)" "block_ok os n ok dev"
      "\<forall>t < n. view (aux dev) t = view (aux (fs_device (cache s))) t"
    by (rule block_read_ok [of "fs_device (cache s)" sec]) (use r sec(1) v in \<open>auto simp: cache_rel_def\<close>)
  show thesis
    by (rule that [of "s\<lparr>cache := (cache s)\<lparr>fs_device := dev\<rparr>\<rparr>"])
      (use d r in \<open>auto simp: dev_read_def only_cache_def cache_rel_def\<close>)
qed

lemma byte_to_sector_ok:
  assumes r: "data_rel os n ok view v i nb s" and p: "p < len" "p div 512 < nb"
  obtains s' where "byte_to_sector i len p s = Some (s', block_no i v (p div 512))" "only_cache s s'"
    "cells (cache s') = cells (cache s)" "cache_rel os n ok view (\<lambda>_. 0) v (cache s')"
proof -
  define k where "k = p div 512"
  have c: "cache_rel os n ok view (\<lambda>_. 0) v (cache s)" and l: "length (ptrs i) = 21" "nb \<le> 17674"
    and m: "meta i v k \<subseteq> {..<n}" "meta i v k \<inter> cached (cells (cache s)) = {}"
    using r p(2) unfolding k_def [symmetric] by (auto simp: data_rel_def layout_ok_def inode_consts)
  have v: "length (decode_block (v t)) = 128" if "t < n" for t
    using c that by (intro length_decode_block) (auto simp: cache_rel_def)
  consider "k < 10" | "10 \<le> k" "k < 1290" | "1290 \<le> k" by linarith
  then show thesis
  proof cases
    case 1
    then show thesis using that [of s] p(1) l c unfolding k_def [symmetric] by (simp add: k_def [symmetric] byte_to_sector_def nth_opt_def block_no_def inode_consts)
  next
    case 2
    let ?a = "ptrs i ! (10 + (k - 10) div 128)"
    have a: "?a < n" "?a \<notin> cached (cells (cache s))" using m 2 by (auto simp: meta_def)
    obtain s' where s': "dev_read ?a s = Some (s', v ?a)" "only_cache s s'" "cells (cache s') = cells (cache s)"
        "cache_rel os n ok view (\<lambda>_. 0) v (cache s')" by (rule dev_read_ok [OF c a])
    have i: "(p - 5120) div 65536 = (k - 10) div 128" "(p - 5120) mod 65536 div 512 = (k - 10) mod 128"
      using sub_div [of p 10, folded k_def] div_div [of "p - 5120"] mod_div [of "p - 5120"] by simp_all
    have "(k - 10) div 128 < 10" using 2 by (simp add: div_less_iff_less_mult)
    then have "byte_to_sector i len p s = Some (s', block_no i v k)"
      using 2 p(1) l s'(1) i v [OF a(1)]
      by (simp add: k_def [symmetric] byte_to_sector_def nth_opt_def block_no_def inode_consts Let_def add.commute)
    then show thesis using that s' unfolding k_def by blast
  next
    case 3
    let ?a = "ptrs i ! 20" let ?b = "decode_block (v ?a) ! ((k - 1290) div 128)"
    have a: "?a < n" "?a \<notin> cached (cells (cache s))" and b: "?b < n" "?b \<notin> cached (cells (cache s))"
      using m 3 by (auto simp: meta_def)
    obtain s1 where s1: "dev_read ?a s = Some (s1, v ?a)" "only_cache s s1" "cells (cache s1) = cells (cache s)"
        "cache_rel os n ok view (\<lambda>_. 0) v (cache s1)" by (rule dev_read_ok [OF c a])
    obtain s' where s': "dev_read ?b s1 = Some (s', v ?b)" "only_cache s1 s'" "cells (cache s') = cells (cache s)"
        "cache_rel os n ok view (\<lambda>_. 0) v (cache s')"
      by (rule dev_read_ok [OF s1(4) b(1)]) (use b(2) s1(3) in auto)
    have i: "(p - 660480) div 65536 = (k - 1290) div 128" "(p - 660480) mod 65536 div 512 = (k - 1290) mod 128"
      using sub_div [of p 1290, folded k_def] div_div [of "p - 660480"] mod_div [of "p - 660480"] by simp_all
    have "(k - 1290) div 128 < 128" using 3 p(2) l(2) unfolding k_def [symmetric] by (simp add: div_less_iff_less_mult)
    have "byte_to_sector i len p s = Some (s', block_no i v k)"
      using 3 p(1) l(1) s1(1) s'(1) i v [OF a(1)] v [OF b(1)] \<open>(k - 1290) div 128 < 128\<close>
      by (simp add: k_def [symmetric] byte_to_sector_def nth_opt_def block_no_def inode_consts Let_def)
    then show thesis using that s' s1 only_cache_trans unfolding k_def by blast
  qed
qed

lemma read_loop_ok:
  "data_rel os n ok view v i nb s \<Longrightarrow> offset \<le> len \<Longrightarrow> bytes_to_sectors len \<le> nb \<Longrightarrow>
   \<exists>s'. read_loop i len sz offset s = Some (s', map (byte_at i v) [offset..<min (offset + sz) len]) \<and>
     data_rel os n ok view v i nb s' \<and> only_cache s s' \<and>
     cached (cells (cache s')) \<subseteq> cached (cells (cache s)) \<union> block_no i v ` {..<nb}"
proof (induction sz arbitrary: offset s rule: less_induct)
  case (less sz)
  note r = less.prems(1)
  show ?case
  proof (cases "sz = 0 \<or> offset = len")
    case True
    then show ?thesis using less.prems
      by (subst read_loop_unfold) (auto simp: byte_to_sector_def chunk_def)
  next
    case False
    let ?k = "offset div 512"
    let ?c = "chunk sz len offset"
    have o: "offset < len" using False less.prems(2) by simp
    have k: "?k < nb" using bytes_to_sectors_gt [OF o] less.prems(3) by simp
    have sz: "0 < sz" using False by simp
    note c = chunk_bounds [OF sz o]
    obtain s1 where s1: "byte_to_sector i len offset s = Some (s1, block_no i v ?k)" "only_cache s s1"
        "cells (cache s1) = cells (cache s)" "cache_rel os n ok view (\<lambda>_. 0) v (cache s1)"
      by (rule byte_to_sector_ok [OF r o k])
    have b: "block_no i v ?k < n" "\<forall>j < nb. block_no i v ?k \<notin> meta i v j"
      using r k by (auto simp: data_rel_def layout_ok_def)
    obtain c2 where c2: "cache_read (block_no i v ?k) (offset mod 512) ?c (cache s1) =
          Some (c2, take ?c (drop (offset mod 512) (v (block_no i v ?k))))" "cache_rel os n ok view (\<lambda>_. 0) v c2"
        "cached (cells c2) \<subseteq> insert (block_no i v ?k) (cached (cells (cache s1)))"
      using cache_read_ok [OF s1(4) b(1) c(5)] by blast
    have l: "length (v (block_no i v ?k)) = 512" using r b(1) by (auto simp: data_rel_def cache_rel_def)
    have bs: "take ?c (drop (offset mod 512) (v (block_no i v ?k))) = map (byte_at i v) [offset..<offset + ?c]"
      by (rule chunk_bytes [where v = v and i = i, OF o c(3,4) l])
    have r2: "data_rel os n ok view v i nb (s1\<lparr>cache := c2\<rparr>)"
      using r c2(2,3) b(2) s1(3) by (auto simp: data_rel_def)
    have "sz - ?c < sz" "offset + ?c \<le> len" using c o by auto
    then obtain s' where s': "read_loop i len (sz - ?c) (offset + ?c) (s1\<lparr>cache := c2\<rparr>) =
          Some (s', map (byte_at i v) [offset + ?c..<min (offset + ?c + (sz - ?c)) len])"
        "data_rel os n ok view v i nb s'" "only_cache (s1\<lparr>cache := c2\<rparr>) s'"
        "cached (cells (cache s')) \<subseteq> cached (cells (cache (s1\<lparr>cache := c2\<rparr>))) \<union> block_no i v ` {..<nb}"
      using less.IH [OF _ r2 _ less.prems(3), of "sz - ?c" "offset + ?c"] by blast
    have "read_loop i len sz offset s = Some (s', map (byte_at i v) [offset..<offset + ?c] @
        map (byte_at i v) [offset + ?c..<min (offset + ?c + (sz - ?c)) len])"
      using sz c(1) s1(1) c2(1) s'(1) bs by (subst read_loop_unfold) simp
    also have "map (byte_at i v) [offset..<offset + ?c] @ map (byte_at i v) [offset + ?c..<min (offset + ?c + (sz - ?c)) len] =
        map (byte_at i v) [offset..<min (offset + sz) len]"
    proof -
      have "offset + ?c + (sz - ?c) = offset + sz" "offset + ?c \<le> min (offset + sz) len" using c by auto
      then show ?thesis by (metis le_add1 map_append upt_add_eq_append le_Suc_ex)
    qed
    finally have "read_loop i len sz offset s = Some (s', map (byte_at i v) [offset..<min (offset + sz) len])" .
    moreover have "cached (cells (cache s')) \<subseteq> cached (cells (cache s)) \<union> block_no i v ` {..<nb}"
      using s'(4) c2(3) s1(3) k by auto
    ultimately show ?thesis using s'(2) only_cache_trans [OF only_cache_trans [OF s1(2) only_cacheI] s'(3)] by blast
  qed
qed

lemma write_chunk:
  assumes r: "data_rel os n ok view v i nb s" and o: "offset < len" and nb: "bytes_to_sectors len \<le> nb"
    and bs: "bs \<noteq> []" "offset mod 512 + length bs \<le> 512" "length bs \<le> len - offset"
  obtains s1 c2 w where "byte_to_sector i len offset s = Some (s1, block_no i v (offset div 512))" "only_cache s s1"
    "cache_write (block_no i v (offset div 512)) (offset mod 512) bs (cache s1) = Some c2"
    "data_rel os n ok view w i nb (s1\<lparr>cache := c2\<rparr>)"
    "\<forall>p < nb * 512. byte_at i w p = (if offset \<le> p \<and> p < offset + length bs then bs ! (p - offset) else byte_at i v p)"
    "\<forall>t. (\<forall>k < nb. t \<noteq> block_no i v k) \<longrightarrow> w t = v t" "\<forall>k < nb. block_no i w k = block_no i v k \<and> meta i w k = meta i v k"
    "cached (cells c2) \<subseteq> cached (cells (cache s)) \<union> block_no i v ` {..<nb}"
proof -
  let ?k = "offset div 512" let ?b = "block_no i v ?k"
  have k: "?k < nb" using bytes_to_sectors_gt [OF o] nb by simp
  have L: "layout_ok n v i nb" using r by (simp add: data_rel_def)
  have b: "?b < n" "\<forall>j < nb. ?b \<notin> meta i v j" using L k by (auto simp: layout_ok_def)
  obtain s1 where s1: "byte_to_sector i len offset s = Some (s1, ?b)" "only_cache s s1"
      "cells (cache s1) = cells (cache s)" "cache_rel os n ok view (\<lambda>_. 0) v (cache s1)"
    by (rule byte_to_sector_ok [OF r o k])
  have l: "length (v ?b) = 512" using r b(1) by (auto simp: data_rel_def cache_rel_def)
  define w where "w = v(?b := write_bytes (offset mod 512) bs (v ?b))"
  obtain c2 where c2: "cache_write ?b (offset mod 512) bs (cache s1) = Some c2" "cache_rel os n ok view (\<lambda>_. 0) w c2"
      "cached (cells c2) \<subseteq> insert ?b (cached (cells (cache s1)))"
    using cache_write_ok [OF s1(4) b(1), of "offset mod 512" bs] bs(2) unfolding w_def by auto
  have wb: "block_no i w j = block_no i v j \<and> meta i w j = meta i v j" if "j < nb" for j
    using b(2) that by (intro block_no_cong) (auto simp: w_def)
  then have Lw: "layout_ok n w i nb" using L unfolding layout_ok_def inj_on_def by auto
  have byte: "byte_at i w p = (if offset \<le> p \<and> p < offset + length bs then bs ! (p - offset) else byte_at i v p)"
    if p: "p < nb * 512" for p
  proof (cases "p div 512 = ?k")
    case True
    have pm: "p = 512 * ?k + p mod 512" "offset = 512 * ?k + offset mod 512" using True by (metis mult_div_mod_eq)+
    have "byte_at i w p = write_bytes (offset mod 512) bs (v ?b) ! (p mod 512)"
      using wb [OF k] True by (simp add: byte_at_def w_def)
    also have "\<dots> = (if offset mod 512 \<le> p mod 512 \<and> p mod 512 < offset mod 512 + length bs
        then bs ! (p mod 512 - offset mod 512) else v ?b ! (p mod 512))"
      using bs(2) l by (intro nth_write_bytes) auto
    also have "(offset mod 512 \<le> p mod 512 \<and> p mod 512 < offset mod 512 + length bs) = (offset \<le> p \<and> p < offset + length bs)"
      using pm by linarith
    also have "p mod 512 - offset mod 512 = p - offset" using pm by linarith
    finally show ?thesis using True by (simp add: byte_at_def)
  next
    case False
    have pk: "p div 512 < nb" using p by (simp add: div_less_iff_less_mult)
    then have "block_no i v (p div 512) \<noteq> ?b" using L False k by (auto simp: layout_ok_def inj_on_def)
    then have "byte_at i w p = byte_at i v p" using wb [OF pk] by (simp add: byte_at_def w_def)
    moreover have "\<not> (offset \<le> p \<and> p < offset + length bs)"
    proof
      assume a: "offset \<le> p \<and> p < offset + length bs"
      have "512 * ?k \<le> p" using a by (metis le_trans times_div_less_eq_dividend)
      moreover have "p < 512 * ?k + 512" using a bs(2) mult_div_mod_eq [of 512 offset] by linarith
      ultimately have "p div 512 = ?k" by (intro div_nat_eqI) auto
      then show False using False by simp
    qed
    ultimately show ?thesis by (simp only: if_False)
  qed
  show thesis
  proof (rule that [OF s1(1,2) c2(1)])
    show "data_rel os n ok view w i nb (s1\<lparr>cache := c2\<rparr>)"
    proof -
      have "meta i w j \<inter> cached (cells c2) = {}" if j: "j < nb" for j
      proof -
        have "meta i v j \<inter> cached (cells (cache s)) = {}" using r j by (simp add: data_rel_def)
        then show ?thesis using wb [OF j] b(2) j c2(3) s1(3) by auto
      qed
      then show ?thesis using c2(2) Lw by (simp add: data_rel_def)
    qed
    show "\<forall>p < nb * 512. byte_at i w p = (if offset \<le> p \<and> p < offset + length bs then bs ! (p - offset) else byte_at i v p)"
      using byte by blast
    show "\<forall>t. (\<forall>k < nb. t \<noteq> block_no i v k) \<longrightarrow> w t = v t" using k by (auto simp: w_def)
    show "\<forall>k < nb. block_no i w k = block_no i v k \<and> meta i w k = meta i v k" using wb by blast
    show "cached (cells c2) \<subseteq> cached (cells (cache s)) \<union> block_no i v ` {..<nb}" using c2(3) s1(3) k by auto
  qed
qed

lemma write_loop_ok:
  "data_rel os n ok view v i nb s \<Longrightarrow> offset + length bs \<le> ilength i \<Longrightarrow> bytes_to_sectors (ilength i) \<le> nb \<Longrightarrow>
   \<exists>s' w. write_loop i bs offset s = Some (s', length bs) \<and> data_rel os n ok view w i nb s' \<and> only_cache s s' \<and>
     (\<forall>p < nb * 512. byte_at i w p = (if offset \<le> p \<and> p < offset + length bs then bs ! (p - offset) else byte_at i v p)) \<and>
     (\<forall>t. (\<forall>k < nb. t \<noteq> block_no i v k) \<longrightarrow> w t = v t) \<and>
     (\<forall>k < nb. block_no i w k = block_no i v k \<and> meta i w k = meta i v k) \<and>
     cached (cells (cache s')) \<subseteq> cached (cells (cache s)) \<union> block_no i v ` {..<nb}"
proof (induction "length bs" arbitrary: bs offset s v rule: less_induct)
  case less
  note r = less.prems(1)
  show ?case
  proof (cases "bs = []")
    case True
    then show ?thesis using r by (subst write_loop_unfold) auto
  next
    case False
    let ?len = "ilength i" let ?c = "chunk (length bs) ?len offset" let ?k = "offset div 512"
    have o: "offset < ?len" "0 < length bs" using False less.prems(2) by (cases bs; simp)+
    note c = chunk_bounds [OF o(2,1)]
    have tk: "length (take ?c bs) = ?c" "take ?c bs \<noteq> []" using c(1,2) False by auto
    obtain s1 c2 w where st: "byte_to_sector i ?len offset s = Some (s1, block_no i v ?k)" "only_cache s s1"
        "cache_write (block_no i v ?k) (offset mod 512) (take ?c bs) (cache s1) = Some c2"
        "data_rel os n ok view w i nb (s1\<lparr>cache := c2\<rparr>)"
        "\<forall>p < nb * 512. byte_at i w p = (if offset \<le> p \<and> p < offset + length (take ?c bs) then take ?c bs ! (p - offset) else byte_at i v p)"
        "\<forall>t. (\<forall>k < nb. t \<noteq> block_no i v k) \<longrightarrow> w t = v t" "\<forall>k < nb. block_no i w k = block_no i v k \<and> meta i w k = meta i v k"
        "cached (cells c2) \<subseteq> cached (cells (cache s)) \<union> block_no i v ` {..<nb}"
      by (rule write_chunk [OF r o(1) less.prems(3) tk(2)]) (use c tk in auto)
    have sm: "length (drop ?c bs) < length bs" "offset + ?c + length (drop ?c bs) \<le> ?len" using c(1,2) less.prems(2) by auto
    obtain s' x where rec: "write_loop i (drop ?c bs) (offset + ?c) (s1\<lparr>cache := c2\<rparr>) = Some (s', length (drop ?c bs))"
        "data_rel os n ok view x i nb s'" "only_cache (s1\<lparr>cache := c2\<rparr>) s'"
        "\<forall>p < nb * 512. byte_at i x p = (if offset + ?c \<le> p \<and> p < offset + ?c + length (drop ?c bs)
            then drop ?c bs ! (p - (offset + ?c)) else byte_at i w p)"
        "\<forall>t. (\<forall>k < nb. t \<noteq> block_no i w k) \<longrightarrow> x t = w t" "\<forall>k < nb. block_no i x k = block_no i w k \<and> meta i x k = meta i w k"
        "cached (cells (cache s')) \<subseteq> cached (cells c2) \<union> block_no i w ` {..<nb}"
      using less.hyps [OF sm(1) st(4) sm(2) less.prems(3)] by auto
    have "write_loop i bs offset s = Some (s', ?c + length (drop ?c bs))"
      using False c(1) st(1,3) rec(1) by (subst write_loop_unfold) (simp add: Let_def)
    moreover have "?c + length (drop ?c bs) = length bs" using c(2) by simp
    moreover have "byte_at i x p = (if offset \<le> p \<and> p < offset + length bs then bs ! (p - offset) else byte_at i v p)"
      if "p < nb * 512" for p
      using rec(4) [rule_format, OF that] st(5) [rule_format, OF that] c(2) by auto
    moreover have "only_cache s s'" using only_cache_trans [OF only_cache_trans [OF st(2) only_cacheI] rec(3)] .
    moreover have "cached (cells (cache s')) \<subseteq> cached (cells (cache s)) \<union> block_no i v ` {..<nb}"
      using rec(7) st(7,8) by (auto simp: image_def)
    ultimately show ?thesis using rec(2,5,6) st(6,7) by (intro exI [of _ s'] exI [of _ x]) auto
  qed
qed

lemma inode_read_at_cached:
  assumes "file_ok os n ok view ip i v s"
  shows "\<exists>s'. inode_read_at ip sz offset s = Some (s', take sz (drop offset (file_bytes i v (ilength i)))) \<and>
    file_ok os n ok view ip i v s' \<and> only_cache s s' \<and>
    cached (cells (cache s')) \<subseteq> cached (cells (cache s)) \<union> block_no i v ` {..<bytes_to_sectors (ilength i)}"
proof (cases "offset \<ge> ilength i")
  case True
  then show ?thesis using assms by (auto simp: inode_read_at_def file_ok_def)
next
  case False
  have "take sz (drop offset (file_bytes i v (ilength i))) = map (byte_at i v) [offset..<min (offset + sz) (ilength i)]"
    by (simp add: file_bytes_def drop_map take_map min_def)
  moreover obtain s' where "read_loop i (ilength i) sz offset s = Some (s', map (byte_at i v) [offset..<min (offset + sz) (ilength i)])"
      "data_rel os n ok view v i (bytes_to_sectors (ilength i)) s'" "only_cache s s'"
      "cached (cells (cache s')) \<subseteq> cached (cells (cache s)) \<union> block_no i v ` {..<bytes_to_sectors (ilength i)}"
    using read_loop_ok [of v i _ s offset "ilength i" sz] assms False by (auto simp: file_ok_def)
  ultimately show ?thesis using assms False by (auto simp: inode_read_at_def file_ok_def only_cache_simps)
qed

lemma inode_read_at_ok:
  assumes "file_ok os n ok view ip i v s"
  shows "\<exists>s'. inode_read_at ip sz offset s = Some (s', take sz (drop offset (file_bytes i v (ilength i)))) \<and> file_ok os n ok view ip i v s'"
  using inode_read_at_cached [OF assms] by blast

lemma write_at_by_ok:
  assumes f: "file_ok os n ok view ip i v s" and d: "deny_write_cnt i = 0" and l: "offset + length bs \<le> ilength i"
  shows "\<exists>s' w. write_at_by grow ip bs offset s = Some (s', length bs) \<and> file_ok os n ok view ip i w s' \<and>
    file_bytes i w (ilength i) = write_bytes offset bs (file_bytes i v (ilength i)) \<and>
    (\<forall>t. (\<forall>k < bytes_to_sectors (ilength i). t \<noteq> block_no i v k) \<longrightarrow> w t = v t) \<and>
    (\<forall>k < bytes_to_sectors (ilength i). block_no i w k = block_no i v k \<and> meta i w k = meta i v k) \<and> only_cache s s' \<and>
    cached (cells (cache s')) \<subseteq> cached (cells (cache s)) \<union> block_no i v ` {..<bytes_to_sectors (ilength i)}"
proof -
  let ?nb = "bytes_to_sectors (ilength i)"
  have r: "data_rel os n ok view v i ?nb s" using f by (simp add: file_ok_def)
  obtain s' w where w: "write_loop i bs offset s = Some (s', length bs)" "data_rel os n ok view w i ?nb s'" "only_cache s s'"
      "\<forall>p < ?nb * 512. byte_at i w p = (if offset \<le> p \<and> p < offset + length bs then bs ! (p - offset) else byte_at i v p)"
      "\<forall>t. (\<forall>k < ?nb. t \<noteq> block_no i v k) \<longrightarrow> w t = v t" "\<forall>k < ?nb. block_no i w k = block_no i v k \<and> meta i w k = meta i v k"
      "cached (cells (cache s')) \<subseteq> cached (cells (cache s)) \<union> block_no i v ` {..<?nb}"
    using write_loop_ok [OF r l order_refl] by blast
  have i: "i\<lparr>read_length := ilength i\<rparr> = i" using f by (cases i) (simp add: file_ok_def)
  have fits: "ilength i \<le> ?nb * 512" using DIV_ROUND_UP_ge [of 512 "ilength i"] by (simp add: bytes_to_sectors_def)
  have "file_bytes i w (ilength i) = write_bytes offset bs (file_bytes i v (ilength i))"
  proof (rule nth_equalityI)
    fix p assume "p < length (file_bytes i w (ilength i))"
    then have p: "p < ilength i" by simp
    then have "byte_at i w p = (if offset \<le> p \<and> p < offset + length bs then bs ! (p - offset) else byte_at i v p)"
      using w(4) fits by (meson less_le_trans)
    then show "file_bytes i w (ilength i) ! p = write_bytes offset bs (file_bytes i v (ilength i)) ! p"
      using p l by (simp add: nth_write_bytes) (simp add: file_bytes_def)
  qed (use l in \<open>simp add: length_write_bytes\<close>)
  moreover have "write_at_by grow ip bs offset s = Some (set_inode ip (i\<lparr>read_length := ilength i\<rparr>) s', length bs)"
    using f d l w(1) by (simp add: write_at_by_def file_ok_def inode_length_def)
  moreover have "set_inode ip i s' = s'"
    using f only_cache_simps(1) [OF w(3)] by (cases s') (simp add: set_inode_def file_ok_def fun_upd_idem)
  moreover have "file_ok os n ok view ip i w s'" using f w(2) only_cache_simps(1) [OF w(3)] by (simp add: file_ok_def)
  ultimately show ?thesis unfolding i using w(3,5,6,7) by auto
qed

end

text \<open>
  A small file system for concrete runs: a memory disk of eight sectors, the free map \<open>w\<close>, whose
  file has the inode at 256 and sector 2, and an open file of 600 bytes, in sectors 4 and 5, at 768.
\<close>

definition sample_inode :: "nat \<Rightarrow> nat \<Rightarrow> nat list \<Rightarrow> inode" where
  "sample_inode sec len ps = empty_inode\<lparr>inumber := sec, open_cnt := 1, ilength := len, read_length := len,
     direct_blk_idx := length ps, ptrs := ps @ replicate (21 - length ps) 0\<rparr>"

definition sample_disk :: "u32 \<Rightarrow> nat \<Rightarrow> sector" where
  "sample_disk w t = (if t = 2 then le_bytes w @ replicate 508 0 else if t = 4 then replicate 512 1 else replicate 512 0)"

definition sample_fs :: "u32 \<Rightarrow> (nat \<Rightarrow> sector) filesys" where
  "sample_fs w = \<lparr>cache = cache_init (sample_cache\<lparr>fs_device := (fs_device sample_cache)\<lparr>blk_size := 8, aux := sample_disk w\<rparr>\<rparr>),
     free_map = \<lparr>bit_cnt = 8, bits = [w]\<rparr>, free_map_file = 512,
     inodes = [256 \<mapsto> sample_inode 0 4 [2], 768 \<mapsto> sample_inode 3 600 [4, 5]], open_inodes = [768, 256],
     files = [512 \<mapsto> \<lparr>file_inode = 256, pos = 0, deny_write = False\<rparr>]\<rparr>"

lemma length_sample_disk: "length (sample_disk w t) = 512"
  by (simp add: sample_disk_def)

lemma sample_block_ok: "block_ok ram_disk 8 (ram_disk_ok 8) (fs_device (cache (sample_fs w)))"
  by (simp add: sample_fs_def sample_cache_def cache_init_def block_ok_def ram_disk_ok_def length_sample_disk)

lemma sample_cached: "cached (cells (cache (sample_fs w))) = {}"
  by (auto simp: cached_def sample_fs_def sample_cache_def cache_init_def)

lemma sample_cache_rel: "cache_rel ram_disk 8 (ram_disk_ok 8) (\<lambda>d. d) (\<lambda>_. 0) (sample_disk w) (cache (sample_fs w))"
proof -
  have "cache_rel ram_disk 8 (ram_disk_ok 8) (\<lambda>d. d) (\<lambda>_. 0) (aux (fs_device (cache (sample_fs w)))) (cache (sample_fs w))"
    using ram.cache_init_ok [of 8 "sample_cache\<lparr>fs_device := (fs_device sample_cache)\<lparr>blk_size := 8, aux := sample_disk w\<rparr>\<rparr>"]
    by (simp add: sample_fs_def sample_cache_def block_ok_def ram_disk_ok_def length_sample_disk CACHE_SIZE_def cache_init_def)
  then show ?thesis by (simp add: sample_fs_def sample_cache_def cache_init_def)
qed

lemma sample_block_no: "k < length ps \<Longrightarrow> length ps < 10 \<Longrightarrow>
    block_no (sample_inode sec len ps) v k = ps ! k \<and> meta (sample_inode sec len ps) v k = {}"
  by (simp add: block_no_def meta_def sample_inode_def nth_append)

lemma sample_file_ok:
  assumes "bytes_to_sectors len = length ps" "length ps < 10" "distinct ps" "set ps \<subseteq> {..<8}"
    "inodes (sample_fs w) ip = Some (sample_inode sec len ps)"
  shows "file_ok ram_disk 8 (ram_disk_ok 8) (\<lambda>d. d) ip (sample_inode sec len ps) (sample_disk w) (sample_fs w)"
proof -
  have "ps ! k < 8" if "k < length ps" for k using assms(4) nth_mem [OF that] by auto
  then have "layout_ok 8 (sample_disk w) (sample_inode sec len ps) (length ps)"
    using assms(2,3) sample_block_no [of _ ps sec len]
    by (simp add: layout_ok_def inj_on_def nth_eq_iff_index_eq inode_consts) (simp add: sample_inode_def)
  then show ?thesis
    using assms(1,2,5) sample_block_no [of _ ps sec len] sample_cache_rel
    by (simp add: file_ok_def data_rel_def) (simp add: sample_inode_def)
qed

lemma sample_data_ok:
  "file_ok ram_disk 8 (ram_disk_ok 8) (\<lambda>d. d) 768 (sample_inode 3 600 [4, 5]) (sample_disk w) (sample_fs w)"
  by (rule sample_file_ok) (auto simp: bytes_to_sectors_def DIV_ROUND_UP_def sample_fs_def)

lemma sample_map_file_ok:
  "file_ok ram_disk 8 (ram_disk_ok 8) (\<lambda>d. d) 256 (sample_inode 0 4 [2]) (sample_disk w) (sample_fs w)"
  by (rule sample_file_ok) (auto simp: bytes_to_sectors_def DIV_ROUND_UP_def sample_fs_def)

text \<open>
  C6: reading a file whose blocks are laid out properly, at any offset and across the boundaries of
  direct, indirect and doubly indirect blocks, gives the bytes of the file there, up to its end;
  writing within its length stores the bytes written, returns their number and changes no other
  byte of the file and no sector that is not one of its blocks. A further read sees what was written.
\<close>

theorem inode_read_write_refines:
  assumes drv: "block_driver os n ok view" and f: "file_ok os n ok view ip i v s"
    and "deny_write_cnt i = 0" and "offset + length bs \<le> ilength i"
  shows "\<exists>s0 s1 s2 w. inode_read_at ip sz q s = Some (s0, take sz (drop q (file_bytes i v (ilength i)))) \<and>
    inode_write_at junk ip bs offset s0 = Some (s1, length bs) \<and>
    inode_read_at ip sz q s1 = Some (s2, take sz (drop q (write_bytes offset bs (file_bytes i v (ilength i))))) \<and>
    file_ok os n ok view ip i w s2 \<and>
    (\<forall>t. (\<forall>k < bytes_to_sectors (ilength i). t \<noteq> block_no i v k) \<longrightarrow> w t = v t)"
proof -
  obtain s0 where s0: "inode_read_at ip sz q s = Some (s0, take sz (drop q (file_bytes i v (ilength i))))"
      "file_ok os n ok view ip i v s0"
    using block_driver.inode_read_at_ok [OF drv f] by blast
  obtain s1 w where s1: "inode_write_at junk ip bs offset s0 = Some (s1, length bs)" "file_ok os n ok view ip i w s1"
      "file_bytes i w (ilength i) = write_bytes offset bs (file_bytes i v (ilength i))"
      "\<forall>t. (\<forall>k < bytes_to_sectors (ilength i). t \<noteq> block_no i v k) \<longrightarrow> w t = v t"
    using block_driver.write_at_by_ok [OF drv s0(2) assms(3,4)] unfolding inode_write_at_def by blast
  show ?thesis using s0(1) s1 block_driver.inode_read_at_ok [OF drv s1(2)] by force
qed

theorem inode_read_write_refines_witness:
  "\<exists>s0 s1 s2. inode_read_at 768 2 511 (sample_fs 0x3f) = Some (s0, [1, 0]) \<and>
    inode_write_at (replicate 128 0) 768 [7, 8] 512 s0 = Some (s1, 2) \<and> inode_read_at 768 2 511 s1 = Some (s2, [1, 7])"
proof -
  let ?d = "file_bytes (sample_inode 3 600 [4, 5]) (sample_disk 0x3f) 600"
  have d: "?d ! 511 = 1" "?d ! 512 = 0"
    by (simp_all add: file_bytes_def byte_at_def sample_block_no) (simp_all add: sample_disk_def)
  have t: "take 2 (drop 511 xs) = [xs ! 511, xs ! 512]" if "length xs = 600" for xs :: "u8 list"
    using that by (simp add: numeral_2_eq_2 take_Suc_conv_app_nth)
  have "deny_write_cnt (sample_inode 3 600 [4, 5]) = 0" "ilength (sample_inode 3 600 [4, 5]) = 600"
    by (simp_all add: sample_inode_def empty_inode_def)
  note c = this
  have w: "take 2 (drop 511 (write_bytes 512 [7, 8] ?d)) = [1, 7]"
    using t [of "write_bytes 512 [7, 8] ?d"] d by (simp add: nth_write_bytes ram.length_write_bytes)
  have r: "take 2 (drop 511 ?d) = [1, 0]" using t [of ?d] d by simp
  show ?thesis
    using inode_read_write_refines [OF ram.block_driver_axioms sample_data_ok c(1), of 512 "[7, 8]" 2 511 "0x3f" "replicate 128 0"]
    unfolding c(2) w r by auto
qed

end
