(* ===== verification/Inode_Growth.thy ===== *)
theory Inode_Growth
  imports Inode_Data
begin

section \<open>Growing files\<close>

text \<open>
  What \<^verbatim>\<open>inode_grow\<close> does to the free map, the inode and the device: the sectors that a new file
  gets, the failures of the allocation that it ignores, and the doubly indirect blocks it loses.
\<close>

lemma length_encode_block [simp]: "length (encode_block ns) = 4 * length ns"
  by (induction ns) (simp_all add: encode_block_def)

lemma length_encode_inode: "length (d_ptrs d) = INODE_BLOCK_PTRS \<Longrightarrow> length (encode_inode d) = BLOCK_SECTOR_SIZE"
  by (simp add: encode_inode_def INODE_BLOCK_PTRS_def)

lemma length_zeros [simp]: "length zeros = 512"
  by (simp add: zeros_def)

lemma bytes_to_sectors_le: "bytes_to_sectors len \<le> k \<longleftrightarrow> len \<le> k * 512"
  by (simp add: bytes_to_sectors_def DIV_ROUND_UP_le_iff)

lemma bytes_to_sectors_ge: "len \<le> bytes_to_sectors len * 512"
  using bytes_to_sectors_le [of len "bytes_to_sectors len"] by simp

lemma bytes_to_sectors_0: "bytes_to_sectors 0 = 0"
  by (simp add: bytes_to_sectors_def DIV_ROUND_UP_def)

lemma bytes_to_sectors_pos: "0 < len \<Longrightarrow> 0 < bytes_to_sectors len"
  using bytes_to_sectors_le [of len 0] by (auto intro: gr0I)

subsection \<open>A full disk\<close>

definition disk_full :: "bitmap \<Rightarrow> bool" where
  "disk_full b \<longleftrightarrow> wf_bitmap b \<and> (\<forall>j < bit_cnt b. bits_of b ! j)"

lemma free_map_allocate_full:
  assumes "disk_full (free_map s)"
  shows "free_map_allocate 1 old s = Some (s, old, False)"
proof -
  have "\<not> free_run (free_map s) i 1 False" for i
    using assms by (auto simp: disk_full_def free_run_def simp del: nth_bits_of)
  then have "bitmap_scan_and_flip (free_map s) 0 1 False = Some (free_map s, BITMAP_ERROR)"
    using bitmap_scan_and_flip_ok [of "free_map s" 0 1 False] assms by (metis le0 disk_full_def)
  then show ?thesis by (simp add: free_map_allocate_def)
qed

context block_driver
begin

lemma dev_write_ok:
  assumes "block_ok os n ok (fs_device (cache s))" "sec < n" "length x = BLOCK_SECTOR_SIZE"
  obtains s' where "dev_write sec x s = Some s'" "only_cache s s'" "cells (cache s') = cells (cache s)"
    "clock_idx (cache s') = clock_idx (cache s)" "block_ok os n ok (fs_device (cache s'))"
    "\<forall>t < n. view (aux (fs_device (cache s'))) t = (if t = sec then x else view (aux (fs_device (cache s))) t)"
proof -
  obtain dev where d: "block_write (fs_device (cache s)) sec x = Some dev" "block_ok os n ok dev"
      "\<forall>t < n. view (aux dev) t = (if t = sec then x else view (aux (fs_device (cache s))) t)"
    by (rule block_write_ok [OF assms])
  show thesis
    by (rule that [of "s\<lparr>cache := (cache s)\<lparr>fs_device := dev\<rparr>\<rparr>"]) (use d in \<open>auto simp: dev_write_def only_cache_def\<close>)
qed

lemma map_alloc_full:
  "disk_full (free_map s) \<Longrightarrow> block_ok os n ok (fs_device (cache s)) \<Longrightarrow> 0 < n \<Longrightarrow> ptrs i = replicate INODE_BLOCK_PTRS 0 \<Longrightarrow>
   direct_blk_idx i + k \<le> INDIRECT_INDEX \<Longrightarrow> 0 < k \<Longrightarrow>
   \<exists>s' i'. map_alloc i k s = Some (s', i', 0) \<and> block_ok os n ok (fs_device (cache s')) \<and>
     view (aux (fs_device (cache s'))) 0 = zeros \<and> ptrs i' = replicate INODE_BLOCK_PTRS 0"
proof (induction k arbitrary: i s)
  case (Suc k)
  let ?d = "direct_blk_idx i" let ?i = "(set_ptr ?d 0 i)\<lparr>direct_blk_idx := ?d + 1\<rparr>"
  have d: "?d < INDIRECT_INDEX" "nth_opt (ptrs i) ?d = Some 0"
    using Suc.prems(4,5) by (auto simp: nth_opt_def inode_consts)
  obtain s1 where s1: "dev_write 0 zeros s = Some s1" "only_cache s s1" "block_ok os n ok (fs_device (cache s1))"
      "\<forall>t < n. view (aux (fs_device (cache s1))) t = (if t = 0 then zeros else view (aux (fs_device (cache s))) t)"
    by (rule dev_write_ok [of s 0 zeros]) (use Suc.prems in auto)
  have i: "ptrs ?i = replicate INODE_BLOCK_PTRS 0" "direct_blk_idx ?i = ?d + 1"
    using Suc.prems(4) by (simp_all add: set_ptr_def list_update_same_conv list_update_beyond) (metis length_replicate list_update_beyond list_update_id nth_replicate not_less)
  show ?case
  proof (cases "k = 0")
    case True
    have "map_alloc i (Suc k) s = Some (s1, ?i, 0)"
      using d s1(1) free_map_allocate_full [OF Suc.prems(1), of 0] True
      by (subst map_alloc.simps) (simp add: size_dec_def)
    then show ?thesis using s1(3,4) i Suc.prems(3) by auto
  next
    case False
    have "map_alloc i (Suc k) s = map_alloc ?i k s1"
      using d s1(1) free_map_allocate_full [OF Suc.prems(1), of 0] False
      by (subst map_alloc.simps) (simp add: size_dec_def)
    then show ?thesis
      using Suc.IH [of s1 ?i] s1(2,3) Suc.prems i False by (simp add: only_cache_simps)
  qed
qed simp

end

text \<open>
  C32: on a full disk \<^verbatim>\<open>inode_create\<close> for a file of up to ten sectors reports success, and the failed
  allocations, whose result \<^verbatim>\<open>map_alloc\<close> ignores, leave the pointers 0, so that zeros are written over
  sector 0, which holds the inode of the free map.
\<close>

theorem inode_create_full_disk:
  assumes drv: "block_driver os n ok view" and b: "block_ok os n ok (fs_device (cache s))" and full: "disk_full (free_map s)"
    and sec: "sec < n" "sec \<noteq> FREE_MAP_SECTOR" and len: "0 < len" "len \<le> 5120"
  shows "\<exists>s'. inode_create junk True sec len dir s = Some (s', True) \<and>
    view (aux (fs_device (cache s'))) FREE_MAP_SECTOR = zeros"
proof -
  have k: "0 < bytes_to_sectors len" "bytes_to_sectors len \<le> INDIRECT_INDEX"
    using len bytes_to_sectors_pos bytes_to_sectors_le by (auto simp: inode_consts)
  obtain s1 i where s1: "map_alloc empty_inode (bytes_to_sectors len) s = Some (s1, i, 0)" "block_ok os n ok (fs_device (cache s1))"
      "view (aux (fs_device (cache s1))) 0 = zeros" "ptrs i = replicate INODE_BLOCK_PTRS 0"
    using block_driver.map_alloc_full [OF drv full b, of empty_inode "bytes_to_sectors len"] k sec
    by (auto simp: empty_inode_def)
  have g: "inode_grow junk empty_inode len s = Some (s1, i, len)"
    using s1(1) k by (simp add: inode_grow_def bytes_to_sectors_0 empty_inode_def)
  define d where "d = \<lparr>d_length = len, d_magic = INODE_MAGIC, d_direct_blk_idx = direct_blk_idx i,
    d_indirect_blk_idx = indirect_blk_idx i, d_double_indirect_blk_idx = double_indirect_blk_idx i,
    d_is_dir = dir, d_parent = ROOT_DIR_SECTOR, d_ptrs = ptrs i\<rparr>"
  obtain s' where s': "dev_write sec (encode_inode d) s1 = Some s'"
      "\<forall>t < n. view (aux (fs_device (cache s'))) t = (if t = sec then encode_inode d else view (aux (fs_device (cache s1))) t)"
    by (rule block_driver.dev_write_ok [OF drv s1(2) sec(1), of "encode_inode d"])
      (use s1(4) in \<open>simp_all add: length_encode_inode d_def del: BLOCK_SECTOR_SIZE_def\<close>)
  have "inode_create junk True sec len dir s = Some (s', True)"
    using g s'(1) by (simp add: inode_create_def inode_allocate_def d_def)
  moreover have "view (aux (fs_device (cache s'))) FREE_MAP_SECTOR = zeros"
    using s'(2) s1(3) sec by (auto simp: FREE_MAP_SECTOR_def)
  ultimately show ?thesis by blast
qed

lemma sample_wf: "wf_bitmap \<lparr>bit_cnt = 8, bits = [w]\<rparr>"
  by (simp add: wf_bitmap_def elem_cnt_def size_add_def ELEM_BITS_def)

lemma sample_bits:
  "bits_of \<lparr>bit_cnt = 8, bits = [0xff]\<rparr> = replicate 8 True"
  "bits_of \<lparr>bit_cnt = 8, bits = [0x3f]\<rparr> = replicate 6 True @ replicate 2 False"
  by code_simp+

lemma sample_full: "disk_full (free_map (sample_fs 0xff))"
  by (simp add: disk_full_def sample_fs_def sample_wf sample_bits del: nth_bits_of)

theorem inode_create_full_disk_witness:
  "\<exists>s'. inode_create (replicate 128 0) True 6 1000 False (sample_fs 0xff) = Some (s', True) \<and>
    aux (fs_device (cache s')) FREE_MAP_SECTOR = zeros"
  using inode_create_full_disk [OF ram.block_driver_axioms sample_block_ok sample_full, of 6 1000 "replicate 128 0" False]
  by (simp add: FREE_MAP_SECTOR_def)

subsection \<open>Allocation with the free map on disk\<close>

definition bitmap_bytes :: "bitmap \<Rightarrow> u8 list" where
  "bitmap_bytes b = take (byte_cnt (bit_cnt b)) (concat (map le_bytes (bits b)))"

text \<open>The inode \<open>i0\<close> at \<open>ip0\<close> is that of the free map's file; all its sectors are in use.\<close>

definition used :: "bitmap \<Rightarrow> nat set" where
  "used b = {t. t < bit_cnt b \<and> bit_at b t}"

definition map_file_ok :: "'d block_operations \<Rightarrow> nat \<Rightarrow> ('d \<Rightarrow> bool) \<Rightarrow> ('d \<Rightarrow> nat \<Rightarrow> sector) \<Rightarrow>
    nat \<Rightarrow> inode \<Rightarrow> (nat \<Rightarrow> sector) \<Rightarrow> 'd filesys \<Rightarrow> bool" where
  "map_file_ok os n ok view ip0 i0 v s \<longleftrightarrow>
     wf_bitmap (free_map s) \<and> bit_cnt (free_map s) = n \<and> free_map_file s \<noteq> 0 \<and>
     map_option file_inode (files s (free_map_file s)) = Some ip0 \<and> file_ok os n ok view ip0 i0 v s \<and>
     deny_write_cnt i0 = 0 \<and> ilength i0 = byte_cnt n \<and>
     (\<forall>k < bytes_to_sectors (ilength i0). block_no i0 v k \<in> used (free_map s) \<and> meta i0 v k \<subseteq> used (free_map s))"

definition fs_inv :: "'d block_operations \<Rightarrow> nat \<Rightarrow> ('d \<Rightarrow> bool) \<Rightarrow> ('d \<Rightarrow> nat \<Rightarrow> sector) \<Rightarrow>
    nat \<Rightarrow> inode \<Rightarrow> (nat \<Rightarrow> sector) \<Rightarrow> 'd filesys \<Rightarrow> bool" where
  "fs_inv os n ok view ip0 i0 v s \<longleftrightarrow> map_file_ok os n ok view ip0 i0 v s \<and>
     cached (cells (cache s)) \<subseteq> used (free_map s) \<and> file_bytes i0 v (ilength i0) = bitmap_bytes (free_map s)"

text \<open>The part of the state that allocation leaves alone.\<close>

definition same_files :: "'d filesys \<Rightarrow> 'd filesys \<Rightarrow> bool" where
  "same_files s s' \<longleftrightarrow> inodes s' = inodes s \<and> open_inodes s' = open_inodes s \<and> files s' = files s \<and>
     free_map_file s' = free_map_file s"

lemma same_files_trans: "same_files a b \<Longrightarrow> same_files b c \<Longrightarrow> same_files a c"
  by (simp add: same_files_def)

lemma only_cache_same_files: "only_cache s s' \<Longrightarrow> same_files s s'"
  by (simp add: same_files_def only_cache_simps)

lemma length_bitmap_bytes: "wf_bitmap b \<Longrightarrow> length (bitmap_bytes b) = byte_cnt (bit_cnt b)"
  by (simp add: bitmap_bytes_def byte_cnt_def wf_bitmap_def)

lemma write_bytes_all: "length bs = length d \<Longrightarrow> write_bytes 0 bs d = bs"
  by (simp add: write_bytes_def)

text \<open>The first free sector is the one allocated.\<close>

lemma scan_one:
  assumes wf: "wf_bitmap b" and free: "t < bit_cnt b" "t \<notin> used b"
  obtains b' sec where "bitmap_scan_and_flip b 0 1 False = Some (b', sec)" "sec \<noteq> BITMAP_ERROR" "sec < bit_cnt b" "sec \<notin> used b"
    "wf_bitmap b'" "bit_cnt b' = bit_cnt b" "used b' = insert sec (used b)"
proof (rule bitmap_scan_and_flip_ok [OF wf, of 0 1 False])
  fix b' sec
  assume a: "bitmap_scan_and_flip b 0 1 False = Some (b', sec)" "sec \<noteq> BITMAP_ERROR" "free_run b sec 1 False"
    "wf_bitmap b'" "bit_cnt b' = bit_cnt b"
    "\<And>j. j < bit_cnt b \<Longrightarrow> bits_of b' ! j = (if sec \<le> j \<and> j < sec + 1 then \<not> False else bits_of b ! j)"
  have sec: "sec < bit_cnt b" "\<not> bit_at b sec" using a(3) by (auto simp: free_run_def dest: spec [of _ sec])
  have "bit_at b' j = (j = sec \<or> bit_at b j)" if "j < bit_cnt b" for j using a(5) a(6) [OF that] that by auto
  then have "used b' = insert sec (used b)" using sec(1) a(5) by (auto simp: used_def)
  then show thesis using that [OF a(1,2) sec(1) _ a(4,5)] sec(2) by (auto simp: used_def)
next
  assume "\<And>i. 0 \<le> i \<Longrightarrow> \<not> free_run b i 1 False"
  moreover have "free_run b t 1 False"
    using free by (auto simp: free_run_def used_def less_Suc_eq_le)
  ultimately show thesis by blast
qed simp

context block_driver
begin

lemma free_map_allocate_ok:
  assumes inv: "fs_inv os n ok view ip0 i0 v s" and free: "t < n" "t \<notin> used (free_map s)"
  obtains s' w sec where "free_map_allocate 1 old s = Some (s', sec, True)" "sec < n" "sec \<notin> used (free_map s)"
    "used (free_map s') = insert sec (used (free_map s))" "same_files s s'" "fs_inv os n ok view ip0 i0 w s'"
    "\<forall>t. (\<forall>k < bytes_to_sectors (ilength i0). t \<noteq> block_no i0 v k) \<longrightarrow> w t = v t"
    "\<forall>k < bytes_to_sectors (ilength i0). block_no i0 w k = block_no i0 v k \<and> meta i0 w k = meta i0 v k"
    "cached (cells (cache s')) \<subseteq> cached (cells (cache s)) \<union> block_no i0 v ` {..<bytes_to_sectors (ilength i0)}"
proof -
  let ?nb = "bytes_to_sectors (ilength i0)"
  have m: "map_file_ok os n ok view ip0 i0 v s" using inv by (simp add: fs_inv_def)
  then obtain f where f: "files s (free_map_file s) = Some f" "file_inode f = ip0" "free_map_file s \<noteq> 0" "deny_write_cnt i0 = 0"
      "ilength i0 = byte_cnt n" "wf_bitmap (free_map s)" "bit_cnt (free_map s) = n" "file_ok os n ok view ip0 i0 v s"
      and ub: "\<forall>k < ?nb. block_no i0 v k \<in> used (free_map s) \<and> meta i0 v k \<subseteq> used (free_map s)"
    by (auto simp: map_file_ok_def)
  obtain b' sec where b': "bitmap_scan_and_flip (free_map s) 0 1 False = Some (b', sec)" "sec \<noteq> BITMAP_ERROR" "sec < n"
      "sec \<notin> used (free_map s)" "wf_bitmap b'" "bit_cnt b' = n" "used b' = insert sec (used (free_map s))"
    using scan_one [OF f(6), of t] free f(7) by metis
  let ?s = "s\<lparr>free_map := b'\<rparr>" let ?data = "bitmap_bytes b'"
  have fo: "file_ok os n ok view ip0 i0 v ?s" using f(8) by (simp add: file_ok_def data_rel_def)
  have l: "length ?data = byte_cnt n" using length_bitmap_bytes [OF b'(5)] b'(6) by simp
  obtain s' w where w: "write_at_by (\<lambda>_ _ _. None) ip0 ?data 0 ?s = Some (s', length ?data)" "file_ok os n ok view ip0 i0 w s'"
      "file_bytes i0 w (ilength i0) = write_bytes 0 ?data (file_bytes i0 v (ilength i0))"
      "\<forall>t. (\<forall>k < ?nb. t \<noteq> block_no i0 v k) \<longrightarrow> w t = v t"
      "\<forall>k < ?nb. block_no i0 w k = block_no i0 v k \<and> meta i0 w k = meta i0 v k" "only_cache ?s s'"
      "cached (cells (cache s')) \<subseteq> cached (cells (cache ?s)) \<union> block_no i0 v ` {..<?nb}"
    using write_at_by_ok [OF fo f(4), of 0 ?data "\<lambda>_ _ _. None"] l f(5) by auto
  have "bitmap_write (file_write_fixed (free_map_file s)) b' ?s = Some (s', True)"
    using w(1) f(1,2) b'(6) l by (simp add: bitmap_write_def file_write_fixed_def bitmap_bytes_def)
  then have al: "free_map_allocate 1 old s = Some (s', sec, True)"
    using b'(1,2) f(3) by (simp add: free_map_allocate_def)
  have sf: "same_files s s'" "free_map s' = b'" using w(6) by (simp_all add: same_files_def only_cache_simps)
  have ca: "cached (cells (cache s')) \<subseteq> used (free_map s)" using w(7) ub inv by (auto simp: fs_inv_def)
  have "file_bytes i0 w (ilength i0) = bitmap_bytes b'" using w(3) l f(5) by (simp add: write_bytes_all)
  then have "fs_inv os n ok view ip0 i0 w s'"
    using f b' w(2,5) ub sf ca unfolding fs_inv_def map_file_ok_def by (auto simp: same_files_def)
  then show thesis using that [OF al b'(3,4) _ sf(1)] b'(7) sf(2) w(4,5,7) by auto
qed

text \<open>Writing a sector on the device that has no cell and belongs to no block of the free map's file.\<close>

lemma cache_rel_dev_write:
  assumes r: "cache_rel os n ok view (\<lambda>_. 0) v (cache s)" and sec: "sec < n" "sec \<notin> cached (cells (cache s))"
    and x: "length x = BLOCK_SECTOR_SIZE"
  obtains s' where "dev_write sec x s = Some s'" "only_cache s s'" "cells (cache s') = cells (cache s)"
    "cache_rel os n ok view (\<lambda>_. 0) (v(sec := x)) (cache s')"
proof -
  have b: "block_ok os n ok (fs_device (cache s))" using r by (simp add: cache_rel_def)
  obtain s' where s': "dev_write sec x s = Some s'" "only_cache s s'" "cells (cache s') = cells (cache s)"
      "clock_idx (cache s') = clock_idx (cache s)" "block_ok os n ok (fs_device (cache s'))"
      "\<forall>t < n. view (aux (fs_device (cache s'))) t = (if t = sec then x else view (aux (fs_device (cache s))) t)"
    by (rule dev_write_ok [OF b sec(1) x])
  have nc: "sector_idx (cells (cache s) ! j) \<noteq> sec" if "j < CACHE_SIZE" "valid (cells (cache s) ! j)" for j
    using sec(2) that r by (auto simp: cached_def cache_rel_def cells_ok_def)
  have "cells_ok n (\<lambda>_. 0) (v(sec := x)) (cells (cache s))"
    using r nc by (auto simp: cache_rel_def cells_ok_def cell_ok_def)
  moreover have "\<forall>t < n. modified (cells (cache s)) t \<or> view (aux (fs_device (cache s'))) t = (v(sec := x)) t"
    using r s'(6) by (auto simp: cache_rel_def)
  ultimately have "cache_rel os n ok view (\<lambda>_. 0) (v(sec := x)) (cache s')"
    using r s'(3-5) x unfolding cache_rel_def by simp
  then show thesis using that s' by blast
qed

lemma fs_inv_dev_write:
  assumes inv: "fs_inv os n ok view ip0 i0 v s" and sec: "sec < n" "sec \<notin> cached (cells (cache s))"
    and nb: "\<forall>k < bytes_to_sectors (ilength i0). sec \<noteq> block_no i0 v k \<and> sec \<notin> meta i0 v k"
    and x: "length x = BLOCK_SECTOR_SIZE"
  obtains s' where "dev_write sec x s = Some s'" "only_cache s s'" "cells (cache s') = cells (cache s)"
    "fs_inv os n ok view ip0 i0 (v(sec := x)) s'"
proof -
  let ?nb = "bytes_to_sectors (ilength i0)" let ?w = "v(sec := x)"
  have r: "cache_rel os n ok view (\<lambda>_. 0) v (cache s)" using inv by (auto simp: fs_inv_def map_file_ok_def file_ok_def data_rel_def)
  obtain s' where s': "dev_write sec x s = Some s'" "only_cache s s'" "cells (cache s') = cells (cache s)"
      "cache_rel os n ok view (\<lambda>_. 0) ?w (cache s')" by (rule cache_rel_dev_write [OF r sec x])
  have same: "block_no i0 ?w k = block_no i0 v k \<and> meta i0 ?w k = meta i0 v k" if "k < ?nb" for k
    using nb that by (intro block_no_cong) auto
  have "layout_ok n v i0 ?nb" using inv by (auto simp: fs_inv_def map_file_ok_def file_ok_def data_rel_def)
  then have "layout_ok n ?w i0 ?nb" using same unfolding layout_ok_def inj_on_def by auto
  moreover have "meta i0 ?w k \<inter> cached (cells (cache s')) = {}" if "k < ?nb" for k
    using inv same [OF that] s'(3) that by (auto simp: fs_inv_def map_file_ok_def file_ok_def data_rel_def)
  ultimately have "file_ok os n ok view ip0 i0 ?w s'"
    using inv s'(2,4) by (auto simp: fs_inv_def map_file_ok_def file_ok_def data_rel_def only_cache_simps)
  moreover have "file_bytes i0 ?w (ilength i0) = file_bytes i0 v (ilength i0)"
  proof -
    have "byte_at i0 ?w p = byte_at i0 v p" if "p < ilength i0" for p
      using same [OF bytes_to_sectors_gt [OF that]] nb bytes_to_sectors_gt [OF that] by (auto simp: byte_at_def)
    then show ?thesis by (simp add: file_bytes_def)
  qed
  ultimately have "fs_inv os n ok view ip0 i0 ?w s'"
    using inv same s'(2,3) by (auto simp: fs_inv_def map_file_ok_def only_cache_simps)
  then show thesis using that s' by blast
qed

lemma fs_inv_cong:
  assumes "fs_inv os n ok view ip0 i0 v s" "free_map s' = free_map s" "free_map_file s' = free_map_file s" "files s' = files s"
    "inodes s' ip0 = inodes s ip0" "cells (cache s') = cells (cache s)" "cache_rel os n ok view (\<lambda>_. 0) v (cache s')"
  shows "fs_inv os n ok view ip0 i0 v s'"
  using assms by (auto simp: fs_inv_def map_file_ok_def file_ok_def data_rel_def)

lemma map_alloc_ok:
  "fs_inv os n ok view ip0 i0 v s \<Longrightarrow> direct_blk_idx i + k \<le> 10 \<Longrightarrow> 0 < k \<Longrightarrow> length (ptrs i) = 21 \<Longrightarrow>
   k \<le> card ({..<n} - used (free_map s)) \<Longrightarrow>
   \<exists>s' i' w secs. map_alloc i k s = Some (s', i', 0) \<and> fs_inv os n ok view ip0 i0 w s' \<and> same_files s s' \<and>
     length secs = k \<and> distinct secs \<and> set secs \<subseteq> {..<n} - used (free_map s) \<and>
     used (free_map s') = set secs \<union> used (free_map s) \<and>
     cached (cells (cache s')) \<subseteq> cached (cells (cache s)) \<union> block_no i0 v ` {..<bytes_to_sectors (ilength i0)} \<and>
     (\<forall>t \<in> set secs. w t = zeros) \<and>
     (\<forall>t. t \<notin> set secs \<longrightarrow> (\<forall>k < bytes_to_sectors (ilength i0). t \<noteq> block_no i0 v k) \<longrightarrow> w t = v t) \<and>
     (\<forall>j < bytes_to_sectors (ilength i0). block_no i0 w j = block_no i0 v j \<and> meta i0 w j = meta i0 v j) \<and>
     i' = i\<lparr>direct_blk_idx := direct_blk_idx i + k,
            ptrs := take (direct_blk_idx i) (ptrs i) @ secs @ drop (direct_blk_idx i + k) (ptrs i)\<rparr>"
proof (induction k arbitrary: i s v)
  case (Suc k)
  let ?nb = "bytes_to_sectors (ilength i0)" let ?d = "direct_blk_idx i"
  have "{..<n} - used (free_map s) \<noteq> {}" using Suc.prems(5) by (intro notI) simp
  then obtain t where t: "t < n" "t \<notin> used (free_map s)" by blast
  have d: "?d < 10" "nth_opt (ptrs i) ?d = Some (ptrs i ! ?d)" using Suc.prems(2,4) by (auto simp: nth_opt_def)
  obtain s1 w1 sec where a: "free_map_allocate 1 (ptrs i ! ?d) s = Some (s1, sec, True)" "sec < n" "sec \<notin> used (free_map s)"
      "used (free_map s1) = insert sec (used (free_map s))" "same_files s s1" "fs_inv os n ok view ip0 i0 w1 s1"
      "\<forall>t. (\<forall>k < ?nb. t \<noteq> block_no i0 v k) \<longrightarrow> w1 t = v t"
      "\<forall>k < ?nb. block_no i0 w1 k = block_no i0 v k \<and> meta i0 w1 k = meta i0 v k"
      "cached (cells (cache s1)) \<subseteq> cached (cells (cache s)) \<union> block_no i0 v ` {..<?nb}"
    by (rule free_map_allocate_ok [OF Suc.prems(1) t])
  have ub: "\<forall>k < ?nb. block_no i0 v k \<in> used (free_map s) \<and> meta i0 v k \<subseteq> used (free_map s)"
    using Suc.prems(1) by (simp add: fs_inv_def map_file_ok_def)
  define w2 where "w2 = w1(sec := zeros)"
  have ca: "cached (cells (cache s1)) \<subseteq> used (free_map s)" using a(9) ub Suc.prems(1) by (auto simp: fs_inv_def)
  obtain s2 where b: "dev_write sec zeros s1 = Some s2" "only_cache s1 s2" "cells (cache s2) = cells (cache s1)"
      "fs_inv os n ok view ip0 i0 w2 s2"
    by (rule fs_inv_dev_write [OF a(6,2), of zeros, folded w2_def]) (use a(3,8) ca ub in auto)
  let ?i = "(set_ptr ?d sec i)\<lparr>direct_blk_idx := ?d + 1\<rparr>"
  have u2: "used (free_map s2) = insert sec (used (free_map s))" "same_files s s2"
      "cached (cells (cache s2)) \<subseteq> cached (cells (cache s)) \<union> block_no i0 v ` {..<?nb}"
      "\<forall>t. t \<noteq> sec \<longrightarrow> (\<forall>k < ?nb. t \<noteq> block_no i0 v k) \<longrightarrow> w2 t = v t"
    using a b only_cache_simps(3) [OF b(2)] same_files_trans [OF a(5) only_cache_same_files [OF b(2)]] by (auto simp: w2_def)
  have bw: "\<forall>j < ?nb. block_no i0 w2 j = block_no i0 v j \<and> meta i0 w2 j = meta i0 v j"
  proof (intro allI impI)
    fix j assume j: "j < ?nb"
    have "block_no i0 w2 j = block_no i0 w1 j \<and> meta i0 w2 j = meta i0 w1 j"
      using a(3,8) ub j by (intro block_no_cong) (auto simp: w2_def)
    then show "block_no i0 w2 j = block_no i0 v j \<and> meta i0 w2 j = meta i0 v j" using a(8) j by simp
  qed
  have w2s: "w2 sec = zeros" by (simp add: w2_def)
  have pi: "ptrs ?i = (ptrs i)[?d := sec]" "direct_blk_idx ?i = ?d + 1"
      "?i\<lparr>direct_blk_idx := y, ptrs := z\<rparr> = i\<lparr>direct_blk_idx := y, ptrs := z\<rparr>" for y z by (simp_all add: set_ptr_def)
  have upd: "(ptrs i)[?d := sec] = take ?d (ptrs i) @ sec # drop (?d + 1) (ptrs i)"
    using Suc.prems(4) d(1) by (simp add: upd_conv_take_nth_drop)
  show ?case
  proof (cases "k = 0")
    case True
    have "map_alloc i (Suc k) s = Some (s2, ?i, 0)"
      using d a(1) b(1) True by (subst map_alloc.simps) (simp add: size_dec_def inode_consts)
    moreover have "?i = i\<lparr>direct_blk_idx := ?d + 1, ptrs := take ?d (ptrs i) @ [sec] @ drop (?d + 1) (ptrs i)\<rparr>"
      using upd by (simp add: set_ptr_def)
    ultimately show ?thesis using b(4) u2 a(2,3) True bw w2s
      by (intro exI [of _ s2] exI [of _ ?i] exI [of _ w2] exI [of _ "[sec]"]) simp
  next
    case False
    have st: "map_alloc i (Suc k) s = map_alloc ?i k s2"
      using d a(1) b(1) False by (subst map_alloc.simps) (simp add: size_dec_def inode_consts)
    have "{..<n} - used (free_map s2) = ({..<n} - used (free_map s)) - {sec}" using u2(1) by auto
    then have "card ({..<n} - used (free_map s2)) = card ({..<n} - used (free_map s)) - 1" using a(2,3) by (simp add: card_Diff_singleton)
    then have c: "k \<le> card ({..<n} - used (free_map s2))" using Suc.prems(5) by simp
    obtain s' i' w secs where rec: "map_alloc ?i k s2 = Some (s', i', 0)" "fs_inv os n ok view ip0 i0 w s'" "same_files s2 s'"
        "length secs = k" "distinct secs" "set secs \<subseteq> {..<n} - used (free_map s2)"
        "used (free_map s') = set secs \<union> used (free_map s2)" "cached (cells (cache s')) \<subseteq> cached (cells (cache s2)) \<union> block_no i0 w2 ` {..<?nb}"
        "\<forall>t \<in> set secs. w t = zeros" "\<forall>t. t \<notin> set secs \<longrightarrow> (\<forall>k < ?nb. t \<noteq> block_no i0 w2 k) \<longrightarrow> w t = w2 t" "\<forall>j < ?nb. block_no i0 w j = block_no i0 w2 j \<and> meta i0 w j = meta i0 w2 j"
        "i' = ?i\<lparr>direct_blk_idx := ?d + 1 + k, ptrs := take (?d + 1) (ptrs ?i) @ secs @ drop (?d + 1 + k) (ptrs ?i)\<rparr>"
      using Suc.IH [OF b(4), of ?i] c Suc.prems(2,4) False pi(1,2) by auto
    have "take (?d + 1) (ptrs ?i) @ secs @ drop (?d + 1 + k) (ptrs ?i) = take ?d (ptrs i) @ (sec # secs) @ drop (?d + Suc k) (ptrs i)"
      using d(1) Suc.prems(4) unfolding pi(1) upd by (simp add: min_def add.commute)
    then have "i' = i\<lparr>direct_blk_idx := ?d + Suc k, ptrs := take ?d (ptrs i) @ (sec # secs) @ drop (?d + Suc k) (ptrs i)\<rparr>"
      using rec(12) unfolding pi(3) by simp
    moreover have "w sec = zeros"
    proof -
      have "sec \<notin> set secs" using rec(6) u2(1) by auto
      moreover have "\<forall>k < ?nb. sec \<noteq> block_no i0 w2 k" using bw ub a(3) by auto
      ultimately show ?thesis using rec(10) by (simp add: w2_def)
    qed
    moreover have "cached (cells (cache s')) \<subseteq> cached (cells (cache s)) \<union> block_no i0 v ` {..<?nb}"
      using rec(8) u2(3) bw by (auto simp: image_def)
    moreover have "\<forall>t. t \<notin> set (sec # secs) \<longrightarrow> (\<forall>k < ?nb. t \<noteq> block_no i0 v k) \<longrightarrow> w t = v t"
      using rec(10) u2(4) bw by auto
    moreover have "\<forall>j < ?nb. block_no i0 w j = block_no i0 v j \<and> meta i0 w j = meta i0 v j" using rec(11) bw by auto
    moreover have "distinct (sec # secs)" "set (sec # secs) \<subseteq> {..<n} - used (free_map s)"
        "used (free_map s') = set (sec # secs) \<union> used (free_map s)"
      using rec(5,6,7) u2(1) a(2,3) by auto
    ultimately show ?thesis using st rec(1,2,4,9) same_files_trans [OF u2(2) rec(3)]
      by (intro exI [of _ s'] exI [of _ i'] exI [of _ w] exI [of _ "sec # secs"]) auto
  qed
qed simp

lemma fs_inv_dev_read:
  assumes inv: "fs_inv os n ok view ip0 i0 v s" and sec: "sec < n" "sec \<notin> cached (cells (cache s))"
  obtains s' where "dev_read sec s = Some (s', v sec)" "only_cache s s'" "cells (cache s') = cells (cache s)"
    "fs_inv os n ok view ip0 i0 v s'"
proof -
  have r: "cache_rel os n ok view (\<lambda>_. 0) v (cache s)" using inv by (auto simp: fs_inv_def map_file_ok_def file_ok_def data_rel_def)
  obtain s' where s': "dev_read sec s = Some (s', v sec)" "only_cache s s'" "cells (cache s') = cells (cache s)"
      "cache_rel os n ok view (\<lambda>_. 0) v (cache s')" by (rule dev_read_ok [OF r sec])
  have "fs_inv os n ok view ip0 i0 v s'"
    by (rule fs_inv_cong [OF inv _ _ _ _ s'(3,4)]) (use s'(2) in \<open>simp_all add: only_cache_simps\<close>)
  then show thesis using that s' by blast
qed

end

subsection \<open>Inodes on disk\<close>

lemma decode_encode_block: "\<forall>n \<in> set ns. n < 2 ^ 32 \<Longrightarrow> decode_block (encode_block ns) = ns"
proof -
  assume a: "\<forall>n \<in> set ns. n < 2 ^ 32"
  have "decode_block (encode_block ns) = map (\<lambda>n. unat (of_nat n :: u32)) ns"
    using le_words_bytes [of "map of_nat ns"] by (simp add: decode_block_def encode_block_def comp_def)
  also have "\<dots> = ns" using a by (intro map_idI) (simp add: unat_of_nat take_bit_eq_mod)
  finally show ?thesis .
qed

lemma decode_encode_inode:
  assumes "length (d_ptrs d) = 21" "\<forall>n \<in> set (d_ptrs d). n < 2 ^ 32"
    and "d_length d < 2 ^ 32" "d_magic d < 2 ^ 32" "d_direct_blk_idx d < 2 ^ 32" "d_indirect_blk_idx d < 2 ^ 32"
    "d_double_indirect_blk_idx d < 2 ^ 32" "d_parent d < 2 ^ 32"
  shows "decode_inode (encode_inode d) = d"
proof -
  have "decode_block (encode_inode d) = [d_length d, d_magic d, d_direct_blk_idx d, d_indirect_blk_idx d,
      d_double_indirect_blk_idx d, of_bool (d_is_dir d), d_parent d] @ d_ptrs d @ replicate 100 0"
    unfolding encode_inode_def by (rule decode_encode_block) (use assms in auto)
  then show ?thesis using assms(1) by (cases d) (simp add: decode_inode_def Let_def inode_consts)
qed

text \<open>The inode that \<^verbatim>\<open>inode_open\<close> makes of the one on disk.\<close>

definition opened :: "nat \<Rightarrow> inode_disk \<Rightarrow> inode" where
  "opened sec d = \<lparr>inumber = sec, open_cnt = 1, removed = False, deny_write_cnt = 0, ilength = d_length d,
     read_length = d_length d, direct_blk_idx = d_direct_blk_idx d,
     indirect_blk_idx = d_indirect_blk_idx d, double_indirect_blk_idx = d_double_indirect_blk_idx d,
     is_dir = d_is_dir d, parent = d_parent d, ptrs = d_ptrs d\<rparr>"

context block_driver
begin

lemma grow_new:
  assumes inv: "fs_inv os n ok view ip0 i0 v s" and len: "len \<le> 5120"
    and room: "bytes_to_sectors len \<le> card ({..<n} - used (free_map s))"
  obtains s' i w secs where "inode_grow junk empty_inode len s = Some (s', i, len)" "fs_inv os n ok view ip0 i0 w s'" "same_files s s'"
    "length secs = bytes_to_sectors len" "distinct secs" "set secs \<subseteq> {..<n} - used (free_map s)"
    "used (free_map s') = set secs \<union> used (free_map s)"
    "cached (cells (cache s')) \<subseteq> cached (cells (cache s)) \<union> block_no i0 v ` {..<bytes_to_sectors (ilength i0)}"
    "\<forall>t \<in> set secs. w t = zeros"
    "\<forall>j < bytes_to_sectors (ilength i0). block_no i0 w j = block_no i0 v j \<and> meta i0 w j = meta i0 v j"
    "\<forall>t. t \<notin> set secs \<longrightarrow> (\<forall>k < bytes_to_sectors (ilength i0). t \<noteq> block_no i0 v k) \<longrightarrow> w t = v t"
    "ptrs i = secs @ replicate (21 - length secs) 0" "direct_blk_idx i = bytes_to_sectors len" "indirect_blk_idx i = 0" "double_indirect_blk_idx i = 0"
proof (cases "bytes_to_sectors len = 0")
  case True
  have "inode_grow junk empty_inode len s = Some (s, empty_inode, len)"
    using True by (simp add: inode_grow_def)
  then show thesis
    by (rule that [of s empty_inode v "[]"]) (use inv True in \<open>simp_all add: same_files_def empty_inode_def inode_consts\<close>)
next
  case False
  let ?k = "bytes_to_sectors len"
  have k10: "?k \<le> 10" using len bytes_to_sectors_le by simp
  obtain s' i w secs where a: "map_alloc empty_inode ?k s = Some (s', i, 0)" "fs_inv os n ok view ip0 i0 w s'" "same_files s s'"
      "length secs = ?k" "distinct secs" "set secs \<subseteq> {..<n} - used (free_map s)" "used (free_map s') = set secs \<union> used (free_map s)"
      "cached (cells (cache s')) \<subseteq> cached (cells (cache s)) \<union> block_no i0 v ` {..<bytes_to_sectors (ilength i0)}"
      "\<forall>t \<in> set secs. w t = zeros"
      "\<forall>j < bytes_to_sectors (ilength i0). block_no i0 w j = block_no i0 v j \<and> meta i0 w j = meta i0 v j"
      "\<forall>t. t \<notin> set secs \<longrightarrow> (\<forall>k < bytes_to_sectors (ilength i0). t \<noteq> block_no i0 v k) \<longrightarrow> w t = v t"
      "i = empty_inode\<lparr>direct_blk_idx := ?k, ptrs := secs @ replicate (21 - ?k) 0\<rparr>"
    using map_alloc_ok [OF inv, of empty_inode ?k] k10 False room by (auto simp: empty_inode_def inode_consts)
  have "inode_grow junk empty_inode len s = Some (s', i, len)"
    using a(1) False by (simp add: inode_grow_def bytes_to_sectors_0 empty_inode_def)
  then show thesis
    by (rule that [OF _ a(2-11)]) (use a(4,12) k10 in \<open>simp_all add: empty_inode_def\<close>)
qed

lemma create_ok:
  assumes inv: "fs_inv os n ok view ip0 i0 v s" and len: "len \<le> 5120" and n: "n \<le> 2 ^ 32"
    and room: "bytes_to_sectors len \<le> card ({..<n} - used (free_map s))"
    and sec: "sec \<in> used (free_map s)" "sec \<notin> cached (cells (cache s))"
      "\<forall>k < bytes_to_sectors (ilength i0). sec \<noteq> block_no i0 v k \<and> sec \<notin> meta i0 v k"
  obtains s2 d secs x where "inode_create junk True sec len dir s = Some (s2, True)" "fs_inv os n ok view ip0 i0 x s2" "same_files s s2"
    "d = \<lparr>d_length = len, d_magic = INODE_MAGIC, d_direct_blk_idx = bytes_to_sectors len, d_indirect_blk_idx = 0,
      d_double_indirect_blk_idx = 0, d_is_dir = dir, d_parent = ROOT_DIR_SECTOR, d_ptrs = secs @ replicate (21 - length secs) 0\<rparr>"
    "x sec = encode_inode d" "decode_inode (encode_inode d) = d"
    "length secs = bytes_to_sectors len" "distinct secs" "set secs \<subseteq> {..<n} - used (free_map s)"
    "used (free_map s2) = set secs \<union> used (free_map s)" "sec < n" "sec \<notin> cached (cells (cache s2))"
    "cached (cells (cache s2)) \<subseteq> cached (cells (cache s)) \<union> block_no i0 v ` {..<bytes_to_sectors (ilength i0)}"
    "\<forall>t \<in> set secs. x t = zeros"
    "\<forall>t. t \<notin> set secs \<longrightarrow> t \<noteq> sec \<longrightarrow> (\<forall>k < bytes_to_sectors (ilength i0). t \<noteq> block_no i0 v k) \<longrightarrow> x t = v t"
    "\<forall>j < bytes_to_sectors (ilength i0). block_no i0 x j = block_no i0 v j \<and> meta i0 x j = meta i0 v j"
proof -
  let ?nb = "bytes_to_sectors (ilength i0)" let ?k = "bytes_to_sectors len"
  obtain s1 i1 w secs where g: "inode_grow junk empty_inode len s = Some (s1, i1, len)" "fs_inv os n ok view ip0 i0 w s1" "same_files s s1"
    "length secs = ?k" "distinct secs" "set secs \<subseteq> {..<n} - used (free_map s)"
    "used (free_map s1) = set secs \<union> used (free_map s)"
    "cached (cells (cache s1)) \<subseteq> cached (cells (cache s)) \<union> block_no i0 v ` {..<?nb}"
    "\<forall>t \<in> set secs. w t = zeros" "\<forall>j < ?nb. block_no i0 w j = block_no i0 v j \<and> meta i0 w j = meta i0 v j"
    "\<forall>t. t \<notin> set secs \<longrightarrow> (\<forall>k < ?nb. t \<noteq> block_no i0 v k) \<longrightarrow> w t = v t"
    "ptrs i1 = secs @ replicate (21 - length secs) 0" "direct_blk_idx i1 = ?k" "indirect_blk_idx i1 = 0" "double_indirect_blk_idx i1 = 0"
    by (rule grow_new [OF inv len room])
  have k10: "?k \<le> 10" using len bytes_to_sectors_le by simp
  have used_n: "used (free_map s) \<subseteq> {..<n}" using inv by (auto simp: fs_inv_def map_file_ok_def used_def)
  have secn: "sec < n" "sec \<notin> cached (cells (cache s1))" using sec g(8) used_n by auto
  define d where "d = \<lparr>d_length = len, d_magic = INODE_MAGIC, d_direct_blk_idx = ?k, d_indirect_blk_idx = 0,
    d_double_indirect_blk_idx = 0, d_is_dir = dir, d_parent = ROOT_DIR_SECTOR, d_ptrs = secs @ replicate (21 - length secs) 0\<rparr>"
  have pl: "length (d_ptrs d) = 21" "\<forall>m \<in> set (d_ptrs d). m < 2 ^ 32"
    using g(4,6) k10 n by (auto simp: d_def)
  have dec: "decode_inode (encode_inode d) = d"
    by (rule decode_encode_inode [OF pl]) (use len k10 in \<open>simp_all add: d_def INODE_MAGIC_def ROOT_DIR_SECTOR_def\<close>)
  obtain s2 where s2: "dev_write sec (encode_inode d) s1 = Some s2" "only_cache s1 s2" "cells (cache s2) = cells (cache s1)"
      "fs_inv os n ok view ip0 i0 (w(sec := encode_inode d)) s2"
    by (rule fs_inv_dev_write [OF g(2) secn, of "encode_inode d"])
      (use sec(3) g(10) pl(1) length_encode_inode [of d] in \<open>auto simp: inode_consts\<close>)
  define x where "x = w(sec := encode_inode d)"
  have cr: "inode_create junk True sec len dir s = Some (s2, True)"
    using g(1,12-15) s2(1) by (simp add: inode_create_def inode_allocate_def d_def)
  have sf: "same_files s s2" using s2(2) g(3) by (simp add: only_cache_simps same_files_def)
  have bl: "\<forall>j < ?nb. block_no i0 x j = block_no i0 v j \<and> meta i0 x j = meta i0 v j"
  proof (intro allI impI)
    fix j assume j: "j < ?nb"
    have "block_no i0 x j = block_no i0 w j \<and> meta i0 x j = meta i0 w j"
      using sec(3) g(10) j by (intro block_no_cong) (auto simp: x_def)
    then show "block_no i0 x j = block_no i0 v j \<and> meta i0 x j = meta i0 v j" using g(10) j by simp
  qed
  have "x t = zeros" if "t \<in> set secs" for t using that g(6,9) sec(1) by (auto simp: x_def)
  moreover have "used (free_map s2) = set secs \<union> used (free_map s)" using g(7) s2(2) by (simp add: only_cache_simps)
  ultimately show thesis
    by (intro that [OF cr s2(4) [folded x_def] sf d_def _ dec g(4-6) _ secn(1) _ _ _ _ bl])
      (use g(8,11) s2(3) secn(2) in \<open>simp_all add: x_def\<close>)
qed

lemma create_open:
  assumes inv: "fs_inv os n ok view ip0 i0 v s" and len: "len \<le> 5120" and n: "n \<le> 2 ^ 32"
    and room: "bytes_to_sectors len \<le> card ({..<n} - used (free_map s))"
    and sec: "sec \<in> used (free_map s)" "sec \<notin> cached (cells (cache s))"
      "\<forall>k < bytes_to_sectors (ilength i0). sec \<noteq> block_no i0 v k \<and> sec \<notin> meta i0 v k"
    and fresh: "find_open (inodes s) sec (open_inodes s) = None" "ip \<noteq> 0" "inodes s ip = None"
  shows "\<exists>s1 s2 i w. inode_create junk True sec len dir s = Some (s1, True) \<and> inode_open (\<lambda>_. ip) sec s1 = Some (s2, ip) \<and>
    file_ok os n ok view ip i w s2 \<and> files s2 = files s \<and> ilength i = len \<and> is_dir i = dir \<and> deny_write_cnt i = 0 \<and>
    direct_blk_idx i = bytes_to_sectors len \<and> (\<forall>p < bytes_to_sectors len * 512. byte_at i w p = 0) \<and>
    fs_inv os n ok view ip0 i0 w s2 \<and>
    (\<forall>j < bytes_to_sectors (ilength i0). block_no i0 w j = block_no i0 v j \<and> meta i0 w j = meta i0 v j) \<and>
    block_no i w ` {..<bytes_to_sectors len} \<inter> used (free_map s) = {} \<and>
    used (free_map s2) = used (free_map s) \<union> block_no i w ` {..<bytes_to_sectors len}"
proof -
  let ?nb = "bytes_to_sectors (ilength i0)" let ?k = "bytes_to_sectors len"
  obtain s2 d secs x where c: "inode_create junk True sec len dir s = Some (s2, True)" "fs_inv os n ok view ip0 i0 x s2" "same_files s s2"
    "d = \<lparr>d_length = len, d_magic = INODE_MAGIC, d_direct_blk_idx = ?k, d_indirect_blk_idx = 0,
      d_double_indirect_blk_idx = 0, d_is_dir = dir, d_parent = ROOT_DIR_SECTOR, d_ptrs = secs @ replicate (21 - length secs) 0\<rparr>"
    "x sec = encode_inode d" "decode_inode (encode_inode d) = d" "length secs = ?k" "distinct secs" "set secs \<subseteq> {..<n} - used (free_map s)"
    "used (free_map s2) = set secs \<union> used (free_map s)" "sec < n" "sec \<notin> cached (cells (cache s2))"
    "cached (cells (cache s2)) \<subseteq> cached (cells (cache s)) \<union> block_no i0 v ` {..<?nb}"
    "\<forall>t \<in> set secs. x t = zeros" "\<forall>t. t \<notin> set secs \<longrightarrow> t \<noteq> sec \<longrightarrow> (\<forall>k < ?nb. t \<noteq> block_no i0 v k) \<longrightarrow> x t = v t"
    "\<forall>j < ?nb. block_no i0 x j = block_no i0 v j \<and> meta i0 x j = meta i0 v j"
    by (rule create_ok [OF inv len n room sec])
  have k10: "?k \<le> 10" using len bytes_to_sectors_le by simp
  let ?i = "opened sec d" let ?s = "s2\<lparr>open_inodes := ip # open_inodes s2\<rparr>"
  have inv2: "fs_inv os n ok view ip0 i0 x ?s" by (rule fs_inv_cong [OF c(2)]) (use c(2) in \<open>simp_all add: fs_inv_def map_file_ok_def file_ok_def data_rel_def\<close>)
  obtain s3 where s3: "dev_read sec ?s = Some (s3, x sec)" "only_cache ?s s3" "cells (cache s3) = cells (cache ?s)"
      "fs_inv os n ok view ip0 i0 x s3"
    by (rule fs_inv_dev_read [OF inv2 c(11)]) (use c(12) in simp)
  have in3: "inodes s3 = inodes s" "open_inodes s2 = open_inodes s" "inodes s2 = inodes s"
    using s3(2) c(3) by (simp_all add: only_cache_simps same_files_def)
  have op: "inode_open (\<lambda>_. ip) sec s2 = Some (set_inode ip ?i s3, ip)"
    using fresh in3 s3(1) c(5,6) by (simp add: inode_open_def opened_def)
  let ?s3 = "set_inode ip ?i s3"
  have ip0: "ip0 \<noteq> ip" using inv fresh(3) by (auto simp: fs_inv_def map_file_ok_def file_ok_def)
  have inv3: "fs_inv os n ok view ip0 i0 x ?s3"
    by (rule fs_inv_cong [OF s3(4)]) (use s3(4) ip0 in \<open>simp_all add: set_inode_def fs_inv_def map_file_ok_def file_ok_def data_rel_def\<close>)
  have bn: "block_no ?i x j = secs ! j \<and> meta ?i x j = {}" if "j < ?k" for j
    using that k10 c(4,7) by (simp add: block_no_def meta_def opened_def nth_append)
  have bi: "block_no ?i x ` {..<?k} = set secs" using bn c(7) by (auto simp: set_conv_nth image_def)
  have "length (ptrs ?i) = 21" using c(4,7) k10 by (simp add: opened_def)
  moreover have "secs ! j < n" if "j < ?k" for j using subsetD [OF c(9) nth_mem [of j secs]] c(7) that by simp
  ultimately have lay: "layout_ok n x ?i ?k"
    unfolding layout_ok_def inj_on_def
    using bn c(7,8) k10 by (simp add: inode_consts nth_eq_iff_index_eq)
  have fo: "file_ok os n ok view ip ?i x ?s3"
    using lay bn inv3 c(4) by (auto simp: file_ok_def data_rel_def set_inode_def opened_def fs_inv_def map_file_ok_def)
  have "byte_at ?i x p = 0" if p: "p < ?k * 512" for p
  proof -
    have j: "p div 512 < ?k" using p by (simp add: div_less_iff_less_mult)
    then have "secs ! (p div 512) \<in> set secs" using c(7) by simp
    then show ?thesis using bn [OF j] c(14) by (simp add: byte_at_def zeros_def)
  qed
  moreover have "free_map ?s3 = free_map s2" "files ?s3 = files s" "direct_blk_idx ?i = ?k" "ilength ?i = len" "is_dir ?i = dir" "deny_write_cnt ?i = 0"
    using s3(2) c(3,4) by (simp_all add: set_inode_def only_cache_simps same_files_def opened_def)
  ultimately show ?thesis using c(1,9,10,16) op fo inv3 bi
    by (intro exI [of _ s2] exI [of _ ?s3] exI [of _ ?i] exI [of _ x]) auto
qed

end


lemma sample_used_bits: "used \<lparr>bit_cnt = 8, bits = [0x3f]\<rparr> = {0, 1, 2, 3, 4, 5}"
proof -
  have "bit_at \<lparr>bit_cnt = 8, bits = [0x3f]\<rparr> t = (t < 6)" if "t < 8" for t
    using nth_bits_of [of t "\<lparr>bit_cnt = 8, bits = [0x3f]\<rparr>"] that unfolding sample_bits
    by (cases "t < 6") (simp_all add: nth_append)
  then show ?thesis by (auto simp: used_def)
qed

lemma sample_used: "used (free_map (sample_fs 0x3f)) = {0, 1, 2, 3, 4, 5}"
  by (simp add: sample_fs_def sample_used_bits)

lemma sample_fs_inv:
  "fs_inv ram_disk 8 (ram_disk_ok 8) (\<lambda>d. d) 256 (sample_inode 0 4 [2]) (sample_disk 0x3f) (sample_fs 0x3f)"
proof -
  let ?i = "sample_inode 0 4 [2]" let ?b = "\<lparr>bit_cnt = 8, bits = [0x3f]\<rparr>"
  have b: "bytes_to_sectors 4 = 1" by (simp add: bytes_to_sectors_def DIV_ROUND_UP_def)
  have i: "ilength ?i = 4" "deny_write_cnt ?i = 0" by (simp_all add: sample_inode_def empty_inode_def)
  have c: "byte_cnt 8 = 4" by (simp add: byte_cnt_def elem_cnt_def size_add_def ELEM_BITS_def)
  have fm: "free_map (sample_fs 0x3f) = ?b" by (simp add: sample_fs_def)
  have "map_file_ok ram_disk 8 (ram_disk_ok 8) (\<lambda>d. d) 256 ?i (sample_disk 0x3f) (sample_fs 0x3f)"
    using sample_map_file_ok [of "0x3f"] sample_block_no [of 0 "[2]" 0 4] unfolding map_file_ok_def fm i b c sample_used_bits
    by (simp add: sample_wf) (simp add: sample_fs_def)
  moreover have "file_bytes ?i (sample_disk 0x3f) 4 = bitmap_bytes ?b"
  proof (rule nth_equalityI)
    fix q assume "q < length (file_bytes ?i (sample_disk 0x3f) 4)"
    then have "q < 4" by simp
    then show "file_bytes ?i (sample_disk 0x3f) 4 ! q = bitmap_bytes ?b ! q"
      using sample_block_no [of 0 "[2]" 0 4]
      by (simp add: file_bytes_def byte_at_def bitmap_bytes_def c sample_disk_def nth_append)
  qed (simp add: length_bitmap_bytes sample_wf c)
  ultimately show ?thesis unfolding fs_inv_def fm i using sample_cached by simp
qed


subsection \<open>Doubly indirect blocks\<close>

text \<open>
  The doubly indirect blocks of a growing file are lost. \<^verbatim>\<open>map_alloc_indirect\<close> fills in a copy of
  the inner block, and what \<^verbatim>\<open>inode_grow_double_indirect_block_lvl2\<close> writes to the disk last is the
  uninitialised block it started from, whatever sectors were allocated and whatever the result.
\<close>

theorem double_indirect_block_lost:
  assumes "double_indirect_blk_idx i = 0"
    and "inode_grow_double_indirect_block_lvl2 junk i outer_block new_sectors s = Some (s', i', outer', new')"
  shows "\<exists>s1. dev_write (outer' ! indirect_blk_idx i) (encode_block junk) s1 = Some s'"
  using assms unfolding inode_grow_double_indirect_block_lvl2_def
  by (auto simp: Let_def bind_eq_Some_conv split: prod.splits option.splits if_splits)

text \<open>A free sector becomes the inner block, another its first block of data; the block on the disk does not name it.\<close>

theorem double_indirect_block_lost_witness:
  "\<exists>s' i' s1 sec. inode_grow_double_indirect_block_lvl2 (replicate 128 0) empty_inode (replicate 128 0) 1
      (sample_fs 0x3f\<lparr>free_map_file := 0\<rparr>) = Some (s', i', (replicate 128 0)[0 := sec], 0) \<and>
    double_indirect_blk_idx i' = 1 \<and> sec \<in> {6, 7} \<and>
    dev_write sec (encode_block (replicate 128 0)) s1 = Some s'"
proof -
  let ?s = "sample_fs 0x3f\<lparr>free_map_file := 0\<rparr>" let ?b = "\<lparr>bit_cnt = 8, bits = [0x3f]\<rparr>"
  obtain b1 p where p: "bitmap_scan_and_flip ?b 0 1 False = Some (b1, p)" "p \<noteq> BITMAP_ERROR" "p \<in> {6, 7}" "wf_bitmap b1"
      "bit_cnt b1 = 8" "used b1 = insert p {0, 1, 2, 3, 4, 5}"
  proof (rule scan_one [OF sample_wf, of 6 "0x3f"])
    fix b' sec
    assume a: "bitmap_scan_and_flip ?b 0 1 False = Some (b', sec)" "sec \<noteq> BITMAP_ERROR" "sec < bit_cnt ?b" "sec \<notin> used ?b"
      "wf_bitmap b'" "bit_cnt b' = bit_cnt ?b" "used b' = insert sec (used ?b)"
    have "sec < 8" "sec \<notin> {0, 1, 2, 3, 4, 5}" using a(3,4) unfolding sample_used_bits by simp_all
    then have "sec \<in> {6, 7}" by auto
    then show thesis using that [OF a(1,2) _ a(5)] a(6,7) unfolding sample_used_bits by simp
  qed (simp_all add: sample_used_bits)
  obtain t where "t < 8" "t \<notin> used b1" using p(3,6) by (cases "p = 6") (auto intro: that [of 6] that [of 7])
  then obtain b2 q where q: "bitmap_scan_and_flip b1 0 1 False = Some (b2, q)" "q \<noteq> BITMAP_ERROR" "q < 8"
    using p(5) by (auto intro: scan_one [OF p(4), of t])
  let ?a = "(sample_disk 0x3f)(q := zeros)"
  obtain s' i' where r: "inode_grow_double_indirect_block_lvl2 (replicate 128 0) empty_inode (replicate 128 0) 1 ?s =
      Some (s', i', (replicate 128 0)[0 := p], 0)" "double_indirect_blk_idx i' = 1"
    using p q
    by (auto simp: inode_grow_double_indirect_block_lvl2_def nth_opt_def empty_inode_def free_map_allocate_def sample_fs_def
        map_alloc_indirect.simps inode_consts size_dec_def dev_write_def block_write_def ASSERT_def
        check_sector_def sample_cache_def cache_init_def ram_disk_def)
  then show ?thesis
    using double_indirect_block_lost [OF _ r(1)] p(3) by (auto simp: empty_inode_def)
qed

end
