(* ===== verification/Inode_Write.thy ===== *)
theory Inode_Write
  imports Inode_Growth
begin

section \<open>Writing past the end of a file\<close>

text \<open>
  Files of up to ten sectors: their data blocks are the first pointers of the inode, apart from those
  of the free map's file, and the bytes after the end of the file in its last sector are zeros. A
  write at any offset keeps this and extends the file with zeros up to the bytes written.
\<close>

definition data_blocks :: "inode \<Rightarrow> nat list" where
  "data_blocks i = take (bytes_to_sectors (ilength i)) (ptrs i)"

definition map_blocks :: "inode \<Rightarrow> (nat \<Rightarrow> sector) \<Rightarrow> nat set" where
  "map_blocks i v = (\<Union>k < bytes_to_sectors (ilength i). insert (block_no i v k) (meta i v k))"

definition plain_file :: "'d block_operations \<Rightarrow> nat \<Rightarrow> ('d \<Rightarrow> bool) \<Rightarrow> ('d \<Rightarrow> nat \<Rightarrow> sector) \<Rightarrow>
    nat \<Rightarrow> inode \<Rightarrow> nat \<Rightarrow> inode \<Rightarrow> (nat \<Rightarrow> sector) \<Rightarrow> 'd filesys \<Rightarrow> bool" where
  "plain_file os n ok view ip0 i0 ip i v s \<longleftrightarrow> fs_inv os n ok view ip0 i0 v s \<and> inodes s ip = Some i \<and> ip \<noteq> ip0 \<and>
     read_length i = ilength i \<and> ilength i \<le> 5120 \<and> length (ptrs i) = 21 \<and> direct_blk_idx i = bytes_to_sectors (ilength i) \<and>
     distinct (data_blocks i) \<and> set (data_blocks i) \<subseteq> used (free_map s) - map_blocks i0 v \<and>
     (\<forall>p. ilength i \<le> p \<and> p < bytes_to_sectors (ilength i) * 512 \<longrightarrow> byte_at i v p = 0)"

text \<open>What a file of bytes \<open>d\<close> holds after writing \<open>bs\<close> at \<open>offset\<close>.\<close>

definition extend_write :: "nat \<Rightarrow> u8 list \<Rightarrow> u8 list \<Rightarrow> u8 list" where
  "extend_write offset bs d = write_bytes offset bs (d @ replicate (offset + length bs - length d) 0)"

lemma length_extend_write: "length (extend_write offset bs d) = max (length d) (offset + length bs)"
  by (simp add: extend_write_def ram.length_write_bytes)

lemma nth_extend_write:
  "p < max (length d) (offset + length bs) \<Longrightarrow> extend_write offset bs d ! p =
     (if offset \<le> p \<and> p < offset + length bs then bs ! (p - offset) else if p < length d then d ! p else 0)"
  by (auto simp: extend_write_def nth_write_bytes nth_append)

lemma same_ptrs [simp]:
  "block_no (i\<lparr>ilength := x\<rparr>) = block_no i" "block_no (i\<lparr>read_length := x\<rparr>) = block_no i"
  "meta (i\<lparr>ilength := x\<rparr>) = meta i" "meta (i\<lparr>read_length := x\<rparr>) = meta i"
  "byte_at (i\<lparr>ilength := x\<rparr>) = byte_at i" "byte_at (i\<lparr>read_length := x\<rparr>) = byte_at i"
  by (simp_all add: fun_eq_iff block_no_def meta_def byte_at_def)

lemma bytes_to_sectors_10: "len \<le> 5120 \<Longrightarrow> bytes_to_sectors len \<le> 10"
  by (simp add: bytes_to_sectors_le)

lemma bytes_to_sectors_mono: "a \<le> b \<Longrightarrow> bytes_to_sectors a \<le> bytes_to_sectors b"
  using bytes_to_sectors_le [of b "bytes_to_sectors b"] by (simp add: bytes_to_sectors_le)

lemma direct_block:
  assumes "k < nb" "nb \<le> 10"
  shows "block_no i v k = ptrs i ! k" "meta i v k = {}"
  using assms by (simp_all add: block_no_def meta_def)

lemma data_blocks_image:
  assumes "ilength i \<le> 5120" "length (ptrs i) = 21"
  shows "block_no i v ` {..<bytes_to_sectors (ilength i)} = set (data_blocks i)"
proof -
  let ?nb = "bytes_to_sectors (ilength i)"
  have nb: "?nb \<le> 10" using assms(1) by (rule bytes_to_sectors_10)
  have "block_no i v ` {..<?nb} = (!) (ptrs i) ` {..<?nb}" using direct_block(1) [OF _ nb] by simp
  also have "\<dots> = set (data_blocks i)" using nb assms(2) by (simp add: data_blocks_def nth_image lessThan_atLeast0)
  finally show ?thesis .
qed

lemma fs_inv_used: "fs_inv os n ok view ip0 i0 v s \<Longrightarrow> used (free_map s) \<subseteq> {..<n}"
  by (auto simp: fs_inv_def map_file_ok_def used_def)

lemma fs_inv_map_blocks: "fs_inv os n ok view ip0 i0 v s \<Longrightarrow> map_blocks i0 v \<subseteq> used (free_map s)"
  by (auto simp: fs_inv_def map_file_ok_def map_blocks_def)

lemma fs_inv_cache_rel: "fs_inv os n ok view ip0 i0 v s \<Longrightarrow> cache_rel os n ok view (\<lambda>_. 0) v (cache s)"
  by (auto simp: fs_inv_def map_file_ok_def file_ok_def data_rel_def)

lemma map_blocks_cong:
  "\<forall>k < bytes_to_sectors (ilength i). block_no i w k = block_no i v k \<and> meta i w k = meta i v k \<Longrightarrow> map_blocks i w = map_blocks i v"
  by (simp add: map_blocks_def)

text \<open>
  What a step on the inode at \<open>ip\<close>, whose data blocks are \<open>D\<close>, leaves alone: all other sectors in use, apart from those of the
  free map's file, keep their contents and are not brought into the cache, and so do the other inodes.
\<close>

definition frame :: "inode \<Rightarrow> nat \<Rightarrow> nat set \<Rightarrow> (nat \<Rightarrow> sector) \<Rightarrow> 'd filesys \<Rightarrow> (nat \<Rightarrow> sector) \<Rightarrow> 'd filesys \<Rightarrow> bool" where
  "frame i0 ip D v s w s' \<longleftrightarrow> used (free_map s) \<subseteq> used (free_map s') \<and> map_blocks i0 w = map_blocks i0 v \<and>
     (\<forall>t \<in> used (free_map s) - map_blocks i0 v - D. w t = v t \<and> (t \<in> cached (cells (cache s')) \<longrightarrow> t \<in> cached (cells (cache s)))) \<and>
     open_inodes s' = open_inodes s \<and> files s' = files s \<and> free_map_file s' = free_map_file s \<and>
     (\<forall>q. q \<noteq> ip \<longrightarrow> inodes s' q = inodes s q)"

lemma frame_refl: "frame i0 ip D v s v s"
  by (simp add: frame_def)

lemma frame_used: "frame i0 ip D v s w s' \<Longrightarrow> used (free_map s) \<subseteq> used (free_map s') \<and> map_blocks i0 w = map_blocks i0 v"
  by (simp add: frame_def)

lemma frame_trans:
  assumes "frame i0 ip D v s w s'" "frame i0 ip D' w s' x s''" "D' \<inter> used (free_map s) \<subseteq> D"
  shows "frame i0 ip D v s x s''"
  unfolding frame_def
proof (intro conjI ballI)
  fix t assume t: "t \<in> used (free_map s) - map_blocks i0 v - D"
  then have "t \<in> used (free_map s') - map_blocks i0 w - D'"
    using assms(3) frame_used [OF assms(1)] by auto
  then show "x t = v t" "t \<in> cached (cells (cache s'')) \<longrightarrow> t \<in> cached (cells (cache s))"
    using assms(1,2) t by (simp_all add: frame_def)
qed (use assms(1,2) in \<open>auto simp: frame_def\<close>)

lemma frame_set_inode [simp]: "frame i0 ip D v s w (set_inode ip i s') = frame i0 ip D v s w s'"
  by (simp add: frame_def set_inode_def)

lemma frame_from_set_inode [simp]: "frame i0 ip D v (set_inode ip i s) w s' = frame i0 ip D v s w s'"
  by (simp add: frame_def set_inode_def)

text \<open>
  The same with what becomes of the inode itself: it gets only sectors that were free, and keeps the fields that do not say
  where its data are.
\<close>

definition inode_step :: "nat \<Rightarrow> inode \<Rightarrow> nat \<Rightarrow> inode \<Rightarrow> (nat \<Rightarrow> sector) \<Rightarrow> 'd filesys \<Rightarrow> inode \<Rightarrow> (nat \<Rightarrow> sector) \<Rightarrow> 'd filesys \<Rightarrow> bool" where
  "inode_step n i0 ip i v s i' w s' \<longleftrightarrow> frame i0 ip (set (data_blocks i)) v s w s' \<and>
     set (data_blocks i') \<inter> used (free_map s) \<subseteq> set (data_blocks i) \<and> set (ptrs i') \<subseteq> set (ptrs i) \<union> {..<n} \<and>
     inumber i' = inumber i \<and> is_dir i' = is_dir i \<and> parent i' = parent i \<and> open_cnt i' = open_cnt i \<and> removed i' = removed i \<and>
     deny_write_cnt i' = deny_write_cnt i \<and> indirect_blk_idx i' = indirect_blk_idx i \<and> double_indirect_blk_idx i' = double_indirect_blk_idx i"

lemma inode_step_refl: "inode_step n i0 ip i v s i v s"
  by (simp add: inode_step_def frame_refl)

lemma inode_step_trans:
  assumes a: "inode_step n i0 ip i v s i' w s'" and b: "inode_step n i0 ip i' w s' i'' x s''"
  shows "inode_step n i0 ip i v s i'' x s''"
proof -
  have f: "frame i0 ip (set (data_blocks i)) v s w s'" "frame i0 ip (set (data_blocks i')) w s' x s''"
      "set (data_blocks i') \<inter> used (free_map s) \<subseteq> set (data_blocks i)" "set (data_blocks i'') \<inter> used (free_map s') \<subseteq> set (data_blocks i')"
    using a b by (simp_all add: inode_step_def)
  have "set (data_blocks i'') \<inter> used (free_map s) \<subseteq> set (data_blocks i)" using f(3,4) frame_used [OF f(1)] by blast
  then show ?thesis using frame_trans [OF f(1-3)] a b by (auto simp: inode_step_def)
qed

text \<open>Data of other files may change.\<close>

lemma fs_inv_data:
  assumes inv: "fs_inv os n ok view ip0 i0 v s" and s': "only_cache s s'" "cache_rel os n ok view (\<lambda>_. 0) w (cache s')"
    and w: "\<forall>t. t \<notin> B \<longrightarrow> w t = v t" and B: "B \<subseteq> used (free_map s) - map_blocks i0 v"
    and c: "cached (cells (cache s')) \<subseteq> cached (cells (cache s)) \<union> B"
  shows "fs_inv os n ok view ip0 i0 w s'" "map_blocks i0 w = map_blocks i0 v"
proof -
  let ?nb = "bytes_to_sectors (ilength i0)"
  have same: "block_no i0 w k = block_no i0 v k \<and> meta i0 w k = meta i0 v k" if "k < ?nb" for k
    using w B that by (intro block_no_cong) (auto simp: map_blocks_def)
  then show mb: "map_blocks i0 w = map_blocks i0 v" by (intro map_blocks_cong) blast
  have "layout_ok n v i0 ?nb" using inv by (auto simp: fs_inv_def map_file_ok_def file_ok_def data_rel_def)
  then have lay: "layout_ok n w i0 ?nb" using same unfolding layout_ok_def inj_on_def by auto
  have "meta i0 w k \<inter> cached (cells (cache s')) = {}" if "k < ?nb" for k
  proof -
    have "meta i0 v k \<inter> cached (cells (cache s)) = {}" "meta i0 v k \<subseteq> map_blocks i0 v"
      using inv that by (auto simp: fs_inv_def map_file_ok_def file_ok_def data_rel_def map_blocks_def)
    then show ?thesis using same [OF that] B c by blast
  qed
  then have "file_ok os n ok view ip0 i0 w s'"
    using inv lay s' by (auto simp: fs_inv_def map_file_ok_def file_ok_def data_rel_def only_cache_simps)
  moreover have "byte_at i0 w p = byte_at i0 v p" if p: "p < ilength i0" for p
  proof -
    have "block_no i0 v (p div 512) \<in> map_blocks i0 v" using bytes_to_sectors_gt [OF p] by (auto simp: map_blocks_def)
    then have "w (block_no i0 v (p div 512)) = v (block_no i0 v (p div 512))" using w B by blast
    then show ?thesis using same [OF bytes_to_sectors_gt [OF p]] by (simp add: byte_at_def)
  qed
  then have "file_bytes i0 w (ilength i0) = file_bytes i0 v (ilength i0)" by (simp add: file_bytes_def)
  moreover have "cached (cells (cache s')) \<subseteq> used (free_map s)" using c B inv by (auto simp: fs_inv_def)
  ultimately show "fs_inv os n ok view ip0 i0 w s'"
    using inv same s'(1) by (auto simp: fs_inv_def map_file_ok_def only_cache_simps)
qed

lemma plain_data_rel:
  assumes inv: "fs_inv os n ok view ip0 i0 v s" and i: "ilength i \<le> 5120" "length (ptrs i) = 21"
    and d: "distinct (data_blocks i)" "set (data_blocks i) \<subseteq> used (free_map s)"
  shows "data_rel os n ok view v i (bytes_to_sectors (ilength i)) s"
proof -
  let ?nb = "bytes_to_sectors (ilength i)"
  have nb: "?nb \<le> 10" using i(1) by (rule bytes_to_sectors_10)
  note b = direct_block [OF _ nb]
  have m: "ptrs i ! k \<in> set (data_blocks i)" if "k < ?nb" for k
    using that nb i(2) by (auto simp: data_blocks_def in_set_conv_nth intro!: exI [of _ k])
  have "ptrs i ! k < n" if "k < ?nb" for k using m [OF that] d(2) fs_inv_used [OF inv] by auto
  moreover have "inj_on (block_no i v) {..<?nb}"
  proof (rule inj_onI)
    fix x y assume a: "x \<in> {..<?nb}" "y \<in> {..<?nb}" "block_no i v x = block_no i v y"
    then show "x = y" using nth_eq_iff_index_eq [OF d(1), of x y] nb i(2) by (simp add: b(1) data_blocks_def)
  qed
  ultimately have "layout_ok n v i ?nb" using nb i(2) by (simp add: layout_ok_def b inode_consts)
  then show ?thesis using fs_inv_cache_rel [OF inv] by (simp add: data_rel_def b)
qed

context block_driver
begin

lemma fs_inv_set_inode:
  assumes "fs_inv os n ok view ip0 i0 v s" "ip \<noteq> ip0"
  shows "fs_inv os n ok view ip0 i0 v (set_inode ip i s)"
  by (rule fs_inv_cong [OF assms(1)]) (use assms fs_inv_cache_rel in \<open>auto simp: set_inode_def\<close>)

text \<open>Growing within the direct blocks.\<close>

lemma inode_grow_ok:
  assumes f: "plain_file os n ok view ip0 i0 ip i v s" and l: "ilength i < len" "len \<le> 5120"
    and room: "bytes_to_sectors len - bytes_to_sectors (ilength i) \<le> card ({..<n} - used (free_map s))"
  obtains s1 i1 w where "inode_grow junk i len s = Some (s1, i1, len)"
    "plain_file os n ok view ip0 i0 ip (i1\<lparr>ilength := len, read_length := len\<rparr>) w (set_inode ip (i1\<lparr>ilength := len, read_length := len\<rparr>) s1)"
    "\<forall>p < len. byte_at i1 w p = (if p < ilength i then byte_at i v p else 0)" "deny_write_cnt i1 = deny_write_cnt i"
    "card ({..<n} - used (free_map s1)) + bytes_to_sectors len = card ({..<n} - used (free_map s)) + bytes_to_sectors (ilength i)"
    "inumber i1 = inumber i" "same_files s s1" "frame i0 ip {} v s w s1" "is_dir i1 = is_dir i" "parent i1 = parent i"
    "set (data_blocks (i1\<lparr>ilength := len, read_length := len\<rparr>)) \<inter> used (free_map s) \<subseteq> set (data_blocks i)" "open_cnt i1 = open_cnt i" "removed i1 = removed i"
    "indirect_blk_idx i1 = indirect_blk_idx i" "double_indirect_blk_idx i1 = double_indirect_blk_idx i" "set (ptrs i1) \<subseteq> set (ptrs i) \<union> {..<n}"
proof (cases "bytes_to_sectors len = bytes_to_sectors (ilength i)")
  case True
  let ?i = "i\<lparr>ilength := len, read_length := len\<rparr>"
  have g: "inode_grow junk i len s = Some (s, i, len)" using True by (simp add: inode_grow_def)
  have pf: "plain_file os n ok view ip0 i0 ip ?i v (set_inode ip ?i s)"
    using f l True fs_inv_set_inode [of ip0 i0 v s ip ?i]
    by (auto simp: plain_file_def) (auto simp: set_inode_def data_blocks_def)
  have "byte_at i v p = (if p < ilength i then byte_at i v p else 0)" if "p < len" for p
    using f that bytes_to_sectors_ge [of len] True by (auto simp: plain_file_def)
  then show thesis by (intro that [OF g pf]) (use True in \<open>auto simp: same_files_def frame_refl data_blocks_def\<close>)
next
  case False
  let ?d = "bytes_to_sectors (ilength i)" let ?k = "bytes_to_sectors len - ?d"
  have d: "?d < bytes_to_sectors len" "bytes_to_sectors len \<le> 10"
    using False bytes_to_sectors_mono [of "ilength i" len] l bytes_to_sectors_10 by auto
  have inv: "fs_inv os n ok view ip0 i0 v s" and p: "length (ptrs i) = 21" "direct_blk_idx i = ?d" "distinct (data_blocks i)"
      "set (data_blocks i) \<subseteq> used (free_map s) - map_blocks i0 v" "ip \<noteq> ip0" "inodes s ip = Some i"
      and z: "\<forall>p. ilength i \<le> p \<and> p < ?d * 512 \<longrightarrow> byte_at i v p = 0"
    using f by (auto simp: plain_file_def)
  obtain s1 i1 w secs where a: "map_alloc i ?k s = Some (s1, i1, 0)" "fs_inv os n ok view ip0 i0 w s1" "same_files s s1"
      "length secs = ?k" "distinct secs" "set secs \<subseteq> {..<n} - used (free_map s)" "used (free_map s1) = set secs \<union> used (free_map s)"
      "\<forall>t \<in> set secs. w t = zeros" "\<forall>t. t \<notin> set secs \<longrightarrow> (\<forall>k < bytes_to_sectors (ilength i0). t \<noteq> block_no i0 v k) \<longrightarrow> w t = v t"
      "\<forall>j < bytes_to_sectors (ilength i0). block_no i0 w j = block_no i0 v j \<and> meta i0 w j = meta i0 v j"
      and cc: "cached (cells (cache s1)) \<subseteq> cached (cells (cache s)) \<union> block_no i0 v ` {..<bytes_to_sectors (ilength i0)}"
      and i1: "i1 = i\<lparr>direct_blk_idx := ?d + ?k, ptrs := take ?d (ptrs i) @ secs @ drop (?d + ?k) (ptrs i)\<rparr>"
    using map_alloc_ok [OF inv, of i ?k] d p(1,2) room by auto
  have g: "inode_grow junk i len s = Some (s1, i1, len)" using a(1) d(1) by (simp add: inode_grow_def)
  let ?i = "i1\<lparr>ilength := len, read_length := len\<rparr>"
  have mb: "map_blocks i0 w = map_blocks i0 v" by (rule map_blocks_cong [OF a(10)])
  have db: "data_blocks ?i = data_blocks i @ secs" using a(4) i1 d p(1) by (simp add: data_blocks_def)
  have fr: "frame i0 ip {} v s w s1"
    using a(3,6,7,9) cc mb by (auto simp: frame_def same_files_def map_blocks_def)
  have dj: "set secs \<inter> used (free_map s) = {}" using a(6) by auto
  have bn: "block_no i1 w k = (if k < ?d then ptrs i ! k else secs ! (k - ?d))" if "k < bytes_to_sectors len" for k
    using that d a(4) i1 p(1) diff_less_mono [of k "bytes_to_sectors len" ?d] by (simp add: block_no_def nth_append)
  have old: "w (ptrs i ! k) = v (ptrs i ! k)" if k: "k < ?d" for k
  proof -
    have "ptrs i ! k \<in> set (data_blocks i)" using k d p(1) by (auto simp: data_blocks_def in_set_conv_nth intro!: exI [of _ k])
    then have "ptrs i ! k \<notin> set secs" "ptrs i ! k \<notin> map_blocks i0 v" using p(4) dj by auto
    then show ?thesis using a(9) by (auto simp: map_blocks_def)
  qed
  have by_ok: "byte_at i1 w p = (if p < ilength i then byte_at i v p else 0)" if q: "p < bytes_to_sectors len * 512" for p
  proof (cases "p div 512 < ?d")
    case True
    then have "byte_at i1 w p = byte_at i v p" using bn [of "p div 512"] old d by (simp add: byte_at_def block_no_def)
    then show ?thesis using z True by (auto simp: div_less_iff_less_mult)
  next
    case nk: False
    have k: "p div 512 < bytes_to_sectors len" using q by (simp add: div_less_iff_less_mult)
    have "secs ! (p div 512 - ?d) \<in> set secs" using nk k a(4) by simp
    then have "byte_at i1 w p = 0" using bn [OF k] nk a(8) by (simp add: byte_at_def zeros_def)
    moreover have "\<not> p < ilength i" using nk bytes_to_sectors_gt [of p "ilength i"] by auto
    ultimately show ?thesis by simp
  qed
  have pf: "plain_file os n ok view ip0 i0 ip ?i w (set_inode ip ?i s1)"
    unfolding plain_file_def db mb same_ptrs
  proof (intro conjI allI impI)
    show "distinct (data_blocks i @ secs)" using p(3,4) a(5) dj by auto
    show "set (data_blocks i @ secs) \<subseteq> used (free_map (set_inode ip ?i s1)) - map_blocks i0 v"
      using p(4) a(7) dj fs_inv_map_blocks [OF inv] by (auto simp: set_inode_def)
    show "length (ptrs ?i) = 21" using a(4) i1 d p(1) by simp
    show "fs_inv os n ok view ip0 i0 w (set_inode ip ?i s1)" by (rule fs_inv_set_inode [OF a(2) p(5)])
  qed (use l p(5) d i1 by_ok in \<open>auto simp: set_inode_def\<close>)
  have "{..<n} - used (free_map s1) = ({..<n} - used (free_map s)) - set secs" using a(7) by auto
  then have cd: "card ({..<n} - used (free_map s1)) = card ({..<n} - used (free_map s)) - ?k"
    using a(4-6) by (simp add: card_Diff_subset distinct_card)
  show thesis
  proof (rule that [OF g pf])
    show "\<forall>p<len. byte_at i1 w p = (if p < ilength i then byte_at i v p else 0)"
      using by_ok bytes_to_sectors_ge [of len] by auto
    show "set (ptrs i1) \<subseteq> set (ptrs i) \<union> {..<n}"
      using a(6) set_take_subset [of ?d "ptrs i"] set_drop_subset [of "?d + ?k" "ptrs i"] by (auto simp: i1)
    show "set (data_blocks ?i) \<inter> used (free_map s) \<subseteq> set (data_blocks i)" unfolding db using dj by auto
  qed (use a i1 cd d room fr in auto)
qed

text \<open>Writing within the file; \<open>i\<close> is the inode before its \<^verbatim>\<open>read_length\<close> is brought up to date.\<close>

lemma write_within:
  assumes j: "j = i\<lparr>read_length := ilength i\<rparr>" and f: "plain_file os n ok view ip0 i0 ip j v (set_inode ip j s)"
    and l: "offset + length bs \<le> ilength i"
  obtains s' w where "write_loop i bs offset s = Some (s', length bs)" "plain_file os n ok view ip0 i0 ip j w (set_inode ip j s')"
    "only_cache s s'" "frame i0 ip (set (data_blocks j)) v s w s'"
    "\<forall>p < ilength i. byte_at j w p = (if offset \<le> p \<and> p < offset + length bs then bs ! (p - offset) else byte_at j v p)"
proof -
  let ?nb = "bytes_to_sectors (ilength i)" let ?s = "set_inode ip j s"
  have inv: "fs_inv os n ok view ip0 i0 v ?s" and p: "ilength j \<le> 5120" "length (ptrs j) = 21" "direct_blk_idx j = ?nb"
      "distinct (data_blocks j)" "set (data_blocks j) \<subseteq> used (free_map ?s) - map_blocks i0 v"
      and z: "\<forall>p. ilength i \<le> p \<and> p < ?nb * 512 \<longrightarrow> byte_at j v p = 0"
    using f j by (auto simp: plain_file_def)
  have nb: "?nb \<le> 10" using p(1) j bytes_to_sectors_10 by simp
  have bb: "byte_at i = byte_at j" "block_no i = block_no j" "meta i = meta j" by (simp_all add: j)
  have "data_rel os n ok view v j ?nb ?s"
    using plain_data_rel [OF inv p(1,2,4)] p(5) j by auto
  then have r: "data_rel os n ok view v i ?nb s"
    by (simp add: data_rel_def layout_ok_def bb set_inode_def) (simp add: j)
  obtain s' w where w: "write_loop i bs offset s = Some (s', length bs)" "data_rel os n ok view w i ?nb s'" "only_cache s s'"
      "\<forall>p < ?nb * 512. byte_at i w p = (if offset \<le> p \<and> p < offset + length bs then bs ! (p - offset) else byte_at i v p)"
      "\<forall>t. (\<forall>k < ?nb. t \<noteq> block_no i v k) \<longrightarrow> w t = v t"
      "cached (cells (cache s')) \<subseteq> cached (cells (cache s)) \<union> block_no i v ` {..<?nb}"
    using write_loop_ok [OF r l order_refl] by blast
  have B: "block_no i v ` {..<?nb} = set (data_blocks j)" using data_blocks_image [OF p(1,2)] by (simp add: bb) (simp add: j)
  have oc: "only_cache ?s (set_inode ip j s')"
    using only_cache_simps [OF w(3)] w(3) by (simp add: only_cache_def set_inode_def)
  have "cache_rel os n ok view (\<lambda>_. 0) w (cache (set_inode ip j s'))" using w(2) by (simp add: data_rel_def set_inode_def)
  note cr = this
  have a1: "\<forall>t. t \<notin> set (data_blocks j) \<longrightarrow> w t = v t" using w(5) unfolding B [symmetric] by blast
  have a2: "cached (cells (cache (set_inode ip j s'))) \<subseteq> cached (cells (cache ?s)) \<union> set (data_blocks j)"
    using w(6) unfolding B by (simp add: set_inode_def)
  note inv' = fs_inv_data [OF inv oc cr a1 p(5) a2]
  have by_ok: "byte_at j w q = (if offset \<le> q \<and> q < offset + length bs then bs ! (q - offset) else byte_at j v q)" if "q < ?nb * 512" for q
    using w(4) that by (simp add: bb)
  have fm: "free_map s' = free_map s" using only_cache_simps [OF w(3)] by simp
  have "plain_file os n ok view ip0 i0 ip j w (set_inode ip j s')"
    unfolding plain_file_def inv'(2)
  proof (intro conjI allI impI)
    fix q assume "ilength j \<le> q \<and> q < bytes_to_sectors (ilength j) * 512"
    then show "byte_at j w q = 0" using by_ok [of q] z l j by auto
  qed (use f inv'(1) in \<open>auto simp: plain_file_def set_inode_def fm\<close>)
  moreover have "frame i0 ip (set (data_blocks j)) v s w s'"
    using a1 a2 inv'(2) only_cache_simps [OF w(3)] unfolding frame_def set_inode_def by auto
  ultimately show thesis
    using that [OF w(1) _ w(3)] by_ok bytes_to_sectors_ge [of "ilength i"] by (meson less_le_trans)
qed

lemma inode_write_frame:
  assumes f: "plain_file os n ok view ip0 i0 ip i v s" and d: "deny_write_cnt i = 0" and l: "offset + length bs \<le> 5120"
    and room: "bytes_to_sectors (offset + length bs) - bytes_to_sectors (ilength i) \<le> card ({..<n} - used (free_map s))"
  obtains s' i' w where "inode_write_at junk ip bs offset s = Some (s', length bs)" "plain_file os n ok view ip0 i0 ip i' w s'"
    "file_bytes i' w (ilength i') = extend_write offset bs (file_bytes i v (ilength i))" "deny_write_cnt i' = 0"
    "ilength i' = max (ilength i) (offset + length bs)"
    "card ({..<n} - used (free_map s')) + bytes_to_sectors (ilength i') = card ({..<n} - used (free_map s)) + bytes_to_sectors (ilength i)"
    "files s' = files s" "inumber i' = inumber i"
    "inode_step n i0 ip i v s i' w s'"
proof -
  let ?len = "max (ilength i) (offset + length bs)"
  have ip: "inodes s ip = Some i" using f by (simp add: plain_file_def)
  define grown where "grown = (if offset + length bs > ilength i then do {
      (s, i, len) \<leftarrow> inode_grow junk i (offset + length bs) s;
      let i = i\<lparr>ilength := len\<rparr>;
      Some (set_inode ip i s, i) } else Some (s, i))"
  obtain s1 i1 w where g: "grown = Some (set_inode ip i1 s1, i1)" "ilength i1 = ?len"
      "plain_file os n ok view ip0 i0 ip (i1\<lparr>read_length := ?len\<rparr>) w (set_inode ip (i1\<lparr>read_length := ?len\<rparr>) s1)"
      "\<forall>p < ?len. byte_at i1 w p = (if p < ilength i then byte_at i v p else 0)" "deny_write_cnt i1 = 0" "inumber i1 = inumber i"
      "card ({..<n} - used (free_map s1)) + bytes_to_sectors ?len = card ({..<n} - used (free_map s)) + bytes_to_sectors (ilength i)"
      "files s1 = files s" "frame i0 ip {} v s w s1" "set (data_blocks (i1\<lparr>read_length := ?len\<rparr>)) \<inter> used (free_map s) \<subseteq> set (data_blocks i)"
      "is_dir i1 = is_dir i" "parent i1 = parent i" "open_cnt i1 = open_cnt i" "removed i1 = removed i"
      "indirect_blk_idx i1 = indirect_blk_idx i" "double_indirect_blk_idx i1 = double_indirect_blk_idx i" "set (ptrs i1) \<subseteq> set (ptrs i) \<union> {..<n}"
  proof (cases "offset + length bs > ilength i")
    case True
    have mx: "?len = offset + length bs" using True by simp
    show thesis
    proof (rule inode_grow_ok [OF f True l room, of junk])
      fix s1 i1 w
      assume a: "inode_grow junk i (offset + length bs) s = Some (s1, i1, offset + length bs)"
        "plain_file os n ok view ip0 i0 ip (i1\<lparr>ilength := offset + length bs, read_length := offset + length bs\<rparr>) w
           (set_inode ip (i1\<lparr>ilength := offset + length bs, read_length := offset + length bs\<rparr>) s1)"
        "\<forall>p < offset + length bs. byte_at i1 w p = (if p < ilength i then byte_at i v p else 0)" "deny_write_cnt i1 = deny_write_cnt i"
        "card ({..<n} - used (free_map s1)) + bytes_to_sectors (offset + length bs) =
           card ({..<n} - used (free_map s)) + bytes_to_sectors (ilength i)"
        "inumber i1 = inumber i" "same_files s s1" "frame i0 ip {} v s w s1" "is_dir i1 = is_dir i" "parent i1 = parent i"
        "set (data_blocks (i1\<lparr>ilength := offset + length bs, read_length := offset + length bs\<rparr>)) \<inter> used (free_map s) \<subseteq> set (data_blocks i)"
        "open_cnt i1 = open_cnt i" "removed i1 = removed i"
        "indirect_blk_idx i1 = indirect_blk_idx i" "double_indirect_blk_idx i1 = double_indirect_blk_idx i" "set (ptrs i1) \<subseteq> set (ptrs i) \<union> {..<n}"
      show thesis
        by (rule that [of "i1\<lparr>ilength := ?len\<rparr>" s1 w])
          (use a True d in \<open>simp_all add: grown_def mx same_files_def Let_def\<close>)
    qed
  next
    case False
    have mx: "?len = ilength i" using False by simp
    have si: "set_inode ip i s = s" using ip by (cases s) (simp add: set_inode_def fun_upd_idem)
    have ii: "i\<lparr>read_length := ilength i\<rparr> = i" using f by (cases i) (simp add: plain_file_def)
    show thesis
      by (rule that [of i s v]) (use f d False in \<open>simp_all add: grown_def mx si ii frame_refl\<close>)
  qed
  let ?i = "i1\<lparr>read_length := ?len\<rparr>"
  have si: "set_inode ip ?i (set_inode ip i1 s1) = set_inode ip ?i s1" by (simp add: set_inode_def)
  obtain s2 x where w: "write_loop i1 bs offset (set_inode ip i1 s1) = Some (s2, length bs)"
      "plain_file os n ok view ip0 i0 ip ?i x (set_inode ip ?i s2)" "only_cache (set_inode ip i1 s1) s2"
      "frame i0 ip (set (data_blocks ?i)) w (set_inode ip i1 s1) x s2"
      and wb: "\<forall>p < ilength i1. byte_at ?i x p = (if offset \<le> p \<and> p < offset + length bs then bs ! (p - offset) else byte_at ?i w p)"
    by (rule write_within [of ?i i1 ip0 i0 ip w "set_inode ip i1 s1" offset bs]) (use g(2,3) si in auto)
  have "inode_write_at junk ip bs offset s = do {
      (s, i) \<leftarrow> grown;
      (s, bytes_written) \<leftarrow> write_loop i bs offset s;
      Some (set_inode ip (i\<lparr>read_length := ilength i\<rparr>) s, bytes_written) }"
    using ip d by (simp add: inode_write_at_def write_at_by_def grown_def inode_length_def Let_def)
  then have "inode_write_at junk ip bs offset s = Some (set_inode ip ?i s2, length bs)"
    using g(1,2) w(1) by simp
  moreover have "file_bytes ?i x ?len = extend_write offset bs (file_bytes i v (ilength i))"
  proof (rule nth_equalityI)
    fix p assume "p < length (file_bytes ?i x ?len)"
    then have p: "p < ?len" by simp
    have "byte_at ?i x p = (if offset \<le> p \<and> p < offset + length bs then bs ! (p - offset)
        else if p < ilength i then byte_at i v p else 0)"
      using wb g(4) p unfolding g(2) by simp
    then show "file_bytes ?i x ?len ! p = extend_write offset bs (file_bytes i v (ilength i)) ! p"
      using p by (subst nth_extend_write) (simp_all add: file_bytes_def)
  qed (simp add: length_extend_write)
  moreover have "free_map s2 = free_map s1" "files s2 = files s1"
    using only_cache_simps [OF w(3)] by (simp_all add: set_inode_def)
  moreover have "inode_step n i0 ip i v s ?i x (set_inode ip ?i s2)"
  proof -
    have "frame i0 ip (set (data_blocks i)) v s w s1" using g(9) by (auto simp: frame_def)
    moreover have "frame i0 ip (set (data_blocks ?i)) w s1 x s2" using w(4) by simp
    ultimately have "frame i0 ip (set (data_blocks i)) v s x s2" using g(10) by (rule frame_trans)
    then show ?thesis using g(5,6,10-) d by (simp add: inode_step_def)
  qed
  ultimately show thesis
    by (intro that [of "set_inode ip ?i s2" ?i x]) (use w(2) g d in \<open>simp_all add: set_inode_def\<close>)
qed

lemma inode_write_ok:
  assumes f: "plain_file os n ok view ip0 i0 ip i v s" and d: "deny_write_cnt i = 0" and l: "offset + length bs \<le> 5120"
    and room: "bytes_to_sectors (offset + length bs) - bytes_to_sectors (ilength i) \<le> card ({..<n} - used (free_map s))"
  obtains s' i' w where "inode_write_at junk ip bs offset s = Some (s', length bs)" "plain_file os n ok view ip0 i0 ip i' w s'"
    "file_bytes i' w (ilength i') = extend_write offset bs (file_bytes i v (ilength i))" "deny_write_cnt i' = 0"
    "ilength i' = max (ilength i) (offset + length bs)"
    "card ({..<n} - used (free_map s')) + bytes_to_sectors (ilength i') = card ({..<n} - used (free_map s)) + bytes_to_sectors (ilength i)"
    "files s' = files s" "inumber i' = inumber i"
  by (rule inode_write_frame [OF assms]) (rule that)

end

end
