(* ===== verification/File.thy ===== *)
theory File
  imports Inode_Write
begin

section \<open>Open files (filesys/file.c, filesys/free-map.c)\<close>

text \<open>
  The operations on open files and, on top of them, the free map's own file. A file is known by its
  address; \<open>calloc\<close> gives the address of a new one, \<open>0\<close> when memory runs out. A \<^verbatim>\<open>PANIC\<close> is
  \<open>None\<close>. The theorem is about everything below: \<^verbatim>\<open>file.c\<close>, \<^verbatim>\<open>inode.c\<close>, the free map and its
  bitmap, the buffer cache and the block layer together implement an array of bytes with a position.
\<close>

definition set_file :: "nat \<Rightarrow> open_file \<Rightarrow> 'd filesys \<Rightarrow> 'd filesys" where
  "set_file fp f s = s\<lparr>files := (files s)(fp \<mapsto> f)\<rparr>"

definition file_open :: "('d filesys \<Rightarrow> nat) \<Rightarrow> nat \<Rightarrow> 'd filesys \<Rightarrow> ('d filesys \<times> nat) option" where
  "file_open calloc ip s =
     (let fp = calloc s in
      if ip \<noteq> 0 \<and> fp \<noteq> 0 then Some (set_file fp \<lparr>file_inode = ip, pos = 0, deny_write = False\<rparr> s, fp)
      else do { s \<leftarrow> inode_close ip s; Some (s, 0) })"

definition file_reopen :: "('d filesys \<Rightarrow> nat) \<Rightarrow> nat \<Rightarrow> 'd filesys \<Rightarrow> ('d filesys \<times> nat) option" where
  "file_reopen calloc fp s = do {
     f \<leftarrow> files s fp;
     (s, ip) \<leftarrow> inode_reopen (file_inode f) s;
     file_open calloc ip s }"

definition file_deny_write :: "nat \<Rightarrow> 'd filesys \<Rightarrow> 'd filesys option" where
  "file_deny_write fp s = do {
     _ \<leftarrow> ASSERT (fp \<noteq> 0);
     f \<leftarrow> files s fp;
     if \<not> deny_write f then inode_deny_write (file_inode f) (set_file fp (f\<lparr>deny_write := True\<rparr>) s) else Some s }"

definition file_allow_write :: "nat \<Rightarrow> 'd filesys \<Rightarrow> 'd filesys option" where
  "file_allow_write fp s = do {
     _ \<leftarrow> ASSERT (fp \<noteq> 0);
     f \<leftarrow> files s fp;
     if deny_write f then inode_allow_write (file_inode f) (set_file fp (f\<lparr>deny_write := False\<rparr>) s) else Some s }"

definition file_close :: "nat \<Rightarrow> 'd filesys \<Rightarrow> 'd filesys option" where
  "file_close fp s =
     (if fp \<noteq> 0 then do {
        s \<leftarrow> file_allow_write fp s;
        f \<leftarrow> files s fp;
        s \<leftarrow> inode_close (file_inode f) s;
        Some (s\<lparr>files := (files s)(fp := None)\<rparr>) }
      else Some s)"

definition file_get_inode :: "nat \<Rightarrow> 'd filesys \<Rightarrow> nat option" where
  "file_get_inode fp s = map_option file_inode (files s fp)"

definition file_read :: "nat \<Rightarrow> nat \<Rightarrow> 'd filesys \<Rightarrow> ('d filesys \<times> u8 list) option" where
  "file_read fp sz s = do {
     f \<leftarrow> files s fp;
     (s, bs) \<leftarrow> inode_read_at (file_inode f) sz (pos f) s;
     Some (set_file fp (f\<lparr>pos := pos f + length bs\<rparr>) s, bs) }"

definition file_read_at :: "nat \<Rightarrow> nat \<Rightarrow> nat \<Rightarrow> 'd filesys \<Rightarrow> ('d filesys \<times> u8 list) option" where
  "file_read_at fp sz file_ofs s = do { f \<leftarrow> files s fp; inode_read_at (file_inode f) sz file_ofs s }"

definition file_write :: "nat list \<Rightarrow> nat \<Rightarrow> u8 list \<Rightarrow> 'd filesys \<Rightarrow> ('d filesys \<times> nat) option" where
  "file_write junk fp buffer s = do {
     f \<leftarrow> files s fp;
     (s, bytes_written) \<leftarrow> inode_write_at junk (file_inode f) buffer (pos f) s;
     Some (set_file fp (f\<lparr>pos := pos f + bytes_written\<rparr>) s, bytes_written) }"

definition file_write_at :: "nat list \<Rightarrow> nat \<Rightarrow> u8 list \<Rightarrow> nat \<Rightarrow> 'd filesys \<Rightarrow> ('d filesys \<times> nat) option" where
  "file_write_at junk fp buffer file_ofs s = do {
     f \<leftarrow> files s fp; inode_write_at junk (file_inode f) buffer file_ofs s }"

definition file_length :: "nat \<Rightarrow> 'd filesys \<Rightarrow> nat option" where
  "file_length fp s = do {
     _ \<leftarrow> ASSERT (fp \<noteq> 0);
     f \<leftarrow> files s fp;
     i \<leftarrow> inodes s (file_inode f);
     Some (inode_length i) }"

definition file_seek :: "nat \<Rightarrow> nat \<Rightarrow> 'd filesys \<Rightarrow> 'd filesys option" where
  "file_seek fp new_pos s = do {
     _ \<leftarrow> ASSERT (fp \<noteq> 0);
     f \<leftarrow> files s fp;
     Some (set_file fp (f\<lparr>pos := new_pos\<rparr>) s) }"

definition file_tell :: "nat \<Rightarrow> 'd filesys \<Rightarrow> nat option" where
  "file_tell fp s = do { _ \<leftarrow> ASSERT (fp \<noteq> 0); f \<leftarrow> files s fp; Some (pos f) }"

subsection \<open>The file of the free map\<close>

definition free_map_open :: "('d filesys \<Rightarrow> nat) \<Rightarrow> ('d filesys \<Rightarrow> nat) \<Rightarrow> 'd filesys \<Rightarrow> 'd filesys option" where
  "free_map_open malloc calloc s = do {
     (s, ip) \<leftarrow> inode_open malloc FREE_MAP_SECTOR s;
     (s, fp) \<leftarrow> file_open calloc ip s;
     let s = s\<lparr>free_map_file := fp\<rparr>;
     _ \<leftarrow> ASSERT (fp \<noteq> 0);
     (b, s, ok) \<leftarrow> bitmap_read (\<lambda>s sz ofs. file_read_at fp sz ofs s) (free_map s) s;
     _ \<leftarrow> ASSERT ok;
     Some (s\<lparr>free_map := b\<rparr>) }"

definition free_map_close :: "'d filesys \<Rightarrow> 'd filesys option" where
  "free_map_close s = file_close (free_map_file s) s"

definition free_map_create :: "('d filesys \<Rightarrow> nat) \<Rightarrow> ('d filesys \<Rightarrow> nat) \<Rightarrow> nat list \<Rightarrow> bool \<Rightarrow> 'd filesys \<Rightarrow> 'd filesys option" where
  "free_map_create malloc calloc junk calloc_ok s = do {
     (s, ok) \<leftarrow> inode_create junk calloc_ok FREE_MAP_SECTOR (bitmap_file_size (free_map s)) False s;
     _ \<leftarrow> ASSERT ok;
     (s, ip) \<leftarrow> inode_open malloc FREE_MAP_SECTOR s;
     (s, fp) \<leftarrow> file_open calloc ip s;
     let s = s\<lparr>free_map_file := fp\<rparr>;
     _ \<leftarrow> ASSERT (fp \<noteq> 0);
     (s, ok) \<leftarrow> bitmap_write (\<lambda>s buffer ofs. file_write_at junk fp buffer ofs s) (free_map s) s;
     _ \<leftarrow> ASSERT ok;
     Some s }"

subsection \<open>A file as a stream of bytes\<close>

datatype file_op = File_read nat | File_write "u8 list" | File_seek nat | File_tell | File_length

text \<open>The results of the operations: a number and the bytes read.\<close>

fun file_step :: "nat list \<Rightarrow> nat \<Rightarrow> file_op \<Rightarrow> 'd filesys \<Rightarrow> ('d filesys \<times> nat \<times> u8 list) option" where
  "file_step junk fp (File_read sz) s = do { (s, bs) \<leftarrow> file_read fp sz s; Some (s, length bs, bs) }"
| "file_step junk fp (File_write bs) s = do { (s, k) \<leftarrow> file_write junk fp bs s; Some (s, k, []) }"
| "file_step junk fp (File_seek p) s = do { s \<leftarrow> file_seek fp p s; Some (s, 0, []) }"
| "file_step junk fp File_tell s = do { p \<leftarrow> file_tell fp s; Some (s, p, []) }"
| "file_step junk fp File_length s = do { l \<leftarrow> file_length fp s; Some (s, l, []) }"

primrec run_file :: "nat list \<Rightarrow> nat \<Rightarrow> file_op list \<Rightarrow> 'd filesys \<Rightarrow> ('d filesys \<times> (nat \<times> u8 list) list) option" where
  "run_file junk fp [] s = Some (s, [])"
| "run_file junk fp (x # xs) s = do {
     (s, out) \<leftarrow> file_step junk fp x s;
     (s, outs) \<leftarrow> run_file junk fp xs s;
     Some (s, out # outs) }"

text \<open>The same on a list of bytes and a position.\<close>

fun bytes_step :: "file_op \<Rightarrow> u8 list \<times> nat \<Rightarrow> (u8 list \<times> nat) \<times> nat \<times> u8 list" where
  "bytes_step (File_read sz) (d, p) = (let bs = take sz (drop p d) in ((d, p + length bs), length bs, bs))"
| "bytes_step (File_write bs) (d, p) = ((extend_write p bs d, p + length bs), length bs, [])"
| "bytes_step (File_seek q) (d, p) = ((d, q), 0, [])"
| "bytes_step File_tell (d, p) = ((d, p), p, [])"
| "bytes_step File_length (d, p) = ((d, p), length d, [])"

primrec run_bytes :: "file_op list \<Rightarrow> u8 list \<times> nat \<Rightarrow> (u8 list \<times> nat) \<times> (nat \<times> u8 list) list" where
  "run_bytes [] st = (st, [])"
| "run_bytes (x # xs) st = (let (st, out) = bytes_step x st; (st, outs) = run_bytes xs st in (st, out # outs))"

text \<open>The writes of the run stay within \<open>m\<close> sectors.\<close>

primrec writes_within :: "nat \<Rightarrow> file_op list \<Rightarrow> u8 list \<times> nat \<Rightarrow> bool" where
  "writes_within m [] st = True"
| "writes_within m (x # xs) st =
     ((case x of File_write bs \<Rightarrow> snd st + length bs \<le> m * 512 | _ \<Rightarrow> True) \<and> writes_within m xs (fst (bytes_step x st)))"

definition stream_ok :: "'d block_operations \<Rightarrow> nat \<Rightarrow> ('d \<Rightarrow> bool) \<Rightarrow> ('d \<Rightarrow> nat \<Rightarrow> sector) \<Rightarrow>
    nat \<Rightarrow> inode \<Rightarrow> nat \<Rightarrow> nat \<Rightarrow> nat \<Rightarrow> u8 list \<times> nat \<Rightarrow> 'd filesys \<Rightarrow> bool" where
  "stream_ok os n ok view ip0 i0 m fp ip st s \<longleftrightarrow>
     (\<exists>i v f. plain_file os n ok view ip0 i0 ip i v s \<and> deny_write_cnt i = 0 \<and> files s fp = Some f \<and> file_inode f = ip \<and>
        st = (file_bytes i v (ilength i), pos f) \<and> m \<le> card ({..<n} - used (free_map s)) + bytes_to_sectors (ilength i))"

lemma set_file_plain:
  assumes "plain_file os n ok view ip0 i0 ip i v s" "fp \<noteq> free_map_file s"
  shows "plain_file os n ok view ip0 i0 ip i v (set_file fp f s)"
  using assms by (auto simp: plain_file_def fs_inv_def map_file_ok_def file_ok_def data_rel_def set_file_def)

lemma plain_file_not_map:
  "plain_file os n ok view ip0 i0 ip i v s \<Longrightarrow> files s fp = Some f \<Longrightarrow> file_inode f = ip \<Longrightarrow> fp \<noteq> free_map_file s"
  by (auto simp: plain_file_def fs_inv_def map_file_ok_def)

context block_driver
begin

lemma inode_read_frame:
  assumes f: "plain_file os n ok view ip0 i0 ip i v s"
  obtains s' where "inode_read_at ip sz offset s = Some (s', take sz (drop offset (file_bytes i v (ilength i))))"
    "plain_file os n ok view ip0 i0 ip i v s'" "only_cache s s'" "frame i0 ip (set (data_blocks i)) v s v s'"
proof -
  let ?nb = "bytes_to_sectors (ilength i)"
  have inv: "fs_inv os n ok view ip0 i0 v s" and p: "ilength i \<le> 5120" "length (ptrs i) = 21" "distinct (data_blocks i)"
      "set (data_blocks i) \<subseteq> used (free_map s) - map_blocks i0 v" "inodes s ip = Some i" "read_length i = ilength i"
    using f by (auto simp: plain_file_def)
  have "file_ok os n ok view ip i v s" using plain_data_rel [OF inv p(1-3)] p(4-6) by (auto simp: file_ok_def)
  then obtain s' where s': "inode_read_at ip sz offset s = Some (s', take sz (drop offset (file_bytes i v (ilength i))))"
      "file_ok os n ok view ip i v s'" "only_cache s s'" "cached (cells (cache s')) \<subseteq> cached (cells (cache s)) \<union> block_no i v ` {..<?nb}"
    using inode_read_at_cached by blast
  have B: "block_no i v ` {..<?nb} = set (data_blocks i)" using data_blocks_image [OF p(1,2)] .
  have "cache_rel os n ok view (\<lambda>_. 0) v (cache s')" using s'(2) by (simp add: file_ok_def data_rel_def)
  then have "fs_inv os n ok view ip0 i0 v s'"
    by (rule fs_inv_data(1) [OF inv s'(3) _ _ p(4)]) (use s'(4) B in auto)
  then have "plain_file os n ok view ip0 i0 ip i v s'"
    using f only_cache_simps [OF s'(3)] by (simp add: plain_file_def)
  moreover have "frame i0 ip (set (data_blocks i)) v s v s'"
    using s'(4) only_cache_simps [OF s'(3)] unfolding frame_def B by auto
  ultimately show thesis using that s'(1,3) by blast
qed

lemma inode_read_plain:
  assumes f: "plain_file os n ok view ip0 i0 ip i v s"
  obtains s' where "inode_read_at ip sz offset s = Some (s', take sz (drop offset (file_bytes i v (ilength i))))"
    "plain_file os n ok view ip0 i0 ip i v s'" "only_cache s s'"
  by (rule inode_read_frame [OF assms]) (rule that)

lemma file_step_ok:
  assumes ok: "stream_ok os n ok view ip0 i0 m fp ip st s" and m: "m \<le> 10" and fp: "fp \<noteq> 0"
    and w: "\<And>bs. x = File_write bs \<Longrightarrow> snd st + length bs \<le> m * 512"
  shows "\<exists>s'. file_step junk fp x s = Some (s', snd (bytes_step x st)) \<and>
    stream_ok os n ok view ip0 i0 m fp ip (fst (bytes_step x st)) s'"
proof -
  obtain i v f where f: "plain_file os n ok view ip0 i0 ip i v s" "deny_write_cnt i = 0" "files s fp = Some f" "file_inode f = ip"
      and st: "st = (file_bytes i v (ilength i), pos f)" and room: "m \<le> card ({..<n} - used (free_map s)) + bytes_to_sectors (ilength i)"
    using ok by (auto simp: stream_ok_def)
  have ip: "inodes s ip = Some i" using f(1) by (simp add: plain_file_def)
  have nm: "fp \<noteq> free_map_file s" by (rule plain_file_not_map [OF f(1,3,4)])
  show ?thesis
  proof (cases x)
    case (File_read sz)
    obtain s' where s': "inode_read_at ip sz (pos f) s = Some (s', take sz (drop (pos f) (file_bytes i v (ilength i))))"
        "plain_file os n ok view ip0 i0 ip i v s'" "only_cache s s'"
      by (rule inode_read_plain [OF f(1)])
    let ?bs = "take sz (drop (pos f) (file_bytes i v (ilength i)))" let ?f = "f\<lparr>pos := pos f + length ?bs\<rparr>"
    have "plain_file os n ok view ip0 i0 ip i v (set_file fp ?f s')"
      by (rule set_file_plain [OF s'(2)]) (use nm only_cache_simps [OF s'(3)] in simp)
    then have "stream_ok os n ok view ip0 i0 m fp ip (fst (bytes_step x st)) (set_file fp ?f s')"
      unfolding stream_ok_def using f(2,4) room only_cache_simps [OF s'(3)]
      by (intro exI [of _ i] exI [of _ v] exI [of _ ?f]) (simp add: File_read st set_file_def Let_def)
    then show ?thesis using s'(1) f(3,4) by (simp add: File_read file_read_def st Let_def)
  next
    case (File_write bs)
    have l: "pos f + length bs \<le> m * 512" using w [OF File_write] st by simp
    then have l2: "pos f + length bs \<le> 5120" using m by linarith
    have "bytes_to_sectors (pos f + length bs) \<le> m" using l by (simp add: bytes_to_sectors_le)
    then have "bytes_to_sectors (pos f + length bs) - bytes_to_sectors (ilength i) \<le> card ({..<n} - used (free_map s))" using room by linarith
    then obtain s' i' w where s': "inode_write_at junk ip bs (pos f) s = Some (s', length bs)" "plain_file os n ok view ip0 i0 ip i' w s'"
        "file_bytes i' w (ilength i') = extend_write (pos f) bs (file_bytes i v (ilength i))" "deny_write_cnt i' = 0"
        "card ({..<n} - used (free_map s')) + bytes_to_sectors (ilength i') = card ({..<n} - used (free_map s)) + bytes_to_sectors (ilength i)"
        "files s' = files s"
      by (rule inode_write_ok [OF f(1,2) l2])
    let ?f = "f\<lparr>pos := pos f + length bs\<rparr>"
    have "plain_file os n ok view ip0 i0 ip i' w (set_file fp ?f s')"
      by (rule set_file_plain [OF s'(2)]) (use plain_file_not_map [OF s'(2), of fp f] s'(6) f(3,4) in simp)
    then have "stream_ok os n ok view ip0 i0 m fp ip (fst (bytes_step x st)) (set_file fp ?f s')"
      unfolding stream_ok_def using f(4) room s'(3-5)
      by (intro exI [of _ i'] exI [of _ w] exI [of _ ?f]) (simp add: File_write st set_file_def)
    then show ?thesis using s'(1) f(3,4) by (simp add: File_write file_write_def st)
  next
    case (File_seek p)
    have "plain_file os n ok view ip0 i0 ip i v (set_file fp (f\<lparr>pos := p\<rparr>) s)" by (rule set_file_plain [OF f(1) nm])
    then have "stream_ok os n ok view ip0 i0 m fp ip (fst (bytes_step x st)) (set_file fp (f\<lparr>pos := p\<rparr>) s)"
      unfolding stream_ok_def using f(2,4) room
      by (intro exI [of _ i] exI [of _ v] exI [of _ "f\<lparr>pos := p\<rparr>"]) (simp add: File_seek st set_file_def)
    then show ?thesis using f(3) fp by (simp add: File_seek file_seek_def st)
  next
    case File_tell
    then show ?thesis using ok f(3) fp by (simp add: file_tell_def st)
  next
    case File_length
    then show ?thesis using ok f(3,4) ip fp by (simp add: file_length_def inode_length_def st)
  qed
qed

lemma run_file_ok:
  assumes m: "m \<le> 10" and fp: "fp \<noteq> 0"
  shows "stream_ok os n ok view ip0 i0 m fp ip st s \<Longrightarrow> writes_within m xs st \<Longrightarrow>
    \<exists>s'. run_file junk fp xs s = Some (s', snd (run_bytes xs st)) \<and>
      stream_ok os n ok view ip0 i0 m fp ip (fst (run_bytes xs st)) s'"
proof (induction xs arbitrary: st s)
  case (Cons x xs)
  have "snd st + length bs \<le> m * 512" if "x = File_write bs" for bs using Cons.prems(2) that by simp
  then obtain s1 where s1: "file_step junk fp x s = Some (s1, snd (bytes_step x st))"
      "stream_ok os n ok view ip0 i0 m fp ip (fst (bytes_step x st)) s1"
    using file_step_ok [OF Cons.prems(1) m fp, of x junk] by blast
  obtain s2 where "run_file junk fp xs s1 = Some (s2, snd (run_bytes xs (fst (bytes_step x st))))"
      "stream_ok os n ok view ip0 i0 m fp ip (fst (run_bytes xs (fst (bytes_step x st)))) s2"
    using Cons.IH [OF s1(2)] Cons.prems(2) by auto
  then show ?case using s1(1) by (auto split: prod.splits)
qed simp

end


lemma sample_plain: "plain_file ram_disk 8 (ram_disk_ok 8) (\<lambda>d. d) 256 (sample_inode 0 4 [2]) 768 (sample_inode 3 600 [4, 5])
    (sample_disk 0x3f) (sample_fs 0x3f)"
proof -
  let ?i = "sample_inode 3 600 [4, 5]"
  have b: "bytes_to_sectors 600 = 2" "bytes_to_sectors 4 = 1" by (simp_all add: bytes_to_sectors_def DIV_ROUND_UP_def)
  have i: "ilength ?i = 600" "data_blocks ?i = [4, 5]" "direct_blk_idx ?i = 2" "length (ptrs ?i) = 21" "read_length ?i = 600"
    using b by (simp_all add: sample_inode_def data_blocks_def)
  have il: "ilength (sample_inode 0 4 [2]) = 4" by (simp add: sample_inode_def)
  have m: "map_blocks (sample_inode 0 4 [2]) (sample_disk 0x3f) = {2}"
    using sample_block_no [of 0 "[2]" 0 4] by (simp add: map_blocks_def il b lessThan_Suc)
  have "byte_at ?i (sample_disk 0x3f) p = 0" if p: "600 \<le> p" "p < 1024" for p
  proof -
    have "p div 512 = 1" using p by (simp add: div_nat_eqI)
    then show ?thesis using sample_block_no [of 1 "[4, 5]" 3 600] p by (simp add: byte_at_def sample_disk_def)
  qed
  moreover have "inodes (sample_fs 0x3f) 768 = Some ?i" by (simp add: sample_fs_def)
  ultimately show ?thesis using sample_fs_inv by (simp add: plain_file_def i b m sample_used)
qed

definition sample_stream :: "(nat \<Rightarrow> sector) filesys" where
  "sample_stream = set_file 1280 \<lparr>file_inode = 768, pos = 0, deny_write = False\<rparr> (sample_fs 0x3f)"

lemma sample_free: "card ({..<8} - used (free_map (sample_fs 0x3f))) = 2"
proof -
  have "{..<8} - used (free_map (sample_fs 0x3f)) = {6, 7}" unfolding sample_used by auto
  then show ?thesis by simp
qed

lemma sample_stream_ok:
  "stream_ok ram_disk 8 (ram_disk_ok 8) (\<lambda>d. d) 256 (sample_inode 0 4 [2]) 4 1280 768
    (file_bytes (sample_inode 3 600 [4, 5]) (sample_disk 0x3f) 600, 0) sample_stream"
proof -
  have "plain_file ram_disk 8 (ram_disk_ok 8) (\<lambda>d. d) 256 (sample_inode 0 4 [2]) 768 (sample_inode 3 600 [4, 5])
      (sample_disk 0x3f) sample_stream"
    unfolding sample_stream_def by (rule set_file_plain [OF sample_plain]) (simp add: sample_fs_def)
  moreover have "bytes_to_sectors 600 = 2" by (simp add: bytes_to_sectors_def DIV_ROUND_UP_def)
  ultimately show ?thesis unfolding stream_ok_def using sample_free
    by (intro exI [of _ "sample_inode 3 600 [4, 5]"] exI [of _ "sample_disk 0x3f"] exI [of _ "\<lparr>file_inode = 768, pos = 0, deny_write = False\<rparr>"])
      (simp add: sample_stream_def set_file_def sample_inode_def empty_inode_def)
qed


subsection \<open>From the creation of a file to its use\<close>

context block_driver
begin

lemma new_plain_file:
  assumes inv: "fs_inv os n ok view ip0 i0 v s" and len: "len \<le> 5120" "n \<le> 2 ^ 32"
    and room: "bytes_to_sectors len \<le> card ({..<n} - used (free_map s))"
    and sec: "sec \<in> used (free_map s)" "sec \<notin> cached (cells (cache s))"
      "\<forall>k < bytes_to_sectors (ilength i0). sec \<noteq> block_no i0 v k \<and> sec \<notin> meta i0 v k"
    and fresh: "find_open (inodes s) sec (open_inodes s) = None" "ip \<noteq> 0" "inodes s ip = None"
  obtains s1 s2 i w where "inode_create junk True sec len dir s = Some (s1, True)" "inode_open (\<lambda>_. ip) sec s1 = Some (s2, ip)"
    "plain_file os n ok view ip0 i0 ip i w s2" "files s2 = files s" "ilength i = len" "deny_write_cnt i = 0"
    "file_bytes i w len = replicate len 0" "card ({..<n} - used (free_map s2)) = card ({..<n} - used (free_map s)) - bytes_to_sectors len"
proof -
  let ?k = "bytes_to_sectors len"
  obtain s1 s2 i w where c: "inode_create junk True sec len dir s = Some (s1, True)" "inode_open (\<lambda>_. ip) sec s1 = Some (s2, ip)"
      "file_ok os n ok view ip i w s2" "files s2 = files s" "ilength i = len" "is_dir i = dir" "deny_write_cnt i = 0" "direct_blk_idx i = ?k"
      "\<forall>p < ?k * 512. byte_at i w p = 0" "fs_inv os n ok view ip0 i0 w s2"
      "\<forall>j < bytes_to_sectors (ilength i0). block_no i0 w j = block_no i0 v j \<and> meta i0 w j = meta i0 v j"
      "block_no i w ` {..<?k} \<inter> used (free_map s) = {}" "used (free_map s2) = used (free_map s) \<union> block_no i w ` {..<?k}"
    using create_open [OF inv len room sec fresh, of junk dir] by (elim exE conjE) (rule that)
  have l: "length (ptrs i) = 21" "inj_on (block_no i w) {..<?k}" "block_no i w ` {..<?k} \<subseteq> {..<n}" "inodes s2 ip = Some i" "read_length i = len"
    using c(3,5) by (auto simp: file_ok_def data_rel_def layout_ok_def inode_consts)
  have db: "block_no i w ` {..<?k} = set (data_blocks i)"
    using data_blocks_image [of i w] c(5) len(1) l(1) by simp
  have "card (set (data_blocks i)) = ?k" using card_image [OF l(2)] db by simp
  moreover have "length (data_blocks i) = ?k" using bytes_to_sectors_10 [OF len(1)] l(1) c(5) by (simp add: data_blocks_def)
  ultimately have dist: "distinct (data_blocks i)" by (simp add: card_distinct)
  have mb: "map_blocks i0 w = map_blocks i0 v" by (rule map_blocks_cong [OF c(11)])
  have ne: "ip \<noteq> ip0" using inv fresh(3) by (auto simp: fs_inv_def map_file_ok_def file_ok_def)
  have pf: "plain_file os n ok view ip0 i0 ip i w s2"
    using c(5,8-10,12,13) l(1,4,5) len(1) dist ne fs_inv_map_blocks [OF inv]
    unfolding plain_file_def mb db by auto
  have fb: "file_bytes i w len = replicate len 0"
    using c(9) bytes_to_sectors_ge [of len] by (simp add: file_bytes_def list_eq_iff_nth_eq)
  have "{..<n} - used (free_map s2) = ({..<n} - used (free_map s)) - block_no i w ` {..<?k}" using c(13) by auto
  moreover have "block_no i w ` {..<?k} \<subseteq> {..<n} - used (free_map s)" using c(12) l(3) by blast
  ultimately have "card ({..<n} - used (free_map s2)) = card ({..<n} - used (free_map s)) - ?k"
    using card_image [OF l(2)] by (simp add: card_Diff_subset)
  then show thesis using that [OF c(1,2) pf c(4,5,7) fb] by blast
qed

end



end
