(* ===== verification/Directory.thy ===== *)
theory Directory
  imports File
begin

section \<open>Directories (filesys/directory.c)\<close>

text \<open>
  A directory is a file of 20-byte entries: the sector of the file's inode, its name in 15 bytes and
  a flag. A name is the bytes of a C string without its terminator. \<open>streq\<close> is the comparison of
  a name with the name field of an entry, as \<^verbatim>\<open>strcmp\<close> makes it from the start of the field; a field that
  has no terminator and whose 15 bytes all agree is read past its end, which is \<open>None\<close>. An uninitialised
  \<^verbatim>\<open>struct dir_entry\<close> on the stack is the argument \<open>junk_entry\<close>. \<open>calloc_ok\<close> says whether there is
  memory for a \<^verbatim>\<open>struct dir\<close>, which is a value here; the null pointer is \<open>None\<close>.
\<close>

definition NAME_MAX :: nat where "NAME_MAX = 14"

type_synonym dir_entry = "u8 list"

definition DIR_ENTRY_SIZE :: nat where "DIR_ENTRY_SIZE = 4 + (NAME_MAX + 1) + 1"

definition e_inode_sector :: "dir_entry \<Rightarrow> nat" where "e_inode_sector e = unat (hd (le_words (take 4 e)))"
definition e_name :: "dir_entry \<Rightarrow> u8 list" where "e_name e = take (NAME_MAX + 1) (drop 4 e)"
definition e_in_use :: "dir_entry \<Rightarrow> bool" where "e_in_use e = (e ! 19 \<noteq> 0)"

definition set_in_use :: "bool \<Rightarrow> dir_entry \<Rightarrow> dir_entry" where "set_in_use b e = e[19 := of_bool b]"
definition set_inode_sector :: "nat \<Rightarrow> dir_entry \<Rightarrow> dir_entry" where
  "set_inode_sector sec e = le_bytes (of_nat sec) @ drop 4 e"

text \<open>\<^verbatim>\<open>strlcpy (e.name, name, sizeof e.name)\<close>: what follows the terminator stays.\<close>

definition set_name :: "u8 list \<Rightarrow> dir_entry \<Rightarrow> dir_entry" where
  "set_name name e = (let c = take NAME_MAX name in take 4 e @ c @ [0] @ drop (4 + length c + 1) e)"

record dir =
  dir_inode :: nat
  dir_pos :: nat

fun streq :: "u8 list \<Rightarrow> u8 list \<Rightarrow> bool option" where
  "streq (c # cs) (b # bs) = (if b = c then streq cs bs else Some False)"
| "streq [] (b # bs) = Some (b = 0)"
| "streq _ [] = None"

definition dir_create :: "nat list \<Rightarrow> bool \<Rightarrow> nat \<Rightarrow> nat \<Rightarrow> 'd filesys \<Rightarrow> ('d filesys \<times> bool) option" where
  "dir_create junk calloc_ok sec entry_cnt s = inode_create junk calloc_ok sec (entry_cnt * DIR_ENTRY_SIZE) True s"

definition dir_open :: "bool \<Rightarrow> nat \<Rightarrow> 'd filesys \<Rightarrow> ('d filesys \<times> dir option) option" where
  "dir_open calloc_ok ip s =
     (if ip \<noteq> 0 \<and> calloc_ok then Some (s, Some \<lparr>dir_inode = ip, dir_pos = 0\<rparr>)
      else do { s \<leftarrow> inode_close ip s; Some (s, None) })"

definition dir_open_root :: "('d filesys \<Rightarrow> nat) \<Rightarrow> bool \<Rightarrow> 'd filesys \<Rightarrow> ('d filesys \<times> dir option) option" where
  "dir_open_root malloc calloc_ok s = do { (s, ip) \<leftarrow> inode_open malloc ROOT_DIR_SECTOR s; dir_open calloc_ok ip s }"

definition dir_reopen :: "bool \<Rightarrow> dir \<Rightarrow> 'd filesys \<Rightarrow> ('d filesys \<times> dir option) option" where
  "dir_reopen calloc_ok d s = do { (s, ip) \<leftarrow> inode_reopen (dir_inode d) s; dir_open calloc_ok ip s }"

definition dir_close :: "dir option \<Rightarrow> 'd filesys \<Rightarrow> 'd filesys option" where
  "dir_close d s = (case d of None \<Rightarrow> Some s | Some d \<Rightarrow> inode_close (dir_inode d) s)"

definition dir_get_inode :: "dir \<Rightarrow> nat" where "dir_get_inode d = dir_inode d"

subsection \<open>Searching\<close>

partial_function (option) lookup_from :: "nat \<Rightarrow> u8 list \<Rightarrow> nat \<Rightarrow> 'd filesys \<Rightarrow> ('d filesys \<times> (dir_entry \<times> nat) option) option" where
  "lookup_from ip name ofs s = do {
     (s, e) \<leftarrow> inode_read_at ip DIR_ENTRY_SIZE ofs s;
     if length e = DIR_ENTRY_SIZE then do {
       hit \<leftarrow> (if e_in_use e then streq name (e_name e) else Some False);
       if hit then Some (s, Some (e, ofs)) else lookup_from ip name (ofs + DIR_ENTRY_SIZE) s }
     else Some (s, None) }"

definition lookup :: "dir \<Rightarrow> u8 list \<Rightarrow> 'd filesys \<Rightarrow> ('d filesys \<times> (dir_entry \<times> nat) option) option" where
  "lookup d name s = lookup_from (dir_inode d) name 0 s"

definition dir_lookup :: "('d filesys \<Rightarrow> nat) \<Rightarrow> dir \<Rightarrow> u8 list \<Rightarrow> 'd filesys \<Rightarrow> ('d filesys \<times> nat) option" where
  "dir_lookup malloc d name s = do {
     (s, r) \<leftarrow> lookup d name s;
     case r of Some (e, _) \<Rightarrow> inode_open malloc (e_inode_sector e) s | None \<Rightarrow> Some (s, 0) }"

text \<open>The search of \<^verbatim>\<open>dir_add\<close> for a free slot; a short read leaves the rest of the entry as it was.\<close>

partial_function (option) find_slot :: "nat \<Rightarrow> dir_entry \<Rightarrow> nat \<Rightarrow> 'd filesys \<Rightarrow> ('d filesys \<times> dir_entry \<times> nat) option" where
  "find_slot ip e ofs s = do {
     (s, bs) \<leftarrow> inode_read_at ip DIR_ENTRY_SIZE ofs s;
     let e = bs @ drop (length bs) e;
     if length bs = DIR_ENTRY_SIZE then
       if \<not> e_in_use e then Some (s, e, ofs) else find_slot ip e (ofs + DIR_ENTRY_SIZE) s
     else Some (s, e, ofs) }"

definition dir_add :: "nat list \<Rightarrow> dir_entry \<Rightarrow> dir \<Rightarrow> u8 list \<Rightarrow> nat \<Rightarrow> 'd filesys \<Rightarrow> ('d filesys \<times> bool) option" where
  "dir_add junk junk_entry d name inode_sector s =
     (if name = [] \<or> length name > NAME_MAX then Some (s, False)
      else do {
        (s, r) \<leftarrow> lookup d name s;
        if r \<noteq> None then Some (s, False)
        else do {
          (s, e, ofs) \<leftarrow> find_slot (dir_inode d) junk_entry 0 s;
          let e = set_in_use True e;
          let e = set_name name e;
          let e = set_inode_sector inode_sector e;
          (s, k) \<leftarrow> inode_write_at junk (dir_inode d) e ofs s;
          Some (s, k = DIR_ENTRY_SIZE) } })"

definition dir_remove :: "('d filesys \<Rightarrow> nat) \<Rightarrow> nat list \<Rightarrow> dir \<Rightarrow> u8 list \<Rightarrow> 'd filesys \<Rightarrow> ('d filesys \<times> bool) option" where
  "dir_remove malloc junk d name s = do {
     (s, r) \<leftarrow> lookup d name s;
     case r of
       None \<Rightarrow> do { s \<leftarrow> inode_close 0 s; Some (s, False) }
     | Some (e, ofs) \<Rightarrow> do {
         (s, ip) \<leftarrow> inode_open malloc (e_inode_sector e) s;
         if ip = 0 then do { s \<leftarrow> inode_close ip s; Some (s, False) }
         else do {
           let e = set_in_use False e;
           (s, k) \<leftarrow> inode_write_at junk (dir_inode d) e ofs s;
           if k \<noteq> DIR_ENTRY_SIZE then do { s \<leftarrow> inode_close ip s; Some (s, False) }
           else do {
             s \<leftarrow> inode_remove ip s;
             s \<leftarrow> inode_close ip s;
             Some (s, True) } } } }"

text \<open>The next name, copied with \<^verbatim>\<open>strlcpy\<close> up to its terminator.\<close>

partial_function (option) dir_readdir :: "dir \<Rightarrow> 'd filesys \<Rightarrow> ('d filesys \<times> dir \<times> u8 list option) option" where
  "dir_readdir d s = do {
     (s, e) \<leftarrow> inode_read_at (dir_inode d) DIR_ENTRY_SIZE (dir_pos d) s;
     if length e = DIR_ENTRY_SIZE then
       let d = d\<lparr>dir_pos := dir_pos d + DIR_ENTRY_SIZE\<rparr> in
       if e_in_use e then do {
         _ \<leftarrow> ASSERT (0 \<in> set (e_name e));
         Some (s, d, Some (take NAME_MAX (takeWhile (\<lambda>b. b \<noteq> 0) (e_name e)))) }
       else dir_readdir d s
     else Some (s, d, None) }"

subsection \<open>A directory is a map\<close>

definition cname :: "dir_entry \<Rightarrow> u8 list" where "cname e = takeWhile (\<lambda>b. b \<noteq> 0) (e_name e)"

definition dir_map :: "dir_entry list \<Rightarrow> u8 list \<Rightarrow> nat option" where
  "dir_map es = map_of (map (\<lambda>e. (cname e, e_inode_sector e)) (filter e_in_use es))"

definition entries_ok :: "dir_entry list \<Rightarrow> bool" where
  "entries_ok es \<longleftrightarrow> (\<forall>e \<in> set es. length e = 20 \<and> (e_in_use e \<longrightarrow> 0 \<in> set (e_name e)))"

lemma DIR_ENTRY_SIZE [simp]: "DIR_ENTRY_SIZE = 20"
  by (simp add: DIR_ENTRY_SIZE_def NAME_MAX_def)

lemma streq_ok: "0 \<in> set buf \<Longrightarrow> 0 \<notin> set name \<Longrightarrow> streq name buf = Some (takeWhile (\<lambda>b. b \<noteq> 0) buf = name)"
  by (induction name buf rule: streq.induct) auto

lemma length_concat_entries: "entries_ok es \<Longrightarrow> length (concat es) = 20 * length es"
  by (induction es) (auto simp: entries_ok_def)

lemma entries_ok_simps [simp]:
  "entries_ok (e # es) \<longleftrightarrow> length e = 20 \<and> (e_in_use e \<longrightarrow> 0 \<in> set (e_name e)) \<and> entries_ok es"
  "entries_ok []" "entries_ok (es @ fs) \<longleftrightarrow> entries_ok es \<and> entries_ok fs"
  by (auto simp: entries_ok_def)

lemma drop_concat_entries: "entries_ok es \<Longrightarrow> drop (20 * k) (concat es) = concat (drop k es)"
proof (induction es arbitrary: k)
  case (Cons e es)
  then show ?case by (cases k) simp_all
qed simp

text \<open>The first entry in use with the name, and the offset after which the search starts.\<close>

primrec find_entry :: "u8 list \<Rightarrow> dir_entry list \<Rightarrow> nat \<Rightarrow> (dir_entry \<times> nat) option" where
  "find_entry name [] ofs = None"
| "find_entry name (e # es) ofs = (if e_in_use e \<and> cname e = name then Some (e, ofs) else find_entry name es (ofs + 20))"

lemma find_entry_map: "map_option (e_inode_sector \<circ> fst) (find_entry name es ofs) = dir_map es name"
  by (induction es arbitrary: ofs) (auto simp: dir_map_def)

text \<open>The first entry not in use, or the end.\<close>

primrec free_slot :: "dir_entry list \<Rightarrow> nat" where
  "free_slot [] = 0"
| "free_slot (e # es) = (if e_in_use e then Suc (free_slot es) else 0)"

definition put_entry :: "nat \<Rightarrow> dir_entry \<Rightarrow> dir_entry list \<Rightarrow> dir_entry list" where
  "put_entry j e es = take j es @ e # drop (Suc j) es"

lemma free_slot_le: "free_slot es \<le> length es"
  by (induction es) auto

lemma free_slot_free: "free_slot es < length es \<Longrightarrow> \<not> e_in_use (es ! free_slot es)"
  by (induction es) auto

lemma entries_ok_nth: "entries_ok es \<Longrightarrow> k < length es \<Longrightarrow> length (es ! k) = 20"
  by (simp add: entries_ok_def)

lemma entries_ok_put: "entries_ok es \<Longrightarrow> entries_ok [e] \<Longrightarrow> entries_ok (put_entry j e es)"
  by (auto simp: entries_ok_def put_entry_def dest: in_set_takeD in_set_dropD)

lemma extend_write_mid: "length x = length e \<Longrightarrow> extend_write (length xs) e (xs @ x @ ys) = xs @ e @ ys"
  by (simp add: extend_write_def write_bytes_def)

lemma extend_write_end: "extend_write (length xs) e xs = xs @ e"
  by (simp add: extend_write_def write_bytes_def)

lemma extend_write_entry:
  assumes ok: "entries_ok es" and e: "length e = 20" and j: "j \<le> length es"
  shows "extend_write (20 * j) e (concat es) = concat (put_entry j e es)"
proof (cases "j < length es")
  case True
  have "entries_ok (take j es)" using ok by (auto simp: entries_ok_def dest: in_set_takeD)
  then have l: "length (concat (take j es)) = 20 * j" using True by (simp add: length_concat_entries)
  have "concat es = concat (take j es) @ es ! j @ concat (drop (Suc j) es)"
    using True by (metis concat.simps(2) concat_append id_take_nth_drop)
  then show ?thesis
    using extend_write_mid [of "es ! j" e "concat (take j es)"] entries_ok_nth [OF ok True] e l by (simp add: put_entry_def)
next
  case False
  then show ?thesis using j extend_write_end [of "concat es" e] length_concat_entries [OF ok] by (simp add: put_entry_def)
qed

lemma map_of_insert_new:
  "x \<notin> dom (map_of (xs @ ys)) \<Longrightarrow> map_of (xs @ (x, y) # ys) = (map_of (xs @ ys))(x \<mapsto> y)"
  by (induction xs) (auto simp: fun_eq_iff)

lemma dir_map_put:
  assumes "cname e \<notin> dom (dir_map es)" "e_in_use e"
  shows "dir_map (put_entry (free_slot es) e es) = (dir_map es)(cname e \<mapsto> e_inode_sector e)"
proof -
  let ?j = "free_slot es"
  have f: "filter e_in_use es = filter e_in_use (take ?j es) @ filter e_in_use (drop (Suc ?j) es)"
  proof (cases "?j < length es")
    case True
    have "filter e_in_use es = filter e_in_use (take ?j es @ es ! ?j # drop (Suc ?j) es)"
      using True by (simp add: id_take_nth_drop [symmetric])
    then show ?thesis using free_slot_free [OF True] by simp
  next
    case False
    then show ?thesis by simp
  qed
  show ?thesis
    using assms map_of_insert_new [of "cname e"] unfolding dir_map_def put_entry_def f by simp
qed

text \<open>The entry that \<^verbatim>\<open>dir_add\<close> writes.\<close>

lemma new_entry:
  assumes e: "length e = 20" and name: "name \<noteq> []" "length name \<le> NAME_MAX" "0 \<notin> set name" and sec: "sec < 2 ^ 32"
  defines "x \<equiv> set_inode_sector sec (set_name name (set_in_use True e))"
  shows "entries_ok [x]" "e_in_use x" "cname x = name" "e_inode_sector x = sec"
proof -
  have l: "length name \<le> 14" using name(2) by (simp add: NAME_MAX_def)
  have x: "x = le_bytes (of_nat sec) @ name @ [0] @ drop (5 + length name) (e[19 := 1])"
    using e l by (simp add: x_def set_inode_sector_def set_name_def set_in_use_def NAME_MAX_def add.commute)
  have n: "e_name x = name @ [0] @ take (14 - length name) (drop (5 + length name) (e[19 := 1]))"
  proof -
    have "15 - length name = Suc (14 - length name)" using l by simp
    then show ?thesis using l by (simp add: x e_name_def NAME_MAX_def)
  qed
  show "cname x = name" using name(3) by (simp add: cname_def n takeWhile_append)
  have "length x = 20" using e l by (simp add: x)
  moreover have "x ! 19 = 1"
    using e l by (simp add: x nth_append nth_Cons')
  ultimately show "e_in_use x" "entries_ok [x]" by (simp_all add: e_in_use_def n)
  have "le_words (le_bytes (of_nat sec)) = [of_nat sec]" using le_words_bytes [of "[of_nat sec]"] by simp
  then show "e_inode_sector x = sec" using sec by (simp add: x e_inode_sector_def unat_of_nat take_bit_eq_mod)
qed

definition dir_file :: "'d block_operations \<Rightarrow> nat \<Rightarrow> ('d \<Rightarrow> bool) \<Rightarrow> ('d \<Rightarrow> nat \<Rightarrow> sector) \<Rightarrow>
    nat \<Rightarrow> inode \<Rightarrow> nat \<Rightarrow> inode \<Rightarrow> (nat \<Rightarrow> sector) \<Rightarrow> dir_entry list \<Rightarrow> 'd filesys \<Rightarrow> bool" where
  "dir_file os n ok view ip0 i0 ip i v es s \<longleftrightarrow>
     plain_file os n ok view ip0 i0 ip i v s \<and> deny_write_cnt i = 0 \<and> file_bytes i v (ilength i) = concat es \<and> entries_ok es"

definition dir_holds :: "'d block_operations \<Rightarrow> nat \<Rightarrow> ('d \<Rightarrow> bool) \<Rightarrow> ('d \<Rightarrow> nat \<Rightarrow> sector) \<Rightarrow>
    nat \<Rightarrow> inode \<Rightarrow> nat \<Rightarrow> nat \<Rightarrow> dir_entry list \<Rightarrow> 'd filesys \<Rightarrow> bool" where
  "dir_holds os n ok view ip0 i0 m ip es s \<longleftrightarrow>
     (\<exists>i v. dir_file os n ok view ip0 i0 ip i v es s \<and> m \<le> card ({..<n} - used (free_map s)) + bytes_to_sectors (ilength i))"

lemma dir_file_entries: "dir_file os n ok view ip0 i0 ip i v es s \<Longrightarrow> entries_ok es"
  by (simp add: dir_file_def)

lemma dir_file_length: "dir_file os n ok view ip0 i0 ip i v es s \<Longrightarrow> ilength i = 20 * length es"
  using length_concat_entries [of es] length_file_bytes [of i v "ilength i"] by (simp add: dir_file_def)

context block_driver
begin

lemma read_entry:
  assumes d: "dir_file os n ok view ip0 i0 ip i v es s" and k: "k \<le> length es"
  obtains s' where "inode_read_at ip 20 (20 * k) s = Some (s', if k < length es then es ! k else [])"
    "dir_file os n ok view ip0 i0 ip i v es s'" "only_cache s s'" "inode_step n i0 ip i v s i v s'"
proof -
  have i: "plain_file os n ok view ip0 i0 ip i v s" "deny_write_cnt i = 0" "file_bytes i v (ilength i) = concat es"
      "entries_ok es" using d by (auto simp: dir_file_def)
  obtain s' where s': "inode_read_at ip 20 (20 * k) s = Some (s', take 20 (drop (20 * k) (file_bytes i v (ilength i))))"
      "plain_file os n ok view ip0 i0 ip i v s'" "only_cache s s'" "frame i0 ip (set (data_blocks i)) v s v s'"
    by (rule inode_read_frame [OF i(1)])
  have "take 20 (drop (20 * k) (concat es)) = (if k < length es then es ! k else [])"
    using drop_concat_entries [OF i(4), of k] entries_ok_nth [OF i(4), of k] k
    by (auto simp: Cons_nth_drop_Suc [symmetric])
  then show thesis
    by (intro that [of s']) (use s' i in \<open>auto simp: dir_file_def inode_step_def\<close>)
qed

lemma lookup_from_ok:
  "dir_file os n ok view ip0 i0 ip i v es s \<Longrightarrow> 0 \<notin> set name \<Longrightarrow> k \<le> length es \<Longrightarrow>
   \<exists>s'. lookup_from ip name (20 * k) s = Some (s', find_entry name (drop k es) (20 * k)) \<and>
     dir_file os n ok view ip0 i0 ip i v es s' \<and> only_cache s s' \<and> inode_step n i0 ip i v s i v s'"
proof (induction "length es - k" arbitrary: k s)
  case 0
  obtain s' where "inode_read_at ip 20 (20 * k) s = Some (s', if k < length es then es ! k else [])"
      "dir_file os n ok view ip0 i0 ip i v es s'" "only_cache s s'" "inode_step n i0 ip i v s i v s'"
    by (rule read_entry [OF 0(2,4)])
  then show ?case using 0 by (subst lookup_from.simps) auto
next
  case (Suc j)
  have j: "j = length es - Suc k" using Suc.hyps(2) by simp
  have k: "k < length es" "drop k es = es ! k # drop (Suc k) es" using Suc.hyps(2) by (auto simp: Cons_nth_drop_Suc)
  obtain s1 where s1: "inode_read_at ip 20 (20 * k) s = Some (s1, es ! k)" "dir_file os n ok view ip0 i0 ip i v es s1"
      "only_cache s s1" "inode_step n i0 ip i v s i v s1"
    by (rule read_entry [OF Suc.prems(1,3)]) (use k in simp)
  have l: "length (es ! k) = 20" "e_in_use (es ! k) \<Longrightarrow> 0 \<in> set (e_name (es ! k))"
    using dir_file_entries [OF Suc.prems(1)] k(1) by (auto simp: entries_ok_def)
  have hit: "(if e_in_use (es ! k) then streq name (e_name (es ! k)) else Some False) = Some (e_in_use (es ! k) \<and> cname (es ! k) = name)"
    using streq_ok [OF l(2) Suc.prems(2)] by (simp add: cname_def)
  obtain s2 where s2: "lookup_from ip name (20 * Suc k) s1 = Some (s2, find_entry name (drop (Suc k) es) (20 * Suc k))"
      "dir_file os n ok view ip0 i0 ip i v es s2" "only_cache s1 s2" "inode_step n i0 ip i v s1 i v s2"
    using Suc.hyps(1) [OF j s1(2) Suc.prems(2)] k(1) by auto
  show ?case using s1(1,2) s2(1,2) l(1) k(2) hit only_cache_trans [OF s1(3) s2(3)] inode_step_trans [OF s1(4) s2(4)] s1(3,4)
    by (subst lookup_from.simps) (auto simp: add.commute)
qed

lemma find_slot_ok:
  "dir_file os n ok view ip0 i0 ip i v es s \<Longrightarrow> length e = 20 \<Longrightarrow> k \<le> length es \<Longrightarrow>
   \<exists>s' e'. find_slot ip e (20 * k) s = Some (s', e', 20 * (k + free_slot (drop k es))) \<and> length e' = 20 \<and>
     dir_file os n ok view ip0 i0 ip i v es s' \<and> only_cache s s' \<and> inode_step n i0 ip i v s i v s'"
proof (induction "length es - k" arbitrary: k s e)
  case 0
  obtain s' where "inode_read_at ip 20 (20 * k) s = Some (s', if k < length es then es ! k else [])"
      "dir_file os n ok view ip0 i0 ip i v es s'" "only_cache s s'" "inode_step n i0 ip i v s i v s'"
    by (rule read_entry [OF 0(2,4)])
  then show ?case using 0 by (subst find_slot.simps) auto
next
  case (Suc j)
  have j: "j = length es - Suc k" using Suc.hyps(2) by simp
  have k: "k < length es" "drop k es = es ! k # drop (Suc k) es" using Suc.hyps(2) by (auto simp: Cons_nth_drop_Suc)
  obtain s1 where s1: "inode_read_at ip 20 (20 * k) s = Some (s1, es ! k)" "dir_file os n ok view ip0 i0 ip i v es s1"
      "only_cache s s1" "inode_step n i0 ip i v s i v s1"
    by (rule read_entry [OF Suc.prems(1,3)]) (use k in simp)
  have l: "length (es ! k) = 20" using dir_file_entries [OF Suc.prems(1)] k(1) by (rule entries_ok_nth)
  obtain s2 e2 where s2: "find_slot ip (es ! k) (20 * Suc k) s1 = Some (s2, e2, 20 * (Suc k + free_slot (drop (Suc k) es)))"
      "length e2 = 20" "dir_file os n ok view ip0 i0 ip i v es s2" "only_cache s1 s2" "inode_step n i0 ip i v s1 i v s2"
    using Suc.hyps(1) [OF j s1(2) l] k(1) by auto
  show ?case using s1(1,2) s2(1-3) l k(2) Suc.prems(2) only_cache_trans [OF s1(3) s2(4)] inode_step_trans [OF s1(4) s2(5)] s1(3,4)
    by (subst find_slot.simps) (auto simp: add.commute)
qed

lemma put_entry_ok:
  assumes d: "dir_file os n ok view ip0 i0 ip i v es s" and e: "entries_ok [e]" and j: "j \<le> length es"
    and m: "20 * Suc (length es) \<le> 5120"
      "bytes_to_sectors (20 * Suc (length es)) - bytes_to_sectors (20 * length es) \<le> card ({..<n} - used (free_map s))"
  obtains s' i' w where "inode_write_at junk ip e (20 * j) s = Some (s', 20)" "dir_file os n ok view ip0 i0 ip i' w (put_entry j e es) s'"
    "inode_step n i0 ip i v s i' w s'"
    "card ({..<n} - used (free_map s')) + bytes_to_sectors (ilength i') = card ({..<n} - used (free_map s)) + bytes_to_sectors (ilength i)"
proof -
  have i: "plain_file os n ok view ip0 i0 ip i v s" "deny_write_cnt i = 0" "file_bytes i v (ilength i) = concat es"
      "entries_ok es" using d by (auto simp: dir_file_def)
  have e20: "length e = 20" using e by simp
  have l: "20 * j + length e \<le> 20 * Suc (length es)" using e20 j by simp
  then have l2: "20 * j + length e \<le> 5120" using m(1) by linarith
  have "bytes_to_sectors (20 * j + length e) - bytes_to_sectors (ilength i) \<le> card ({..<n} - used (free_map s))"
    using bytes_to_sectors_mono [OF l] m(2) dir_file_length [OF d] by simp
  then obtain s' i' w where s': "inode_write_at junk ip e (20 * j) s = Some (s', length e)" "plain_file os n ok view ip0 i0 ip i' w s'"
      "file_bytes i' w (ilength i') = extend_write (20 * j) e (file_bytes i v (ilength i))" "deny_write_cnt i' = 0"
      "card ({..<n} - used (free_map s')) + bytes_to_sectors (ilength i') = card ({..<n} - used (free_map s)) + bytes_to_sectors (ilength i)"
      "inode_step n i0 ip i v s i' w s'"
    by (rule inode_write_frame [OF i(1,2) l2])
  have "dir_file os n ok view ip0 i0 ip i' w (put_entry j e es) s'"
    unfolding dir_file_def using s'(2-4) i(3,4) extend_write_entry [OF i(4) e20 j] entries_ok_put [OF i(4) e, of j] by simp
  then show thesis using that [OF _ _ s'(6,5)] s'(1) e20 by simp
qed

lemma lookup_frame:
  assumes "dir_file os n ok view ip0 i0 ip i v es s" "0 \<notin> set name" "dir_inode d = ip"
  obtains s' r where "lookup d name s = Some (s', r)" "map_option (e_inode_sector \<circ> fst) r = dir_map es name"
    "dir_file os n ok view ip0 i0 ip i v es s'" "only_cache s s'" "inode_step n i0 ip i v s i v s'"
  using lookup_from_ok [OF assms(1,2), of 0] find_entry_map assms(3) unfolding lookup_def by fastforce

lemma lookup_ok:
  assumes "dir_holds os n ok view ip0 i0 m ip es s" "0 \<notin> set name" "dir_inode d = ip"
  shows "\<exists>s' r. lookup d name s = Some (s', r) \<and> map_option (e_inode_sector \<circ> fst) r = dir_map es name \<and>
    dir_holds os n ok view ip0 i0 m ip es s'"
proof -
  obtain i v where i: "dir_file os n ok view ip0 i0 ip i v es s" "m \<le> card ({..<n} - used (free_map s)) + bytes_to_sectors (ilength i)"
    using assms(1) by (auto simp: dir_holds_def)
  obtain s' r where "lookup d name s = Some (s', r)" "map_option (e_inode_sector \<circ> fst) r = dir_map es name"
    "dir_file os n ok view ip0 i0 ip i v es s'" "only_cache s s'" "inode_step n i0 ip i v s i v s'" by (rule lookup_frame [OF i(1) assms(2,3)])
  then show ?thesis using i(2) only_cache_simps(3) by (fastforce simp: dir_holds_def)
qed

lemma dir_add_frame:
  assumes d: "dir_file os n ok view ip0 i0 ip i v es s" and name: "0 \<notin> set name" and sec: "sec < 2 ^ 32"
    and ip: "dir_inode d = ip" and e: "length junk_entry = 20" and m: "20 * Suc (length es) \<le> 5120"
      "bytes_to_sectors (20 * Suc (length es)) - bytes_to_sectors (20 * length es) \<le> card ({..<n} - used (free_map s))"
  defines "new \<equiv> name \<noteq> [] \<and> length name \<le> 14 \<and> dir_map es name = None"
  obtains s' i' w es' where "dir_add junk junk_entry d name sec s = Some (s', new)" "dir_file os n ok view ip0 i0 ip i' w es' s'"
    "inode_step n i0 ip i v s i' w s'" "length es \<le> length es'" "length es' \<le> Suc (length es)"
    "dir_map es' = (if new then (dir_map es)(name \<mapsto> sec) else dir_map es)"
    "card ({..<n} - used (free_map s')) + bytes_to_sectors (ilength i') = card ({..<n} - used (free_map s)) + bytes_to_sectors (ilength i)"
    "\<not> new \<Longrightarrow> i' = i \<and> w = v \<and> es' = es \<and> only_cache s s'"
proof (cases "name = [] \<or> length name > 14")
  case True
  then show thesis using d
    by (intro that [of s i v es]) (auto simp: dir_add_def NAME_MAX_def new_def inode_step_refl)
next
  case False
  obtain s1 r where s1: "lookup d name s = Some (s1, r)" "map_option (e_inode_sector \<circ> fst) r = dir_map es name"
      "dir_file os n ok view ip0 i0 ip i v es s1" "only_cache s s1" "inode_step n i0 ip i v s i v s1" by (rule lookup_frame [OF d name ip])
  show ?thesis
  proof (cases "dir_map es name")
    case (Some x)
    then show thesis using s1 False only_cache_simps(3) [OF s1(4)]
      by (intro that [of s1 i v es]) (auto simp: dir_add_def NAME_MAX_def new_def)
  next
    case None
    then have r: "r = None" using s1(2) by simp
    let ?j = "free_slot es"
    obtain s2 e2 where s2: "find_slot ip junk_entry 0 s1 = Some (s2, e2, 20 * ?j)" "length e2 = 20" "dir_file os n ok view ip0 i0 ip i v es s2"
        "only_cache s1 s2" "inode_step n i0 ip i v s1 i v s2"
      using find_slot_ok [OF s1(3) e, of 0] by auto
    let ?x = "set_inode_sector sec (set_name name (set_in_use True e2))"
    have nn: "name \<noteq> []" "length name \<le> NAME_MAX" using False by (auto simp: NAME_MAX_def)
    note x = new_entry [OF s2(2) nn name sec]
    have fm: "free_map s2 = free_map s" using only_cache_simps(3) [OF s1(4)] only_cache_simps(3) [OF s2(4)] by simp
    obtain s3 i3 w where s3: "inode_write_at junk ip ?x (20 * ?j) s2 = Some (s3, 20)" "dir_file os n ok view ip0 i0 ip i3 w (put_entry ?j ?x es) s3"
        "inode_step n i0 ip i v s2 i3 w s3"
        "card ({..<n} - used (free_map s3)) + bytes_to_sectors (ilength i3) = card ({..<n} - used (free_map s2)) + bytes_to_sectors (ilength i)"
      using put_entry_ok [OF s2(3) x(1) free_slot_le m [folded fm], of junk] by metis
    have "dir_map (put_entry ?j ?x es) = (dir_map es)(name \<mapsto> sec)"
      using dir_map_put [OF _ x(2), of es] x(3,4) None by (simp add: domIff)
    moreover have "length es \<le> length (put_entry ?j ?x es)" "length (put_entry ?j ?x es) \<le> Suc (length es)" by (simp_all add: put_entry_def)
    moreover have "dir_add junk junk_entry d name sec s = Some (s3, True)"
      using False s1(1) r s2(1) s3(1) ip by (simp add: dir_add_def NAME_MAX_def)
    moreover have "new" using False None by (simp add: new_def)
    moreover have "inode_step n i0 ip i v s i3 w s3" by (rule inode_step_trans [OF s1(5) inode_step_trans [OF s2(5) s3(3)]])
    ultimately show thesis using s3(2,4) fm by (intro that [of s3 i3 w "put_entry ?j ?x es"]) simp_all
  qed
qed

lemma dir_add_ok:
  assumes d: "dir_holds os n ok view ip0 i0 m ip es s" and name: "0 \<notin> set name" and sec: "sec < 2 ^ 32"
    and ip: "dir_inode d = ip" and e: "length junk_entry = 20" and m: "m \<le> 10" "20 * Suc (length es) \<le> m * 512"
  shows "\<exists>s' es'. dir_add junk junk_entry d name sec s = Some (s', name \<noteq> [] \<and> length name \<le> 14 \<and> dir_map es name = None) \<and>
    dir_holds os n ok view ip0 i0 m ip es' s' \<and> length es' \<le> Suc (length es) \<and>
    dir_map es' = (if name \<noteq> [] \<and> length name \<le> 14 \<and> dir_map es name = None then (dir_map es)(name \<mapsto> sec) else dir_map es)"
proof -
  obtain i v where i: "dir_file os n ok view ip0 i0 ip i v es s" "m \<le> card ({..<n} - used (free_map s)) + bytes_to_sectors (ilength i)"
    using d by (auto simp: dir_holds_def)
  have "bytes_to_sectors (20 * Suc (length es)) \<le> m" using m(2) by (simp add: bytes_to_sectors_le)
  then have r: "bytes_to_sectors (20 * Suc (length es)) - bytes_to_sectors (20 * length es) \<le> card ({..<n} - used (free_map s))"
    using i(2) dir_file_length [OF i(1)] by simp
  have l: "20 * Suc (length es) \<le> 5120" using m by simp
  obtain s' i' w es' where s': "dir_add junk junk_entry d name sec s = Some (s', name \<noteq> [] \<and> length name \<le> 14 \<and> dir_map es name = None)"
    "dir_file os n ok view ip0 i0 ip i' w es' s'" "length es' \<le> Suc (length es)"
    "dir_map es' = (if name \<noteq> [] \<and> length name \<le> 14 \<and> dir_map es name = None then (dir_map es)(name \<mapsto> sec) else dir_map es)"
    "card ({..<n} - used (free_map s')) + bytes_to_sectors (ilength i') = card ({..<n} - used (free_map s)) + bytes_to_sectors (ilength i)"
    by (rule dir_add_frame [OF i(1) name sec ip e l r, of junk])
  then show ?thesis using i(2) by (intro exI [of _ s'] exI [of _ es']) (auto simp: dir_holds_def)
qed

end

subsection \<open>Runs on a directory\<close>

datatype dir_op = Dir_find "u8 list" | Dir_add "u8 list" nat

datatype dir_result = Found "nat option" | Added bool

primrec run_dir :: "nat list \<Rightarrow> dir_entry \<Rightarrow> dir \<Rightarrow> dir_op list \<Rightarrow> 'd filesys \<Rightarrow> ('d filesys \<times> dir_result list) option" where
  "run_dir junk junk_entry d [] s = Some (s, [])"
| "run_dir junk junk_entry d (x # xs) s = do {
     (s, out) \<leftarrow> (case x of
        Dir_find name \<Rightarrow> map_option (\<lambda>(s, r). (s, Found (map_option (e_inode_sector \<circ> fst) r))) (lookup d name s)
      | Dir_add name sec \<Rightarrow> map_option (\<lambda>(s, b). (s, Added b)) (dir_add junk junk_entry d name sec s));
     (s, outs) \<leftarrow> run_dir junk junk_entry d xs s;
     Some (s, out # outs) }"

text \<open>The same on a map from names to sectors.\<close>

primrec run_map :: "dir_op list \<Rightarrow> (u8 list \<Rightarrow> nat option) \<Rightarrow> dir_result list" where
  "run_map [] M = []"
| "run_map (x # xs) M =
     (case x of
        Dir_find name \<Rightarrow> Found (M name) # run_map xs M
      | Dir_add name sec \<Rightarrow>
          (if name \<noteq> [] \<and> length name \<le> 14 \<and> M name = None then Added True # run_map xs (M(name \<mapsto> sec))
           else Added False # run_map xs M))"

definition dir_op_ok :: "dir_op \<Rightarrow> bool" where
  "dir_op_ok x = (case x of Dir_find name \<Rightarrow> 0 \<notin> set name | Dir_add name sec \<Rightarrow> 0 \<notin> set name \<and> sec < 2 ^ 32)"

context block_driver
begin

lemma run_dir_ok:
  assumes e: "length junk_entry = 20" and m: "m \<le> 10" and ip: "dir_inode d = ip"
  shows "dir_holds os n ok view ip0 i0 m ip es s \<Longrightarrow> list_all dir_op_ok xs \<Longrightarrow> 20 * (length es + length xs) \<le> m * 512 \<Longrightarrow>
    \<exists>s'. run_dir junk junk_entry d xs s = Some (s', run_map xs (dir_map es))"
proof (induction xs arbitrary: es s)
  case (Cons x xs)
  have x: "dir_op_ok x" "list_all dir_op_ok xs" using Cons.prems(2) by auto
  show ?case
  proof (cases x)
    case (Dir_find name)
    obtain s1 r where s1: "lookup d name s = Some (s1, r)" "map_option (e_inode_sector \<circ> fst) r = dir_map es name"
        "dir_holds os n ok view ip0 i0 m ip es s1"
      using lookup_ok [OF Cons.prems(1) _ ip, of name] x(1) Dir_find by (auto simp: dir_op_ok_def)
    obtain s2 where "run_dir junk junk_entry d xs s1 = Some (s2, run_map xs (dir_map es))"
      using Cons.IH [OF s1(3) x(2)] Cons.prems(3) by auto
    then show ?thesis using s1(1,2) by (simp add: Dir_find)
  next
    case (Dir_add name sec)
    have nm: "0 \<notin> set name" "sec < 2 ^ 32" using x(1) Dir_add by (simp_all add: dir_op_ok_def)
    have l: "20 * Suc (length es) \<le> m * 512" using Cons.prems(3) by simp
    let ?ok = "name \<noteq> [] \<and> length name \<le> 14 \<and> dir_map es name = None"
    obtain s1 fs where s1: "dir_add junk junk_entry d name sec s = Some (s1, ?ok)" "dir_holds os n ok view ip0 i0 m ip fs s1"
        "length fs \<le> Suc (length es)" "dir_map fs = (if ?ok then (dir_map es)(name \<mapsto> sec) else dir_map es)"
      using dir_add_ok [OF Cons.prems(1) nm ip e m l] by blast
    have "20 * (length fs + length xs) \<le> m * 512" using s1(3) Cons.prems(3) by simp
    then obtain s2 where s2: "run_dir junk junk_entry d xs s1 = Some (s2, run_map xs (dir_map fs))"
      using Cons.IH [OF s1(2) x(2)] by blast
    show ?thesis
    proof (cases ?ok)
      case True
      then show ?thesis using s1(1,4) s2 by (simp add: Dir_add)
    next
      case False
      have a: "dir_add junk junk_entry d name sec s = Some (s1, False)" "dir_map fs = dir_map es"
        using s1(1,4) unfolding if_not_P [OF False] by (simp_all only: False)
      show ?thesis unfolding Dir_add run_map.simps dir_op.case if_not_P [OF False] using a s2 by simp
    qed
  qed
qed simp

end

lemma concat_zero_entries: "concat (replicate k (replicate 20 0)) = replicate (20 * k) (0 :: u8)"
  by (induction k) (simp_all add: replicate_add [symmetric] add.commute)

lemma zero_entries: "entries_ok (replicate k (replicate 20 0))" "dir_map (replicate k (replicate 20 0)) = Map.empty"
  by (simp_all add: entries_ok_def dir_map_def e_in_use_def)



end
