(* ===== verification/Malloc.thy ===== *)
theory Malloc
  imports Palloc
begin

section \<open>Memory blocks (threads/malloc.c)\<close>

text \<open>
  Blocks of up to 1 kB are cut from arenas of one page, by seven descriptors for powers of two;
  larger ones get pages of their own. A heap is the page allocator below, the arena headers by the address of
  their page, and the descriptors with their free lists, each the sequence that its list holds. The header
  of an arena is there exactly while its magic number is: releasing its page overwrites it. The links of the
  free lists lie in free blocks and are not part of the contents of memory here. The locks
  of the descriptors are not modelled: a call runs without interruption by another one.
\<close>

definition ARENA_SIZE :: nat where "ARENA_SIZE = 12"

record desc =
  desc_block_size :: nat
  blocks_per_arena :: nat
  free_list :: "nat list"

record arena =
  a_desc :: "nat option"
  a_free_cnt :: nat

record heap =
  pages :: page_allocator
  arenas :: "nat \<rightharpoonup> arena"
  descs :: "desc list"

function init_descs :: "nat \<Rightarrow> desc list" where
  "init_descs block_size =
     (if block_size < PGSIZE div 2 \<and> 0 < block_size then
        \<lparr>desc_block_size = block_size, blocks_per_arena = (PGSIZE - ARENA_SIZE) div block_size, free_list = []\<rparr> #
        init_descs (block_size * 2)
      else [])"
  by pat_completeness auto
termination by (relation "measure (\<lambda>b. PGSIZE - b)") (auto simp: PGSIZE_def)

declare init_descs.simps [simp del]

definition malloc_init :: "page_allocator \<Rightarrow> heap option" where
  "malloc_init p = do {
     let ds = init_descs 16;
     _ \<leftarrow> ASSERT (length ds \<le> 10);
     Some \<lparr>pages = p, arenas = Map.empty, descs = ds\<rparr> }"

definition set_free_list :: "nat \<Rightarrow> nat list \<Rightarrow> heap \<Rightarrow> heap" where
  "set_free_list i xs h = h\<lparr>descs := (descs h)[i := (descs h ! i)\<lparr>free_list := xs\<rparr>]\<rparr>"

definition set_arena :: "nat \<Rightarrow> arena \<Rightarrow> heap \<Rightarrow> heap" where
  "set_arena a r h = h\<lparr>arenas := (arenas h)(a \<mapsto> r)\<rparr>"

definition block_to_arena :: "heap \<Rightarrow> nat \<Rightarrow> nat option" where
  "block_to_arena h b = do {
     let a = pg_round_down b;
     _ \<leftarrow> ASSERT (a \<noteq> 0);
     r \<leftarrow> arenas h a;
     _ \<leftarrow> ASSERT (case a_desc r of None \<Rightarrow> True
       | Some i \<Rightarrow> (pg_ofs b + (2 ^ 32 - ARENA_SIZE)) mod 2 ^ 32 mod desc_block_size (descs h ! i) = 0);
     _ \<leftarrow> ASSERT (a_desc r \<noteq> None \<or> pg_ofs b = ARENA_SIZE);
     Some a }"

definition arena_to_block :: "heap \<Rightarrow> nat \<Rightarrow> nat \<Rightarrow> nat option" where
  "arena_to_block h a idx = do {
     _ \<leftarrow> ASSERT (a \<noteq> 0);
     r \<leftarrow> arenas h a;
     i \<leftarrow> a_desc r;
     _ \<leftarrow> ASSERT (idx < blocks_per_arena (descs h ! i));
     Some (a + ARENA_SIZE + idx * desc_block_size (descs h ! i)) }"

text \<open>The blocks \<open>idx\<close> to \<open>n - 1\<close> of an arena, in order.\<close>

primrec arena_blocks :: "heap \<Rightarrow> nat \<Rightarrow> nat \<Rightarrow> nat list option" where
  "arena_blocks h a 0 = Some []"
| "arena_blocks h a (Suc n) = do { bs \<leftarrow> arena_blocks h a n; b \<leftarrow> arena_to_block h a n; Some (bs @ [b]) }"

primrec find_desc :: "desc list \<Rightarrow> nat \<Rightarrow> nat option" where
  "find_desc [] sz = None"
| "find_desc (d # ds) sz = (if desc_block_size d \<ge> sz then Some 0 else map_option Suc (find_desc ds sz))"

text \<open>Sums of sizes wrap at \<open>2 ^ 32\<close>, also in the rounding up to pages.\<close>

definition big_page_cnt :: "nat \<Rightarrow> nat" where
  "big_page_cnt sz = size_add (size_add sz ARENA_SIZE) (PGSIZE - 1) div PGSIZE"

definition new_arena :: "nat \<Rightarrow> nat \<Rightarrow> heap \<Rightarrow> (heap \<times> bool) option" where
  "new_arena cur i h = do {
     (p, a) \<leftarrow> palloc_get_page cur 0 (pages h);
     let h = h\<lparr>pages := p\<rparr>;
     if a = 0 then Some (h, False)
     else do {
       let h = set_arena a \<lparr>a_desc = Some i, a_free_cnt = blocks_per_arena (descs h ! i)\<rparr> h;
       bs \<leftarrow> arena_blocks h a (blocks_per_arena (descs h ! i));
       Some (set_free_list i (free_list (descs h ! i) @ bs) h, True) } }"

definition malloc :: "nat \<Rightarrow> nat \<Rightarrow> heap \<Rightarrow> (heap \<times> nat) option" where
  "malloc cur sz h =
     (if sz = 0 then Some (h, 0)
      else case find_desc (descs h) sz of
        None \<Rightarrow> do {
          let page_cnt = big_page_cnt sz;
          (p, a) \<leftarrow> palloc_get_multiple cur 0 page_cnt (pages h);
          let h = h\<lparr>pages := p\<rparr>;
          if a = 0 then Some (h, 0)
          else Some (set_arena a \<lparr>a_desc = None, a_free_cnt = page_cnt\<rparr> h, addr (a + ARENA_SIZE)) }
      | Some i \<Rightarrow> do {
          (h, ok) \<leftarrow> (if free_list (descs h ! i) = [] then new_arena cur i h else Some (h, True));
          if \<not> ok then Some (h, 0)
          else case free_list (descs h ! i) of
            [] \<Rightarrow> None
          | b # bs \<Rightarrow> do {
              let h = set_free_list i bs h;
              a \<leftarrow> block_to_arena h b;
              r \<leftarrow> arenas h a;
              Some (set_arena a (r\<lparr>a_free_cnt := (a_free_cnt r + (2 ^ 32 - 1)) mod 2 ^ 32\<rparr>) h, b) } })"

definition calloc :: "nat \<Rightarrow> nat \<Rightarrow> nat \<Rightarrow> heap \<Rightarrow> (heap \<times> nat) option" where
  "calloc cur a b h =
     (let sz = (a * b) mod 2 ^ 32 in
      if sz < a \<or> sz < b then Some (h, 0)
      else do {
        (h, p) \<leftarrow> malloc cur sz h;
        Some (if p \<noteq> 0 then h\<lparr>pages := (pages h)\<lparr>ram := memset_ram (ram (pages h)) p 0 sz\<rparr>\<rparr> else h, p) })"

definition free :: "nat \<Rightarrow> heap \<Rightarrow> heap option" where
  "free p h =
     (if p = 0 then Some h
      else do {
        a \<leftarrow> block_to_arena h p;
        r \<leftarrow> arenas h a;
        case a_desc r of
          Some i \<Rightarrow> do {
            let d = descs h ! i;
            let h = h\<lparr>pages := (pages h)\<lparr>ram := memset_ram (ram (pages h)) p 0xcc (desc_block_size d)\<rparr>\<rparr>;
            let h = set_free_list i (p # free_list d) h;
            let cnt = a_free_cnt r + 1;
            let h = set_arena a (r\<lparr>a_free_cnt := cnt\<rparr>) h;
            if cnt \<ge> blocks_per_arena d then do {
              _ \<leftarrow> ASSERT (cnt = blocks_per_arena d);
              bs \<leftarrow> arena_blocks h a (blocks_per_arena d);
              let h = set_free_list i (fold remove1 bs (free_list (descs h ! i))) h;
              p \<leftarrow> palloc_free_page a (pages h);
              Some (h\<lparr>pages := p, arenas := (arenas h)(a := None)\<rparr>) }
            else Some h }
        | None \<Rightarrow> do {
            p \<leftarrow> palloc_free_multiple a (a_free_cnt r) (pages h);
            Some (h\<lparr>pages := p, arenas := (arenas h)(a := None)\<rparr>) } })"

definition malloc_block_size :: "heap \<Rightarrow> nat \<Rightarrow> nat option" where
  "malloc_block_size h b = do {
     a \<leftarrow> block_to_arena h b;
     r \<leftarrow> arenas h a;
     Some (case a_desc r of Some i \<Rightarrow> desc_block_size (descs h ! i)
       | None \<Rightarrow> (PGSIZE * a_free_cnt r + (2 ^ 32 - pg_ofs b)) mod 2 ^ 32) }"

definition memcpy_ram :: "(nat \<Rightarrow> u8) \<Rightarrow> nat \<Rightarrow> nat \<Rightarrow> nat \<Rightarrow> (nat \<Rightarrow> u8)" where
  "memcpy_ram m dst src n = (\<lambda>a. if dst \<le> a \<and> a < dst + n then m (src + (a - dst)) else m a)"

definition realloc :: "nat \<Rightarrow> nat \<Rightarrow> nat \<Rightarrow> heap \<Rightarrow> (heap \<times> nat) option" where
  "realloc cur old_block new_size h =
     (if new_size = 0 then do { h \<leftarrow> free old_block h; Some (h, 0) }
      else do {
        (h, new_block) \<leftarrow> malloc cur new_size h;
        if old_block \<noteq> 0 \<and> new_block \<noteq> 0 then do {
          old_size \<leftarrow> malloc_block_size h old_block;
          let min_size = min new_size old_size;
          let h = h\<lparr>pages := (pages h)\<lparr>ram := memcpy_ram (ram (pages h)) new_block old_block min_size\<rparr>\<rparr>;
          h \<leftarrow> free old_block h;
          Some (h, new_block) }
        else Some (h, new_block) })"

subsection \<open>The invariant\<close>

definition blocks :: "desc \<Rightarrow> nat \<Rightarrow> nat list" where
  "blocks d a = map (\<lambda>k. a + 12 + k * desc_block_size d) [0..<blocks_per_arena d]"

definition desc_ok :: "desc \<Rightarrow> bool" where
  "desc_ok d \<longleftrightarrow> 16 \<le> desc_block_size d \<and> desc_block_size d \<le> 1024 \<and> blocks_per_arena d = 4084 div desc_block_size d"

definition page_cnt :: "arena \<Rightarrow> nat" where
  "page_cnt r = (case a_desc r of None \<Rightarrow> a_free_cnt r | Some i \<Rightarrow> 1)"

definition in_arena :: "nat \<Rightarrow> nat list \<Rightarrow> nat list" where
  "in_arena a xs = filter (\<lambda>b. pg_round_down b = a) xs"

definition arena_pages :: "page_allocator \<Rightarrow> (nat \<rightharpoonup> arena) \<Rightarrow> bool" where
  "arena_pages p m \<longleftrightarrow> wf_palloc p \<and>
     (\<forall>a r. m a = Some r \<longrightarrow> in_some_pool p a (page_cnt r) \<and> page_span a (page_cnt r) \<subseteq> used_ram p) \<and>
     (\<forall>a r b q. m a = Some r \<and> m b = Some q \<and> a \<noteq> b \<longrightarrow> page_span a (page_cnt r) \<inter> page_span b (page_cnt q) = {})"

definition free_list_ok :: "(nat \<rightharpoonup> arena) \<Rightarrow> desc \<Rightarrow> nat \<Rightarrow> bool" where
  "free_list_ok m d i \<longleftrightarrow> desc_ok d \<and> distinct (free_list d) \<and>
     (\<forall>b \<in> set (free_list d). \<exists>r. m (pg_round_down b) = Some r \<and> a_desc r = Some i \<and> b \<in> set (blocks d (pg_round_down b))) \<and>
     (\<forall>a r. m a = Some r \<and> a_desc r = Some i \<longrightarrow> a_free_cnt r = length (in_arena a (free_list d)))"

definition arena_idle :: "heap \<Rightarrow> nat \<Rightarrow> bool" where
  "arena_idle h a \<longleftrightarrow> (\<exists>r i. arenas h a = Some r \<and> a_desc r = Some i \<and> a_free_cnt r = blocks_per_arena (descs h ! i))"

text \<open>Arenas without a block in use exist within an operation only.\<close>

definition heap_between :: "heap \<Rightarrow> bool" where
  "heap_between h \<longleftrightarrow> map desc_block_size (descs h) = [16, 32, 64, 128, 256, 512, 1024] \<and> arena_pages (pages h) (arenas h) \<and>
     (\<forall>i < length (descs h). free_list_ok (arenas h) (descs h ! i) i) \<and>
     (\<forall>a r i. arenas h a = Some r \<and> a_desc r = Some i \<longrightarrow> i < length (descs h))"

definition heap_ok :: "heap \<Rightarrow> bool" where
  "heap_ok h \<longleftrightarrow> heap_between h \<and> (\<forall>a. \<not> arena_idle h a)"

text \<open>The blocks in use, with their sizes.\<close>

definition live :: "heap \<Rightarrow> nat \<Rightarrow> nat \<Rightarrow> bool" where
  "live h p n \<longleftrightarrow> (\<exists>a r. arenas h a = Some r \<and>
     (case a_desc r of
        None \<Rightarrow> p = a + 12 \<and> n = 4096 * a_free_cnt r - 12
      | Some i \<Rightarrow> p \<in> set (blocks (descs h ! i) a) \<and> p \<notin> set (free_list (descs h ! i)) \<and> n = desc_block_size (descs h ! i)))"

definition used_heap :: "heap \<Rightarrow> nat set" where
  "used_heap h = {x. \<exists>p n. live h p n \<and> p \<le> x \<and> x < p + n}"

lemma page_aligned:
  assumes "wf_palloc p" "in_some_pool p a n"
  shows "a mod 4096 = 0" "0 < a" "a + 4096 * n \<le> 2 ^ 32" "0 < n"
proof -
  obtain u i where i: "a = base (pool_of u p) + 4096 * i" "i + n \<le> bit_cnt (used_map (pool_of u p))"
    using assms(2) by (auto simp: in_some_pool_def in_pool_def)
  have w: "0 < base (pool_of u p)" "base (pool_of u p) mod 4096 = 0"
      "base (pool_of u p) + 4096 * bit_cnt (used_map (pool_of u p)) \<le> 2 ^ 32"
    using wf_pool_of [OF assms(1), of u] by (auto simp: wf_pool_def)
  then show "a mod 4096 = 0" "0 < a" "a + 4096 * n \<le> 2 ^ 32" using i by (auto simp: mod_add_eq [symmetric])
  show "0 < n" using assms(2) by (simp add: in_some_pool_def)
qed

lemma blocks_bounds:
  assumes d: "desc_ok d" and b: "b \<in> set (blocks d a)" and a: "a mod 4096 = 0"
  shows "a + 12 \<le> b" "b + desc_block_size d \<le> a + 4096" "pg_round_down b = a"
    "pg_ofs b = b - a" "(b - a - 12) mod desc_block_size d = 0"
proof -
  obtain k where k: "k < blocks_per_arena d" "b = a + 12 + k * desc_block_size d" using b by (auto simp: blocks_def)
  have "Suc k * desc_block_size d \<le> 4084 div desc_block_size d * desc_block_size d"
    using k(1) d by (intro mult_le_mono1) (simp add: desc_ok_def)
  also have "\<dots> \<le> 4084" by simp
  finally have l: "(k + 1) * desc_block_size d \<le> 4084" by simp
  have bs: "0 < desc_block_size d" using d by (simp add: desc_ok_def)
  show le: "a + 12 \<le> b" "b + desc_block_size d \<le> a + 4096" using l k(2) by (auto simp: algebra_simps)
  obtain q where q: "a = 4096 * q" using a by (auto elim: dvdE simp: dvd_eq_mod_eq_0 [symmetric])
  have "b div 4096 = q" using le bs q by (intro div_nat_eqI) auto
  then show "pg_round_down b = a" "pg_ofs b = b - a"
    by (simp_all add: pg_round_down_eq pg_ofs_mod q modulo_nat_def mult.commute)
  show "(b - a - 12) mod desc_block_size d = 0" by (simp add: k(2))
qed

lemma blocks_apart:
  assumes d: "desc_ok d" and b: "b \<in> set (blocks d a)" "c \<in> set (blocks d a)" "b \<noteq> c"
  shows "b + desc_block_size d \<le> c \<or> c + desc_block_size d \<le> b"
proof -
  obtain j k where j: "b = a + 12 + j * desc_block_size d" and k: "c = a + 12 + k * desc_block_size d" using b by (auto simp: blocks_def)
  then have "j \<noteq> k" using b(3) by auto
  then consider "Suc j \<le> k" | "Suc k \<le> j" by linarith
  then show ?thesis
  proof cases
    case 1
    then have "Suc j * desc_block_size d \<le> k * desc_block_size d" by (rule mult_le_mono1)
    then show ?thesis by (simp add: j k)
  next
    case 2
    then have "Suc k * desc_block_size d \<le> j * desc_block_size d" by (rule mult_le_mono1)
    then show ?thesis by (simp add: j k)
  qed
qed

lemma distinct_blocks: "desc_ok d \<Longrightarrow> distinct (blocks d a)"
  by (auto simp: blocks_def distinct_map inj_on_def desc_ok_def)

lemma length_blocks [simp]: "length (blocks d a) = blocks_per_arena d"
  by (simp add: blocks_def)

lemma set_free_list_simps [simp]:
  "pages (set_free_list i xs h) = pages h" "arenas (set_free_list i xs h) = arenas h"
  "length (descs (set_free_list i xs h)) = length (descs h)"
  "i < length (descs h) \<Longrightarrow> descs (set_free_list i xs h) ! j = (if j = i then (descs h ! i)\<lparr>free_list := xs\<rparr> else descs h ! j)"
  "pages (set_arena a r h) = pages h" "descs (set_arena a r h) = descs h" "arenas (set_arena a r h) = (arenas h)(a \<mapsto> r)"
  by (simp_all add: set_free_list_def set_arena_def)

lemma blocks_free_list [simp]: "blocks (d\<lparr>free_list := xs\<rparr>) = blocks d" "desc_ok (d\<lparr>free_list := xs\<rparr>) = desc_ok d"
  by (simp_all add: fun_eq_iff blocks_def desc_ok_def)

lemma arena_blocks_ok:
  assumes "arenas h a = Some r" "a_desc r = Some i" "a \<noteq> 0"
  shows "n \<le> blocks_per_arena (descs h ! i) \<Longrightarrow> arena_blocks h a n = Some (map (\<lambda>k. a + 12 + k * desc_block_size (descs h ! i)) [0..<n])"
  using assms by (induction n) (simp_all add: arena_to_block_def ARENA_SIZE_def)


subsection \<open>The steps of the operations\<close>

lemma heap_betweenD:
  assumes "heap_between h"
  shows "arena_pages (pages h) (arenas h)" "i < length (descs h) \<Longrightarrow> free_list_ok (arenas h) (descs h ! i) i"
    "i < length (descs h) \<Longrightarrow> desc_ok (descs h ! i)"
    "arenas h a = Some r \<Longrightarrow> a_desc r = Some i \<Longrightarrow> i < length (descs h)" "wf_palloc (pages h)"
  using assms by (auto simp: heap_between_def free_list_ok_def arena_pages_def)

lemma heap_betweenI:
  assumes "map desc_block_size (descs h) = [16, 32, 64, 128, 256, 512, 1024]" "arena_pages (pages h) (arenas h)"
    "\<And>i. i < length (descs h) \<Longrightarrow> free_list_ok (arenas h) (descs h ! i) i"
    "\<And>a r i. arenas h a = Some r \<Longrightarrow> a_desc r = Some i \<Longrightarrow> i < length (descs h)"
  shows "heap_between h"
  using assms unfolding heap_between_def by blast

lemma arena_page:
  assumes "arena_pages p m" "m a = Some r"
  shows "a mod 4096 = 0" "0 < a" "a + 4096 * page_cnt r \<le> 2 ^ 32" "0 < page_cnt r"
  using page_aligned [of p a "page_cnt r"] assms by (auto simp: arena_pages_def)

lemma pg_round_down_aligned [simp]: "a mod 4096 = 0 \<Longrightarrow> pg_round_down a = a"
  by (auto simp: pg_round_down_eq dvd_eq_mod_eq_0 [symmetric])

lemma pg_round_down_big: "a mod 4096 = 0 \<Longrightarrow> pg_round_down (a + 12) = a"
proof -
  assume "a mod 4096 = 0"
  then obtain k where "a = 4096 * k" by (auto elim: dvdE simp: dvd_eq_mod_eq_0 [symmetric])
  then show ?thesis by (simp add: pg_round_down_eq)
qed

lemma block_to_arena_ok:
  assumes h: "heap_between h" and a: "arenas h a = Some r" "a_desc r = Some i" and b: "b \<in> set (blocks (descs h ! i) a)"
  shows "block_to_arena h b = Some a"
proof -
  note i = heap_betweenD(4) [OF h a]
  note al = arena_page [OF heap_betweenD(1) [OF h] a(1)]
  note bb = blocks_bounds [OF heap_betweenD(3) [OF h i] b al(1)]
  have "(pg_ofs b + (2 ^ 32 - ARENA_SIZE)) mod 2 ^ 32 = b - a - 12"
  proof -
    have "pg_ofs b + (2 ^ 32 - ARENA_SIZE) = 2 ^ 32 + (b - a - 12)" using bb(1) by (simp add: bb(4) ARENA_SIZE_def)
    moreover have "b - a - 12 < 2 ^ 32" using bb(2) by simp
    ultimately show ?thesis by (simp only: mod_add_self1 mod_less)
  qed
  then show ?thesis using al a bb(3,5) by (simp add: block_to_arena_def)
qed

lemma arena_pages_upd:
  assumes p: "arena_pages p m" and r: "m a = Some r" "page_cnt r' = page_cnt r"
  shows "arena_pages p (m(a \<mapsto> r'))"
proof -
  have m: "\<exists>q. m b = Some q \<and> page_cnt q = page_cnt s" if "(m(a \<mapsto> r')) b = Some s" for b s
    using that r by (auto split: if_splits)
  show ?thesis using p m unfolding arena_pages_def by metis
qed

lemma free_list_ok_other:
  assumes f: "free_list_ok m d j" and a: "\<And>r. m a = Some r \<Longrightarrow> a_desc r \<noteq> Some j" "\<And>r. r' = Some r \<Longrightarrow> a_desc r \<noteq> Some j"
  shows "free_list_ok (m(a := r')) d j"
  using assms by (fastforce simp: free_list_ok_def)

lemma in_arena_blocks:
  assumes f: "free_list_ok m d i"
  shows "distinct (in_arena a (free_list d))" "set (in_arena a (free_list d)) \<subseteq> set (blocks d a)"
    "length (in_arena a (free_list d)) \<le> blocks_per_arena d"
proof -
  show 1: "distinct (in_arena a (free_list d))" and 2: "set (in_arena a (free_list d)) \<subseteq> set (blocks d a)"
    using f by (auto simp: free_list_ok_def in_arena_def)
  have "card (set (in_arena a (free_list d))) \<le> card (set (blocks d a))" using 2 by (intro card_mono) auto
  also have "\<dots> \<le> blocks_per_arena d" using card_length [of "blocks d a"] by simp
  finally show "length (in_arena a (free_list d)) \<le> blocks_per_arena d" using distinct_card [OF 1] by simp
qed

lemma live_span:
  assumes h: "heap_between h" and l: "live h p n"
  obtains a r where "arenas h a = Some r" "a + 12 \<le> p" "p + n \<le> a + 4096 * page_cnt r" "0 < n"
    "a_desc r = None \<longrightarrow> p = a + 12 \<and> n = 4096 * a_free_cnt r - 12"
    "\<forall>i. a_desc r = Some i \<longrightarrow> p \<in> set (blocks (descs h ! i) a) \<and> n = desc_block_size (descs h ! i)"
proof -
  obtain a r where a: "arenas h a = Some r" and
    k: "case a_desc r of None \<Rightarrow> p = a + 12 \<and> n = 4096 * a_free_cnt r - 12
      | Some i \<Rightarrow> p \<in> set (blocks (descs h ! i) a) \<and> p \<notin> set (free_list (descs h ! i)) \<and> n = desc_block_size (descs h ! i)"
    using l by (auto simp: live_def)
  note al = arena_page [OF heap_betweenD(1) [OF h] a]
  show ?thesis
  proof (cases "a_desc r")
    case None
    then show ?thesis using that [OF a] k al by (simp add: page_cnt_def)
  next
    case (Some i)
    note i = heap_betweenD(4) [OF h a Some]
    note d = heap_betweenD(3) [OF h i]
    have "p \<in> set (blocks (descs h ! i) a)" using k Some by simp
    note bb = blocks_bounds [OF d this al(1)]
    show ?thesis using that [OF a] k Some bb d by (simp add: page_cnt_def desc_ok_def)
  qed
qed

lemma live_apart:
  assumes h: "heap_between h" and l: "live h p n" "live h q m" and ne: "p \<noteq> q"
  shows "{p..<p + n} \<inter> {q..<q + m} = {}"
proof -
  obtain a r where a: "arenas h a = Some r" "a + 12 \<le> p" "p + n \<le> a + 4096 * page_cnt r" "0 < n"
    "a_desc r = None \<longrightarrow> p = a + 12 \<and> n = 4096 * a_free_cnt r - 12"
    "\<forall>i. a_desc r = Some i \<longrightarrow> p \<in> set (blocks (descs h ! i) a) \<and> n = desc_block_size (descs h ! i)"
    by (rule live_span [OF h l(1)])
  obtain b s where b: "arenas h b = Some s" "b + 12 \<le> q" "q + m \<le> b + 4096 * page_cnt s" "0 < m"
    "a_desc s = None \<longrightarrow> q = b + 12 \<and> m = 4096 * a_free_cnt s - 12"
    "\<forall>i. a_desc s = Some i \<longrightarrow> q \<in> set (blocks (descs h ! i) b) \<and> m = desc_block_size (descs h ! i)"
    by (rule live_span [OF h l(2)])
  show ?thesis
  proof (cases "a = b")
    case False
    then have "page_span a (page_cnt r) \<inter> page_span b (page_cnt s) = {}"
      using heap_betweenD(1) [OF h] a(1) b(1) by (auto simp: arena_pages_def)
    moreover have "{p..<p + n} \<subseteq> page_span a (page_cnt r)" "{q..<q + m} \<subseteq> page_span b (page_cnt s)"
      using a b by (auto simp: page_span_def)
    ultimately show ?thesis by blast
  next
    case True
    then have rs: "s = r" using a(1) b(1) by simp
    have "a_desc r \<noteq> None" using a(5) b(5) ne True by (auto simp: rs)
    then obtain i where i: "a_desc r = Some i" by auto
    have bs: "p \<in> set (blocks (descs h ! i) a)" "q \<in> set (blocks (descs h ! i) a)" "n = desc_block_size (descs h ! i)" "m = n"
      using a(6) b(6) i True rs by auto
    have "p + n \<le> q \<or> q + n \<le> p" using blocks_apart [OF heap_betweenD(3) [OF h heap_betweenD(4) [OF h a(1) i]] bs(1,2) ne] bs(3) by simp
    then show ?thesis using bs(4) by auto
  qed
qed

lemma live_size:
  assumes "heap_between h" "live h p n" "live h p m"
  shows "n = m"
proof (rule ccontr)
  obtain a r where a: "arenas h a = Some r" "a + 12 \<le> p" "p + n \<le> a + 4096 * page_cnt r" "0 < n"
    "a_desc r = None \<longrightarrow> p = a + 12 \<and> n = 4096 * a_free_cnt r - 12"
    "\<forall>i. a_desc r = Some i \<longrightarrow> p \<in> set (blocks (descs h ! i) a) \<and> n = desc_block_size (descs h ! i)"
    by (rule live_span [OF assms(1,2)])
  obtain b s where b: "arenas h b = Some s" "b + 12 \<le> p" "p + m \<le> b + 4096 * page_cnt s" "0 < m"
    "a_desc s = None \<longrightarrow> p = b + 12 \<and> m = 4096 * a_free_cnt s - 12"
    "\<forall>i. a_desc s = Some i \<longrightarrow> p \<in> set (blocks (descs h ! i) b) \<and> m = desc_block_size (descs h ! i)"
    by (rule live_span [OF assms(1,3)])
  assume ne: "n \<noteq> m"
  have "p \<in> page_span a (page_cnt r) \<inter> page_span b (page_cnt s)" using a b by (auto simp: page_span_def)
  then have "a = b" using heap_betweenD(1) [OF assms(1)] a(1) b(1) unfolding arena_pages_def by blast
  then show False using ne a b by (cases "a_desc r") auto
qed

subsection \<open>A block leaves and enters its free list\<close>

lemma live_iff:
  "live h q m \<longleftrightarrow> (\<exists>a r. arenas h a = Some r \<and>
     (a_desc r = None \<and> q = a + 12 \<and> m = 4096 * a_free_cnt r - 12 \<or>
      (\<exists>i. a_desc r = Some i \<and> q \<in> set (blocks (descs h ! i) a) \<and> q \<notin> set (free_list (descs h ! i)) \<and>
        m = desc_block_size (descs h ! i))))"
  unfolding live_def by (intro iff_exI conj_cong refl) (auto split: option.splits)

lemma block_page:
  assumes "heap_between h" "arenas h a = Some r" "a_desc r = Some i" "b \<in> set (blocks (descs h ! i) a)"
  shows "pg_round_down b = a"
  using blocks_bounds(3) [OF heap_betweenD(3) [OF assms(1) heap_betweenD(4) [OF assms(1-3)]] assms(4)]
    arena_page(1) [OF heap_betweenD(1) [OF assms(1)] assms(2)] by blast

lemma free_block_arena:
  assumes h: "heap_between h" and i: "i < length (descs h)" and b: "b \<in> set (free_list (descs h ! i))"
  obtains r where "arenas h (pg_round_down b) = Some r" "a_desc r = Some i"
    "b \<in> set (blocks (descs h ! i) (pg_round_down b))"
  using heap_betweenD(2) [OF h i] b unfolding free_list_ok_def by blast

text \<open>The free list and the counter of an arena change together.\<close>

definition set_free :: "nat \<Rightarrow> nat list \<Rightarrow> nat \<Rightarrow> arena \<Rightarrow> nat \<Rightarrow> heap \<Rightarrow> heap" where
  "set_free i xs a r c h = set_arena a (r\<lparr>a_free_cnt := c\<rparr>) (set_free_list i xs h)"

lemma set_free_between:
  assumes h: "heap_between h" and a: "arenas h a = Some r" "a_desc r = Some i"
    and d: "distinct xs" and sub: "set xs \<subseteq> set (free_list (descs h ! i)) \<union> set (blocks (descs h ! i) a)"
    and c: "c = length (in_arena a xs)"
    and eq: "\<And>x. x \<noteq> a \<Longrightarrow> in_arena x xs = in_arena x (free_list (descs h ! i))"
  shows "heap_between (set_free i xs a r c h)"
proof -
  note i = heap_betweenD(4) [OF h a]
  note f = heap_betweenD(2) [OF h]
  let ?r = "r\<lparr>a_free_cnt := c\<rparr>"
  have "arena_pages (pages h) ((arenas h)(a \<mapsto> ?r))"
    by (rule arena_pages_upd [OF heap_betweenD(1) [OF h] a(1)]) (simp add: page_cnt_def a)
  moreover have "free_list_ok ((arenas h)(a \<mapsto> ?r)) ((descs h ! i)\<lparr>free_list := xs\<rparr>) i"
  proof -
    have "\<exists>r. ((arenas h)(a \<mapsto> ?r)) (pg_round_down b) = Some r \<and> a_desc r = Some i \<and>
        b \<in> set (blocks (descs h ! i) (pg_round_down b))" if "b \<in> set xs" for b
    proof (cases "b \<in> set (blocks (descs h ! i) a)")
      case True
      then show ?thesis using a by (simp add: block_page [OF h a True])
    next
      case False
      then have "b \<in> set (free_list (descs h ! i))" using sub that by blast
      then show ?thesis by (rule free_block_arena [OF h i]) (use a False in auto)
    qed
    moreover have "a_free_cnt s = length (in_arena x xs)"
      if "((arenas h)(a \<mapsto> ?r)) x = Some s" "a_desc s = Some i" for x s
      using that c eq [of x] f [OF i] by (cases "x = a") (auto simp: free_list_ok_def)
    ultimately show ?thesis using d f [OF i] by (simp add: free_list_ok_def)
  qed
  moreover have "free_list_ok ((arenas h)(a \<mapsto> ?r)) (descs h ! j) j" if "j \<noteq> i" "j < length (descs h)" for j
    by (rule free_list_ok_other [OF f [OF that(2)]]) (use a that(1) in auto)
  moreover have "map desc_block_size (descs (set_free i xs a r c h)) = map desc_block_size (descs h)"
    by (intro nth_equalityI) (simp_all add: set_free_def i)
  ultimately show ?thesis
    using h i a unfolding heap_between_def by (auto simp: set_free_def split: if_splits)
qed

lemma set_free_live:
  assumes h: "heap_between h" and a: "arenas h a = Some r" "a_desc r = Some i"
    and eq: "\<And>x. x \<noteq> a \<Longrightarrow> in_arena x xs = in_arena x (free_list (descs h ! i))"
  shows "live (set_free i xs a r c h) q m \<longleftrightarrow>
    (if q \<in> set (blocks (descs h ! i) a) then q \<notin> set xs \<and> m = desc_block_size (descs h ! i) else live h q m)"
proof -
  note i = heap_betweenD(4) [OF h a]
  have xs: "q \<in> set xs \<longleftrightarrow> q \<in> set (free_list (descs h ! i))" if "pg_round_down q \<noteq> a"
    using arg_cong [OF eq [OF that], of set] by (auto simp: in_arena_def)
  show ?thesis
  proof (cases "q \<in> set (blocks (descs h ! i) a)")
    case True
    have "q \<notin> set xs \<and> m = desc_block_size (descs h ! i)" if l: "live (set_free i xs a r c h) q m"
    proof -
      obtain x s where x: "((arenas h)(a \<mapsto> r\<lparr>a_free_cnt := c\<rparr>)) x = Some s" and
        k: "a_desc s = None \<and> q = x + 12 \<or> (\<exists>j. a_desc s = Some j \<and>
          q \<in> set (blocks (descs (set_free i xs a r c h) ! j) x) \<and> q \<notin> set (free_list (descs (set_free i xs a r c h) ! j)) \<and>
          m = desc_block_size (descs (set_free i xs a r c h) ! j))"
        using l unfolding live_iff by (auto simp: set_free_def simp del: fun_upd_apply)
      have "pg_round_down q = x"
      proof (cases "a_desc s")
        case None
        then have xs: "arenas h x = Some s" using x a by (auto split: if_splits)
        have q: "q = x + 12" using k None by simp
        have "x mod 4096 = 0" by (rule arena_page [OF heap_betweenD(1) [OF h] xs])
        then show ?thesis unfolding q by (rule pg_round_down_big)
      next
        case (Some j)
        then have "\<exists>t. arenas h x = Some t \<and> a_desc t = Some j" using x a by (auto split: if_splits)
        moreover have "q \<in> set (blocks (descs h ! j) x)" using k Some i by (auto simp: set_free_def split: if_splits)
        ultimately show ?thesis using block_page [OF h] by blast
      qed
      then have "x = a" using block_page [OF h a True] by simp
      then show ?thesis using x k a i by (auto simp: set_free_def)
    qed
    moreover have "q \<notin> set xs \<and> m = desc_block_size (descs h ! i) \<Longrightarrow> live (set_free i xs a r c h) q m"
      using True a i unfolding live_iff set_free_def by (intro exI [of _ a]) simp
    ultimately show ?thesis using True by auto
  next
    case False
    have "q \<in> set (blocks (descs h ! i) x) \<Longrightarrow> arenas h x = Some s \<Longrightarrow> a_desc s = Some i \<Longrightarrow> x \<noteq> a \<Longrightarrow>
        q \<in> set xs \<longleftrightarrow> q \<in> set (free_list (descs h ! i))" for x s
      using xs block_page [OF h, of x s i q] by blast
    then have "(\<exists>s. arenas (set_free i xs a r c h) x = Some s \<and>
     (a_desc s = None \<and> q = x + 12 \<and> m = 4096 * a_free_cnt s - 12 \<or>
      (\<exists>j. a_desc s = Some j \<and> q \<in> set (blocks (descs (set_free i xs a r c h) ! j) x) \<and>
        q \<notin> set (free_list (descs (set_free i xs a r c h) ! j)) \<and> m = desc_block_size (descs (set_free i xs a r c h) ! j)))) \<longleftrightarrow>
     (\<exists>s. arenas h x = Some s \<and>
     (a_desc s = None \<and> q = x + 12 \<and> m = 4096 * a_free_cnt s - 12 \<or>
      (\<exists>j. a_desc s = Some j \<and> q \<in> set (blocks (descs h ! j) x) \<and> q \<notin> set (free_list (descs h ! j)) \<and>
        m = desc_block_size (descs h ! j))))" for x
      using False a i
      by (cases "x = a"; cases "arenas h x"; cases "a_desc (the (arenas h x))"; cases "a_desc (the (arenas h x)) = Some i")
        (simp_all add: set_free_def, blast)
    then show ?thesis using False by (simp only: live_iff if_False)
  qed
qed

lemma set_free_idle:
  assumes h: "heap_between h" and a: "arenas h a = Some r" "a_desc r = Some i"
  shows "arena_idle (set_free i xs a r c h) x \<longleftrightarrow> (if x = a then c = blocks_per_arena (descs h ! i) else arena_idle h x)"
  using a heap_betweenD(4) [OF h a] by (auto simp: arena_idle_def set_free_def)

lemma set_free_same: "arenas h a = Some r \<Longrightarrow> set_free i (free_list (descs h ! i)) a r (a_free_cnt r) h = h"
  by (cases "i < length (descs h)") (auto simp: set_free_def set_free_list_def set_arena_def fun_upd_idem)

lemma live_block:
  assumes "heap_between h" "arenas h a = Some r" "a_desc r = Some i" "q \<in> set (blocks (descs h ! i) a)"
  shows "live h q m \<longleftrightarrow> q \<notin> set (free_list (descs h ! i)) \<and> m = desc_block_size (descs h ! i)"
  using set_free_live [OF assms(1-3) refl, of "a_free_cnt r" q m] assms(4) by (simp add: set_free_same [OF assms(2)])

lemma live_used_ram:
  assumes h: "heap_between h" and l: "live h p n"
  shows "{p..<p + n} \<subseteq> used_ram (pages h)" "0 < n"
proof -
  obtain a r where a: "arenas h a = Some r" "a + 12 \<le> p" "p + n \<le> a + 4096 * page_cnt r" "0 < n"
    by (rule live_span [OF h l])
  then show "{p..<p + n} \<subseteq> used_ram (pages h)" "0 < n"
    using heap_betweenD(1) [OF h] by (fastforce simp: arena_pages_def page_span_def)+
qed

lemma used_heap_ram: "heap_between h \<Longrightarrow> used_heap h \<subseteq> used_ram (pages h)"
  using live_used_ram(1) by (fastforce simp: used_heap_def)

lemma used_heap_without:
  assumes h: "heap_between h" and l: "live h p n" and h': "\<forall>q m. live h' q m \<longleftrightarrow> live h q m \<and> q \<noteq> p"
  shows "used_heap h' = used_heap h - {p..<p + n}"
proof -
  have "{p..<p + n} \<inter> {q..<q + m} = {}" if "live h q m" "q \<noteq> p" for q m
    using live_apart [OF h l that(1)] that(2) by simp
  note apart = this
  show ?thesis
  proof (intro set_eqI iffI)
    fix x assume "x \<in> used_heap h'"
    then obtain q m where q: "live h q m" "q \<noteq> p" "q \<le> x" "x < q + m" using h' by (auto simp: used_heap_def)
    then have "x \<notin> {p..<p + n}" using apart [OF q(1,2)] by auto
    then show "x \<in> used_heap h - {p..<p + n}" using q unfolding used_heap_def by blast
  next
    fix x assume x: "x \<in> used_heap h - {p..<p + n}"
    then obtain q m where q: "live h q m" "q \<le> x" "x < q + m" by (auto simp: used_heap_def)
    have "q \<noteq> p" using q x live_size [OF h l] by auto
    then show "x \<in> used_heap h'" using q h' unfolding used_heap_def by blast
  qed
qed

lemma used_heap_with:
  assumes h': "heap_between h'" and l: "\<forall>q m. live h' q m \<longleftrightarrow> live h q m \<or> q = p \<and> m = n" and nl: "\<forall>m. \<not> live h p m"
  shows "used_heap h' = used_heap h \<union> {p..<p + n}" "{p..<p + n} \<inter> used_heap h = {}"
proof -
  show "used_heap h' = used_heap h \<union> {p..<p + n}" 
  proof (intro set_eqI iffI)
    fix x assume "x \<in> used_heap h \<union> {p..<p + n}"
    then have "\<exists>q m. (live h q m \<or> q = p \<and> m = n) \<and> q \<le> x \<and> x < q + m" by (auto simp: used_heap_def)
    then show "x \<in> used_heap h'" using l by (simp add: used_heap_def)
  qed (use l in \<open>auto simp: used_heap_def\<close>)
  have "{p..<p + n} \<inter> {q..<q + m} = {}" if "live h q m" for q m
    using live_apart [OF h', of p n q m] l nl that by auto
  then show "{p..<p + n} \<inter> used_heap h = {}" unfolding used_heap_def by fastforce
qed

subsection \<open>Arenas come and go\<close>

definition with_arena :: "page_allocator \<Rightarrow> nat \<Rightarrow> arena option \<Rightarrow> heap \<Rightarrow> heap" where
  "with_arena p a r h = h\<lparr>pages := p, arenas := (arenas h)(a := r)\<rparr>"

lemma with_arena_simps [simp]:
  "pages (with_arena p a r h) = p" "arenas (with_arena p a r h) = (arenas h)(a := r)" "descs (with_arena p a r h) = descs h"
  by (simp_all add: with_arena_def)

text \<open>Addresses that belong to an arena, and the arena that gets them.\<close>

definition owns :: "heap \<Rightarrow> nat \<Rightarrow> arena \<Rightarrow> nat \<Rightarrow> nat \<Rightarrow> bool" where
  "owns h a r q m \<longleftrightarrow> (case a_desc r of None \<Rightarrow> q = a + 12 \<and> m = 4096 * a_free_cnt r - 12
     | Some i \<Rightarrow> q \<in> set (blocks (descs h ! i) a) \<and> m = desc_block_size (descs h ! i))"

lemma owns_page:
  assumes h: "heap_between h" and al: "a mod 4096 = 0" "0 < page_cnt r"
    and i: "\<And>i. a_desc r = Some i \<Longrightarrow> i < length (descs h)" and o: "owns h a r q m"
  shows "q \<in> page_span a (page_cnt r)"
proof (cases "a_desc r")
  case None
  then show ?thesis using al o by (simp add: owns_def page_span_def)
next
  case (Some i)
  then have q: "q \<in> set (blocks (descs h ! i) a)" using o by (simp add: owns_def)
  have d: "desc_ok (descs h ! i)" using heap_betweenD(3) [OF h] i [OF Some] by blast
  from blocks_bounds(1,2) [OF this q al(1)] d show ?thesis using al by (auto simp: page_span_def desc_ok_def)
qed

lemma ex_upd:
  assumes "m a = None"
  shows "(\<exists>b s. (m(a \<mapsto> r)) b = Some s \<and> P b s) \<longleftrightarrow> (\<exists>b s. m b = Some s \<and> P b s) \<or> P a r"
proof
  assume "(\<exists>b s. m b = Some s \<and> P b s) \<or> P a r"
  then show "\<exists>b s. (m(a \<mapsto> r)) b = Some s \<and> P b s"
  proof
    assume "\<exists>b s. m b = Some s \<and> P b s"
    then obtain b s where "m b = Some s" "P b s" by blast
    then show ?thesis using assms by (intro exI [of _ b] exI [of _ s]) auto
  qed auto
qed (auto split: if_splits)

lemma add_arena:
  assumes h: "heap_between h" and p: "wf_palloc p" "in_some_pool p a (page_cnt r)"
    and fr: "page_span a (page_cnt r) \<inter> used_ram (pages h) = {}"
    and us: "used_ram p = used_ram (pages h) \<union> page_span a (page_cnt r)"
    and pl: "\<forall>a n. in_some_pool p a n = in_some_pool (pages h) a n"
    and ri: "\<forall>i. a_desc r = Some i \<longrightarrow> i < length (descs h) \<and> a_free_cnt r = 0"
  shows "arenas h a = None" "heap_between (with_arena p a (Some r) h)"
    "live (with_arena p a (Some r) h) q m \<longleftrightarrow> live h q m \<or> owns h a r q m"
    "owns h a r q m \<Longrightarrow> \<not> live h q n"
    "arena_idle (with_arena p a (Some r) h) x \<longleftrightarrow> arena_idle h x"
    "i < length (descs h) \<Longrightarrow> in_arena a (free_list (descs h ! i)) = []"
proof -
  note r = ri [rule_format]
  have ap: "arena_pages (pages h) (arenas h)" by (rule heap_betweenD(1) [OF h])
  have al: "a mod 4096 = 0" "0 < page_cnt r" using page_aligned [OF p] by auto
  have ain: "a \<in> page_span a (page_cnt r)" using al by (simp add: page_span_def)
  show none: "arenas h a = None"
  proof (rule ccontr)
    assume "arenas h a \<noteq> None"
    then obtain s where s: "arenas h a = Some s" by auto
    then have "a \<in> used_ram (pages h)" using ap arena_page [OF ap s] by (fastforce simp: arena_pages_def page_span_def)
    then show False using fr ain by blast
  qed
  show fl: "in_arena a (free_list (descs h ! i)) = []" if i: "i < length (descs h)" for i
  proof -
    have "pg_round_down b \<noteq> a" if "b \<in> set (free_list (descs h ! i))" for b
      by (rule free_block_arena [OF h i that]) (use none in auto)
    then show ?thesis by (simp add: in_arena_def filter_empty_conv)
  qed
  have "arena_pages p ((arenas h)(a \<mapsto> r))"
  proof -
    have old: "in_some_pool p b (page_cnt s) \<and> page_span b (page_cnt s) \<subseteq> used_ram (pages h)" if "arenas h b = Some s" for b s
      using that ap pl by (auto simp: arena_pages_def)
    then have new: "page_span a (page_cnt r) \<inter> page_span b (page_cnt s) = {}" if "arenas h b = Some s" for b s
      using that fr by blast
    have apart: "page_span b (page_cnt s) \<inter> page_span c (page_cnt t) = {}"
      if "arenas h b = Some s" "arenas h c = Some t" "b \<noteq> c" for b c s t
      using that ap unfolding arena_pages_def by blast
    show ?thesis unfolding arena_pages_def
    proof (intro conjI allI impI)
      show "in_some_pool p b (page_cnt s)" "page_span b (page_cnt s) \<subseteq> used_ram p" if "((arenas h)(a \<mapsto> r)) b = Some s" for b s
        using that p us old by (auto split: if_splits)
      fix b s c t assume "((arenas h)(a \<mapsto> r)) b = Some s \<and> ((arenas h)(a \<mapsto> r)) c = Some t \<and> b \<noteq> c"
      then show "page_span b (page_cnt s) \<inter> page_span c (page_cnt t) = {}"
        using new apart new [THEN trans [OF Int_commute]] by (auto split: if_splits)
    qed (rule p(1))
  qed
  moreover have "free_list_ok ((arenas h)(a \<mapsto> r)) (descs h ! i) i" if i: "i < length (descs h)" for i
  proof -
    have "\<exists>s. ((arenas h)(a \<mapsto> r)) (pg_round_down b) = Some s \<and> a_desc s = Some i \<and>
        b \<in> set (blocks (descs h ! i) (pg_round_down b))" if "b \<in> set (free_list (descs h ! i))" for b
      by (rule free_block_arena [OF h i that]) (use none in \<open>auto split: if_splits\<close>)
    moreover have "a_free_cnt s = length (in_arena b (free_list (descs h ! i)))"
      if "((arenas h)(a \<mapsto> r)) b = Some s" "a_desc s = Some i" for b s
      using that heap_betweenD(2) [OF h i] fl [OF i] r by (auto simp: free_list_ok_def split: if_splits)
    ultimately show ?thesis using heap_betweenD(2) [OF h i] unfolding free_list_ok_def by blast
  qed
  ultimately show "heap_between (with_arena p a (Some r) h)"
    using r heap_betweenD(4) [OF h] h
    by (intro heap_betweenI) (auto simp: heap_between_def split: if_splits)
  have o: "owns h a r q m \<Longrightarrow> q \<in> page_span a (page_cnt r)" for q m
    by (rule owns_page [OF h al]) (use r in blast)
  show "owns h a r q m \<Longrightarrow> \<not> live h q n" for n
  proof
    assume "owns h a r q m" "live h q n"
    then show False using o fr live_used_ram [OF h, of q n] by (fastforce)
  qed
  have nofree: "q \<notin> set (free_list (descs h ! i))" if "a_desc r = Some i" "q \<in> set (blocks (descs h ! i) a)" for i
  proof -
    have i: "i < length (descs h)" using r that by blast
    have "pg_round_down q = a" using blocks_bounds(3) [OF heap_betweenD(3) [OF h i] that(2) al(1)] .
    then show ?thesis using fl [OF i] by (auto simp: in_arena_def filter_empty_conv)
  qed
  show "live (with_arena p a (Some r) h) q m \<longleftrightarrow> live h q m \<or> owns h a r q m"
  proof -
    have "(case a_desc r of None \<Rightarrow> q = a + 12 \<and> m = 4096 * a_free_cnt r - 12
      | Some i \<Rightarrow> q \<in> set (blocks (descs h ! i) a) \<and> q \<notin> set (free_list (descs h ! i)) \<and> m = desc_block_size (descs h ! i)) =
      owns h a r q m"
      using nofree by (auto simp: owns_def split: option.splits)
    then show ?thesis unfolding live_def with_arena_simps ex_upd [where m = "arenas h", OF none] by simp
  qed
  show "arena_idle (with_arena p a (Some r) h) x \<longleftrightarrow> arena_idle h x"
  proof -
    have "blocks_per_arena (descs h ! i) \<noteq> 0" if "a_desc r = Some i" for i
      using heap_betweenD(3) [OF h, of i] r [OF that] by (auto simp: desc_ok_def div_eq_0_iff)
    then show ?thesis using none r by (auto simp: arena_idle_def)
  qed
qed

lemma drop_arena:
  assumes h: "heap_between h" and a: "arenas h a = Some r" and p: "wf_palloc p"
    and us: "used_ram p = used_ram (pages h) - page_span a (page_cnt r)"
    and pl: "\<forall>a n. in_some_pool p a n = in_some_pool (pages h) a n"
    and ri: "\<forall>i. a_desc r = Some i \<longrightarrow> in_arena a (free_list (descs h ! i)) = []"
  shows "heap_between (with_arena p a None h)"
    "live (with_arena p a None h) q m \<longleftrightarrow> live h q m \<and> \<not> owns h a r q m"
    "arena_idle (with_arena p a None h) x \<longleftrightarrow> arena_idle h x \<and> x \<noteq> a"
proof -
  note r = ri [rule_format]
  have ap: "arena_pages (pages h) (arenas h)" by (rule heap_betweenD(1) [OF h])
  have apart: "page_span b (page_cnt s) \<inter> page_span c (page_cnt t) = {}"
    if "arenas h b = Some s" "arenas h c = Some t" "b \<noteq> c" for b c s t
    using that ap unfolding arena_pages_def by blast
  have "arena_pages p ((arenas h)(a := None))" unfolding arena_pages_def
  proof (intro conjI allI impI)
    fix b s assume b: "((arenas h)(a := None)) b = Some s"
    then have b: "arenas h b = Some s" "b \<noteq> a" by (auto split: if_splits)
    show "in_some_pool p b (page_cnt s)" using b ap pl by (auto simp: arena_pages_def)
    have "page_span b (page_cnt s) \<subseteq> used_ram (pages h)" using b ap by (auto simp: arena_pages_def)
    then show "page_span b (page_cnt s) \<subseteq> used_ram p" using apart [OF b(1) a b(2)] us by blast
  next
    fix b s c t assume "((arenas h)(a := None)) b = Some s \<and> ((arenas h)(a := None)) c = Some t \<and> b \<noteq> c"
    then show "page_span b (page_cnt s) \<inter> page_span c (page_cnt t) = {}" using apart by (auto split: if_splits)
  qed (rule p)
  moreover have "free_list_ok ((arenas h)(a := None)) (descs h ! i) i" if i: "i < length (descs h)" for i
  proof (cases "a_desc r = Some i")
    case False
    show ?thesis by (rule free_list_ok_other [OF heap_betweenD(2) [OF h i]]) (use a False in auto)
  next
    case True
    have "pg_round_down b \<noteq> a" if "b \<in> set (free_list (descs h ! i))" for b
      using r [OF True] that by (auto simp: in_arena_def filter_empty_conv)
    then show ?thesis using heap_betweenD(2) [OF h i] by (auto simp: free_list_ok_def)
  qed
  ultimately show "heap_between (with_arena p a None h)"
    using heap_betweenD(4) [OF h] h
    by (intro heap_betweenI) (auto simp: heap_between_def split: if_splits)
  show "arena_idle (with_arena p a None h) x \<longleftrightarrow> arena_idle h x \<and> x \<noteq> a" by (auto simp: arena_idle_def)
  have own: "b = a" if "live h q m" "owns h a r q k" "arenas h b = Some s" "owns h b s q l" for b s k l
  proof (rule ccontr)
    assume "b \<noteq> a"
    have o: "owns h c t q m \<Longrightarrow> arenas h c = Some t \<Longrightarrow> q \<in> page_span c (page_cnt t)" for c t m
      by (rule owns_page [OF h]) (use arena_page [OF ap] heap_betweenD(4) [OF h] in blast)+
    from o [OF that(2) a] o [OF that(4,3)] apart [OF that(3) a \<open>b \<noteq> a\<close>] show False by blast
  qed
  show "live (with_arena p a None h) q m \<longleftrightarrow> live h q m \<and> \<not> owns h a r q m"
  proof
    assume l: "live (with_arena p a None h) q m"
    then obtain b s where b: "b \<noteq> a" "arenas h b = Some s" and
      k: "case a_desc s of None \<Rightarrow> q = b + 12 \<and> m = 4096 * a_free_cnt s - 12
        | Some i \<Rightarrow> q \<in> set (blocks (descs h ! i) b) \<and> q \<notin> set (free_list (descs h ! i)) \<and> m = desc_block_size (descs h ! i)"
      unfolding live_def with_arena_simps by (auto split: if_splits)
    have b3: "owns h b s q m" using k by (auto simp: owns_def split: option.splits)
    note b = b b3
    have "live h q m" using k b unfolding live_def by blast
    then show "live h q m \<and> \<not> owns h a r q m" using own [OF _ _ b(2,3)] b(1) by blast
  next
    assume "live h q m \<and> \<not> owns h a r q m"
    then have l: "live h q m" and n: "\<not> owns h a r q m" by simp_all
    from l obtain b s where b: "arenas h b = Some s" and
      k: "case a_desc s of None \<Rightarrow> q = b + 12 \<and> m = 4096 * a_free_cnt s - 12
        | Some i \<Rightarrow> q \<in> set (blocks (descs h ! i) b) \<and> q \<notin> set (free_list (descs h ! i)) \<and> m = desc_block_size (descs h ! i)"
      unfolding live_def by blast
    have "b \<noteq> a" using k n a b by (auto simp: owns_def split: option.splits)
    then have "((arenas h)(a := None)) b = Some s" using b by simp
    then show "live (with_arena p a None h) q m" using k unfolding live_def with_arena_simps by blast
  qed
qed

subsection \<open>Allocation\<close>

definition capacity :: "nat \<Rightarrow> nat" where
  "capacity sz = (case find (\<lambda>b. sz \<le> b) [16, 32, 64, 128, 256, 512, 1024] of Some b \<Rightarrow> b
     | None \<Rightarrow> 4096 * ((sz + 4107) div 4096) - 12)"

lemma find_desc_find:
  "find (\<lambda>b. sz \<le> b) (map desc_block_size ds) = map_option (\<lambda>i. desc_block_size (ds ! i)) (find_desc ds sz)"
  by (induction ds) (auto simp: option.map_comp o_def)

lemma find_desc_less: "find_desc ds sz = Some i \<Longrightarrow> i < length ds"
  by (induction ds arbitrary: i) (auto split: if_splits)

lemma capacity_desc:
  assumes "heap_between h"
  shows "find_desc (descs h) sz = Some i \<Longrightarrow> capacity sz = desc_block_size (descs h ! i)"
    "find_desc (descs h) sz = None \<Longrightarrow> capacity sz = 4096 * ((sz + 4107) div 4096) - 12"
  using assms find_desc_find [of sz "descs h"] by (auto simp: heap_between_def capacity_def)

lemma palloc_get_multiple_ram: "palloc_get_multiple cur 0 n s = Some (s', a) \<Longrightarrow> ram s' = ram s"
  by (auto simp: palloc_get_multiple_def Let_def split: if_splits Option.bind_splits)

lemma palloc_get_law:
  assumes "wf_palloc s"
  shows "\<exists>s' a. palloc_get_multiple cur 0 n s = Some (s', a) \<and> wf_palloc s' \<and> ram s' = ram s \<and>
    (if a = 0 then used_ram s' = used_ram s
     else in_some_pool s' a n \<and> page_span a n \<inter> used_ram s = {} \<and> used_ram s' = used_ram s \<union> page_span a n) \<and>
    (\<forall>a n. in_some_pool s' a n = in_some_pool s a n)"
proof -
  obtain s' p where g: "get_pages cur s (0, n) = Some (s', p)" and w: "wf_palloc s'" and
    u: "case p of None \<Rightarrow> used_ram s' = used_ram s
     | Some a \<Rightarrow> in_some_pool s' a n \<and> page_span a n \<inter> used_ram s = {} \<and> used_ram s' = used_ram s \<union> page_span a n" and
    pl: "\<forall>a n. in_some_pool s' a n = in_some_pool s a n"
  proof -
    have "page_request (0, n)" by (simp add: page_request_def)
    from get_pages_law [OF assms this, of cur, unfolded snd_conv] show thesis
      by (elim exE conjE) (rule that)
  qed
  obtain a where a: "palloc_get_multiple cur 0 n s = Some (s', a)" "p = (if a = 0 then None else Some a)"
    using g by (auto simp: get_pages_def split: Option.bind_splits)
  show ?thesis using a w u pl palloc_get_multiple_ram [OF a(1)]
    by (intro exI [of _ s'] exI [of _ a]) (auto split: if_splits)
qed

lemma with_pages:
  assumes h: "heap_between h" and p: "wf_palloc p" "used_ram p = used_ram (pages h)"
    "\<forall>a n. in_some_pool p a n = in_some_pool (pages h) a n"
  shows "heap_between (h\<lparr>pages := p\<rparr>)" "live (h\<lparr>pages := p\<rparr>) = live h" "arena_idle (h\<lparr>pages := p\<rparr>) = arena_idle h"
  using h p by (simp_all add: heap_between_def arena_pages_def live_iff arena_idle_def fun_eq_iff)

lemma with_ram:
  assumes "heap_between h"
  shows "heap_between (h\<lparr>pages := (pages h)\<lparr>ram := m\<rparr>\<rparr>)" "live (h\<lparr>pages := (pages h)\<lparr>ram := m\<rparr>\<rparr>) = live h"
    "arena_idle (h\<lparr>pages := (pages h)\<lparr>ram := m\<rparr>\<rparr>) = arena_idle h"
  using with_pages [OF assms, of "(pages h)\<lparr>ram := m\<rparr>"] heap_betweenD(5) [OF assms] by (simp_all add: in_some_pool_def)

lemma block_to_arena_free_list [simp]: "block_to_arena (set_free_list i xs h) b = block_to_arena h b"
proof -
  have "desc_block_size (descs (set_free_list i xs h) ! j) = desc_block_size (descs h ! j)" for j
    by (cases "i < length (descs h)"; cases "i = j") (simp_all add: set_free_list_def list_update_beyond)
  note sz = this
  show ?thesis unfolding block_to_arena_def set_free_list_simps(2) sz ..
qed

lemma pop_block:
  assumes h: "heap_between h" and i: "i < length (descs h)" and fl: "free_list (descs h ! i) = b # bs"
    and arena_idle: "\<And>x. arena_idle h x \<Longrightarrow> x = pg_round_down b"
  shows "\<exists>a r. block_to_arena h b = Some a \<and> arenas h a = Some r \<and>
    (let h' = set_free i bs a r ((a_free_cnt r + (2 ^ 32 - 1)) mod 2 ^ 32) h in
      heap_ok h' \<and> (\<forall>q m. live h' q m \<longleftrightarrow> live h q m \<or> q = b \<and> m = desc_block_size (descs h ! i)) \<and> (\<forall>m. \<not> live h b m))"
proof -
  obtain r where r: "arenas h (pg_round_down b) = Some r" "a_desc r = Some i"
    "b \<in> set (blocks (descs h ! i) (pg_round_down b))"
    by (rule free_block_arena [OF h i, of b]) (simp_all add: fl)
  define a where "a = pg_round_down b"
  note r = r [folded a_def]
  have f: "free_list_ok (arenas h) (descs h ! i) i" by (rule heap_betweenD(2) [OF h i])
  then have cnt: "a_free_cnt r = length (in_arena a (b # bs))" and d: "distinct (b # bs)"
    using r by (auto simp: free_list_ok_def fl)
  have ina: "in_arena a (b # bs) = b # in_arena a bs" by (simp add: in_arena_def a_def)
  have le: "a_free_cnt r \<le> blocks_per_arena (descs h ! i)" using in_arena_blocks(3) [OF f, of a] cnt by (simp add: fl)
  have "blocks_per_arena (descs h ! i) \<le> 4084"
    using heap_betweenD(3) [OF h i] by (simp add: desc_ok_def)
  then have c: "(a_free_cnt r + (2 ^ 32 - 1)) mod 2 ^ 32 = length (in_arena a bs)"
    using le cnt ina by simp
  define h' where "h' = set_free i bs a r (length (in_arena a bs)) h"
  have eq: "in_arena x bs = in_arena x (free_list (descs h ! i))" if "x \<noteq> a" for x
    using that by (auto simp: fl in_arena_def a_def)
  have "heap_between h'" unfolding h'_def
    by (rule set_free_between [OF h r(1,2)]) (use d eq in \<open>auto simp: fl\<close>)
  moreover have "\<not> arena_idle h' x" for x
    unfolding h'_def set_free_idle [OF h r(1,2)] using arena_idle [of x] le cnt ina by (auto simp: a_def)
  moreover have "live h' q m \<longleftrightarrow> live h q m \<or> q = b \<and> m = desc_block_size (descs h ! i)" for q m
  proof -
    have "live h' q m \<longleftrightarrow> (if q \<in> set (blocks (descs h ! i) a) then q \<notin> set bs \<and> m = desc_block_size (descs h ! i) else live h q m)"
      unfolding h'_def by (rule set_free_live [OF h r(1,2) eq])
    then show ?thesis using live_block [OF h r(1,2)] r(3) d by (auto simp: fl)
  qed
  moreover have "\<not> live h b m" for m using live_block [OF h r] by (simp add: fl)
  ultimately show ?thesis
    unfolding Let_def
    by (intro exI [of _ a] exI [of _ r]) (unfold c h'_def [symmetric], simp add: heap_ok_def block_to_arena_ok [OF h r] r(1))
qed

lemma new_arena_ok:
  assumes ok: "heap_ok h" and i: "i < length (descs h)" and fl: "free_list (descs h ! i) = []"
  shows "\<exists>h' ok. new_arena cur i h = Some (h', ok) \<and> heap_between h' \<and> live h' = live h \<and> ram (pages h') = ram (pages h) \<and>
    length (descs h') = length (descs h) \<and> desc_block_size (descs h' ! i) = desc_block_size (descs h ! i) \<and>
    (if ok then \<exists>b bs. free_list (descs h' ! i) = b # bs \<and> (\<forall>x. arena_idle h' x \<longrightarrow> x = pg_round_down b) else \<forall>x. \<not> arena_idle h' x)"
proof -
  have h: "heap_between h" and ni: "\<not> arena_idle h x" for x using ok by (simp_all add: heap_ok_def)
  obtain p a where g: "palloc_get_multiple cur 0 1 (pages h) = Some (p, a)" "wf_palloc p" "ram p = ram (pages h)" and
    u: "if a = 0 then used_ram p = used_ram (pages h)
     else in_some_pool p a 1 \<and> page_span a 1 \<inter> used_ram (pages h) = {} \<and> used_ram p = used_ram (pages h) \<union> page_span a 1" and
    pl: "\<forall>a n. in_some_pool p a n = in_some_pool (pages h) a n"
    using palloc_get_law [OF heap_betweenD(5) [OF h], of cur 1] by blast
  show ?thesis
  proof (cases "a = 0")
    case True
    have "used_ram p = used_ram (pages h)" using u True by simp
    note w = with_pages [OF h g(2) this pl]
    have "new_arena cur i h = Some (h\<lparr>pages := p\<rparr>, False)" using g True by (simp add: new_arena_def palloc_get_page_def)
    then show ?thesis using w g(3) ni by (intro exI [of _ "h\<lparr>pages := p\<rparr>"] exI [of _ False]) simp
  next
    case False
    let ?r = "\<lparr>a_desc = Some i, a_free_cnt = 0\<rparr>"
    let ?d = "descs h ! i"
    have pc: "page_cnt ?r = 1" by (simp add: page_cnt_def)
    have pu: "in_some_pool p a (page_cnt ?r)" "page_span a (page_cnt ?r) \<inter> used_ram (pages h) = {}"
      "used_ram p = used_ram (pages h) \<union> page_span a (page_cnt ?r)" using u False unfolding pc by simp_all
    have ri: "\<forall>j. a_desc ?r = Some j \<longrightarrow> j < length (descs h) \<and> a_free_cnt ?r = 0" using i by simp
    note add = add_arena [OF h g(2) pu pl ri]
    let ?h = "with_arena p a (Some ?r) h"
    have r: "arenas ?h a = Some ?r" "a_desc ?r = Some i" by simp_all
    have d: "desc_ok ?d" by (rule heap_betweenD(3) [OF h i])
    let ?h' = "set_free i (blocks ?d a) a ?r (blocks_per_arena ?d) ?h"
    have al: "a mod 4096 = 0" by (rule page_aligned [OF g(2) pu(1)])
    have rd: "pg_round_down b = a" if "b \<in> set (blocks ?d a)" for b by (rule blocks_bounds(3) [OF d that al])
    have in_a: "in_arena x (blocks ?d a) = (if x = a then blocks ?d a else [])" for x
      using rd by (auto simp: in_arena_def filter_empty_conv filter_id_conv)
    have eq: "x \<noteq> a \<Longrightarrow> in_arena x (blocks ?d a) = in_arena x (free_list (descs ?h ! i))" for x
      using in_a fl by (simp add: in_arena_def)
    have b: "heap_between ?h'"
      by (rule set_free_between [OF add(2) r]) (use in_a eq distinct_blocks [OF d] in auto)
    have id: "arena_idle ?h' x \<Longrightarrow> x = a" for x
      unfolding set_free_idle [OF add(2) r] using add(5) ni by (auto split: if_splits)
    have lv: "live ?h' q m = live h q m" for q m
    proof -
      have "live ?h' q m \<longleftrightarrow> (if q \<in> set (blocks (descs ?h ! i) a) then q \<notin> set (blocks ?d a) \<and> m = desc_block_size (descs ?h ! i)
        else live ?h q m)" by (rule set_free_live [OF add(2) r eq])
      moreover have "q \<in> set (blocks ?d a) \<Longrightarrow> \<not> live h q m"
        using add(4) [of q "desc_block_size ?d" m] by (simp add: owns_def)
      ultimately show ?thesis using add(3) [of q m] by (auto simp: owns_def)
    qed
    have "blocks_per_arena ?d \<noteq> 0" using d by (auto simp: desc_ok_def div_eq_0_iff)
    then have "blocks ?d a \<noteq> []" using length_blocks [of ?d a] by (metis list.size(3))
    then obtain c cs where c: "blocks ?d a = c # cs" by (cases "blocks ?d a") auto
    have "new_arena cur i h = Some (?h', True)"
    proof -
      have "arena_blocks (set_arena a \<lparr>a_desc = Some i, a_free_cnt = blocks_per_arena ?d\<rparr> (h\<lparr>pages := p\<rparr>)) a (blocks_per_arena ?d) =
          Some (blocks ?d a)"
        using arena_blocks_ok [of "set_arena a \<lparr>a_desc = Some i, a_free_cnt = blocks_per_arena ?d\<rparr> (h\<lparr>pages := p\<rparr>)" a
            "\<lparr>a_desc = Some i, a_free_cnt = blocks_per_arena ?d\<rparr>" i "blocks_per_arena ?d"] False
        by (simp add: blocks_def)
      then show ?thesis using g False fl
        by (simp add: new_arena_def palloc_get_page_def Let_def set_free_def with_arena_def set_arena_def set_free_list_def)
    qed
    then show ?thesis using b lv id g(3) i c rd [of c]
      by (intro exI [of _ ?h'] exI [of _ True]) (auto simp: set_free_def fun_eq_iff)
  qed
qed

lemma malloc_ok:
  assumes ok: "heap_ok h" and sz: "0 < sz" "sz + 4107 < 2 ^ 32"
  shows "\<exists>h' p. malloc cur sz h = Some (h', p) \<and> heap_ok h' \<and> ram (pages h') = ram (pages h) \<and>
    (if p = 0 then live h' = live h
     else (\<forall>q m. live h' q m \<longleftrightarrow> live h q m \<or> q = p \<and> m = capacity sz) \<and> (\<forall>m. \<not> live h p m))"
proof (cases "find_desc (descs h) sz")
  case None
  have h: "heap_between h" and ni: "\<not> arena_idle h x" for x using ok by (simp_all add: heap_ok_def)
  define n where "n = (sz + 4107) div 4096"
  have n: "big_page_cnt sz = n" using sz by (simp add: big_page_cnt_def size_add_def ARENA_SIZE_def PGSIZE_def n_def)
  obtain p a where g: "palloc_get_multiple cur 0 n (pages h) = Some (p, a)" "wf_palloc p" "ram p = ram (pages h)" and
    u: "if a = 0 then used_ram p = used_ram (pages h)
     else in_some_pool p a n \<and> page_span a n \<inter> used_ram (pages h) = {} \<and> used_ram p = used_ram (pages h) \<union> page_span a n" and
    pl: "\<forall>a n. in_some_pool p a n = in_some_pool (pages h) a n"
    using palloc_get_law [OF heap_betweenD(5) [OF h], of cur n] by blast
  show ?thesis
  proof (cases "a = 0")
    case True
    have "used_ram p = used_ram (pages h)" using u True by simp
    note w = with_pages [OF h g(2) this pl]
    have "malloc cur sz h = Some (h\<lparr>pages := p\<rparr>, 0)" using g True None n sz by (simp add: malloc_def)
    then show ?thesis using w g(3) ni by (intro exI [of _ "h\<lparr>pages := p\<rparr>"] exI [of _ 0]) (simp add: heap_ok_def)
  next
    case False
    let ?r = "\<lparr>a_desc = None, a_free_cnt = n\<rparr>"
    have pc: "page_cnt ?r = n" by (simp add: page_cnt_def)
    have pu: "in_some_pool p a (page_cnt ?r)" "page_span a (page_cnt ?r) \<inter> used_ram (pages h) = {}"
      "used_ram p = used_ram (pages h) \<union> page_span a (page_cnt ?r)" using u False unfolding pc by simp_all
    have ri: "\<forall>j. a_desc ?r = Some j \<longrightarrow> j < length (descs h) \<and> a_free_cnt ?r = 0" by simp
    note add = add_arena [OF h g(2) pu pl ri]
    have lt: "a + 12 < 2 ^ 32" using page_aligned [OF g(2) pu(1)] unfolding pc by simp
    have m: "malloc cur sz h = Some (with_arena p a (Some ?r) h, a + 12)"
      using g False None n sz lt by (simp add: malloc_def Let_def set_arena_def with_arena_def ARENA_SIZE_def)
    have o: "owns h a ?r q m \<longleftrightarrow> q = a + 12 \<and> m = capacity sz" for q m
      by (auto simp: owns_def capacity_desc(2) [OF h None] n_def)
    show ?thesis unfolding m
      by (intro exI [of _ "with_arena p a (Some ?r) h"] exI [of _ "a + 12"])
        (use add(2,3,4) add(5) [of _] ni g(3) o in \<open>simp add: heap_ok_def\<close>)
  qed
next
  case (Some i)
  note i = find_desc_less [OF Some]
  have h: "heap_between h" and ni: "\<not> arena_idle h x" for x using ok by (simp_all add: heap_ok_def)
  note cap = capacity_desc(1) [OF h Some]
  have "\<exists>h1 ok. (if free_list (descs h ! i) = [] then new_arena cur i h else Some (h, True)) = Some (h1, ok) \<and>
    heap_between h1 \<and> live h1 = live h \<and> ram (pages h1) = ram (pages h) \<and>
    length (descs h1) = length (descs h) \<and> desc_block_size (descs h1 ! i) = desc_block_size (descs h ! i) \<and>
    (if ok then \<exists>b bs. free_list (descs h1 ! i) = b # bs \<and> (\<forall>x. arena_idle h1 x \<longrightarrow> x = pg_round_down b) else \<forall>x. \<not> arena_idle h1 x)"
  proof (cases "free_list (descs h ! i)")
    case Nil
    then show ?thesis using new_arena_ok [OF ok i Nil, of cur] by simp
  next
    case (Cons b bs)
    then show ?thesis using h ni by (intro exI [of _ h] exI [of _ True]) simp
  qed
  then obtain h1 ok where s: "(if free_list (descs h ! i) = [] then new_arena cur i h else Some (h, True)) = Some (h1, ok)"
    and h1: "heap_between h1" "live h1 = live h" "ram (pages h1) = ram (pages h)" "i < length (descs h1)"
      "desc_block_size (descs h1 ! i) = capacity sz"
    and k: "if ok then \<exists>b bs. free_list (descs h1 ! i) = b # bs \<and> (\<forall>x. arena_idle h1 x \<longrightarrow> x = pg_round_down b) else \<forall>x. \<not> arena_idle h1 x"
    using i cap by auto
  show ?thesis
  proof (cases ok)
    case False
    then have "malloc cur sz h = Some (h1, 0)" using s sz Some by (simp add: malloc_def)
    then show ?thesis using h1 k False by (intro exI [of _ h1] exI [of _ 0]) (simp add: heap_ok_def)
  next
    case True
    then obtain b bs where b: "free_list (descs h1 ! i) = b # bs" "\<And>x. arena_idle h1 x \<Longrightarrow> x = pg_round_down b" using k by auto
    obtain a r where a: "block_to_arena h1 b = Some a" "arenas h1 a = Some r"
      "heap_ok (set_free i bs a r ((a_free_cnt r + (2 ^ 32 - 1)) mod 2 ^ 32) h1)"
      "\<forall>q m. live (set_free i bs a r ((a_free_cnt r + (2 ^ 32 - 1)) mod 2 ^ 32) h1) q m \<longleftrightarrow>
         live h1 q m \<or> q = b \<and> m = desc_block_size (descs h1 ! i)" "\<forall>m. \<not> live h1 b m"
      using pop_block [OF h1(1,4) b] unfolding Let_def by blast
    let ?h' = "set_free i bs a r ((a_free_cnt r + (2 ^ 32 - 1)) mod 2 ^ 32) h1"
    have m: "malloc cur sz h = Some (?h', b)"
      using s sz Some True b a(1,2) by (simp add: malloc_def set_free_def Let_def)
    have "live ?h' b (capacity sz)" using a(4) h1(5) by simp
    then have "b \<noteq> 0" using live_span [of ?h' b] a(3) by (auto simp: heap_ok_def elim: live_span)
    then show ?thesis using m a h1 by (intro exI [of _ ?h'] exI [of _ b]) (simp add: set_free_def)
  qed
qed

subsection \<open>Release\<close>

lemma fold_remove1: "distinct xs \<Longrightarrow> fold remove1 bs xs = filter (\<lambda>x. x \<notin> set bs) xs"
  by (induction bs arbitrary: xs) (auto simp: distinct_remove1_removeAll removeAll_filter_not_eq intro: filter_cong)

lemma palloc_free_ram:
  assumes "palloc_free_multiple a n s = Some s'" "x \<notin> page_span a n"
  shows "ram s' x = ram s x"
proof -
  have "addr (PGSIZE * n) \<le> 4096 * n" by (simp add: addr_def PGSIZE_def)
  then have "\<not> (a \<le> x \<and> x < a + addr (PGSIZE * n))" using assms(2) by (auto simp: page_span_def)
  then show ?thesis using assms(1)
    by (auto simp: palloc_free_multiple_def Let_def memset_ram_def split: if_splits Option.bind_splits)
qed

lemma palloc_free_law:
  assumes "wf_palloc s" "in_some_pool s a n" "page_span a n \<subseteq> used_ram s"
  shows "\<exists>s'. palloc_free_multiple a n s = Some s' \<and> wf_palloc s' \<and> used_ram s' = used_ram s - page_span a n \<and>
    (\<forall>a n. in_some_pool s' a n = in_some_pool s a n) \<and> (\<forall>x \<in> used_ram s'. ram s' x = ram s x)"
  using put_pages_law [OF assms] palloc_free_ram by (fastforce simp: put_pages_def)

lemma push_block:
  assumes h: "heap_between h" and a: "arenas h a = Some r" "a_desc r = Some i"
    and p: "p \<in> set (blocks (descs h ! i) a)" "p \<notin> set (free_list (descs h ! i))"
  defines "h' \<equiv> set_free i (p # free_list (descs h ! i)) a r (a_free_cnt r + 1) h"
  shows "heap_between h'" "live h' q m \<longleftrightarrow> live h q m \<and> q \<noteq> p" "a_free_cnt r + 1 \<le> blocks_per_arena (descs h ! i)"
    "arena_idle h' x \<longleftrightarrow> (if x = a then a_free_cnt r + 1 = blocks_per_arena (descs h ! i) else arena_idle h x)"
proof -
  let ?d = "descs h ! i"
  note i = heap_betweenD(4) [OF h a]
  have f: "free_list_ok (arenas h) ?d i" by (rule heap_betweenD(2) [OF h i])
  have rd: "pg_round_down p = a" by (rule block_page [OF h a p(1)])
  have dist: "distinct (p # free_list ?d)" and cnt: "a_free_cnt r = length (in_arena a (free_list ?d))"
    using f p a by (auto simp: free_list_ok_def)
  have eq: "x \<noteq> a \<Longrightarrow> in_arena x (p # free_list ?d) = in_arena x (free_list ?d)" for x
    using rd by (auto simp: in_arena_def)
  have c: "a_free_cnt r + 1 = length (in_arena a (p # free_list ?d))" using cnt rd by (simp add: in_arena_def)
  show btw: "heap_between h'" unfolding h'_def
    by (rule set_free_between [OF h a dist _ c eq]) (use p in auto)
  have "live h' q m \<longleftrightarrow> (if q \<in> set (blocks ?d a) then q \<notin> set (p # free_list ?d) \<and> m = desc_block_size ?d
      else live h q m)" unfolding h'_def by (rule set_free_live [OF h a eq])
  then show "live h' q m \<longleftrightarrow> live h q m \<and> q \<noteq> p" using p live_block [OF h a] by auto
  show "arena_idle h' x \<longleftrightarrow> (if x = a then a_free_cnt r + 1 = blocks_per_arena ?d else arena_idle h x)"
    unfolding h'_def by (rule set_free_idle [OF h a])
  have "free_list_ok (arenas h') (descs h' ! i) i"
    by (rule heap_betweenD(2) [OF btw]) (simp add: h'_def set_free_def i)
  from in_arena_blocks(3) [OF this, of a] c show "a_free_cnt r + 1 \<le> blocks_per_arena ?d"
    using i by (simp add: h'_def set_free_def)
qed

lemma idle_all_free:
  assumes h: "heap_between h" and a: "arenas h a = Some r" "a_desc r = Some i" and full: "a_free_cnt r = blocks_per_arena (descs h ! i)"
  shows "set (blocks (descs h ! i) a) = set (in_arena a (free_list (descs h ! i)))"
proof (rule card_subset_eq [symmetric])
  note i = heap_betweenD(4) [OF h a]
  have f: "free_list_ok (arenas h) (descs h ! i) i" by (rule heap_betweenD(2) [OF h i])
  show "set (in_arena a (free_list (descs h ! i))) \<subseteq> set (blocks (descs h ! i) a)" by (rule in_arena_blocks(2) [OF f])
  have "a_free_cnt r = length (in_arena a (free_list (descs h ! i)))" using f a by (simp add: free_list_ok_def)
  then show "card (set (in_arena a (free_list (descs h ! i)))) = card (set (blocks (descs h ! i) a))"
    using full distinct_card [OF in_arena_blocks(1) [OF f], of a]
      distinct_card [OF distinct_blocks [OF heap_betweenD(3) [OF h i], of a]] by simp
qed simp

lemma without_blocks:
  assumes h: "heap_between h" and a: "arenas h a = Some r" "a_desc r = Some i" and full: "a_free_cnt r = blocks_per_arena (descs h ! i)"
  shows "in_arena x (filter (\<lambda>b. b \<notin> set (blocks (descs h ! i) a)) (free_list (descs h ! i))) =
    (if x = a then [] else in_arena x (free_list (descs h ! i)))"
proof (cases "x = a")
  case True
  have "in_arena a (filter (\<lambda>b. b \<notin> set (blocks (descs h ! i) a)) (free_list (descs h ! i))) =
      filter (\<lambda>b. b \<notin> set (blocks (descs h ! i) a)) (in_arena a (free_list (descs h ! i)))"
    unfolding in_arena_def filter_filter by (rule filter_cong) auto
  also have "\<dots> = []" unfolding filter_empty_conv idle_all_free [OF assms] by simp
  finally show ?thesis unfolding True by (simp only: simp_thms if_True)
next
  case False
  then have "b \<notin> set (blocks (descs h ! i) a)" if "pg_round_down b = x" for b using that block_page [OF h a, of b] by auto
  then have "in_arena x (filter (\<lambda>b. b \<notin> set (blocks (descs h ! i) a)) (free_list (descs h ! i))) = in_arena x (free_list (descs h ! i))"
    unfolding in_arena_def filter_filter by (intro filter_cong) auto
  then show ?thesis by (simp only: False if_False)
qed

lemma release_idle:
  assumes h: "heap_between h" and a: "arenas h a = Some r" "a_desc r = Some i" and full: "a_free_cnt r = blocks_per_arena (descs h ! i)"
  defines "xs \<equiv> fold remove1 (blocks (descs h ! i) a) (free_list (descs h ! i))"
  shows "arena_blocks h a (blocks_per_arena (descs h ! i)) = Some (blocks (descs h ! i) a) \<and>
    (\<exists>s. palloc_free_page a (pages h) = Some s \<and> (\<forall>x \<in> used_ram s. ram s x = ram (pages h) x) \<and>
      (let h' = with_arena s a None (set_free_list i xs h) in
        heap_between h' \<and> live h' = live h \<and> (\<forall>x. arena_idle h' x \<longleftrightarrow> arena_idle h x \<and> x \<noteq> a)))"
proof -
  let ?d = "descs h ! i"
  note i = heap_betweenD(4) [OF h a]
  note al = arena_page [OF heap_betweenD(1) [OF h] a(1)]
  have d: "distinct (free_list ?d)" using heap_betweenD(2) [OF h i] by (simp add: free_list_ok_def)
  have xs: "xs = filter (\<lambda>b. b \<notin> set (blocks ?d a)) (free_list ?d)" unfolding xs_def by (rule fold_remove1 [OF d])
  note inx = without_blocks [OF h a full, folded xs]
  let ?h = "set_free i xs a r 0 h" and ?r = "r\<lparr>a_free_cnt := 0\<rparr>"
  have eq: "x \<noteq> a \<Longrightarrow> in_arena x xs = in_arena x (free_list ?d)" for x using inx [of x] by simp
  have btw: "heap_between ?h"
    by (rule set_free_between [OF h a]) (use d inx [of a] eq in \<open>auto simp: xs\<close>)
  have lv: "live ?h q m \<longleftrightarrow> (if q \<in> set (blocks ?d a) then q \<notin> set xs \<and> m = desc_block_size ?d else live h q m)" for q m
    by (rule set_free_live [OF h a eq])
  have pc: "page_cnt r = 1" "page_cnt ?r = 1" using a by (simp_all add: page_cnt_def)
  have r: "arenas ?h a = Some ?r" "pages ?h = pages h" by (simp_all add: set_free_def)
  have "in_some_pool (pages h) a (page_cnt r)" "page_span a (page_cnt r) \<subseteq> used_ram (pages h)"
    using heap_betweenD(1) [OF h] a(1) by (auto simp: arena_pages_def)
  from palloc_free_law [OF heap_betweenD(5) [OF h] this [unfolded pc]]
  obtain s where s: "palloc_free_multiple a 1 (pages h) = Some s" "wf_palloc s"
    "used_ram s = used_ram (pages ?h) - page_span a (page_cnt ?r)" "\<forall>a n. in_some_pool s a n = in_some_pool (pages ?h) a n"
    "\<forall>x \<in> used_ram s. ram s x = ram (pages h) x"
    unfolding pc r(2) by blast
  have ri: "\<forall>j. a_desc ?r = Some j \<longrightarrow> in_arena a (free_list (descs ?h ! j)) = []"
    using inx [of a] i a by (simp add: set_free_def)
  note drop = drop_arena [OF btw r(1) s(2-4) ri]
  have own: "owns ?h a ?r q m \<longleftrightarrow> q \<in> set (blocks ?d a) \<and> m = desc_block_size ?d" for q m
    using a i by (simp add: owns_def set_free_def)
  have "q \<in> set (blocks ?d a) \<Longrightarrow> \<not> live h q m" for q m
    using live_block [OF h a] unfolding idle_all_free [OF h a full] by (auto simp: in_arena_def)
  then have lv2: "live (with_arena s a None ?h) = live h" using drop(2) own lv by (fastforce simp: fun_eq_iff)
  have id: "arena_idle (with_arena s a None ?h) x \<longleftrightarrow> arena_idle h x \<and> x \<noteq> a" for x
    unfolding drop(3) set_free_idle [OF h a] by auto
  have same: "with_arena s a None ?h = with_arena s a None (set_free_list i xs h)"
    by (simp add: with_arena_def set_free_def set_arena_def)
  have "arena_blocks h a (blocks_per_arena ?d) = Some (blocks ?d a)"
    using arena_blocks_ok [OF a, of "blocks_per_arena ?d"] al(2) by (simp add: blocks_def)
  then show ?thesis using drop(1) lv2 id s(1,5) unfolding same Let_def palloc_free_page_def by blast
qed

lemma free_big_ok:
  assumes ok: "heap_ok h" and a: "arenas h a = Some r" "a_desc r = None"
  shows "\<exists>h'. free (a + 12) h = Some h' \<and> heap_ok h' \<and> (\<forall>q m. live h' q m \<longleftrightarrow> live h q m \<and> q \<noteq> a + 12) \<and>
    (\<forall>x \<in> used_heap h'. ram (pages h') x = ram (pages h) x)"
proof -
  have h: "heap_between h" and ni: "\<not> arena_idle h x" for x using ok by (simp_all add: heap_ok_def)
  note al = arena_page [OF heap_betweenD(1) [OF h] a(1)]
  have span: "in_some_pool (pages h) a (page_cnt r)" "page_span a (page_cnt r) \<subseteq> used_ram (pages h)"
    using heap_betweenD(1) [OF h] a by (auto simp: arena_pages_def)
  have "pg_ofs (a + 12) = 12"
    using pg_round_down_ofs [of "a + 12"] pg_round_down_big [OF al(1)] by simp
  then have b: "block_to_arena h (a + 12) = Some a"
    using pg_round_down_big [OF al(1)] a al by (simp add: block_to_arena_def ARENA_SIZE_def)
  obtain s where s: "palloc_free_multiple a (page_cnt r) (pages h) = Some s" "wf_palloc s"
    "used_ram s = used_ram (pages h) - page_span a (page_cnt r)" "\<forall>a n. in_some_pool s a n = in_some_pool (pages h) a n"
    "\<forall>x \<in> used_ram s. ram s x = ram (pages h) x"
    using palloc_free_law [OF heap_betweenD(5) [OF h] span] by blast
  have ri: "\<forall>i. a_desc r = Some i \<longrightarrow> in_arena a (free_list (descs h ! i)) = []" using a by simp
  note drop = drop_arena [OF h a(1) s(2-4) ri]
  have "free (a + 12) h = Some (with_arena s a None h)"
    using b a s(1) by (simp add: free_def page_cnt_def with_arena_def)
  moreover have "live h (a + 12) (4096 * a_free_cnt r - 12)" using a by (auto simp: live_iff)
  then have "live h q m \<Longrightarrow> owns h a r q m \<longleftrightarrow> q = a + 12" for q m
    using live_size [OF h] a by (auto simp: owns_def)
  moreover have "x \<in> used_ram s" if "x \<in> used_heap (with_arena s a None h)" for x
    using used_heap_ram [OF drop(1)] that by auto
  ultimately show ?thesis using drop ni s(5) by (auto simp: heap_ok_def)
qed

lemma free_ok:
  assumes ok: "heap_ok h" and l: "live h p n"
  shows "\<exists>h'. free p h = Some h' \<and> heap_ok h' \<and> (\<forall>q m. live h' q m \<longleftrightarrow> live h q m \<and> q \<noteq> p) \<and>
    (\<forall>x \<in> used_heap h'. ram (pages h') x = ram (pages h) x)"
proof -
  have h: "heap_between h" and ni: "\<not> arena_idle h x" for x using ok by (simp_all add: heap_ok_def)
  obtain a r where a: "arenas h a = Some r" and
    k: "a_desc r = None \<and> p = a + 12 \<and> n = 4096 * a_free_cnt r - 12 \<or>
      (\<exists>i. a_desc r = Some i \<and> p \<in> set (blocks (descs h ! i) a) \<and> p \<notin> set (free_list (descs h ! i)) \<and>
        n = desc_block_size (descs h ! i))"
    using l unfolding live_iff by blast
  show ?thesis
  proof (cases "a_desc r")
    case None
    then show ?thesis using free_big_ok [OF ok a None] k by simp
  next
    case (Some i)
    let ?d = "descs h ! i"
    let ?h = "h\<lparr>pages := (pages h)\<lparr>ram := memset_ram (ram (pages h)) p 0xcc (desc_block_size ?d)\<rparr>\<rparr>"
    have p: "p \<in> set (blocks ?d a)" "p \<notin> set (free_list ?d)" using k Some by auto
    note b = block_to_arena_ok [OF h a Some p(1)]
    note i = heap_betweenD(4) [OF h a Some]
    note w = with_ram [OF h, of "memset_ram (ram (pages h)) p 0xcc (desc_block_size ?d)"]
    have a': "arenas ?h a = Some r" "p \<in> set (blocks (descs ?h ! i) a)" "p \<notin> set (free_list (descs ?h ! i))"
      using a p by simp_all
    let ?h' = "set_free i (p # free_list (descs ?h ! i)) a r (a_free_cnt r + 1) ?h" and ?r = "r\<lparr>a_free_cnt := a_free_cnt r + 1\<rparr>"
    note push = push_block [OF w(1) a'(1) Some a'(2,3)]
    have p0: "p \<noteq> 0"
      using blocks_bounds(1) [OF heap_betweenD(3) [OF h i] p(1) arena_page(1) [OF heap_betweenD(1) [OF h] a]] by simp
    show ?thesis
    proof (cases "a_free_cnt r + 1 \<ge> blocks_per_arena ?d")
      case False
      then have "free p h = Some ?h'" using b a Some p0
        by (simp add: free_def Let_def set_free_def not_le set_free_list_def set_arena_def)
      moreover have lv: "\<forall>q m. live ?h' q m \<longleftrightarrow> live h q m \<and> q \<noteq> p" using push(2) w(2) by simp
      moreover have "ram (pages ?h') x = ram (pages h) x" if "x \<in> used_heap ?h'" for x
        using that used_heap_without [OF h l lv] k Some by (auto simp: memset_ram_def set_free_def)
      ultimately show ?thesis using push(1,4) w(3) ni False by (auto simp: heap_ok_def)
    next
      case True
      then have full: "a_free_cnt r + 1 = blocks_per_arena ?d" using push(3) by simp
      have r: "arenas ?h' a = Some ?r" "a_desc ?r = Some i" "a_free_cnt ?r = blocks_per_arena (descs ?h' ! i)"
        "descs ?h' ! i = ?d\<lparr>free_list := p # free_list ?d\<rparr>"
        using Some i full by (simp_all add: set_free_def)
      obtain s where s: "palloc_free_page a (pages ?h') = Some s" "\<forall>x \<in> used_ram s. ram s x = ram (pages ?h') x"
        "arena_blocks ?h' a (blocks_per_arena (descs ?h' ! i)) = Some (blocks (descs ?h' ! i) a)" and
        rel: "let h2 = with_arena s a None (set_free_list i (fold remove1 (blocks (descs ?h' ! i) a) (free_list (descs ?h' ! i))) ?h')
          in heap_between h2 \<and> live h2 = live ?h' \<and> (\<forall>x. arena_idle h2 x \<longleftrightarrow> arena_idle ?h' x \<and> x \<noteq> a)"
        using release_idle [OF push(1) r(1-3)] by blast
      have "free p h = Some (with_arena s a None (set_free_list i (fold remove1 (blocks (descs ?h' ! i) a) (free_list (descs ?h' ! i))) ?h'))"
        using b a Some p0 full s(1,3)
        by (simp add: free_def Let_def set_free_def set_free_list_def set_arena_def with_arena_def i)
      moreover define h2 where
        "h2 = with_arena s a None (set_free_list i (fold remove1 (blocks (descs ?h' ! i) a) (free_list (descs ?h' ! i))) ?h')"
      ultimately have f: "free p h = Some h2" by simp
      have r2: "heap_between h2" "live h2 = live ?h'" "\<forall>x. arena_idle h2 x \<longleftrightarrow> arena_idle ?h' x \<and> x \<noteq> a" "pages h2 = s"
        using rel unfolding Let_def h2_def [symmetric] by (simp_all add: h2_def)
      have lv: "\<forall>q m. live h2 q m \<longleftrightarrow> live h q m \<and> q \<noteq> p" using r2(2) push(2) w(2) by simp
      have "ram s x = ram (pages h) x" if "x \<in> used_heap h2" for x
      proof -
        have "x \<in> used_ram s" using used_heap_ram [OF r2(1)] that r2(4) by auto
        then have "ram s x = memset_ram (ram (pages h)) p 0xcc n x" using s(2) k Some by (simp add: set_free_def)
        moreover have "x \<notin> {p..<p + n}" using that used_heap_without [OF h l lv] by simp
        ultimately show ?thesis by (auto simp: memset_ram_def)
      qed
      then show ?thesis using f r2 lv push(4) w(3) ni by (auto simp: heap_ok_def split: if_splits)
    qed
  qed
qed

subsection \<open>Properties\<close>

definition get_block :: "nat \<Rightarrow> heap \<Rightarrow> nat \<Rightarrow> (heap \<times> nat option) option" where
  "get_block cur h sz = do { (h, p) \<leftarrow> malloc cur sz h; Some (h, if p = 0 then None else Some p) }"

definition put_block :: "heap \<Rightarrow> nat \<Rightarrow> nat \<Rightarrow> heap option" where
  "put_block h p n = free p h"

definition heap_request :: "nat \<Rightarrow> bool" where
  "heap_request sz \<longleftrightarrow> sz + 4107 < 2 ^ 32"

interpretation heap_runs: run_allocator heap_ok used_heap "\<lambda>p n. {p..<p + n}" heap_request capacity "get_block cur"
  put_block live for cur
proof
  fix h sz assume h: "heap_ok h" and sz: "heap_request sz"
  show "\<exists>h' p. get_block cur h sz = Some (h', p) \<and> heap_ok h' \<and>
      (case p of None \<Rightarrow> used_heap h' = used_heap h
       | Some i \<Rightarrow> live h' i (capacity sz) \<and> {i..<i + capacity sz} \<inter> used_heap h = {} \<and>
           used_heap h' = used_heap h \<union> {i..<i + capacity sz}) \<and>
      (\<forall>j m. live h j m \<longrightarrow> live h' j m)"
  proof (cases "sz = 0")
    case True
    then show ?thesis using h by (simp add: get_block_def malloc_def)
  next
    case False
    then obtain h' p where m: "malloc cur sz h = Some (h', p)" "heap_ok h'" and
      l: "if p = 0 then live h' = live h
        else (\<forall>q m. live h' q m \<longleftrightarrow> live h q m \<or> q = p \<and> m = capacity sz) \<and> (\<forall>m. \<not> live h p m)"
      using malloc_ok [OF h, of sz cur] sz by (auto simp: heap_request_def)
    have b: "heap_between h'" using m(2) by (simp add: heap_ok_def)
    show ?thesis
    proof (cases "p = 0")
      case True
      then show ?thesis using m l by (simp add: get_block_def used_heap_def)
    next
      case False
      then have "\<forall>q m. live h' q m \<longleftrightarrow> live h q m \<or> q = p \<and> m = capacity sz" "\<forall>m. \<not> live h p m" using l by simp_all
      then show ?thesis using m False used_heap_with [OF b] by (simp add: get_block_def)
    qed
  qed
next
  fix h p n assume h: "heap_ok h" and l: "live h p n"
  obtain h' where f: "free p h = Some h'" "heap_ok h'" and lv: "\<forall>q m. live h' q m \<longleftrightarrow> live h q m \<and> q \<noteq> p"
    using free_ok [OF h l] by blast
  have b: "heap_between h" using h by (simp add: heap_ok_def)
  note sp = live_used_ram(2) [OF b l]
  have "used_heap h' = used_heap h - {p..<p + n}" by (rule used_heap_without [OF b l lv])
  moreover have "live h' j m" if "live h j m" "{j..<j + m} \<inter> {p..<p + n} = {}" for j m
  proof -
    have "j \<noteq> p" using that(2) sp live_used_ram(2) [OF b that(1)] by auto
    then show ?thesis using that(1) lv by simp
  qed
  ultimately show "\<exists>h'. put_block h p n = Some h' \<and> heap_ok h' \<and> used_heap h' = used_heap h - {p..<p + n} \<and>
      (\<forall>j m. live h j m \<and> {j..<j + m} \<inter> {p..<p + n} = {} \<longrightarrow> live h' j m)"
    using f by (auto simp: put_block_def)
qed

lemma init_descs_sizes: "init_descs 16 = map (\<lambda>b. \<lparr>desc_block_size = b, blocks_per_arena = 4084 div b, free_list = []\<rparr>)
    [16, 32, 64, 128, 256, 512, 1024]"
  by (simp add: init_descs.simps PGSIZE_def ARENA_SIZE_def)

lemma malloc_init_ok:
  assumes "wf_palloc p"
  shows "\<exists>h. malloc_init p = Some h \<and> heap_ok h \<and> used_heap h = {} \<and> pages h = p"
proof -
  let ?h = "\<lparr>pages = p, arenas = Map.empty, descs = init_descs 16\<rparr>"
  have sz: "free_list d = [] \<and> desc_ok d" if "d \<in> set (init_descs 16)" for d
    using that unfolding init_descs_sizes by (auto simp: desc_ok_def)
  have "map desc_block_size (descs ?h) = [16, 32, 64, 128, 256, 512, 1024]" by (simp add: init_descs_sizes)
  moreover have "free_list_ok Map.empty (init_descs 16 ! i) i" if "i < length (init_descs 16)" for i
    using sz [OF nth_mem [OF that]] by (simp add: free_list_ok_def)
  ultimately have "heap_ok ?h" using assms by (simp add: heap_ok_def heap_between_def arena_pages_def arena_idle_def)
  moreover have "length (init_descs 16) \<le> 10" by (simp add: init_descs_sizes)
  ultimately show ?thesis by (simp add: malloc_init_def used_heap_def live_def)
qed

lemma find_holds: "find P xs = Some x \<Longrightarrow> P x"
  by (induction xs) (auto split: if_splits)

lemma round_up_pages: "sz + 12 \<le> 4096 * ((sz + 4107) div (4096::nat))"
  using div_mult_mod_eq [of "sz + 4107" 4096] mod_less_divisor [of 4096 "sz + 4107"] by linarith

lemma capacity_ge: "sz \<le> capacity sz"
proof (cases "find (\<lambda>b. sz \<le> b) [16, 32, 64, 128, 256, 512, 1024]")
  case None
  then show ?thesis using round_up_pages [of sz] unfolding capacity_def None option.case by linarith
next
  case (Some b)
  then show ?thesis using find_holds [OF Some] unfolding capacity_def Some option.case by simp
qed

text \<open>The number of pages of a large block wraps with the size: it suffices up to the point where it does.\<close>

lemma big_page_cnt_fits:
  assumes "0 < sz" "sz < 2 ^ 32"
  shows "sz \<le> 4096 * big_page_cnt sz - 12 \<longleftrightarrow> sz + 4107 < 2 ^ 32"
proof (cases "sz + 4107 < 2 ^ 32")
  case True
  then have "big_page_cnt sz = (sz + 4107) div 4096" by (simp add: big_page_cnt_def size_add_def ARENA_SIZE_def PGSIZE_def)
  then show ?thesis using round_up_pages [of sz] True by linarith
next
  case False
  then have e: "(sz + 4107) mod 2 ^ 32 = sz + 4107 - 2 ^ 32" using assms by (simp add: mod_if)
  have "big_page_cnt sz = ((sz + 4107) mod 2 ^ 32) div 4096"
    by (simp only: big_page_cnt_def size_add_def ARENA_SIZE_def PGSIZE_def mod_add_left_eq add.assoc) simp
  moreover have "sz + 4107 - 2 ^ 32 < 2 * 4096" using assms by simp
  ultimately have "big_page_cnt sz < 2" unfolding e by (simp only: less_mult_imp_div_less)
  then have "4096 * big_page_cnt sz - 12 < 8192" by linarith
  then show ?thesis using False by simp
qed

lemma memcpy_memset_ram:
  "memset_ram m p v n x = (if p \<le> x \<and> x < p + n then v else m x)"
  "memcpy_ram m p q n x = (if p \<le> x \<and> x < p + n then m (q + (x - p)) else m x)"
  by (simp_all add: memset_ram_def memcpy_ram_def)

text \<open>
  C10: \<^verbatim>\<open>malloc\<close> and \<^verbatim>\<open>free\<close> never hand out a byte twice. Starting from \<^verbatim>\<open>malloc_init\<close> over any
  well-formed page allocator, whatever sequence of requests (of sizes below 2^32 - 4107) and releases of held
  blocks is made, no call trips an assertion or leaves a lock held, each block handed out holds at least the
  size asked for, any two blocks held at the end have no byte in common, and the bytes in use are exactly
  those of the held blocks.
\<close>

theorem malloc_blocks_disjoint:
  assumes "wf_palloc p" and "valid_requests heap_request rs"
  shows "\<exists>h h' held. malloc_init p = Some h \<and>
    run_client (get_block cur) capacity put_block h [] rs = Some (h', held) \<and> heap_ok h' \<and> (\<forall>sz. sz \<le> capacity sz) \<and>
    (\<forall>j < length held. \<forall>i < j. {fst (held ! i)..<fst (held ! i) + snd (held ! i)} \<inter>
       {fst (held ! j)..<fst (held ! j) + snd (held ! j)} = {}) \<and>
    used_heap h' = (\<Union>(a, n) \<in> set held. {a..<a + n})"
proof -
  obtain h where h: "malloc_init p = Some h" "heap_ok h" "used_heap h = {}" using malloc_init_ok [OF assms(1)] by blast
  from heap_runs.clients_disjoint [OF h(2) assms(2), of cur] h capacity_ge show ?thesis by auto
qed

theorem malloc_blocks_disjoint_witness:
  "\<exists>h h' held. malloc_init sample_pages = Some h \<and>
    run_client (get_block 1) capacity put_block h [] [Get 100, Get 2000, Put 0, Get 16] = Some (h', held) \<and> heap_ok h'"
proof -
  have "valid_requests heap_request [Get 100, Get 2000, Put 0, Get 16]"
    by (simp add: valid_requests_def heap_request_def)
  from malloc_blocks_disjoint [OF sample_pages_wf this, of 1] show ?thesis by blast
qed

lemma malloc_block_size_ok:
  assumes h: "heap_between h" and l: "live h p n"
  shows "malloc_block_size h p = Some n" "p \<noteq> 0"
proof -
  obtain a r where a: "arenas h a = Some r" and
    k: "a_desc r = None \<and> p = a + 12 \<and> n = 4096 * a_free_cnt r - 12 \<or>
      (\<exists>i. a_desc r = Some i \<and> p \<in> set (blocks (descs h ! i) a) \<and> n = desc_block_size (descs h ! i))"
    using l unfolding live_iff by blast
  note al = arena_page [OF heap_betweenD(1) [OF h] a]
  show "malloc_block_size h p = Some n"
  proof (cases "a_desc r")
    case None
    then have p: "p = a + 12" "n = 4096 * a_free_cnt r - 12" "page_cnt r = a_free_cnt r" using k by (auto simp: page_cnt_def)
    have o: "pg_ofs p = 12" "pg_round_down p = a"
      using pg_round_down_ofs [of p] pg_round_down_big [OF al(1)] by (simp_all add: p)
    then have "block_to_arena h p = Some a" using a al None by (simp add: block_to_arena_def ARENA_SIZE_def)
    moreover have "(4096 * a_free_cnt r + (2 ^ 32 - 12)) mod 2 ^ 32 = n"
    proof -
      have "4096 * a_free_cnt r + (2 ^ 32 - 12) = n + 2 ^ 32" "n < 2 ^ 32" using al(3,4) by (simp_all add: p)
      then show ?thesis by (simp only: mod_add_self2 mod_less)
    qed
    ultimately show ?thesis using a None o by (simp add: malloc_block_size_def PGSIZE_def)
  next
    case (Some i)
    then have p: "p \<in> set (blocks (descs h ! i) a)" "n = desc_block_size (descs h ! i)" using k by auto
    show ?thesis using block_to_arena_ok [OF h a Some p(1)] a Some p(2) by (simp add: malloc_block_size_def)
  qed
  show "p \<noteq> 0" by (rule live_span [OF h l]) auto
qed

text \<open>
  \<^verbatim>\<open>calloc\<close> of \<open>a\<close> objects of \<open>b\<close> bytes, whose product does not overflow, either fails with a null pointer
  and changes neither the blocks in use nor memory, or returns a new block whose first \<open>a * b\<close> bytes are zero,
  and writes no other byte.
\<close>

theorem calloc_zeroed:
  assumes "heap_ok h" and "0 < a" and "0 < b" and "a * b + 4107 < 2 ^ 32"
  shows "\<exists>h' p. calloc cur a b h = Some (h', p) \<and> heap_ok h' \<and>
    (if p = 0 then live h' = live h \<and> ram (pages h') = ram (pages h)
     else (\<forall>q m. live h' q m \<longleftrightarrow> live h q m \<or> q = p \<and> m = capacity (a * b)) \<and> (\<forall>m. \<not> live h p m) \<and> a * b \<le> capacity (a * b) \<and>
       (\<forall>x. ram (pages h') x = (if p \<le> x \<and> x < p + a * b then 0 else ram (pages h) x)))"
proof -
  have le: "a \<le> a * b" "b \<le> a * b" "0 < a * b" using assms(2,3) by simp_all
  obtain h1 p where m: "malloc cur (a * b) h = Some (h1, p)" "heap_ok h1" "ram (pages h1) = ram (pages h)" and
    l: "if p = 0 then live h1 = live h
      else (\<forall>q m. live h1 q m \<longleftrightarrow> live h q m \<or> q = p \<and> m = capacity (a * b)) \<and> (\<forall>m. \<not> live h p m)"
    using malloc_ok [OF assms(1) le(3) assms(4), of cur] by blast
  let ?h = "h1\<lparr>pages := (pages h1)\<lparr>ram := memset_ram (ram (pages h1)) p 0 (a * b)\<rparr>\<rparr>"
  have w: "heap_ok ?h" "live ?h = live h1" using m(2) with_ram [of h1] by (simp_all add: heap_ok_def)
  have "(a * b) mod 2 ^ 32 = a * b" using assms(4) by simp
  then have "calloc cur a b h = Some (if p \<noteq> 0 then ?h else h1, p)"
    using m(1) le by (simp add: calloc_def Let_def not_less)
  then show ?thesis using m w l capacity_ge [of "a * b"] by (cases "p = 0") (simp_all add: memcpy_memset_ram)
qed

text \<open>
  C35: \<^verbatim>\<open>realloc\<close> keeps the contents. For a block in use of \<open>n\<close> bytes and a new size below 2^32 - 4107 it either fails
  with a null pointer, the old block still in use and no byte changed, or it exchanges the old block for a new
  one, at another place than any block in use, whose first bytes, up to the smaller size, are those of the
  old one; the contents of every other block in use are unchanged.
\<close>

theorem realloc_preserves:
  assumes "heap_ok h" and "live h p n" and "0 < sz" and "sz + 4107 < 2 ^ 32"
  shows "\<exists>h' q. realloc cur p sz h = Some (h', q) \<and> heap_ok h' \<and>
    (if q = 0 then live h' = live h \<and> ram (pages h') = ram (pages h)
     else (\<forall>r m. live h' r m \<longleftrightarrow> live h r m \<and> r \<noteq> p \<or> r = q \<and> m = capacity sz) \<and>
       {q..<q + capacity sz} \<inter> used_heap h = {} \<and>
       (\<forall>k < min sz n. ram (pages h') (q + k) = ram (pages h) (p + k)) \<and>
       (\<forall>r m x. live h r m \<and> r \<noteq> p \<and> r \<le> x \<and> x < r + m \<longrightarrow> ram (pages h') x = ram (pages h) x))"
proof -
  obtain h1 q where m: "malloc cur sz h = Some (h1, q)" "heap_ok h1" "ram (pages h1) = ram (pages h)" and
    l: "if q = 0 then live h1 = live h
      else (\<forall>r m. live h1 r m \<longleftrightarrow> live h r m \<or> r = q \<and> m = capacity sz) \<and> (\<forall>m. \<not> live h q m)"
    using malloc_ok [OF assms(1,3,4), of cur] by blast
  have h: "heap_between h" "heap_between h1" using assms(1) m(2) by (simp_all add: heap_ok_def)
  show ?thesis
  proof (cases "q = 0")
    case True
    then show ?thesis using m l assms(3) by (simp add: realloc_def)
  next
    case False
    then have lv: "\<forall>r m. live h1 r m \<longleftrightarrow> live h r m \<or> r = q \<and> m = capacity sz" and nl: "\<forall>m. \<not> live h q m" using l by simp_all
    have p: "live h1 p n" using lv assms(2) by simp
    have pq: "p \<noteq> q" using nl assms(2) by auto
    note new = used_heap_with [OF h(2) lv nl]
    let ?m = "memcpy_ram (ram (pages h1)) q p (min sz n)"
    let ?h2 = "h1\<lparr>pages := (pages h1)\<lparr>ram := ?m\<rparr>\<rparr>"
    have w: "heap_ok ?h2" "live ?h2 = live h1" using m(2) with_ram [OF h(2)] by (simp_all add: heap_ok_def)
    obtain h' where f: "free p ?h2 = Some h'" "heap_ok h'" and lv': "\<forall>r m. live h' r m \<longleftrightarrow> live ?h2 r m \<and> r \<noteq> p" and
      fr: "\<forall>x \<in> used_heap h'. ram (pages h') x = ?m x"
      using free_ok [OF w(1), of p n] p w(2) by auto
    have "realloc cur p sz h = Some (h', q)"
      using m(1) False malloc_block_size_ok [OF h(2) p] f(1) assms(3) by (simp add: realloc_def Let_def)
    moreover have liv: "\<forall>r m. live h' r m \<longleftrightarrow> live h r m \<and> r \<noteq> p \<or> r = q \<and> m = capacity sz"
      using lv lv' w(2) pq by auto
    moreover have "ram (pages h') (q + k) = ram (pages h) (p + k)" if "k < min sz n" for k
    proof -
      have "q + k \<in> used_heap h'" using liv that capacity_ge [of sz] unfolding used_heap_def
        by (intro CollectI exI [of _ q] exI [of _ "capacity sz"]) auto
      then show ?thesis using fr that m(3) by (simp add: memcpy_memset_ram)
    qed
    moreover have "ram (pages h') x = ram (pages h) x" if x: "live h r s \<and> r \<noteq> p \<and> r \<le> x \<and> x < r + s" for r s x
    proof -
      have "x \<in> used_heap h'" "x \<in> used_heap h" using liv x unfolding used_heap_def by blast+
      moreover from this have "x \<notin> {q..<q + capacity sz}" using new(2) by blast
      ultimately show ?thesis using fr m(3) capacity_ge [of sz] by (auto simp: memcpy_memset_ram)
    qed
    ultimately show ?thesis using False f(2) new(2) by (intro exI [of _ h'] exI [of _ q]) simp
  qed
qed

text \<open>A heap with one large block, in the page of the sample allocator that is in use.\<close>

definition sample_heap :: heap where
  "sample_heap = \<lparr>pages = sample_pages, arenas = [0xc0101000 \<mapsto> \<lparr>a_desc = None, a_free_cnt = 1\<rparr>], descs = init_descs 16\<rparr>"

lemma sample_heap_ok: "heap_ok sample_heap" and sample_heap_live: "live sample_heap 0xc010100c 4084"
proof -
  have "page_span 0xc0101000 1 \<subseteq> used_bytes (kernel_pool sample_pages)"
  proof
    fix x assume "x \<in> page_span 0xc0101000 1"
    then have x: "0xc0101000 \<le> x" "x < 0xc0102000" by (auto simp: page_span_def)
    then have "(x - 0xc0101000) div 4096 = 0" by simp
    with x show "x \<in> used_bytes (kernel_pool sample_pages)"
      by (simp add: used_bytes_def sample_pages_def bit_at_def)
  qed
  moreover have "in_some_pool sample_pages 0xc0101000 1"
    unfolding in_some_pool_def in_pool_def by (intro conjI exI [of _ False] exI [of _ 0]) (simp_all add: sample_pages_def pool_of_def)
  ultimately have "arena_pages sample_pages (arenas sample_heap)"
    using sample_pages_wf by (auto simp: arena_pages_def sample_heap_def page_cnt_def used_ram_def)
  moreover obtain h where h: "malloc_init sample_pages = Some h" "heap_ok h" using malloc_init_ok [OF sample_pages_wf] by blast
  moreover have "h = \<lparr>pages = sample_pages, arenas = Map.empty, descs = init_descs 16\<rparr>"
    using h(1) by (auto simp: malloc_init_def Let_def split: Option.bind_splits)
  ultimately show "heap_ok sample_heap" by (auto simp: heap_ok_def heap_between_def sample_heap_def arena_idle_def free_list_ok_def)
  show "live sample_heap 0xc010100c 4084" by (simp add: live_def sample_heap_def)
qed

theorem calloc_zeroed_witness:
  "\<exists>h' p. calloc 1 10 20 sample_heap = Some (h', p) \<and> heap_ok h' \<and>
    (if p = 0 then live h' = live sample_heap else \<forall>x \<in> {p..<p + 200}. ram (pages h') x = 0)"
proof -
  have "\<exists>h' p. calloc 1 10 20 sample_heap = Some (h', p) \<and> heap_ok h' \<and>
    (if p = 0 then live h' = live sample_heap \<and> ram (pages h') = ram (pages sample_heap)
     else (\<forall>q m. live h' q m \<longleftrightarrow> live sample_heap q m \<or> q = p \<and> m = capacity (10 * 20)) \<and> (\<forall>m. \<not> live sample_heap p m) \<and>
       10 * 20 \<le> capacity (10 * 20) \<and>
       (\<forall>x. ram (pages h') x = (if p \<le> x \<and> x < p + 10 * 20 then 0 else ram (pages sample_heap) x)))"
    by (rule calloc_zeroed [OF sample_heap_ok]) simp_all
  then show ?thesis
    by (elim exE conjE) (intro exI conjI, assumption+, simp split: if_splits)
qed

theorem realloc_preserves_witness:
  "\<exists>h' q. realloc 1 0xc010100c 100 sample_heap = Some (h', q) \<and> heap_ok h' \<and>
    (if q = 0 then live h' = live sample_heap else \<forall>k < 100. ram (pages h') (q + k) = ram (pages sample_heap) (0xc010100c + k))"
proof -
  have "0 < (100::nat)" "100 + 4107 < (2::nat) ^ 32" by simp_all
  note realloc_preserves [OF sample_heap_ok sample_heap_live this, of 1]
  then show ?thesis
    by (elim exE conjE) (intro exI conjI, assumption+, simp split: if_splits)
qed

end
