(* ===== verification/Format.thy ===== *)
theory Format
  imports C_String Stdlib
begin

unbundle bit_operations_syntax

section \<open>Formatted output (lib/stdio.c, lib/kernel/console.c)\<close>

text \<open>
  A character is a byte (37 is a percent sign, 48 the digit zero, 45 a minus sign), a format string the bytes
  from the pointer on, with its terminator, and a list of variable arguments the 32-bit words that lie
  on the stack, a 64-bit argument taking two of them, the low one first. \<open>None\<close> is reading past the end of either, a
  failed assertion of the output function, or a write outside the digit buffer of \<^verbatim>\<open>format_integer\<close>. The output function takes the
  character and its auxiliary state; \<open>mem\<close> reads memory, where the strings of \<^verbatim>\<open>%s\<close> are, from that state, so
  that writing to a buffer that overlaps them has the effect it has in the code. An \<^verbatim>\<open>int\<close> is
  an integer, and its arithmetic wraps.
\<close>

type_synonym 's outfun = "u8 \<Rightarrow> 's \<Rightarrow> 's option"

definition wrap_int :: "int \<Rightarrow> int" where "wrap_int x = signed_take_bit 31 x"

definition MINUS :: u32 where "MINUS = 1"
definition PLUS :: u32 where "PLUS = 2"
definition SPACE :: u32 where "SPACE = 4"
definition POUND :: u32 where "POUND = 8"
definition ZERO :: u32 where "ZERO = 16"
definition GROUP :: u32 where "GROUP = 32"

datatype int_type = CHAR_T | SHORT | INT_T | INTMAX | LONG | LONGLONG | PTRDIFFT | SIZET

record printf_conversion =
  flags :: u32
  width :: int
  precision :: int
  int_type :: int_type

record integer_base =
  num_base :: nat
  digits :: "u8 list"
  x_char :: u8
  group :: nat

definition base_d :: integer_base where
  "base_d = \<lparr>num_base = 10, digits = [48, 49, 50, 51, 52, 53, 54, 55, 56, 57], x_char = 0, group = 3\<rparr>"
definition base_o :: integer_base where
  "base_o = \<lparr>num_base = 8, digits = [48, 49, 50, 51, 52, 53, 54, 55], x_char = 0, group = 3\<rparr>"
definition base_x :: integer_base where
  "base_x = \<lparr>num_base = 16, digits = [48, 49, 50, 51, 52, 53, 54, 55, 56, 57, 97, 98, 99, 100, 101, 102], x_char = 120, group = 4\<rparr>"
definition base_X :: integer_base where
  "base_X = \<lparr>num_base = 16, digits = [48, 49, 50, 51, 52, 53, 54, 55, 56, 57, 65, 66, 67, 68, 69, 70], x_char = 88, group = 4\<rparr>"

text \<open>A string literal as a byte sequence, with its terminator.\<close>

definition str :: "string \<Rightarrow> u8 list" where
  "str s = map of_char s @ [0]"

subsection \<open>Conversion specifications\<close>

fun next_char :: "u8 list \<Rightarrow> u8 option" where
  "next_char [] = None"
| "next_char (ch # s) = Some ch"

fun va_arg :: "u32 list \<Rightarrow> (u32 \<times> u32 list) option" where
  "va_arg [] = None"
| "va_arg (w # args) = Some (w, args)"

definition va_arg64 :: "u32 list \<Rightarrow> (u64 \<times> u32 list) option" where
  "va_arg64 args = do { (lo, args) \<leftarrow> va_arg args; (hi, args) \<leftarrow> va_arg args;
     Some (push_bit 32 (ucast hi) OR ucast lo, args) }"

fun parse_flags :: "u8 list \<Rightarrow> u32 \<Rightarrow> (u8 list \<times> u32) option" where
  "parse_flags [] fl = None"
| "parse_flags (ch # s) fl =
     (if ch = 45 then parse_flags s (fl OR MINUS)
      else if ch = 43 then parse_flags s (fl OR PLUS)
      else if ch = 32 then parse_flags s (fl OR SPACE)
      else if ch = 35 then parse_flags s (fl OR POUND)
      else if ch = 48 then parse_flags s (fl OR ZERO)
      else if ch = 39 then parse_flags s (fl OR GROUP)
      else Some (ch # s, fl))"

fun parse_number :: "u8 list \<Rightarrow> int \<Rightarrow> (u8 list \<times> int) option" where
  "parse_number [] n = None"
| "parse_number (ch # s) n =
     (if isdigit ch then parse_number s (wrap_int (n * 10 + uint ch - 48)) else Some (ch # s, n))"

definition parse_width :: "u8 list \<Rightarrow> u32 \<Rightarrow> u32 list \<Rightarrow> (u8 list \<times> u32 \<times> int \<times> u32 list) option" where
  "parse_width s fl args = do {
     ch \<leftarrow> next_char s;
     (s, w, args) \<leftarrow> (if ch = 42 then do { (w, args) \<leftarrow> va_arg args; Some (tl s, sint w, args) }
                     else do { (s, w) \<leftarrow> parse_number s 0; Some (s, w, args) });
     Some (if w < 0 then (s, fl OR MINUS, wrap_int (- w), args) else (s, fl, w, args)) }"

definition parse_precision :: "u8 list \<Rightarrow> u32 list \<Rightarrow> (u8 list \<times> int \<times> u32 list) option" where
  "parse_precision s args = do {
     ch \<leftarrow> next_char s;
     if ch = 46 then do {
       let s = tl s;
       ch \<leftarrow> next_char s;
       (s, p, args) \<leftarrow> (if ch = 42 then do { (w, args) \<leftarrow> va_arg args; Some (tl s, sint w, args) }
                       else do { (s, p) \<leftarrow> parse_number s 0; Some (s, p, args) });
       Some (s, if p < 0 then - 1 else p, args) }
     else Some (s, - 1, args) }"

definition parse_type :: "u8 list \<Rightarrow> (u8 list \<times> int_type) option" where
  "parse_type s = do {
     ch \<leftarrow> next_char s;
     if ch = 104 then do {
       let s = tl s;
       ch \<leftarrow> next_char s;
       Some (if ch = 104 then (tl s, CHAR_T) else (s, SHORT)) }
     else if ch = 106 then Some (tl s, INTMAX)
     else if ch = 108 then do {
       let s = tl s;
       ch \<leftarrow> next_char s;
       Some (if ch = 108 then (tl s, LONGLONG) else (s, LONG)) }
     else if ch = 116 then Some (tl s, PTRDIFFT)
     else if ch = 122 then Some (tl s, SIZET)
     else Some (s, INT_T) }"

definition parse_conversion :: "u8 list \<Rightarrow> u32 list \<Rightarrow> (u8 list \<times> printf_conversion \<times> u32 list) option" where
  "parse_conversion s args = do {
     (s, fl) \<leftarrow> parse_flags s 0;
     let fl = (if fl AND MINUS \<noteq> 0 then fl AND NOT ZERO else fl);
     let fl = (if fl AND PLUS \<noteq> 0 then fl AND NOT SPACE else fl);
     (s, fl, w, args) \<leftarrow> parse_width s fl args;
     (s, p, args) \<leftarrow> parse_precision s args;
     let fl = (if p \<ge> 0 then fl AND NOT ZERO else fl);
     (s, t) \<leftarrow> parse_type s;
     Some (s, \<lparr>flags = fl, width = w, precision = p, int_type = t\<rparr>, args) }"

subsection \<open>Conversions\<close>

primrec output_dup :: "'s outfun \<Rightarrow> u8 \<Rightarrow> nat \<Rightarrow> 's \<Rightarrow> 's option" where
  "output_dup out ch 0 s = Some s"
| "output_dup out ch (Suc cnt) s = do { s \<leftarrow> out ch s; output_dup out ch cnt s }"

text \<open>The digit buffer holds 64 characters; \<open>buf\<close> is what it holds, the last character first.\<close>

definition put_digit :: "u8 \<Rightarrow> u8 list \<Rightarrow> u8 list option" where
  "put_digit ch buf = do { _ \<leftarrow> ASSERT (length buf < 64); Some (ch # buf) }"

function put_digits :: "printf_conversion \<Rightarrow> integer_base \<Rightarrow> nat \<Rightarrow> nat \<Rightarrow> u8 list \<Rightarrow> u8 list option" where
  "put_digits c b val digit_cnt buf =
     (if val > 0 \<and> num_base b > 1 then do {
        buf \<leftarrow> (if flags c AND GROUP \<noteq> 0 \<and> digit_cnt > 0 \<and> digit_cnt mod group b = 0 then put_digit 44 buf else Some buf);
        buf \<leftarrow> put_digit (digits b ! (val mod num_base b)) buf;
        put_digits c b (val div num_base b) (digit_cnt + 1) buf }
      else Some buf)"
  by pat_completeness auto
termination by (relation "measure (\<lambda>(c, b, val, n, buf). val)") auto

declare put_digits.simps [simp del]

function put_zeros :: "int \<Rightarrow> u8 list \<Rightarrow> u8 list option" where
  "put_zeros prec buf =
     (if int (length buf) < prec \<and> length buf < 63 then do { buf \<leftarrow> put_digit 48 buf; put_zeros prec buf } else Some buf)"
  by pat_completeness auto
termination
  by (relation "measure (\<lambda>(prec, buf). 63 - length buf)") (auto simp: put_digit_def split: if_splits)

declare put_zeros.simps [simp del]

primrec output_rev :: "'s outfun \<Rightarrow> u8 list \<Rightarrow> 's \<Rightarrow> 's option" where
  "output_rev out [] s = Some s"
| "output_rev out (ch # buf) s = do { s \<leftarrow> out ch s; output_rev out buf s }"

definition format_integer ::
  "u64 \<Rightarrow> bool \<Rightarrow> bool \<Rightarrow> integer_base \<Rightarrow> printf_conversion \<Rightarrow> 's outfun \<Rightarrow> 's \<Rightarrow> 's option" where
  "format_integer val is_signed negative b c out s = do {
     let sign = (if is_signed then
                   if flags c AND PLUS \<noteq> 0 then if negative then 45 else 43
                   else if flags c AND SPACE \<noteq> 0 then if negative then 45 else 32
                   else if negative then 45 else 0
                 else 0);
     let x = (if flags c AND POUND \<noteq> 0 \<and> val \<noteq> 0 then x_char b else 0);
     buf \<leftarrow> put_digits c b (unat val) 0 [];
     let prec = (if precision c < 0 then 1 else precision c);
     buf \<leftarrow> put_zeros prec buf;
     buf \<leftarrow> (if flags c AND POUND \<noteq> 0 \<and> num_base b = 8 \<and> (buf = [] \<or> hd buf \<noteq> 48) then put_digit 48 buf else Some buf);
     let pad_cnt = wrap_int (width c - int (length buf) - (if x \<noteq> 0 then 2 else 0) - (if sign \<noteq> 0 then 1 else 0));
     let pad_cnt = (if pad_cnt < 0 then 0 else nat pad_cnt);
     s \<leftarrow> (if flags c AND (MINUS OR ZERO) = 0 then output_dup out 32 pad_cnt s else Some s);
     s \<leftarrow> (if sign \<noteq> 0 then out sign s else Some s);
     s \<leftarrow> (if x \<noteq> 0 then do { s \<leftarrow> out 48 s; out x s } else Some s);
     s \<leftarrow> (if flags c AND ZERO \<noteq> 0 then output_dup out 48 pad_cnt s else Some s);
     s \<leftarrow> output_rev out buf s;
     if flags c AND MINUS \<noteq> 0 then output_dup out 32 pad_cnt s else Some s }"

text \<open>The characters of a string are read from memory one by one, while the output goes on.\<close>

primrec output_chars :: "'s outfun \<Rightarrow> ('s \<Rightarrow> nat \<Rightarrow> u8) \<Rightarrow> nat \<Rightarrow> nat \<Rightarrow> 's \<Rightarrow> 's option" where
  "output_chars out rd i 0 s = Some s"
| "output_chars out rd i (Suc n) s = do { s \<leftarrow> out (rd s i) s; output_chars out rd (Suc i) n s }"

definition format_string ::
  "('s \<Rightarrow> nat \<Rightarrow> u8) \<Rightarrow> int \<Rightarrow> printf_conversion \<Rightarrow> 's outfun \<Rightarrow> 's \<Rightarrow> 's option" where
  "format_string rd len c out s = do {
     s \<leftarrow> (if width c > len \<and> flags c AND MINUS = 0 then output_dup out 32 (nat ((width c - len) mod 2 ^ 32)) s else Some s);
     s \<leftarrow> output_chars out rd 0 (nat len) s;
     if width c > len \<and> flags c AND MINUS \<noteq> 0 then output_dup out 32 (nat ((width c - len) mod 2 ^ 32)) s else Some s }"

definition signed_arg :: "int_type \<Rightarrow> u32 list \<Rightarrow> (u64 \<times> u32 list) option" where
  "signed_arg t args = (case t of
     CHAR_T \<Rightarrow> do { (w, args) \<leftarrow> va_arg args; Some (scast (ucast w :: u8), args) }
   | SHORT \<Rightarrow> do { (w, args) \<leftarrow> va_arg args; Some (scast (ucast w :: 16 word), args) }
   | INT_T \<Rightarrow> do { (w, args) \<leftarrow> va_arg args; Some (scast w, args) }
   | INTMAX \<Rightarrow> va_arg64 args
   | LONG \<Rightarrow> do { (w, args) \<leftarrow> va_arg args; Some (scast w, args) }
   | LONGLONG \<Rightarrow> va_arg64 args
   | PTRDIFFT \<Rightarrow> do { (w, args) \<leftarrow> va_arg args; Some (scast w, args) }
   | SIZET \<Rightarrow> do { (w, args) \<leftarrow> va_arg args;
       let val = ucast w;
       Some (if val > (2 ^ 32 - 1) div 2 then val - (2 ^ 32 - 1) - 1 else val, args) })"

definition unsigned_arg :: "int_type \<Rightarrow> u32 list \<Rightarrow> (u64 \<times> u32 list) option" where
  "unsigned_arg t args = (case t of
     CHAR_T \<Rightarrow> do { (w, args) \<leftarrow> va_arg args; Some (ucast (ucast w :: u8), args) }
   | SHORT \<Rightarrow> do { (w, args) \<leftarrow> va_arg args; Some (ucast (ucast w :: 16 word), args) }
   | INT_T \<Rightarrow> do { (w, args) \<leftarrow> va_arg args; Some (ucast w, args) }
   | INTMAX \<Rightarrow> va_arg64 args
   | LONG \<Rightarrow> do { (w, args) \<leftarrow> va_arg args; Some (ucast w, args) }
   | LONGLONG \<Rightarrow> va_arg64 args
   | PTRDIFFT \<Rightarrow> do { (w, args) \<leftarrow> va_arg args; Some (scast w AND (push_bit 1 (2 ^ 31 - 1) OR 1), args) }
   | SIZET \<Rightarrow> do { (w, args) \<leftarrow> va_arg args; Some (ucast w, args) })"

text \<open>
  One conversion: the character \<open>ch\<close> that \<^verbatim>\<open>parse_conversion\<close> stopped at. The message for a conversion
  that is not supported is printed by a recursive call, \<open>self\<close>.
\<close>

definition convert :: "(u8 list \<Rightarrow> u32 list \<Rightarrow> 's \<Rightarrow> 's option) \<Rightarrow> ('s \<Rightarrow> memory) \<Rightarrow> 's outfun \<Rightarrow> u8 \<Rightarrow>
    printf_conversion \<Rightarrow> u32 list \<Rightarrow> 's \<Rightarrow> (u32 list \<times> 's) option" where
  "convert self mem out ch c args s =
     (if ch = 100 \<or> ch = 105 then do {
        (val, args) \<leftarrow> signed_arg (int_type c) args;
        s \<leftarrow> format_integer (if val <s 0 then - val else val) True (val <s 0) base_d c out s;
        Some (args, s) }
      else if ch = 111 \<or> ch = 117 \<or> ch = 120 \<or> ch = 88 then do {
        (val, args) \<leftarrow> unsigned_arg (int_type c) args;
        let b = (if ch = 111 then base_o else if ch = 117 then base_d else if ch = 120 then base_x else base_X);
        s \<leftarrow> format_integer val False False b c out s;
        Some (args, s) }
      else if ch = 99 then do {
        (w, args) \<leftarrow> va_arg args;
        s \<leftarrow> format_string (\<lambda>_ _. ucast w) 1 c out s;
        Some (args, s) }
      else if ch = 115 then do {
        (w, args) \<leftarrow> va_arg args;
        let maxlen = nat (precision c mod 2 ^ 32);
        let (rd, len) = (if w = 0 then (\<lambda>_ i. str ''(null)'' ! i, strnlen (\<lambda>i. str ''(null)'' ! i) 0 maxlen)
                         else (\<lambda>s i. mem s (unat w + i), strnlen (mem s) (unat w) maxlen));
        s \<leftarrow> format_string rd (wrap_int (int len)) c out s;
        Some (args, s) }
      else if ch = 112 then do {
        (w, args) \<leftarrow> va_arg args;
        s \<leftarrow> format_integer (ucast w) False False base_x (c\<lparr>flags := POUND\<rparr>) out s;
        Some (args, s) }
      else if ch \<in> {102, 101, 69, 103, 71, 110} then do {
        s \<leftarrow> self (str ''<<no %%%c in kernel>>'') [ucast ch] s;
        Some (args, s) }
      else do {
        s \<leftarrow> self (str ''<<no %%%c conversion>>'') [ucast ch] s;
        Some (args, s) })"

lemma va_arg_length: "va_arg args = Some (w, r) \<Longrightarrow> length r \<le> length args"
  by (cases args) auto

lemma parse_shorter:
  "parse_flags s fl = Some (s', fl') \<Longrightarrow> length s' \<le> length s"
  "parse_number s n = Some (s', n') \<Longrightarrow> length s' \<le> length s"
  "parse_width s fl args = Some (s', fl', w, args') \<Longrightarrow> length s' \<le> length s"
  "parse_precision s args = Some (s', p, args') \<Longrightarrow> length s' \<le> length s"
  "parse_type s = Some (s', t) \<Longrightarrow> length s' \<le> length s"
proof -
  show "parse_flags s fl = Some (s', fl') \<Longrightarrow> length s' \<le> length s" for s fl
    by (induction s arbitrary: fl) (auto intro: le_SucI split: if_splits)
  show num: "parse_number s n = Some (s', n') \<Longrightarrow> length s' \<le> length s" for s n s' n'
    by (induction s arbitrary: n) (auto intro: le_SucI split: if_splits)
  show "parse_width s fl args = Some (s', fl', w, args') \<Longrightarrow> length s' \<le> length s"
    by (auto simp: parse_width_def split: Option.bind_splits if_splits dest: num)
  show "parse_precision s args = Some (s', p, args') \<Longrightarrow> length s' \<le> length s"
    by (auto simp: parse_precision_def Let_def split: Option.bind_splits if_splits dest: num)
  show "parse_type s = Some (s', t) \<Longrightarrow> length s' \<le> length s"
    by (auto simp: parse_type_def Let_def split: Option.bind_splits if_splits)
qed

lemma parse_conversion_shorter:
  assumes "parse_conversion s args = Some (s', c, args')"
  shows "length s' \<le> length s"
  using assms unfolding parse_conversion_def Let_def
  by (auto split: Option.bind_splits dest!: parse_shorter)

function vprintf_loop :: "(u8 list \<Rightarrow> u32 list \<Rightarrow> 's \<Rightarrow> 's option) \<Rightarrow> ('s \<Rightarrow> memory) \<Rightarrow> 's outfun \<Rightarrow>
    u8 list \<Rightarrow> u32 list \<Rightarrow> 's \<Rightarrow> 's option" where
  "vprintf_loop self mem out [] args s = None"
| "vprintf_loop self mem out (ch # fmt) args s =
     (if ch = 0 then Some s
      else if ch \<noteq> 37 then do { s \<leftarrow> out ch s; vprintf_loop self mem out fmt args s }
      else do {
        ch \<leftarrow> next_char fmt;
        if ch = 37 then do { s \<leftarrow> out 37 s; vprintf_loop self mem out (tl fmt) args s }
        else do {
          (fmt', c, args) \<leftarrow> parse_conversion fmt args;
          ch \<leftarrow> next_char fmt';
          (args, s) \<leftarrow> convert self mem out ch c args s;
          vprintf_loop self mem out (tl fmt') args s } })"
  by pat_completeness auto
termination
proof (relation "measure (\<lambda>(self, mem, out, fmt, args, s). length fmt)", goal_cases)
  case prems: (4 self mem out ch fmt args s ch' pc fmt' x c args' ch'' r args'' s')
  then show ?case using parse_conversion_shorter [of fmt args fmt' c args'] by auto
qed auto

text \<open>A call of a call reaches no unsupported conversion, so two levels are enough (\<open>vprintf_rec\<close>).\<close>

primrec vprintf_at :: "nat \<Rightarrow> ('s \<Rightarrow> memory) \<Rightarrow> 's outfun \<Rightarrow> u8 list \<Rightarrow> u32 list \<Rightarrow> 's \<Rightarrow> 's option" where
  "vprintf_at 0 mem out = (\<lambda>fmt args s. None)"
| "vprintf_at (Suc n) mem out = vprintf_loop (vprintf_at n mem out) mem out"

definition format_vprintf :: "('s \<Rightarrow> memory) \<Rightarrow> 's outfun \<Rightarrow> u8 list \<Rightarrow> u32 list \<Rightarrow> 's \<Rightarrow> 's option" where
  "format_vprintf = vprintf_at 2"

subsection \<open>Output to a buffer\<close>

record vsnprintf_aux =
  out_p :: nat
  out_length :: int
  max_length :: int

definition vsnprintf_helper :: "u8 \<Rightarrow> memory \<times> vsnprintf_aux \<Rightarrow> (memory \<times> vsnprintf_aux) option" where
  "vsnprintf_helper ch s = (case s of (m, aux) \<Rightarrow> do {
     _ \<leftarrow> ASSERT (out_length aux < 2 ^ 31 - 1);
     let room = (out_length aux < max_length aux);
     let aux = aux\<lparr>out_length := out_length aux + 1\<rparr>;
     Some (if room then (m(out_p aux := ch), aux\<lparr>out_p := out_p aux + 1\<rparr>) else (m, aux)) })"

definition vsnprintf :: "nat \<Rightarrow> nat \<Rightarrow> u8 list \<Rightarrow> u32 list \<Rightarrow> memory \<Rightarrow> (memory \<times> int) option" where
  "vsnprintf buffer buf_size fmt args m = do {
     let aux = \<lparr>out_p = buffer, out_length = 0, max_length = wrap_int (if buf_size > 0 then int buf_size - 1 else 0)\<rparr>;
     (m, aux) \<leftarrow> format_vprintf fst vsnprintf_helper fmt args (m, aux);
     Some (if buf_size > 0 then m(out_p aux := 0) else m, out_length aux) }"

subsection \<open>What is written: the text of a conversion\<close>

primrec emit :: "'s outfun \<Rightarrow> u8 list \<Rightarrow> 's \<Rightarrow> 's option" where
  "emit out [] s = Some s"
| "emit out (ch # t) s = do { s \<leftarrow> out ch s; emit out t s }"

lemma emit_Nil: "emit out [] = Some"
  by (rule ext) simp

lemma emit_app: "emit out (t @ u) s = do { s \<leftarrow> emit out t s; emit out u s }"
  by (induction t arbitrary: s) auto

lemma output_dup_emit: "output_dup out ch n s = emit out (replicate n ch) s"
  by (induction n arbitrary: s) auto

lemma output_rev_emit: "output_rev out buf s = emit out buf s"
  by (induction buf arbitrary: s) auto

text \<open>The digits of a number, the most significant first, with the commas of the grouping flag.\<close>

function digit_text :: "bool \<Rightarrow> integer_base \<Rightarrow> nat \<Rightarrow> nat \<Rightarrow> u8 list" where
  "digit_text grp b k val =
     (if val > 0 \<and> num_base b > 1 then
        digit_text grp b (k + 1) (val div num_base b) @ digits b ! (val mod num_base b) #
        (if grp \<and> k > 0 \<and> k mod group b = 0 then [44] else [])
      else [])"
  by pat_completeness auto
termination by (relation "measure (\<lambda>(grp, b, k, val). val)") auto

declare digit_text.simps [simp del]

lemma length_digit_text:
  assumes "val < num_base b ^ m"
  shows "length (digit_text grp b k val) \<le> 2 * m"
  using assms
proof (induction m arbitrary: k val)
  case 0
  then show ?case by (simp add: digit_text.simps)
next
  case (Suc m)
  show ?case
  proof (cases "val > 0 \<and> num_base b > 1")
    case True
    have "val div num_base b < num_base b ^ m"
      using Suc.prems True by (subst div_less_iff_less_mult) (auto simp: mult.commute)
    from Suc.IH [OF this, of "k + 1"] show ?thesis by (subst digit_text.simps) auto
  next
    case False
    show ?thesis by (subst digit_text.simps, unfold if_not_P [OF False]) simp
  qed
qed

lemma put_digits_text:
  "length buf + length (digit_text (flags c AND GROUP \<noteq> 0) b k val) \<le> 64 \<Longrightarrow>
    put_digits c b val k buf = Some (digit_text (flags c AND GROUP \<noteq> 0) b k val @ buf)"
proof (induction val arbitrary: k buf rule: less_induct)
  case (less val)
  show ?case
  proof (cases "val > 0 \<and> num_base b > 1")
    case False
    then show ?thesis by (subst put_digits.simps, subst digit_text.simps, unfold if_not_P [OF False]) simp
  next
    case True
    let ?g = "flags c AND GROUP \<noteq> 0"
    let ?d = "digits b ! (val mod num_base b)"
    let ?buf = "?d # (if ?g \<and> k > 0 \<and> k mod group b = 0 then [44] else []) @ buf"
    have t: "digit_text ?g b k val = digit_text ?g b (k + 1) (val div num_base b) @ ?d #
        (if ?g \<and> k > 0 \<and> k mod group b = 0 then [44] else [])"
      using True by (subst digit_text.simps) simp
    have "val div num_base b < val" using True by simp
    moreover have "length ?buf + length (digit_text ?g b (k + 1) (val div num_base b)) \<le> 64"
      using less.prems unfolding t by (simp split: if_splits)
    ultimately have "put_digits c b (val div num_base b) (k + 1) ?buf = Some (digit_text ?g b (k + 1) (val div num_base b) @ ?buf)"
      by (rule less.IH)
    moreover have "length buf < 64" "?g \<and> k > 0 \<and> k mod group b = 0 \<longrightarrow> length buf < 63"
      using less.prems unfolding t by (auto split: if_splits)
    ultimately show ?thesis using True unfolding t
      by (subst put_digits.simps) (auto simp: put_digit_def)
  qed
qed

lemma put_zeros_text:
  "length buf \<le> 63 \<Longrightarrow> put_zeros prec buf = Some (replicate (min (nat prec) 63 - length buf) 48 @ buf)"
proof (induction "63 - length buf" arbitrary: buf)
  case 0
  then show ?case by (subst put_zeros.simps) simp
next
  case (Suc n)
  show ?case
  proof (cases "int (length buf) < prec")
    case True
    have "put_zeros prec (48 # buf) = Some (replicate (min (nat prec) 63 - length (48 # buf)) 48 @ 48 # buf)"
      using Suc by (intro Suc.hyps(1)) auto
    moreover have "min (nat prec) 63 - length buf = Suc (min (nat prec) 63 - length (48 # buf))"
      using True Suc.hyps(2) by (auto simp: min_def)
    ultimately show ?thesis using True Suc.hyps(2)
      by (subst put_zeros.simps) (simp add: put_digit_def replicate_app_Cons_same)
  next
    case False
    then show ?thesis by (subst put_zeros.simps) (auto simp: min_def)
  qed
qed

definition sign_text :: "bool \<Rightarrow> bool \<Rightarrow> printf_conversion \<Rightarrow> u8 list" where
  "sign_text is_signed negative c =
     (if \<not> is_signed then [] else if negative then [45] else if flags c AND PLUS \<noteq> 0 then [43]
      else if flags c AND SPACE \<noteq> 0 then [32] else [])"

definition body_text :: "u64 \<Rightarrow> integer_base \<Rightarrow> printf_conversion \<Rightarrow> u8 list" where
  "body_text val b c =
     (let t = digit_text (flags c AND GROUP \<noteq> 0) b 0 (unat val);
          t = replicate (min (if precision c < 0 then 1 else nat (precision c)) 63 - length t) 48 @ t
      in if flags c AND POUND \<noteq> 0 \<and> num_base b = 8 \<and> (t = [] \<or> hd t \<noteq> 48) then 48 # t else t)"

definition prefix_text :: "u64 \<Rightarrow> integer_base \<Rightarrow> printf_conversion \<Rightarrow> u8 list" where
  "prefix_text val b c = (if flags c AND POUND \<noteq> 0 \<and> val \<noteq> 0 \<and> x_char b \<noteq> 0 then [48, x_char b] else [])"

definition integer_text :: "u64 \<Rightarrow> bool \<Rightarrow> bool \<Rightarrow> integer_base \<Rightarrow> printf_conversion \<Rightarrow> u8 list" where
  "integer_text val is_signed negative b c =
     (let sign = sign_text is_signed negative c; x = prefix_text val b c; t = body_text val b c;
          pad = nat (width c - int (length (sign @ x @ t)))
      in (if flags c AND MINUS = 0 \<and> flags c AND ZERO = 0 then replicate pad 32 else []) @ sign @ x @
         (if flags c AND ZERO \<noteq> 0 then replicate pad 48 else []) @ t @
         (if flags c AND MINUS \<noteq> 0 then replicate pad 32 else []))"

definition known_base :: "integer_base \<Rightarrow> bool" where
  "known_base b \<longleftrightarrow> b \<in> {base_d, base_o, base_x, base_X}"

lemma length_digit_text64: "known_base b \<Longrightarrow> length (digit_text grp b k (unat (val :: u64))) \<le> 44"
proof -
  assume b: "known_base b"
  then have "(8::nat) ^ 22 \<le> num_base b ^ 22"
    by (intro power_mono) (auto simp: known_base_def base_d_def base_o_def base_x_def base_X_def)
  moreover have "unat val < 2 ^ LENGTH(64)" by (rule unsigned_less)
  ultimately have "unat val < num_base b ^ 22" by simp
  from length_digit_text [OF this, of grp k] show ?thesis by simp
qed

lemma mask_or: "(a :: u32) AND (b OR c) = 0 \<longleftrightarrow> a AND b = 0 \<and> a AND c = 0"
  by (simp add: bit.conj_disj_distrib or_eq_0_iff)

lemma if_out_emit: "(if p then out ch s else Some s) = emit out (if p then [ch] else []) s"
  by simp

lemma wrap_int_small: "- (2 ^ 31) \<le> x \<Longrightarrow> x < 2 ^ 31 \<Longrightarrow> wrap_int x = x"
  by (simp add: wrap_int_def signed_take_bit_int_eq_self)

lemma length_body_text: "known_base b \<Longrightarrow> length (body_text val b c) \<le> 64"
  using length_digit_text64 [of b "flags c AND GROUP \<noteq> 0" 0 val] by (auto simp: body_text_def Let_def)

lemma put_zero_text: "length buf < 64 \<Longrightarrow> put_digit ch buf = Some (ch # buf)"
  by (simp add: put_digit_def)

lemma sign_text_eq:
  "(if is_signed then if flags c AND PLUS \<noteq> 0 then if negative then 45 else 43
      else if flags c AND SPACE \<noteq> 0 then if negative then 45 else 32 else if negative then 45 else 0
    else 0) = (case sign_text is_signed negative c of [] \<Rightarrow> 0 | ch # _ \<Rightarrow> ch)"
  by (simp add: sign_text_def)

lemma prefix_text_eq:
  "(if flags c AND POUND \<noteq> 0 \<and> val \<noteq> 0 then x_char b else 0) = (case prefix_text val b c of [] \<Rightarrow> 0 | _ # t \<Rightarrow> hd t)"
  by (simp add: prefix_text_def)

lemma format_integer_emit:
  assumes b: "known_base b" and w: "0 \<le> width c" "width c < 2 ^ 31"
  shows "format_integer val is_signed negative b c out s = emit out (integer_text val is_signed negative b c) s"
proof -
  let ?t = "digit_text (flags c AND GROUP \<noteq> 0) b 0 (unat val)"
  let ?z = "replicate (min (if precision c < 0 then 1 else nat (precision c)) 63 - length ?t) 48 @ ?t"
  define sign x t where "sign = sign_text is_signed negative c" and "x = prefix_text val b c" and "t = body_text val b c"
  have l: "length ?t \<le> 44" by (rule length_digit_text64 [OF b])
  have z: "put_zeros (if precision c < 0 then 1 else precision c) ?t = Some ?z"
    using put_zeros_text [of ?t "if precision c < 0 then 1 else precision c"] l by (simp split: if_splits)
  have "length ?z < 64" using l by auto
  then have f: "(if flags c AND POUND \<noteq> 0 \<and> num_base b = 8 \<and> (?z = [] \<or> hd ?z \<noteq> 48) then put_digit 48 ?z else Some ?z) = Some t"
    unfolding t_def body_text_def Let_def by (auto simp: put_zero_text)
  have pd: "put_digits c b (unat val) 0 [] = Some ?t" using put_digits_text [of "[]"] l by simp
  have lt: "length t \<le> 64" unfolding t_def by (rule length_body_text [OF b])
  have ls: "(if (case sign of [] \<Rightarrow> 0 | ch # _ \<Rightarrow> ch) \<noteq> 0 then 1 else 0 :: int) = int (length sign)"
      "(if (case sign of [] \<Rightarrow> 0 | ch # _ \<Rightarrow> ch) \<noteq> 0 then out (case sign of [] \<Rightarrow> 0 | ch # _ \<Rightarrow> ch) s else Some s) = emit out sign s"
      "length sign \<le> 1" for s
    by (auto simp: sign_def sign_text_def)
  have lx: "(if (case x of [] \<Rightarrow> 0 | _ # t \<Rightarrow> hd t) \<noteq> 0 then 2 else 0 :: int) = int (length x)"
      "(if (case x of [] \<Rightarrow> 0 | _ # t \<Rightarrow> hd t) \<noteq> 0 then do { s \<leftarrow> out 48 s; out (case x of [] \<Rightarrow> 0 | _ # t \<Rightarrow> hd t) s } else Some s) = emit out x s"
      "length x \<le> 2" for s
    by (auto simp: x_def prefix_text_def)
  have wi: "wrap_int (width c - int (length t) - int (length x) - int (length sign)) =
      width c - int (length t) - int (length x) - int (length sign)"
    by (rule wrap_int_small) (use w lt ls(3) lx(3) in simp_all)
  have pad: "(if wrap_int (width c - int (length t) - int (length x) - int (length sign)) < 0 then 0
      else nat (wrap_int (width c - int (length t) - int (length x) - int (length sign)))) =
      nat (width c - int (length (sign @ x @ t)))" unfolding wi by (simp add: algebra_simps)
  show ?thesis
    unfolding format_integer_def sign_text_eq prefix_text_eq sign_def [symmetric] x_def [symmetric] Let_def pd z f
      Option.bind.bind_lunit ls lx pad mask_or
    unfolding integer_text_def Let_def sign_def [symmetric] x_def [symmetric] t_def [symmetric]
    by (simp add: emit_app emit_Nil output_dup_emit output_rev_emit)
qed

subsection \<open>Every output goes through the output function\<close>

definition reach :: "'s outfun \<Rightarrow> 's \<Rightarrow> 's \<Rightarrow> bool" where
  "reach out s s' \<longleftrightarrow> (\<exists>t. emit out t s = Some s')"

named_theorems reach_rules

lemma reach_refl [reach_rules, intro]: "reach out s s"
  unfolding reach_def by (rule exI [of _ "[]"]) simp

lemma reach_trans [trans]: "reach out s s' \<Longrightarrow> reach out s' s'' \<Longrightarrow> reach out s s''"
proof (unfold reach_def, elim exE)
  fix t u assume "emit out t s = Some s'" "emit out u s' = Some s''"
  then have "emit out (t @ u) s = Some s''" by (simp add: emit_app)
  then show "\<exists>t. emit out t s = Some s''" ..
qed

lemma reach_out: "out ch s = Some s' \<Longrightarrow> reach out s s'"
  unfolding reach_def by (rule exI [of _ "[ch]"]) simp

lemma reach_emit: "emit out t s = Some s' \<Longrightarrow> reach out s s'"
  unfolding reach_def by blast

lemma reach_bind:
  assumes "bind a f = Some s'" and "\<And>x. a = Some x \<Longrightarrow> reach out s x" and "\<And>x. a = Some x \<Longrightarrow> f x = Some s' \<Longrightarrow> reach out x s'"
  shows "reach out s s'"
  using assms by (cases a) (auto intro: reach_trans)

lemma reach_if: "(if p then a else b) = Some s' \<Longrightarrow> (a = Some s' \<Longrightarrow> reach out s s') \<Longrightarrow> (b = Some s' \<Longrightarrow> reach out s s') \<Longrightarrow> reach out s s'"
  by (cases p) auto

lemma output_chars_reach: "output_chars out rd i n s = Some s' \<Longrightarrow> reach out s s'"
  by (induction n arbitrary: i s) (auto elim!: reach_bind intro: reach_out)

lemma output_dup_reach: "output_dup out ch n s = Some s' \<Longrightarrow> reach out s s'"
  by (auto simp: output_dup_emit intro: reach_emit)

lemma output_rev_reach: "output_rev out buf s = Some s' \<Longrightarrow> reach out s s'"
  by (auto simp: output_rev_emit intro: reach_emit)

lemma format_string_reach: "format_string rd len c out s = Some s' \<Longrightarrow> reach out s s'"
  unfolding format_string_def
  by (elim reach_bind reach_if output_dup_reach output_chars_reach) (simp_all add: reach_refl)

lemma format_integer_reach:
  assumes "format_integer val sg neg b c out s = Some s'"
  shows "reach out s s'"
proof -
  have o: "(if p then out ch s else Some s) = Some s' \<Longrightarrow> reach out s s'" for p ch s s'
    by (auto intro: reach_out split: if_splits)
  have x: "(if p then do { s \<leftarrow> out ch s; out ch' s } else Some s) = Some s' \<Longrightarrow> reach out s s'" for p ch ch' s s'
    by (auto elim!: reach_bind intro: reach_out split: if_splits)
  have d: "(if p then output_dup out ch n s else Some s) = Some s' \<Longrightarrow> reach out s s'" for p ch n s s'
    by (auto intro: output_dup_reach split: if_splits)
  from assms show ?thesis unfolding format_integer_def Let_def Option.bind_eq_Some_conv
    by (elim exE conjE) (drule o, drule x, drule d, drule d, drule d, drule output_rev_reach, (assumption | rule reach_trans)+)
qed

lemma convert_reach:
  assumes self: "\<And>fmt args s s'. self fmt args s = Some s' \<Longrightarrow> reach out s s'"
    and c: "convert self mem out ch c args s = Some (args', s')"
  shows "reach out s s'"
  using c unfolding convert_def Let_def
  by (auto split: if_splits Option.bind_splits prod.splits dest: self format_integer_reach format_string_reach)

lemma vprintf_loop_reach:
  assumes "\<And>fmt args s s'. self fmt args s = Some s' \<Longrightarrow> reach out s s'" and "vprintf_loop self mem out fmt args s = Some s'"
  shows "reach out s s'"
  using assms
proof (induction self mem out fmt args s rule: vprintf_loop.induct)
  case (2 self mem out ch fmt args s)
  note IH = 2(1-3) and self = 2(4) and prem = 2(5)
  show ?case
  proof (cases "ch = 0")
    case True
    then show ?thesis using prem by auto
  next
    case n0: False
    show ?thesis
    proof (cases "ch = 37")
      case False
      then show ?thesis using prem n0 IH(1) [OF n0 False _ self] by (auto split: Option.bind_splits intro: reach_trans reach_out)
    next
      case True
      obtain ch' where ch': "next_char fmt = Some ch'" using prem n0 True by (auto split: Option.bind_splits)
      show ?thesis
      proof (cases "ch' = 37")
        case p: True
        then obtain s1 where "out 37 s = Some s1" "vprintf_loop self mem out (tl fmt) args s1 = Some s'"
          using prem n0 True ch' by (auto split: Option.bind_splits)
        then show ?thesis using IH(2) [OF n0 _ ch' p _ self] True reach_out [of out 37 s s1] reach_trans [of out s s1 s'] by simp
      next
        case False
        with prem n0 True ch' obtain f c a ch'' a' s1 where
          e: "parse_conversion fmt args = Some (f, c, a)" "next_char f = Some ch''" "convert self mem out ch'' c a s = Some (a', s1)"
            "vprintf_loop self mem out (tl f) a' s1 = Some s'"
          by (auto split: Option.bind_splits)
        have "reach out s1 s'" using IH(3) [OF n0 _ ch' False e(1) refl refl e(2,3) refl self] True e(4) by simp
        moreover have "reach out s s1" by (rule convert_reach [OF _ e(3)]) (rule self)
        ultimately show ?thesis by (rule reach_trans [rotated])
      qed
    qed
  qed
qed simp

lemma vprintf_at_reach: "vprintf_at n mem out fmt args s = Some s' \<Longrightarrow> reach out s s'"
proof (induction n arbitrary: fmt args s s')
  case (Suc n)
  then show ?case using vprintf_loop_reach [of "vprintf_at n mem out" out mem fmt args s s'] by simp
qed simp

subsection \<open>The recursion of unsupported conversions\<close>

definition unsupported :: "u8 list \<Rightarrow> bool" where
  "unsupported fmt \<longleftrightarrow> fmt \<in> {str ''<<no %%%c in kernel>>'', str ''<<no %%%c conversion>>''}"

lemma convert_cong:
  assumes "\<And>fmt w s. unsupported fmt \<Longrightarrow> self fmt [w] s = self' fmt [w] s"
  shows "convert self mem out ch c args s = convert self' mem out ch c args s"
  unfolding convert_def by (simp add: assms unsupported_def)

lemma vprintf_loop_cong:
  assumes "\<And>fmt w s. unsupported fmt \<Longrightarrow> self fmt [w] s = self' fmt [w] s"
  shows "vprintf_loop self mem out fmt args s = vprintf_loop self' mem out fmt args s"
  using assms
proof (induction self mem out fmt args s rule: vprintf_loop.induct)
  case (2 self mem out ch fmt args s)
  have c: "convert self mem out ch c args s = convert self' mem out ch c args s" for ch c args s
    by (rule convert_cong) (rule 2(4))
  show ?case unfolding vprintf_loop.simps c
    by (intro if_cong refl Option.bind_cong) (use 2 c in \<open>auto split: prod.splits intro!: Option.bind_cong\<close>)
qed simp

lemma parse_c: "parse_conversion (99 # s) args = Some (99 # s, \<lparr>flags = 0, width = 0, precision = - 1, int_type = INT_T\<rparr>, args)"
  by (simp add: parse_conversion_def parse_width_def parse_precision_def parse_type_def isdigit_def Let_def)

lemma vprintf_eta:
  "vprintf_loop self mem out (ch # fmt) args =
    (\<lambda>s. if ch = 0 then Some s
      else if ch \<noteq> 37 then do { s \<leftarrow> out ch s; vprintf_loop self mem out fmt args s }
      else do {
        ch \<leftarrow> next_char fmt;
        if ch = 37 then do { s \<leftarrow> out 37 s; vprintf_loop self mem out (tl fmt) args s }
        else do {
          (fmt', c, args) \<leftarrow> parse_conversion fmt args;
          ch \<leftarrow> next_char fmt';
          (args, s) \<leftarrow> convert self mem out ch c args s;
          vprintf_loop self mem out (tl fmt') args s } })"
  by (rule ext) simp

lemma vprintf_loop_unsupported:
  assumes "unsupported fmt"
  shows "vprintf_loop self mem out fmt [w] s = vprintf_loop self' mem out fmt [w] s"
  using assms by (auto simp: unsupported_def str_def vprintf_eta parse_c convert_def)

theorem vprintf_rec: "format_vprintf mem out fmt args s = vprintf_loop (format_vprintf mem out) mem out fmt args s"
proof -
  have "vprintf_loop (vprintf_at 1 mem out) mem out fmt args s = vprintf_loop (vprintf_at 2 mem out) mem out fmt args s"
    by (rule vprintf_loop_cong) (simp add: numeral_2_eq_2 vprintf_loop_unsupported)
  then show ?thesis by (simp add: format_vprintf_def numeral_2_eq_2)
qed

subsection \<open>The buffer of vsnprintf\<close>

lemma emit_helper:
  assumes "emit vsnprintf_helper t (m, aux) = Some (m', aux')" and "0 \<le> out_length aux"
  defines "n \<equiv> min (length t) (nat (max_length aux - out_length aux))"
  shows "aux' = aux\<lparr>out_p := out_p aux + n, out_length := out_length aux + int (length t)\<rparr> \<and>
    (\<forall>a. m' a = (if out_p aux \<le> a \<and> a < out_p aux + n then t ! (a - out_p aux) else m a))"
  using assms(1,2) unfolding n_def
proof (induction t arbitrary: m aux)
  case (Cons ch t)
  let ?room = "out_length aux < max_length aux"
  let ?aux = "aux\<lparr>out_p := out_p aux + (if ?room then 1 else 0), out_length := out_length aux + 1\<rparr>"
  let ?m = "if ?room then m(out_p aux := ch) else m"
  have e: "emit vsnprintf_helper t (?m, ?aux) = Some (m', aux')"
  proof -
    have "vsnprintf_helper ch (m, aux) = Some x \<Longrightarrow> x = (?m, ?aux)" for x
      by (auto simp: vsnprintf_helper_def Let_def split: Option.bind_splits)
    then show ?thesis using Cons.prems(1) by (auto split: Option.bind_splits)
  qed
  have "0 \<le> out_length ?aux" using Cons.prems by simp
  note IH = Cons.IH [OF e this]
  show ?case
  proof (cases ?room)
    case True
    have "Suc (min (length t) (nat (max_length aux - (out_length aux + 1)))) =
        min (length (ch # t)) (nat (max_length aux - out_length aux))" using True by (auto simp: min_def)
    then show ?thesis using IH True by (auto simp: nth_Cons' Suc_diff_Suc)
  next
    case False
    then show ?thesis using IH by auto
  qed
qed auto

subsection \<open>The format language\<close>

text \<open>A conversion specification: flag characters, an optional width, an optional precision and the type of the argument.\<close>

datatype count = Fixed nat | Star

datatype spec = Spec "u8 list" "count option" "count option" int_type

fun count_chars :: "count \<Rightarrow> u8 list" where
  "count_chars (Fixed n) = decimal n"
| "count_chars Star = [42]"

fun type_chars :: "int_type \<Rightarrow> u8 list" where
  "type_chars CHAR_T = [104, 104]"
| "type_chars SHORT = [104]"
| "type_chars INT_T = []"
| "type_chars INTMAX = [106]"
| "type_chars LONG = [108]"
| "type_chars LONGLONG = [108, 108]"
| "type_chars PTRDIFFT = [116]"
| "type_chars SIZET = [122]"

fun spec_chars :: "spec \<Rightarrow> u8 list" where
  "spec_chars (Spec fl w p t) = fl @ (case w of None \<Rightarrow> [] | Some n \<Rightarrow> count_chars n) @
     (case p of None \<Rightarrow> [] | Some n \<Rightarrow> 46 # count_chars n) @ type_chars t"

definition flag_bit :: "u8 \<Rightarrow> u32" where
  "flag_bit ch = (if ch = 45 then MINUS else if ch = 43 then PLUS else if ch = 32 then SPACE
     else if ch = 35 then POUND else if ch = 48 then ZERO else GROUP)"

fun count_value :: "count \<Rightarrow> u32 list \<Rightarrow> (int \<times> u32 list) option" where
  "count_value (Fixed n) args = Some (int n, args)"
| "count_value Star args = do { (w, args) \<leftarrow> va_arg args; Some (sint w, args) }"

text \<open>
  What a specification means. A minus flag overrides the zero flag, a plus flag the space flag, and a
  precision the zero flag; a negative width counts as a minus flag, given after the others.
\<close>

fun spec_value :: "spec \<Rightarrow> u32 list \<Rightarrow> (printf_conversion \<times> u32 list) option" where
  "spec_value (Spec fl w p t) args = do {
     let b = foldl (\<lambda>b ch. b OR flag_bit ch) 0 fl;
     let b = (if b AND MINUS \<noteq> 0 then b AND NOT ZERO else b);
     let b = (if b AND PLUS \<noteq> 0 then b AND NOT SPACE else b);
     (n, args) \<leftarrow> (case w of None \<Rightarrow> Some (0, args) | Some w \<Rightarrow> count_value w args);
     (q, args) \<leftarrow> (case p of None \<Rightarrow> Some (- 1, args) | Some p \<Rightarrow> count_value p args);
     let b = (if n < 0 then b OR MINUS else b);
     Some (\<lparr>flags = (if q \<ge> 0 then b AND NOT ZERO else b), width = (if n < 0 then wrap_int (- n) else n),
            precision = (if q < 0 then - 1 else q), int_type = t\<rparr>, args) }"

fun spec_ok :: "spec \<Rightarrow> bool" where
  "spec_ok (Spec fl w p t) \<longleftrightarrow> set fl \<subseteq> {45, 43, 32, 35, 48, 39} \<and>
     (case w of Some (Fixed n) \<Rightarrow> 0 < n \<and> n < 2 ^ 31 | _ \<Rightarrow> True) \<and>
     (case p of Some (Fixed n) \<Rightarrow> n < 2 ^ 31 | _ \<Rightarrow> True)"

definition conversion_char :: "u8 \<Rightarrow> bool" where
  "conversion_char ch \<longleftrightarrow> ch \<in> {100, 105, 111, 117, 120, 88, 99, 115, 112, 102, 101, 69, 103, 71, 110}"

lemma parse_number_decimal: "n < 2 ^ 31 \<Longrightarrow> parse_number (decimal n @ s) 0 = parse_number s (int n)"
proof (induction n arbitrary: s rule: decimal.induct)
  case (1 n)
  have d: "isdigit (of_nat (48 + d)) \<and> uint (of_nat (48 + d) :: u8) = 48 + int d" if "d < 10" for d
  proof -
    have "d \<in> {0, 1, 2, 3, 4, 5, 6, 7, 8, 9}" using that by auto
    then show ?thesis by (auto simp: isdigit_def)
  qed
  show ?case
  proof (cases "n < 10")
    case True
    have "wrap_int (int n) = int n" using True by (simp add: wrap_int_small)
    then show ?thesis using d [OF True] True by (subst decimal.simps) (simp del: of_nat_add)
  next
    case False
    have m: "n mod 10 < 10" by simp
    have "parse_number (decimal n @ s) 0 = parse_number (of_nat (48 + n mod 10) # s) (int (n div 10))"
      using 1(1) [OF False, of "of_nat (48 + n mod 10) # s"] 1(2) False by (subst decimal.simps) (simp del: of_nat_add)
    also have "\<dots> = parse_number s (wrap_int (int (n div 10) * 10 + int (n mod 10)))"
      using d [OF m] by (simp del: of_nat_add)
    also have "int (n div 10) * 10 + int (n mod 10) = int n"
      by (metis div_mult_mod_eq of_nat_add of_nat_mult of_nat_numeral)
    also have "wrap_int (int n) = int n" using 1(2) by (simp add: wrap_int_small)
    finally show ?thesis .
  qed
qed

lemma parse_flags_app:
  assumes "set fl \<subseteq> {45, 43, 32, 35, 48, 39}" and "ch \<notin> {45, 43, 32, 35, 48, 39}"
  shows "parse_flags (fl @ ch # s) b = Some (ch # s, foldl (\<lambda>b ch. b OR flag_bit ch) b fl)"
  using assms by (induction fl arbitrary: b) (auto simp: flag_bit_def)

lemma decimal_ne: "decimal n \<noteq> []"
  using decimal_hd [of n] by auto

lemma decimal_digit: "ch \<in> set (decimal n) \<Longrightarrow> isdigit ch"
proof (induction n rule: decimal.induct)
  case (1 n)
  then show ?case using digit_simps(1) [of n] digit_simps(1) [of "n mod 10"]
    by (subst (asm) (2) decimal.simps) (auto simp del: of_nat_add split: if_splits)
qed

lemma decimal_no_zero: "0 < n \<Longrightarrow> hd (decimal n) \<noteq> 48"
proof (induction n rule: decimal.induct)
  case (1 n)
  show ?case
  proof (cases "n < 10")
    case True
    then have "n \<in> {1, 2, 3, 4, 5, 6, 7, 8, 9}" using 1(2) by auto
    then show ?thesis by (subst decimal.simps) auto
  next
    case False
    then show ?thesis using 1 by (subst decimal.simps) (simp add: decimal_ne)
  qed
qed

definition plain_char :: "u8 \<Rightarrow> bool" where
  "plain_char ch \<longleftrightarrow> \<not> isdigit ch \<and> ch \<notin> {42, 43, 45, 32, 35, 39}"

lemma type_chars_hd:
  assumes "conversion_char conv"
  obtains ch s where "type_chars t @ conv # rest = ch # s" "plain_char ch" "ch \<noteq> 46"
proof -
  have conv: "conv \<in> {100, 105, 111, 117, 120, 88, 99, 115, 112, 102, 101, 69, 103, 71, 110}"
    using assms by (simp add: conversion_char_def)
  show ?thesis
    by (rule that [of "hd (type_chars t @ [conv])" "tl (type_chars t @ conv # rest)"])
      (cases t; use conv in \<open>auto simp: plain_char_def isdigit_def\<close>)+
qed

lemma parse_type_chars: "conversion_char conv \<Longrightarrow> parse_type (type_chars t @ conv # rest) = Some (conv # rest, t)"
  by (cases t) (auto simp: parse_type_def conversion_char_def Let_def)

lemma digit_not: "isdigit ch \<Longrightarrow> ch \<notin> {42, 43, 45, 32, 35, 39}"
  by (auto simp: isdigit_def)

lemma parse_number_plain: "plain_char ch \<Longrightarrow> parse_number (ch # s) n = Some (ch # s, n)"
  by (simp add: plain_char_def)

lemma next_char_decimal: "next_char (decimal n @ s) = Some (hd (decimal n))"
  using decimal_ne [of n] by (cases "decimal n") auto

lemma hd_decimal: "isdigit (hd (decimal n))"
  by (rule decimal_digit [of _ n]) (simp add: decimal_ne)

lemma parse_precision_chars:
  assumes s: "s = ch # s'" "plain_char ch" "ch \<noteq> 46" and p: "case p of Some (Fixed n) \<Rightarrow> n < 2 ^ 31 | _ \<Rightarrow> True"
  shows "parse_precision ((case p of None \<Rightarrow> [] | Some n \<Rightarrow> 46 # count_chars n) @ s) args =
    do { (q, args) \<leftarrow> (case p of None \<Rightarrow> Some (- 1, args) | Some p \<Rightarrow> count_value p args);
         Some (s, if q < 0 then - 1 else q, args) }"
proof (cases p)
  case None
  then show ?thesis using s by (simp add: parse_precision_def)
next
  case (Some c)
  show ?thesis
  proof (cases c)
    case (Fixed n)
    have "hd (decimal n) \<noteq> 42" using digit_not [OF hd_decimal [of n]] by simp
    moreover have "\<not> isdigit ch" using s(2) by (simp add: plain_char_def)
    ultimately show ?thesis using s p Some Fixed
      by (simp add: parse_precision_def next_char_decimal parse_number_decimal parse_number_plain)
  next
    case Star
    then show ?thesis using Some by (cases args) (simp_all add: parse_precision_def)
  qed
qed

lemma parse_width_chars:
  assumes s: "s = ch # s'" "plain_char ch" and w: "case w of Some (Fixed n) \<Rightarrow> 0 < n \<and> n < 2 ^ 31 | _ \<Rightarrow> True"
  shows "parse_width ((case w of None \<Rightarrow> [] | Some n \<Rightarrow> count_chars n) @ s) b args =
    do { (n, args) \<leftarrow> (case w of None \<Rightarrow> Some (0, args) | Some w \<Rightarrow> count_value w args);
         Some (s, if n < 0 then b OR MINUS else b, if n < 0 then wrap_int (- n) else n, args) }"
proof (cases w)
  case None
  then show ?thesis using s parse_number_plain [OF s(2)] by (simp add: parse_width_def plain_char_def)
next
  case (Some c)
  show ?thesis
  proof (cases c)
    case (Fixed n)
    have "hd (decimal n) \<noteq> 42" using digit_not [OF hd_decimal [of n]] by simp
    moreover have "\<not> isdigit ch" using s(2) by (simp add: plain_char_def)
    ultimately show ?thesis using s w Some Fixed
      by (simp add: parse_width_def next_char_decimal parse_number_decimal parse_number_plain)
  next
    case Star
    then show ?thesis using Some by (cases args) (simp_all add: parse_width_def)
  qed
qed

lemma parse_flags_chars:
  assumes fl: "set fl \<subseteq> {45, 43, 32, 35, 48, 39}" and s: "s = ch # s'" "plain_char ch"
    and w: "case w of Some (Fixed n) \<Rightarrow> 0 < n \<and> n < 2 ^ 31 | _ \<Rightarrow> True"
  defines "t \<equiv> (case w of None \<Rightarrow> [] | Some n \<Rightarrow> count_chars n) @ s"
  shows "parse_flags (fl @ t) 0 = Some (t, foldl (\<lambda>b ch. b OR flag_bit ch) 0 fl)"
proof -
  have "\<exists>c t'. t = c # t' \<and> c \<notin> {45, 43, 32, 35, 48, 39}"
  proof (cases "\<exists>n. w = Some (Fixed n)")
    case True
    then obtain n where n: "w = Some (Fixed n)" by blast
    then have "hd (decimal n) \<noteq> 48" using w decimal_no_zero by simp
    moreover have "decimal n = hd (decimal n) # tl (decimal n)" using decimal_ne [of n] by simp
    ultimately show ?thesis using digit_not [OF hd_decimal [of n]] n by (metis append_Cons count_chars.simps(1) insertE insertI1 insertI2 emptyE option.case(2) t_def)
  next
    case False
    then have "w = None \<or> w = Some Star" by (cases w; metis count.exhaust)
    then show ?thesis using s unfolding t_def by (auto simp: plain_char_def isdigit_def)
  qed
  then show ?thesis using parse_flags_app [OF fl] by auto
qed

lemma parse_conversion_chars:
  assumes ok: "spec_ok sp" and conv: "conversion_char conv"
  shows "parse_conversion (spec_chars sp @ conv # rest) args =
    do { (c, args) \<leftarrow> spec_value sp args; Some (conv # rest, c, args) }"
proof -
  obtain fl w p t where sp: "sp = Spec fl w p t" by (cases sp)
  define T where "T = type_chars t @ conv # rest"
  define P where "P = (case p of None \<Rightarrow> [] | Some n \<Rightarrow> 46 # count_chars n) @ T"
  obtain ch s where T: "T = ch # s" "plain_char ch" "ch \<noteq> 46" unfolding T_def by (rule type_chars_hd [OF conv])
  obtain ch' s' where P: "P = ch' # s'" "plain_char ch'"
  proof (cases p)
    case None
    then show thesis using that T by (simp add: P_def)
  next
    case (Some n)
    then show thesis using that [of 46 "count_chars n @ T"] by (simp add: P_def plain_char_def isdigit_def)
  qed
  have okw: "case w of Some (Fixed n) \<Rightarrow> 0 < n \<and> n < 2 ^ 31 | _ \<Rightarrow> True"
    and okp: "case p of Some (Fixed n) \<Rightarrow> n < 2 ^ 31 | _ \<Rightarrow> True" and fl: "set fl \<subseteq> {45, 43, 32, 35, 48, 39}"
    using ok by (simp_all add: sp)
  have chars: "spec_chars sp @ conv # rest = fl @ (case w of None \<Rightarrow> [] | Some n \<Rightarrow> count_chars n) @ P"
    by (simp add: sp P_def T_def)
  note head = parse_conversion_def chars parse_flags_chars [OF fl P okw]
  note width = parse_width_chars [OF P okw]
  show ?thesis
  proof (cases "case w of None \<Rightarrow> Some (0, args) | Some w \<Rightarrow> count_value w args")
    case None
    then show ?thesis unfolding head by (simp add: width sp)
  next
    case w: (Some x)
    obtain n args' where x: "x = (n, args')" by (cases x)
    have prec: "parse_precision P args' =
      do { (q, args) \<leftarrow> (case p of None \<Rightarrow> Some (- 1, args') | Some p \<Rightarrow> count_value p args'); Some (T, if q < 0 then - 1 else q, args) }"
      unfolding P_def by (rule parse_precision_chars [OF T okp])
    have ty: "parse_type T = Some (conv # rest, t)" unfolding T_def by (rule parse_type_chars [OF conv])
    show ?thesis unfolding head
      by (cases "case p of None \<Rightarrow> Some (- 1, args') | Some p \<Rightarrow> count_value p args'")
        (simp_all add: width sp w x prec ty Let_def split: prod.splits)
  qed
qed

subsection \<open>Whole formats\<close>

datatype directive = Text u8 | Percent | Conv spec u8

fun directive_chars :: "directive \<Rightarrow> u8 list" where
  "directive_chars (Text ch) = [ch]"
| "directive_chars Percent = [37, 37]"
| "directive_chars (Conv sp conv) = 37 # spec_chars sp @ [conv]"

fun directive_ok :: "directive \<Rightarrow> bool" where
  "directive_ok (Text ch) \<longleftrightarrow> ch \<noteq> 0 \<and> ch \<noteq> 37"
| "directive_ok Percent \<longleftrightarrow> True"
| "directive_ok (Conv sp conv) \<longleftrightarrow> spec_ok sp \<and> conversion_char conv"

fun print_directives :: "('s \<Rightarrow> memory) \<Rightarrow> 's outfun \<Rightarrow> directive list \<Rightarrow> u32 list \<Rightarrow> 's \<Rightarrow> 's option" where
  "print_directives mem out [] args s = Some s"
| "print_directives mem out (Text ch # ds) args s = do { s \<leftarrow> out ch s; print_directives mem out ds args s }"
| "print_directives mem out (Percent # ds) args s = do { s \<leftarrow> out 37 s; print_directives mem out ds args s }"
| "print_directives mem out (Conv sp conv # ds) args s = do {
     (c, args) \<leftarrow> spec_value sp args;
     (args, s) \<leftarrow> convert (format_vprintf mem out) mem out conv c args s;
     print_directives mem out ds args s }"

lemma next_char_spec:
  assumes "spec_ok sp" "conversion_char conv"
  shows "\<exists>ch. next_char (spec_chars sp @ conv # s) = Some ch \<and> ch \<noteq> 37"
proof -
  have "37 \<notin> set (spec_chars sp @ [conv])"
  proof -
    have d: "37 \<notin> set (decimal n)" for n using decimal_digit [of 37 n] by (auto simp: isdigit_def)
    have c: "37 \<notin> set (count_chars n)" for n using d by (cases n) auto
    have t: "37 \<notin> set (type_chars t)" for t by (cases t) auto
    show ?thesis using assms c t by (cases sp) (auto simp: conversion_char_def split: option.splits)
  qed
  moreover have "spec_chars sp @ [conv] \<noteq> []" by simp
  ultimately obtain ch t where ch: "spec_chars sp @ [conv] = ch # t" "ch \<noteq> 37"
    by (cases "spec_chars sp @ [conv]") auto
  then have e: "spec_chars sp @ conv # s = ch # t @ s" using arg_cong [OF ch(1), of "\<lambda>x. x @ s"] by simp
  have "next_char (spec_chars sp @ conv # s) = Some ch" unfolding e by simp
  then show ?thesis using ch(2) by blast
qed

lemma format_vprintf_directives:
  assumes "list_all directive_ok ds"
  shows "format_vprintf mem out (concat (map directive_chars ds) @ 0 # rest) args s = print_directives mem out ds args s"
  using assms
proof (induction ds arbitrary: args s)
  case Nil
  then show ?case by (subst vprintf_rec) simp
next
  case (Cons d ds)
  have IH: "vprintf_loop (format_vprintf mem out) mem out (concat (map directive_chars ds) @ 0 # rest) args =
      print_directives mem out ds args" for args
    by (rule ext) (use Cons in \<open>simp add: vprintf_rec [symmetric]\<close>)
  show ?case
  proof (cases d)
    case (Text ch)
    then show ?thesis using Cons.prems IH by (subst vprintf_rec) simp
  next
    case Percent
    then show ?thesis using Cons.prems IH by (subst vprintf_rec) simp
  next
    case (Conv sp conv)
    then have ok: "spec_ok sp" "conversion_char conv" using Cons.prems by simp_all
    obtain ch where ch: "next_char (spec_chars sp @ conv # concat (map directive_chars ds) @ 0 # rest) = Some ch" "ch \<noteq> 37"
      using next_char_spec [OF ok] by blast
    show ?thesis using Cons.prems IH ch parse_conversion_chars [OF ok]
      by (subst vprintf_rec) (simp add: Conv split: prod.splits Option.bind_splits)
  qed
qed

text \<open>
  C12: \<^verbatim>\<open>__vprintf\<close> reads a format as it was written. For every list of directives (a literal character, a
  percent sign, or a conversion with any flags, width, precision, argument type and conversion character), whose
  characters make up the format, it performs the directives one after the other, each conversion with the flags, the
  numbers and the type it was written with, and the arguments consumed in order; it stops at the terminator.
\<close>

theorem vprintf_directives:
  assumes "list_all directive_ok ds"
  shows "format_vprintf mem out (concat (map directive_chars ds) @ 0 # rest) args s = print_directives mem out ds args s"
  using assms by (rule format_vprintf_directives)

theorem vprintf_directives_witness:
  "format_vprintf (\<lambda>s. \<lambda>_. 0) (\<lambda>ch s. Some (s @ [ch])) (str ''a=%05d%%'') [42] [] =
   print_directives (\<lambda>s. \<lambda>_. 0) (\<lambda>ch s. Some (s @ [ch])) [Text 97, Text 61, Conv (Spec [48] (Some (Fixed 5)) None INT_T) 100, Percent] [42] []"
proof -
  have "list_all directive_ok [Text 97, Text 61, Conv (Spec [48] (Some (Fixed 5)) None INT_T) 100, Percent]"
    by (simp add: conversion_char_def)
  from vprintf_directives [OF this, of "\<lambda>s. \<lambda>_. 0" "\<lambda>ch s. Some (s @ [ch])" "[]" "[42]" "[]"]
  show ?thesis by (simp add: str_def decimal.simps)
qed

text \<open>
  After a percent sign that ends the format, the conversion character is the terminator, and the loop goes
  on behind it.
\<close>

lemma vprintf_past_end:
  "format_vprintf mem out (37 # 0 # rest) args s =
    do { s \<leftarrow> format_vprintf mem out (str ''<<no %%%c conversion>>'') [0] s; format_vprintf mem out rest args s }"
proof -
  have p: "parse_conversion (0 # rest) args = Some (0 # rest, \<lparr>flags = 0, width = 0, precision = - 1, int_type = INT_T\<rparr>, args)"
    by (simp add: parse_conversion_def parse_width_def parse_precision_def parse_type_def isdigit_def Let_def)
  show ?thesis
    by (subst vprintf_rec) (simp add: p convert_def vprintf_rec [of mem out rest, symmetric] Option.bind_assoc)
qed

subsection \<open>Decimal numbers\<close>

lemma digit_text_decimal: "0 < n \<Longrightarrow> digit_text False base_d k n = decimal n"
proof (induction n arbitrary: k rule: less_induct)
  case (less n)
  have d: "digits base_d ! d = of_nat (48 + d)" if "d < 10" for d
  proof -
    have "d \<in> {0, 1, 2, 3, 4, 5, 6, 7, 8, 9}" using that by auto
    then show ?thesis by (auto simp: base_d_def)
  qed
  have b: "num_base base_d = 10" by (simp add: base_d_def)
  have e: "digit_text False base_d k n = digit_text False base_d (k + 1) (n div 10) @ [of_nat (48 + n mod 10)]"
    using less.prems d [of "n mod 10"] by (subst digit_text.simps) (simp add: b del: of_nat_add)
  show ?case
  proof (cases "n < 10")
    case True
    have "digit_text False base_d (k + 1) 0 = []" by (subst digit_text.simps) simp
    then show ?thesis unfolding e using True by (subst decimal.simps) (simp del: of_nat_add)
  next
    case False
    then have "digit_text False base_d (k + 1) (n div 10) = decimal (n div 10)" using less.prems by (intro less.IH) auto
    then show ?thesis unfolding e using False by (subst decimal.simps) (simp del: of_nat_add)
  qed
qed

lemma body_text_decimal:
  assumes "flags c = 0" "precision c < 0"
  shows "body_text val base_d c = decimal (unat val)"
proof (cases "unat val = 0")
  case True
  have "digit_text False base_d 0 0 = []" by (subst digit_text.simps) simp
  moreover have "decimal 0 = [48]" by (subst decimal.simps) simp
  ultimately show ?thesis using assms True by (simp add: body_text_def)
next
  case False
  then have "digit_text False base_d 0 (unat val) = decimal (unat val)" by (intro digit_text_decimal) simp
  moreover have "length (decimal (unat val)) \<ge> 1" using decimal_ne [of "unat val"] by (simp add: Suc_leI)
  ultimately show ?thesis using assms by (simp add: body_text_def)
qed

lemma length_decimal: "n < 10 ^ Suc m \<Longrightarrow> length (decimal n) \<le> Suc m"
proof (induction m arbitrary: n)
  case 0
  then show ?case by (subst decimal.simps) simp
next
  case (Suc m)
  show ?case
  proof (cases "n < 10")
    case False
    have "n div 10 < 10 ^ Suc m" using Suc.prems by (subst div_less_iff_less_mult) auto
    from Suc.IH [OF this] show ?thesis using False by (subst decimal.simps) simp
  qed (subst decimal.simps, simp)
qed

lemma magnitude:
  fixes w :: u32
  defines "v \<equiv> scast w :: u64"
  shows "v <s 0 \<longleftrightarrow> sint w < 0" "unat (if v <s 0 then - v else v) = nat \<bar>sint w\<bar>"
proof -
  have r: "- (2 ^ 31) \<le> sint w" "sint w < 2 ^ 31" using sint_ge [of w] sint_lt [of w] by simp_all
  have v: "v = of_int (sint w)" by (simp add: v_def)
  have s: "sint v = sint w" unfolding v signed_of_int using signed_take_bit_int_eq_self [of 63 "sint w"] r by simp
  then show n: "v <s 0 \<longleftrightarrow> sint w < 0" by (simp add: word_sless_alt)
  have "(if v <s 0 then - v else v) = of_int \<bar>sint w\<bar>" using n by (simp add: v abs_if)
  also have "unat (of_int \<bar>sint w\<bar> :: u64) = nat \<bar>sint w\<bar>"
    using r by (simp add: unsigned_of_int take_bit_int_eq_self abs_if)
  finally show "unat (if v <s 0 then - v else v) = nat \<bar>sint w\<bar>" .
qed

lemma emit_helper_total:
  "0 \<le> out_length aux \<Longrightarrow> out_length aux + int (length t) < 2 ^ 31 \<Longrightarrow> emit vsnprintf_helper t (m, aux) \<noteq> None"
proof (induction t arbitrary: m aux)
  case (Cons ch t)
  have "\<exists>m' aux'. vsnprintf_helper ch (m, aux) = Some (m', aux') \<and> out_length aux' = out_length aux + 1"
    using Cons.prems by (auto simp: vsnprintf_helper_def Let_def)
  then obtain m' aux' where "vsnprintf_helper ch (m, aux) = Some (m', aux')" "out_length aux' = out_length aux + 1" by blast
  then show ?case using Cons.prems Cons.IH [of aux' m'] by simp
qed simp

lemma str_percent_d: "str ''%d'' = concat (map directive_chars [Conv (Spec [] None None INT_T) 100]) @ 0 # []"
  by (simp add: str_def)

lemma vprintf_percent_d:
  "format_vprintf mem out (str ''%d'') [w] s = emit out ((if sint w < 0 then [45] else []) @ decimal (nat \<bar>sint w\<bar>)) s"
proof -
  let ?c = "\<lparr>flags = 0, width = 0, precision = - 1, int_type = INT_T\<rparr>"
  let ?v = "scast w :: u64"
  define val where "val = (if ?v <s 0 then - ?v else ?v)"
  have m: "unat val = nat \<bar>sint w\<bar>" unfolding val_def by (rule magnitude)
  have "list_all directive_ok [Conv (Spec [] None None INT_T) 100]" by (simp add: conversion_char_def)
  from format_vprintf_directives [OF this, of mem out "[]" "[w]" s]
  have "format_vprintf mem out (str ''%d'') [w] s =
      format_integer val True (?v <s 0) base_d ?c out s"
    unfolding str_percent_d val_def by (simp add: convert_def signed_arg_def)
  also have "\<dots> = emit out (integer_text val True (?v <s 0) base_d ?c) s"
    by (rule format_integer_emit) (simp_all add: known_base_def)
  also have "integer_text val True (?v <s 0) base_d ?c =
      (if sint w < 0 then [45] else []) @ decimal (nat \<bar>sint w\<bar>)"
    unfolding integer_text_def Let_def
    by (simp add: body_text_decimal m magnitude(1) sign_text_def prefix_text_def)
  finally show ?thesis .
qed

lemma vsnprintf_percent_d:
  assumes "12 \<le> buf_size" and "buf_size \<le> 2 ^ 31"
  shows "\<exists>m' n. vsnprintf buffer buf_size (str ''%d'') [w] m = Some (m', int n) \<and> n \<le> 11 \<and>
    atoi (map m' [buffer..<buffer + n + 1]) = Some w"
proof -
  let ?t = "(if sint w < 0 then [45] else []) @ decimal (nat \<bar>sint w\<bar>)"
  let ?aux = "\<lparr>out_p = buffer, out_length = 0, max_length = int (buf_size - 1)\<rparr>"
  have wi: "wrap_int (if buf_size > 0 then int buf_size - 1 else 0) = int (buf_size - 1)"
    using assms by (auto simp: wrap_int_small of_nat_diff)
  have r: "- (2 ^ 31) \<le> sint w" "sint w < 2 ^ 31" using sint_ge [of w] sint_lt [of w] by simp_all
  then have "length (decimal (nat \<bar>sint w\<bar>)) \<le> Suc 9" by (intro length_decimal) auto
  then have l: "length ?t \<le> 11" by (cases "sint w < 0") auto
  have "emit vsnprintf_helper ?t (m, ?aux) \<noteq> None" by (rule emit_helper_total) (use l in simp_all)
  then obtain m1 aux where e: "emit vsnprintf_helper ?t (m, ?aux) = Some (m1, aux)" by auto
  have k: "min (length ?t) (nat (max_length ?aux - out_length ?aux)) = length ?t" using l assms(1) by simp
  have h: "out_p aux = buffer + length ?t" "out_length aux = int (length ?t)"
    "\<forall>a. m1 a = (if buffer \<le> a \<and> a < buffer + length ?t then ?t ! (a - buffer) else m a)"
    using emit_helper [OF e] unfolding k by simp_all
  let ?m = "m1(buffer + length ?t := 0)"
  have "vsnprintf buffer buf_size (str ''%d'') [w] m = Some (?m, int (length ?t))"
    using assms(1) h(1,2) unfolding vsnprintf_def wi vprintf_percent_d Let_def e by simp
  moreover have "map ?m [buffer..<buffer + length ?t + 1] = ?t @ [0]"
    by (rule nth_equalityI) (use h(3) in \<open>auto simp: nth_append less_Suc_eq simp del: upt_Suc\<close>)
  moreover have "map_option sint (atoi (?t @ [0])) = Some (sint w)"
    using atoi_reads_decimal [OF r, of "[]" 0 "[]"] by (simp add: isdigit_def)
  then have "atoi (?t @ [0]) = Some w" by (auto intro: word_eq_iff_signed [THEN iffD2])
  ultimately show ?thesis using l by (intro exI [of _ ?m] exI [of _ "length ?t"]) simp
qed

text \<open>
  C36: a number printed with \<^verbatim>\<open>%d\<close> is read back by \<^verbatim>\<open>atoi\<close>. For every \<^verbatim>\<open>int\<close>, the smallest one included, \<^verbatim>\<open>vsnprintf\<close>
  to a buffer of at least 12 bytes returns, writes at most 11 characters and the terminator, and \<^verbatim>\<open>atoi\<close> of the string in
  the buffer is the number.
\<close>

theorem snprintf_atoi:
  assumes "12 \<le> buf_size" and "buf_size \<le> 2 ^ 31"
  shows "\<exists>m' n. vsnprintf buffer buf_size (str ''%d'') [w] m = Some (m', int n) \<and> n \<le> 11 \<and>
    atoi (map m' [buffer..<buffer + n + 1]) = Some w"
  using assms by (rule vsnprintf_percent_d)

theorem snprintf_atoi_witness:
  "\<exists>m' n. vsnprintf 100 12 (str ''%d'') [- 2147483648] (\<lambda>_. 7) = Some (m', int n) \<and> n \<le> 11 \<and>
    atoi (map m' [100..<100 + n + 1]) = Some (- 2147483648)"
  by (rule snprintf_atoi) simp_all



text \<open>
  C37: \<^verbatim>\<open>format_integer\<close> never writes outside its buffer of 64 digits, whatever the value, the flags and the
  precision: for each of the four bases and every width it hands the output function exactly the padding, the sign, the base prefix, the
  zeros and the digits, in that order, that the flags ask for.
\<close>

theorem format_integer_text:
  assumes "known_base b" and "0 \<le> width c" and "width c < 2 ^ 31"
  shows "format_integer val is_signed negative b c out s = emit out (integer_text val is_signed negative b c) s \<and>
    (let n = length (sign_text is_signed negative c @ prefix_text val b c @ body_text val b c) in
      n \<le> 67 \<and> length (integer_text val is_signed negative b c) =
        n + (if flags c AND MINUS \<noteq> 0 \<and> flags c AND ZERO \<noteq> 0 then 2 else 1) * nat (width c - int n))"
proof -
  have "length (sign_text is_signed negative c) \<le> 1" "length (prefix_text val b c) \<le> 2"
    by (simp_all add: sign_text_def prefix_text_def)
  then have "length (sign_text is_signed negative c @ prefix_text val b c @ body_text val b c) \<le> 67"
    using length_body_text [OF assms(1), of val c] by simp
  moreover have "length (integer_text val is_signed negative b c) =
      length (sign_text is_signed negative c @ prefix_text val b c @ body_text val b c) +
      (if flags c AND MINUS \<noteq> 0 \<and> flags c AND ZERO \<noteq> 0 then 2 else 1) *
      nat (width c - int (length (sign_text is_signed negative c @ prefix_text val b c @ body_text val b c)))"
    by (simp add: integer_text_def Let_def)
  ultimately show ?thesis unfolding Let_def by (intro conjI format_integer_emit [OF assms])
qed

theorem format_integer_text_witness:
  "format_integer 42 True True base_d \<lparr>flags = 17, width = 6, precision = - 1, int_type = INT_T\<rparr> (\<lambda>ch s. Some (s @ [ch])) [] =
   emit (\<lambda>ch s. Some (s @ [ch])) (integer_text 42 True True base_d \<lparr>flags = 17, width = 6, precision = - 1, int_type = INT_T\<rparr>) []"
  by (rule format_integer_text [THEN conjunct1]) (simp_all add: known_base_def)

end
