(* ===== verification/Console.thy ===== *)
theory Console
  imports Format Palloc
begin

section \<open>The console (lib/kernel/console.c, lib/user/console.c, lib/stdio.c)\<close>

text \<open>
  The kernel's console is its lock with the depth counter that makes it recursive, the number of characters written,
  and the characters sent to the display and the serial port, in order. \<open>intr\<close> says that an interrupt is being handled, \<open>cur\<close> is
  the running thread. A lock that another thread holds stops the run here. A user process writes to a file
  handle through a buffer of 64 characters; the calls of \<^verbatim>\<open>write\<close> are recorded, in order, with their contents.
  String arguments are read from a memory \<open>m\<close>, which the output does not change.
\<close>

record console =
  console_lock :: "nat option"
  console_lock_depth :: nat
  use_console_lock :: bool
  write_cnt :: int
  screen :: "u8 list"

definition acquire_console :: "bool \<Rightarrow> nat \<Rightarrow> console \<Rightarrow> console option" where
  "acquire_console intr cur c =
     (if \<not> intr \<and> use_console_lock c then
        if console_lock c = Some cur then Some (c\<lparr>console_lock_depth := console_lock_depth c + 1\<rparr>)
        else do { l \<leftarrow> take_lock cur (console_lock c); Some (c\<lparr>console_lock := l\<rparr>) }
      else Some c)"

definition release_console :: "bool \<Rightarrow> nat \<Rightarrow> console \<Rightarrow> console option" where
  "release_console intr cur c =
     (if \<not> intr \<and> use_console_lock c then
        if console_lock_depth c > 0 then Some (c\<lparr>console_lock_depth := console_lock_depth c - 1\<rparr>)
        else do { l \<leftarrow> drop_lock cur (console_lock c); Some (c\<lparr>console_lock := l\<rparr>) }
      else Some c)"

definition console_locked_by_current_thread :: "bool \<Rightarrow> nat \<Rightarrow> console \<Rightarrow> bool" where
  "console_locked_by_current_thread intr cur c \<longleftrightarrow> intr \<or> \<not> use_console_lock c \<or> console_lock c = Some cur"

definition putchar_have_lock :: "bool \<Rightarrow> nat \<Rightarrow> u8 \<Rightarrow> console \<Rightarrow> console option" where
  "putchar_have_lock intr cur ch c = do {
     _ \<leftarrow> ASSERT (console_locked_by_current_thread intr cur c);
     Some (c\<lparr>write_cnt := write_cnt c + 1, screen := screen c @ [ch]\<rparr>) }"

definition vprintf_helper :: "bool \<Rightarrow> nat \<Rightarrow> u8 \<Rightarrow> console \<times> int \<Rightarrow> (console \<times> int) option" where
  "vprintf_helper intr cur ch s = do { c \<leftarrow> putchar_have_lock intr cur ch (fst s); Some (c, snd s + 1) }"

definition vprintf :: "bool \<Rightarrow> nat \<Rightarrow> memory \<Rightarrow> u8 list \<Rightarrow> u32 list \<Rightarrow> console \<Rightarrow> (console \<times> int) option" where
  "vprintf intr cur m fmt args c = do {
     c \<leftarrow> acquire_console intr cur c;
     (c, n) \<leftarrow> format_vprintf (\<lambda>_. m) (vprintf_helper intr cur) fmt args (c, 0);
     c \<leftarrow> release_console intr cur c;
     Some (c, n) }"

primrec put_all :: "bool \<Rightarrow> nat \<Rightarrow> u8 list \<Rightarrow> console \<Rightarrow> console option" where
  "put_all intr cur [] c = Some c"
| "put_all intr cur (ch # s) c = do { c \<leftarrow> putchar_have_lock intr cur ch c; put_all intr cur s c }"

text \<open>The argument of \<open>puts\<close> and \<open>putbuf\<close> is the sequence of characters up to the terminator, or of the buffer.\<close>

definition puts :: "bool \<Rightarrow> nat \<Rightarrow> u8 list \<Rightarrow> console \<Rightarrow> console option" where
  "puts intr cur s c = do {
     c \<leftarrow> acquire_console intr cur c;
     c \<leftarrow> put_all intr cur s c;
     c \<leftarrow> putchar_have_lock intr cur 10 c;
     release_console intr cur c }"

definition putbuf :: "bool \<Rightarrow> nat \<Rightarrow> u8 list \<Rightarrow> console \<Rightarrow> console option" where
  "putbuf intr cur buffer c = do {
     c \<leftarrow> acquire_console intr cur c;
     c \<leftarrow> put_all intr cur buffer c;
     release_console intr cur c }"

definition putchar :: "bool \<Rightarrow> nat \<Rightarrow> u32 \<Rightarrow> console \<Rightarrow> (console \<times> u32) option" where
  "putchar intr cur ch c = do {
     c \<leftarrow> acquire_console intr cur c;
     c \<leftarrow> putchar_have_lock intr cur (ucast ch) c;
     c \<leftarrow> release_console intr cur c;
     Some (c, ch) }"

definition console_init :: "console \<Rightarrow> console" where
  "console_init c = c\<lparr>console_lock := None, use_console_lock := True\<rparr>"

definition console_panic :: "console \<Rightarrow> console" where
  "console_panic c = c\<lparr>use_console_lock := False\<rparr>"

definition console_print_stats :: "bool \<Rightarrow> nat \<Rightarrow> console \<Rightarrow> (console \<times> int) option" where
  "console_print_stats intr cur c =
     vprintf intr cur (\<lambda>_. 0) (str (''Console: %lld characters output'' @ [CHR 0x0A]))
       [of_int (write_cnt c), of_int (write_cnt c div 2 ^ 32)] c"


subsection \<open>User processes\<close>

record vhprintf_aux =
  vh_buf :: "u8 list"
  vh_char_cnt :: int
  vh_handle :: int

definition flush :: "vhprintf_aux \<times> (int \<times> u8 list) list \<Rightarrow> vhprintf_aux \<times> (int \<times> u8 list) list" where
  "flush s = (case s of (aux, writes) \<Rightarrow>
     (aux\<lparr>vh_buf := []\<rparr>, if vh_buf aux \<noteq> [] then writes @ [(vh_handle aux, vh_buf aux)] else writes))"

definition add_char :: "u8 \<Rightarrow> vhprintf_aux \<times> (int \<times> u8 list) list \<Rightarrow> (vhprintf_aux \<times> (int \<times> u8 list) list) option" where
  "add_char ch s = do {
     _ \<leftarrow> ASSERT (length (vh_buf (fst s)) < 64);
     let s = apfst (\<lambda>aux. aux\<lparr>vh_buf := vh_buf aux @ [ch]\<rparr>) s;
     let s = (if length (vh_buf (fst s)) \<ge> 64 then flush s else s);
     Some (apfst (\<lambda>aux. aux\<lparr>vh_char_cnt := vh_char_cnt aux + 1\<rparr>) s) }"

definition vhprintf :: "int \<Rightarrow> memory \<Rightarrow> u8 list \<Rightarrow> u32 list \<Rightarrow> (int \<times> u8 list) list \<Rightarrow> ((int \<times> u8 list) list \<times> int) option" where
  "vhprintf handle m fmt args writes = do {
     s \<leftarrow> format_vprintf (\<lambda>_. m) add_char fmt args (\<lparr>vh_buf = [], vh_char_cnt = 0, vh_handle = handle\<rparr>, writes);
     let s = flush s;
     Some (snd s, vh_char_cnt (fst s)) }"

definition user_puts :: "u8 list \<Rightarrow> (int \<times> u8 list) list \<Rightarrow> (int \<times> u8 list) list" where
  "user_puts s writes = writes @ [(1, s), (1, [10])]"

subsection \<open>Dumps and sizes\<close>

text \<open>The bytes of a dump, and numbers of characters, are parameters of the calls; \<open>print\<close> is \<^verbatim>\<open>printf\<close>.\<close>

fun repeat :: "nat \<Rightarrow> ('s \<Rightarrow> 's option) \<Rightarrow> 's \<Rightarrow> 's option" where
  "repeat 0 f s = Some s"
| "repeat (Suc n) f s = do { s \<leftarrow> f s; repeat n f s }"

fun each :: "('a \<Rightarrow> 's \<Rightarrow> 's option) \<Rightarrow> 'a list \<Rightarrow> 's \<Rightarrow> 's option" where
  "each f [] s = Some s"
| "each f (x # xs) s = do { s \<leftarrow> f x s; each f xs s }"

definition hex_line :: "(u8 list \<Rightarrow> u32 list \<Rightarrow> 's \<Rightarrow> 's option) \<Rightarrow> nat \<Rightarrow> nat \<Rightarrow> u8 list \<Rightarrow> bool \<Rightarrow> 's \<Rightarrow> 's option" where
  "hex_line print ofs start buf ascii s = do {
     let end_ofs = start + length buf;
     s \<leftarrow> print (str ''%08jx  '') [of_nat (ofs div 16 * 16), 0] s;
     s \<leftarrow> repeat start (print (str ''   '') []) s;
     s \<leftarrow> each (\<lambda>i. print (str ''%02hhx%c'') [ucast (buf ! (i - start)), if i = 7 then 45 else 32]) [start..<end_ofs] s;
     s \<leftarrow> (if ascii then do {
              s \<leftarrow> repeat (16 - end_ofs) (print (str ''   '') []) s;
              s \<leftarrow> print (str ''|'') [] s;
              s \<leftarrow> repeat start (print (str '' '') []) s;
              s \<leftarrow> each (\<lambda>b. print (str ''%c'') [if isprint b then ucast b else 46]) buf s;
              s \<leftarrow> repeat (16 - end_ofs) (print (str '' '') []) s;
              print (str ''|'') [] s }
            else Some s);
     print (str [CHR 0x0A]) [] s }"

function hex_dump :: "(u8 list \<Rightarrow> u32 list \<Rightarrow> 's \<Rightarrow> 's option) \<Rightarrow> nat \<Rightarrow> u8 list \<Rightarrow> bool \<Rightarrow> 's \<Rightarrow> 's option" where
  "hex_dump print ofs buf ascii s =
     (if buf = [] then Some s
      else do {
        let start = ofs mod 16;
        let end_ofs = (if 16 - start > length buf then start + length buf else 16);
        let n = end_ofs - start;
        s \<leftarrow> hex_line print ofs start (take n buf) ascii s;
        hex_dump print ((ofs + n) mod 2 ^ 32) (drop n buf) ascii s })"
  by pat_completeness auto
termination
proof (relation "measure (\<lambda>(print, ofs, buf, ascii, s). length buf)", goal_cases)
  case (2 print ofs buf ascii s start end_ofs n s')
  have "ofs mod 16 < 16" by simp
  then have "0 < n" "buf \<noteq> []" using 2 by (auto split: if_splits)
  then show ?case by simp
qed auto

declare hex_dump.simps [simp del]

function human_size :: "nat \<Rightarrow> nat \<Rightarrow> nat \<times> nat" where
  "human_size sz fp = (if sz \<ge> 1024 \<and> fp < 4 then human_size (sz div 1024) (fp + 1) else (sz, fp))"
  by pat_completeness auto
termination by (relation "measure (\<lambda>(sz, fp). 4 - fp)") auto

declare human_size.simps [simp del]

text \<open>The pointer to the name of the unit is the \<open>fp\<close>-th of \<open>factors\<close>.\<close>

definition print_human_readable_size ::
  "(u8 list \<Rightarrow> u32 list \<Rightarrow> 's \<Rightarrow> 's option) \<Rightarrow> u32 list \<Rightarrow> u64 \<Rightarrow> 's \<Rightarrow> 's option" where
  "print_human_readable_size print factors sz s =
     (if sz = 1 then print (str ''1 byte'') [] s
      else let (n, fp) = human_size (unat sz) 0
        in print (str ''%llu %s'') [of_nat n, of_nat (n div 2 ^ 32), factors ! fp] s)"

subsection \<open>The text does not depend on where it goes\<close>

text \<open>
  \<open>collect\<close> gathers the text. A conversion that collects \<open>t\<close> hands the characters of \<open>t\<close>, in order, to any other output
  function.
\<close>

definition collect :: "u8 list outfun" where "collect ch t = Some (t @ [ch])"

definition mirrors :: "'s outfun \<Rightarrow> (u8 list \<Rightarrow> u8 list option) \<Rightarrow> ('s \<Rightarrow> 's option) \<Rightarrow> bool" where
  "mirrors out f g \<longleftrightarrow> (\<forall>u u'. f u = Some u' \<longrightarrow> (\<exists>t. u' = u @ t \<and> (\<forall>s. g s = emit out t s)))"

lemma emit_collect: "emit collect t u = Some (u @ t)"
  by (induction t arbitrary: u) (simp_all add: collect_def)

lemma mirrors_emit [intro]: "mirrors out (emit collect t) (emit out t)"
  by (auto simp: mirrors_def emit_collect)

lemma mirrors_Some [intro]: "mirrors out Some Some"
  using mirrors_emit [of out "[]"] by (simp add: emit_Nil)

lemma mirrors_None [intro]: "mirrors out (\<lambda>_. None) g"
  by (simp add: mirrors_def)

lemma mirrors_out [intro]: "mirrors out (collect ch) (out ch)"
proof -
  have "emit out' [ch] = out' ch" for out' :: "'x outfun" by (rule ext) simp
  from mirrors_emit [of out "[ch]", unfolded this] show ?thesis .
qed

lemma mirrors_bind:
  assumes "mirrors out f g" and "mirrors out f' g'"
  shows "mirrors out (\<lambda>u. bind (f u) f') (\<lambda>s. bind (g s) g')"
  unfolding mirrors_def
proof (intro allI impI)
  fix u u' assume "bind (f u) f' = Some u'"
  then obtain v where v: "f u = Some v" "f' v = Some u'" by (auto split: Option.bind_splits)
  obtain t where t: "v = u @ t" "\<And>s. g s = emit out t s" using assms(1) v(1) unfolding mirrors_def by blast
  obtain t' where t': "u' = v @ t'" "\<And>s. g' s = emit out t' s" using assms(2) v(2) unfolding mirrors_def by blast
  have g': "g' = emit out t'" by (rule ext) (rule t')
  show "\<exists>t. u' = u @ t \<and> (\<forall>s. bind (g s) g' = emit out t s)"
    by (rule exI [of _ "t @ t'"]) (simp add: t t'(1) g' emit_app)
qed

lemma mirrors_if: "(p \<Longrightarrow> mirrors out f g) \<Longrightarrow> (\<not> p \<Longrightarrow> mirrors out f' g') \<Longrightarrow>
    mirrors out (\<lambda>u. if p then f u else f' u) (\<lambda>s. if p then g s else g' s)"
  by (cases p) simp_all

lemma mirrors_dup: "mirrors out (output_dup collect ch n) (output_dup out ch n)"
  unfolding output_dup_emit [abs_def] by (rule mirrors_emit)

lemma mirrors_rev: "mirrors out (output_rev collect buf) (output_rev out buf)"
  unfolding output_rev_emit [abs_def] by (rule mirrors_emit)

lemma mirrors_chars: "mirrors out (output_chars collect (\<lambda>_. r) i n) (output_chars out (\<lambda>_. r) i n)"
proof (induction n arbitrary: i)
  case 0
  have "output_chars out' rd i 0 = Some" for out' :: "'x outfun" and rd i by (rule ext) simp
  then show ?case by auto
next
  case (Suc n)
  then show ?case unfolding output_chars.simps by (intro mirrors_bind mirrors_out)
qed

lemma mirrors_string: "mirrors out (format_string (\<lambda>_. r) len c collect) (format_string (\<lambda>_. r) len c out)"
  unfolding format_string_def [abs_def]
  by (intro mirrors_bind mirrors_if mirrors_dup mirrors_chars mirrors_Some)

lemma mirrors_const: "(\<And>x. a = Some x \<Longrightarrow> mirrors out (f x) (g x)) \<Longrightarrow> mirrors out (\<lambda>u. bind a (\<lambda>x. f x u)) (\<lambda>s. bind a (\<lambda>x. g x s))"
  by (cases a) auto

lemma mirrors_integer: "mirrors out (format_integer val sg neg b c collect) (format_integer val sg neg b c out)"
  unfolding format_integer_def [abs_def] Let_def
  by (intro mirrors_const mirrors_bind mirrors_if mirrors_dup mirrors_rev mirrors_out mirrors_Some)

definition mirrors_with :: "'s outfun \<Rightarrow> (u8 list \<Rightarrow> ('a \<times> u8 list) option) \<Rightarrow> ('s \<Rightarrow> ('a \<times> 's) option) \<Rightarrow> bool" where
  "mirrors_with out f g \<longleftrightarrow> (\<forall>u a u'. f u = Some (a, u') \<longrightarrow> (\<exists>t. u' = u @ t \<and> (\<forall>s. g s = map_option (Pair a) (emit out t s))))"

lemma mirrors_with_if: "(p \<Longrightarrow> mirrors_with out f g) \<Longrightarrow> (\<not> p \<Longrightarrow> mirrors_with out f' g') \<Longrightarrow>
    mirrors_with out (\<lambda>u. if p then f u else f' u) (\<lambda>s. if p then g s else g' s)"
  by (cases p) simp_all

lemma mirrors_with_const:
  "(\<And>x. a = Some x \<Longrightarrow> mirrors_with out (f x) (g x)) \<Longrightarrow> mirrors_with out (\<lambda>u. bind a (\<lambda>x. f x u)) (\<lambda>s. bind a (\<lambda>x. g x s))"
  by (cases a) (auto simp: mirrors_with_def)

lemma mirrors_with_prod:
  "(\<And>v r. x = (v, r) \<Longrightarrow> mirrors_with out (f v r) (g v r)) \<Longrightarrow>
    mirrors_with out (\<lambda>u. case x of (v, r) \<Rightarrow> f v r u) (\<lambda>s. case x of (v, r) \<Rightarrow> g v r s)"
  by (cases x) simp

lemma mirrors_with_ret:
  assumes "mirrors out f g"
  shows "mirrors_with out (\<lambda>u. bind (f u) (\<lambda>u. Some (a, u))) (\<lambda>s. bind (g s) (\<lambda>s. Some (a, s)))"
  unfolding mirrors_with_def
proof (intro allI impI)
  fix u a' u' assume "bind (f u) (\<lambda>u. Some (a, u)) = Some (a', u')"
  then have v: "f u = Some u'" "a' = a" by (auto split: Option.bind_splits)
  obtain t where t: "u' = u @ t" "\<And>s. g s = emit out t s" using assms v(1) unfolding mirrors_def by blast
  then show "\<exists>t. u' = u @ t \<and> (\<forall>s. bind (g s) (\<lambda>s. Some (a, s)) = map_option (Pair a') (emit out t s))"
    by (intro exI [of _ t]) (auto simp: v(2) split: Option.bind_splits)
qed

lemma mirrors_bind_with:
  assumes f: "mirrors_with out f g" and f': "\<And>a. mirrors out (f' a) (g' a)"
  shows "mirrors out (\<lambda>u. bind (f u) (\<lambda>(a, u). f' a u)) (\<lambda>s. bind (g s) (\<lambda>(a, s). g' a s))"
  unfolding mirrors_def
proof (intro allI impI)
  fix u u' assume "bind (f u) (\<lambda>(a, u). f' a u) = Some u'"
  then obtain a v where v: "f u = Some (a, v)" "f' a v = Some u'" by (auto split: Option.bind_splits)
  obtain t where t: "v = u @ t" "\<And>s. g s = map_option (Pair a) (emit out t s)"
    using f v(1) unfolding mirrors_with_def by blast
  obtain t' where t': "u' = v @ t'" "\<And>s. g' a s = emit out t' s" using f' v(2) unfolding mirrors_def by blast
  have "bind (g s) (\<lambda>(a, s). g' a s) = emit out (t @ t') s" for s
    by (cases "emit out t s") (simp_all add: t t' emit_app)
  then show "\<exists>t. u' = u @ t \<and> (\<forall>s. bind (g s) (\<lambda>(a, s). g' a s) = emit out t s)" using t t' by (intro exI [of _ "t @ t'"]) simp
qed

lemma mirrors_with_str:
  "mirrors_with out (\<lambda>u. case (if p then (\<lambda>_. r, l) else (\<lambda>_. r', l')) of (rd, len) \<Rightarrow>
      bind (format_string rd (wrap_int (int len)) c collect u) (\<lambda>u. Some (a, u)))
    (\<lambda>s. case (if p then (\<lambda>_. r, l) else (\<lambda>_. r', l')) of (rd, len) \<Rightarrow>
      bind (format_string rd (wrap_int (int len)) c out s) (\<lambda>s. Some (a, s)))"
  by (cases p) (simp_all add: mirrors_with_ret mirrors_string)

lemma mirrors_convert:
  assumes self: "\<And>fmt args. mirrors out (self fmt args) (self' fmt args)"
  shows "mirrors_with out (convert self (\<lambda>_. m) collect ch c args) (convert self' (\<lambda>_. m) out ch c args)"
  unfolding convert_def [abs_def] Let_def
  by (intro mirrors_with_if mirrors_with_const mirrors_with_prod mirrors_with_str mirrors_with_ret mirrors_integer
      mirrors_string self)

lemma mirrors_prod:
  "(\<And>v r. x = (v, r) \<Longrightarrow> mirrors out (f v r) (g v r)) \<Longrightarrow>
    mirrors out (\<lambda>u. case x of (v, r) \<Rightarrow> f v r u) (\<lambda>s. case x of (v, r) \<Rightarrow> g v r s)"
  by (cases x) simp

lemma vprintf_nil: "vprintf_loop self mem out [] args = (\<lambda>_. None)"
  by (rule ext) simp

lemma mirrors_loop:
  assumes self: "\<And>fmt args. mirrors out (self fmt args) (self' fmt args)"
  shows "mirrors out (vprintf_loop self (\<lambda>_. m) collect fmt args) (vprintf_loop self' (\<lambda>_. m) out fmt args)"
proof (induction "length fmt" arbitrary: fmt args rule: less_induct)
  case less
  show ?case
  proof (cases fmt)
    case Nil
    then show ?thesis by (simp add: vprintf_nil mirrors_None)
  next
    case (Cons ch r)
    have tl: "length (tl s) < length fmt" if "length s \<le> length r" for s :: "u8 list" using that Cons by simp
    show ?thesis unfolding Cons vprintf_eta
      by (intro mirrors_if mirrors_Some mirrors_bind mirrors_out mirrors_const mirrors_prod mirrors_bind_with
          mirrors_convert self less tl order_refl parse_conversion_shorter) (simp_all add: Cons)
  qed
qed

lemma mirrors_at: "mirrors out (vprintf_at n (\<lambda>_. m) collect fmt args) (vprintf_at n (\<lambda>_. m) out fmt args)"
proof (induction n arbitrary: fmt args)
  case (Suc n)
  then show ?case by (simp add: mirrors_loop)
qed (simp add: mirrors_None)

definition text_of :: "memory \<Rightarrow> u8 list \<Rightarrow> u32 list \<Rightarrow> u8 list option" where
  "text_of m fmt args = format_vprintf (\<lambda>_. m) collect fmt args []"

lemma format_vprintf_text:
  "text_of m fmt args = Some t \<Longrightarrow> format_vprintf (\<lambda>_. m) out fmt args s = emit out t s"
  using mirrors_at [of out 2 m fmt args] unfolding text_of_def format_vprintf_def mirrors_def by fastforce

subsection \<open>What reaches the console and the file handle\<close>

lemma emit_vprintf_helper:
  "console_locked_by_current_thread intr cur c \<Longrightarrow>
    emit (vprintf_helper intr cur) t (c, n) =
      Some (c\<lparr>write_cnt := write_cnt c + int (length t), screen := screen c @ t\<rparr>, n + int (length t))"
proof (induction t arbitrary: c n)
  case (Cons ch t)
  let ?c = "c\<lparr>write_cnt := write_cnt c + 1, screen := screen c @ [ch]\<rparr>"
  have "console_locked_by_current_thread intr cur ?c" using Cons.prems by (simp add: console_locked_by_current_thread_def)
  from Cons.IH [OF this, of "n + 1"] show ?case
    using Cons.prems by (simp add: vprintf_helper_def putchar_have_lock_def algebra_simps)
qed simp

lemma put_all_screen:
  "console_locked_by_current_thread intr cur c \<Longrightarrow>
    put_all intr cur t c = Some (c\<lparr>write_cnt := write_cnt c + int (length t), screen := screen c @ t\<rparr>)"
proof (induction t arbitrary: c)
  case (Cons ch t)
  let ?c = "c\<lparr>write_cnt := write_cnt c + 1, screen := screen c @ [ch]\<rparr>"
  have "console_locked_by_current_thread intr cur ?c" using Cons.prems by (simp add: console_locked_by_current_thread_def)
  from Cons.IH [OF this] show ?case using Cons.prems by (simp add: putchar_have_lock_def algebra_simps)
qed simp

definition console_ok :: "nat \<Rightarrow> console \<Rightarrow> bool" where
  "console_ok cur c \<longleftrightarrow> console_lock c = Some cur \<or> console_lock c = None \<and> console_lock_depth c = 0"

lemma acquire_release:
  assumes "console_ok cur c"
  obtains c' where "acquire_console intr cur c = Some c'" "console_locked_by_current_thread intr cur c'"
    "screen c' = screen c" "write_cnt c' = write_cnt c"
    "\<And>w s. release_console intr cur (c'\<lparr>write_cnt := w, screen := s\<rparr>) = Some (c\<lparr>write_cnt := w, screen := s\<rparr>)"
proof (cases "\<not> intr \<and> use_console_lock c")
  case False
  then show ?thesis by (intro that [of c]) (auto simp: acquire_console_def release_console_def console_locked_by_current_thread_def)
next
  case True
  show ?thesis
  proof (cases "console_lock c = Some cur")
    case mine: True
    then show ?thesis using True
      by (intro that [of "c\<lparr>console_lock_depth := console_lock_depth c + 1\<rparr>"])
        (auto simp: acquire_console_def release_console_def console_locked_by_current_thread_def)
  next
    case False
    then have "console_lock c = None" "console_lock_depth c = 0" using assms by (auto simp: console_ok_def)
    then show ?thesis using True False
      by (intro that [of "c\<lparr>console_lock := Some cur\<rparr>"])
        (auto simp: acquire_console_def release_console_def console_locked_by_current_thread_def)
  qed
qed

text \<open>
  C38: printing to the kernel's console. Whether or not the running thread already holds the console lock, if nobody else
  does, \<^verbatim>\<open>vprintf\<close> of a format that has the text \<open>t\<close> sends exactly the characters of \<open>t\<close>, in order, to the
  display and the serial port, counts them, returns their number, and leaves the lock and its depth as they were; \<^verbatim>\<open>puts\<close> sends the
  string and a new-line, \<^verbatim>\<open>putbuf\<close> the buffer and \<^verbatim>\<open>putchar\<close> the character.
\<close>

theorem console_output:
  assumes "console_ok cur c" and "text_of m fmt args = Some t"
  shows "vprintf intr cur m fmt args c =
      Some (c\<lparr>write_cnt := write_cnt c + int (length t), screen := screen c @ t\<rparr>, int (length t)) \<and>
    puts intr cur s c = Some (c\<lparr>write_cnt := write_cnt c + int (length s) + 1, screen := screen c @ s @ [10]\<rparr>) \<and>
    putbuf intr cur s c = Some (c\<lparr>write_cnt := write_cnt c + int (length s), screen := screen c @ s\<rparr>) \<and>
    putchar intr cur ch c = Some (c\<lparr>write_cnt := write_cnt c + 1, screen := screen c @ [ucast ch]\<rparr>, ch)"
proof (rule acquire_release [OF assms(1), of intr])
  fix c' assume c': "acquire_console intr cur c = Some c'" "console_locked_by_current_thread intr cur c'"
    "screen c' = screen c" "write_cnt c' = write_cnt c"
    "\<And>w s. release_console intr cur (c'\<lparr>write_cnt := w, screen := s\<rparr>) = Some (c\<lparr>write_cnt := w, screen := s\<rparr>)"
  then have l: "console_locked_by_current_thread intr cur (c'\<lparr>write_cnt := w, screen := x\<rparr>)" for w x
    by (simp add: console_locked_by_current_thread_def)
  show ?thesis
    using c' l [unfolded console_locked_by_current_thread_def] c'(2) [unfolded console_locked_by_current_thread_def]
    by (simp add: vprintf_def puts_def putbuf_def putchar_def format_vprintf_text [OF assms(2)] emit_vprintf_helper put_all_screen
        putchar_have_lock_def console_locked_by_current_thread_def)
qed

theorem console_output_witness:
  "vprintf False 3 (\<lambda>_. 0) (str ''ok'') [] \<lparr>console_lock = Some 3, console_lock_depth = 0, use_console_lock = True, write_cnt = 5, screen = []\<rparr> =
    Some (\<lparr>console_lock = Some 3, console_lock_depth = 0, use_console_lock = True, write_cnt = 7, screen = [111, 107]\<rparr>, 2)"
proof -
  have t: "text_of (\<lambda>_. 0) (str ''ok'') [] = Some [111, 107]"
    by (simp add: text_of_def vprintf_rec str_def collect_def)
  have c: "console_ok 3 \<lparr>console_lock = Some 3, console_lock_depth = 0, use_console_lock = True, write_cnt = 5, screen = []\<rparr>"
    by (simp add: console_ok_def)
  from console_output [OF c t, of False] show ?thesis by simp
qed

definition chunks_ok :: "int \<Rightarrow> (int \<times> u8 list) list \<Rightarrow> bool" where
  "chunks_ok h ws \<longleftrightarrow> (\<forall>(h', b) \<in> set ws. h' = h \<and> length b = 64)"

lemma emit_add_char:
  assumes "length (vh_buf aux) < 64"
  shows "\<exists>aux' ws. emit add_char t (aux, writes) = Some (aux', writes @ ws) \<and> length (vh_buf aux') < 64 \<and>
    vh_handle aux' = vh_handle aux \<and> vh_char_cnt aux' = vh_char_cnt aux + int (length t) \<and>
    concat (map snd ws) @ vh_buf aux' = vh_buf aux @ t \<and> chunks_ok (vh_handle aux) ws"
  using assms
proof (induction t arbitrary: aux writes)
  case Nil
  then show ?case by (intro exI [of _ aux] exI [of _ "[]"]) (simp add: chunks_ok_def)
next
  case (Cons ch t)
  show ?case
  proof (cases "length (vh_buf aux) = 63")
    case False
    let ?aux = "aux\<lparr>vh_buf := vh_buf aux @ [ch], vh_char_cnt := vh_char_cnt aux + 1\<rparr>"
    have s: "add_char ch (aux, writes) = Some (?aux, writes)" using Cons.prems False by (simp add: add_char_def)
    have "length (vh_buf ?aux) < 64" using Cons.prems False by simp
    from Cons.IH [OF this, of writes] show ?thesis using s by (elim exE conjE) (intro exI conjI, simp_all)
  next
    case True
    let ?aux = "aux\<lparr>vh_buf := [], vh_char_cnt := vh_char_cnt aux + 1\<rparr>" and ?w = "(vh_handle aux, vh_buf aux @ [ch])"
    have s: "add_char ch (aux, writes) = Some (?aux, writes @ [?w])" using True by (simp add: add_char_def flush_def)
    have "length (vh_buf ?aux) < 64" by simp
    from Cons.IH [OF this, of "writes @ [?w]"] obtain aux' ws where
      "emit add_char t (?aux, writes @ [?w]) = Some (aux', (writes @ [?w]) @ ws)" "length (vh_buf aux') < 64"
      "vh_handle aux' = vh_handle ?aux" "vh_char_cnt aux' = vh_char_cnt ?aux + int (length t)"
      "concat (map snd ws) @ vh_buf aux' = vh_buf ?aux @ t" "chunks_ok (vh_handle ?aux) ws"
      by blast
    then show ?thesis using s True
      by (intro exI [of _ aux'] exI [of _ "?w # ws"]) (simp add: chunks_ok_def)
  qed
qed

text \<open>
  C39: printing in a user process. \<^verbatim>\<open>vhprintf\<close> of a format that has the text \<open>t\<close> never overruns its buffer; it writes to
  its handle pieces of exactly 64 characters, and then the rest, if there is one, which together are \<open>t\<close>, and returns the
  length of \<open>t\<close>.
\<close>

theorem vhprintf_output:
  assumes "text_of m fmt args = Some t"
  shows "\<exists>ws. vhprintf handle m fmt args writes = Some (writes @ ws, int (length t)) \<and> concat (map snd ws) = t \<and>
    (\<forall>i < length ws. fst (ws ! i) = handle \<and> snd (ws ! i) \<noteq> [] \<and> length (snd (ws ! i)) \<le> 64 \<and>
      (Suc i < length ws \<longrightarrow> length (snd (ws ! i)) = 64))"
proof -
  let ?aux = "\<lparr>vh_buf = [], vh_char_cnt = 0, vh_handle = handle\<rparr>"
  have "length (vh_buf ?aux) < 64" by simp
  from emit_add_char [OF this, of t writes] obtain aux ws where e:
    "emit add_char t (?aux, writes) = Some (aux, writes @ ws)" "length (vh_buf aux) < 64" "vh_handle aux = handle"
    "vh_char_cnt aux = int (length t)" "concat (map snd ws) @ vh_buf aux = t" "chunks_ok handle ws"
    by auto
  let ?ws = "ws @ (if vh_buf aux \<noteq> [] then [(handle, vh_buf aux)] else [])"
  have full: "fst (ws ! i) = handle \<and> length (snd (ws ! i)) = 64" if "i < length ws" for i
    using bspec [OF e(6) [unfolded chunks_ok_def] nth_mem [OF that]] by (simp add: split_beta)
  moreover have "snd (ws ! i) \<noteq> []" if "i < length ws" for i using full [OF that] by auto
  ultimately have "fst (?ws ! i) = handle \<and> snd (?ws ! i) \<noteq> [] \<and> length (snd (?ws ! i)) \<le> 64 \<and>
      (Suc i < length ?ws \<longrightarrow> length (snd (?ws ! i)) = 64)" if "i < length ?ws" for i
    using that e(2) full [of i] by (cases "i < length ws") (auto simp: nth_append split: if_splits)
  moreover have "vhprintf handle m fmt args writes = Some (writes @ ?ws, int (length t))"
    using e by (simp add: vhprintf_def format_vprintf_text [OF assms] flush_def)
  moreover have "concat (map snd ?ws) = t" using e(5) by auto
  ultimately show ?thesis by blast
qed

theorem vhprintf_output_witness:
  "\<exists>ws. vhprintf 1 (\<lambda>_. 0) (str ''ok'') [] [] = Some ([] @ ws, 2) \<and> concat (map snd ws) = [111, 107]"
proof -
  have "text_of (\<lambda>_. 0) (str ''ok'') [] = Some [111, 107]"
    by (simp add: text_of_def vprintf_rec str_def collect_def)
  from vhprintf_output [OF this, of 1 "[]"] show ?thesis by auto
qed

subsection \<open>Sizes\<close>

lemma emit_chars: "output_chars out (\<lambda>_. r) i n s = emit out (map r [i..<i + n]) s"
proof (induction n arbitrary: i s)
  case (Suc n)
  have "[i..<i + Suc n] = i # [Suc i..<Suc i + n]" by (simp add: upt_conv_Cons)
  then show ?case using Suc by simp
qed simp

lemma human_size_spec:
  "human_size n fp = (let k = (LEAST k. n div 1024 ^ k < 1024 \<or> 4 \<le> fp + k) in (n div 1024 ^ k, fp + k))"
proof (induction n fp rule: human_size.induct)
  case (1 n fp)
  show ?case
  proof (cases "n \<ge> 1024 \<and> fp < 4")
    case False
    then have "(LEAST k. n div 1024 ^ k < 1024 \<or> 4 \<le> fp + k) = 0" by (intro Least_equality) auto
    then show ?thesis by (subst human_size.simps, unfold if_not_P [OF False]) simp
  next
    case True
    let ?P = "\<lambda>k. n div 1024 ^ k < 1024 \<or> 4 \<le> fp + k"
    have "?P 4" by simp
    moreover have "\<not> ?P 0" using True by simp
    ultimately have "Least ?P = Suc (LEAST k. ?P (Suc k))" by (rule Least_Suc)
    moreover have "?P (Suc k) \<longleftrightarrow> n div 1024 div 1024 ^ k < 1024 \<or> 4 \<le> fp + 1 + k" for k by (simp add: div_mult2_eq)
    ultimately show ?thesis using 1 [OF True] True by (subst human_size.simps) (simp add: Let_def div_mult2_eq)
  qed
qed

lemma low_high: "push_bit 32 (ucast (of_nat (n div 2 ^ 32) :: u32)) OR ucast (of_nat n :: u32) = (of_nat n :: u64)"
proof -
  have d: "n div 2 ^ 32 = drop_bit 32 n" by (simp add: drop_bit_eq_div)
  show ?thesis unfolding d by (rule bit_eqI) (auto simp: bit_simps bit_of_nat_iff_bit)
qed

lemma print_text:
  assumes "\<forall>ch \<in> set t. ch \<noteq> 0 \<and> ch \<noteq> 37"
  shows "format_vprintf mem out (t @ [0]) args s = emit out t s"
proof -
  have "list_all directive_ok (map Text t)" using assms by (simp add: list_all_iff)
  from format_vprintf_directives [OF this, of mem out "[]" args s]
  have "format_vprintf mem out (t @ [0]) args s = print_directives mem out (map Text t) args s"
    by (simp add: o_def)
  also have "print_directives mem out (map Text t) args = emit out t" by (induction t) (auto intro!: ext)
  finally show ?thesis .
qed

definition plain_conversion :: "int_type \<Rightarrow> printf_conversion" where
  "plain_conversion t = \<lparr>flags = 0, width = 0, precision = - 1, int_type = t\<rparr>"

lemma spec_value_plain: "spec_value (Spec [] None None t) args = Some (plain_conversion t, args)"
  by (simp add: plain_conversion_def)

lemma convert_string:
  assumes "str_at m (unat w) t" and "w \<noteq> 0" and "length t < 2 ^ 31"
  shows "convert self (\<lambda>_. m) out 115 (plain_conversion ty) (w # args) s = map_option (Pair args) (emit out t s)"
proof -
  have "strnlen m (unat w) (2 ^ 32 - 1) = length t"
    using assms(1,3) strnlen_loop_ok [of m "unat w" 0 t "2 ^ 32 - 1"] by (simp add: strnlen_def)
  moreover have "wrap_int (int (length t)) = int (length t)" using assms(3) by (simp add: wrap_int_small)
  moreover have "map (\<lambda>i. m (unat w + i)) [0..<length t] = t"
    using assms(1) by (intro nth_equalityI) (simp_all add: str_at_bytes)
  ultimately show ?thesis using assms(2)
    by (cases "emit out t s") (simp_all add: convert_def plain_conversion_def format_string_def emit_chars Let_def)
qed

lemma convert_decimal:
  assumes "n < 2 ^ 64"
  shows "convert self mem out 117 (plain_conversion LONGLONG) (of_nat n # of_nat (n div 2 ^ 32) # args) s =
    map_option (Pair args) (emit out (decimal n) s)"
proof -
  have a: "unsigned_arg LONGLONG (of_nat n # of_nat (n div 2 ^ 32) # args) = Some (of_nat n, args)"
    by (simp only: unsigned_arg_def int_type.case va_arg64_def va_arg.simps Option.bind.bind_lunit prod.case low_high)
  have u: "unat (of_nat n :: u64) = n" using assms by (simp add: unsigned_of_nat take_bit_nat_eq_self)
  have f: "format_integer (of_nat n) False False base_d (plain_conversion LONGLONG) out s = emit out (decimal n) s"
    by (subst format_integer_emit)
      (simp_all add: known_base_def plain_conversion_def integer_text_def body_text_decimal u sign_text_def prefix_text_def)
  show ?thesis using a f by (cases "emit out (decimal n) s") (simp_all add: convert_def plain_conversion_def)
qed

definition units :: "u8 list list" where
  "units = map (map of_char) [''bytes'', ''kB'', ''MB'', ''GB'', ''TB'']"

text \<open>
  \<^verbatim>\<open>print_human_readable_size\<close> prints the size divided by the largest power of 1024, up to \<open>1024 ^ 4\<close>, that
  brings it below 1024, rounded down, and the name of the unit; a size of 1 is printed as "1 byte".
\<close>

theorem human_readable_size_text:
  assumes "\<forall>k < 5. factors ! k \<noteq> 0 \<and> str_at m (unat (factors ! k)) (units ! k)"
  shows "print_human_readable_size (format_vprintf (\<lambda>_. m) out) factors sz s =
    emit out (if sz = 1 then map of_char ''1 byte''
      else let k = (LEAST k. unat sz div 1024 ^ k < 1024 \<or> 4 \<le> k) in decimal (unat sz div 1024 ^ k) @ 32 # units ! k) s"
proof (cases "sz = 1")
  case True
  have "str ''1 byte'' = map of_char ''1 byte'' @ [0]" by (simp add: str_def)
  then show ?thesis using True print_text [of "map of_char ''1 byte''" "\<lambda>_. m" out "[]" s]
    by (simp add: print_human_readable_size_def)
next
  case False
  define k where "k = (LEAST k. unat sz div 1024 ^ k < 1024 \<or> 4 \<le> k)"
  have k: "k < 5" unfolding k_def by (rule le_less_trans [OF Least_le [of _ 4]]) simp_all
  define n where "n = unat sz div 1024 ^ k"
  have "unat sz < 2 ^ LENGTH(64)" by (rule unsigned_less)
  then have n: "n < 2 ^ 64" unfolding n_def by (simp add: le_less_trans [OF div_le_dividend])
  let ?ds = "[Conv (Spec [] None None LONGLONG) 117, Text 32, Conv (Spec [] None None INT_T) 115]"
  have ds: "list_all directive_ok ?ds" by (simp add: conversion_char_def)
  have fmt: "str ''%llu %s'' = concat (map directive_chars ?ds) @ 0 # []" by (simp add: str_def)
  have l: "length (units ! k) < 2 ^ 31"
  proof -
    have "k \<in> {0, 1, 2, 3, 4}" using k by auto
    then show ?thesis by (auto simp: units_def)
  qed
  have "print_human_readable_size (format_vprintf (\<lambda>_. m) out) factors sz s =
      print_directives (\<lambda>_. m) out ?ds [of_nat n, of_nat (n div 2 ^ 32), factors ! k] s"
    using False unfolding print_human_readable_size_def human_size_spec Let_def fmt format_vprintf_directives [OF ds]
    by (simp add: k_def n_def)
  also have "\<dots> = emit out (decimal n @ 32 # units ! k) s"
    using assms k by (cases "emit out (decimal n) s")
      (simp_all add: spec_value_plain convert_decimal [OF n, simplified] convert_string [OF _ _ l] emit_app option.map_comp o_def
        del: spec_value.simps split: Option.bind_splits)
  finally show ?thesis using False by (simp add: k_def n_def Let_def)
qed

text \<open>The names of the units, 100 bytes apart.\<close>

definition units_at :: memory where
  "units_at a = (units ! (a div 100 - 1) @ replicate 100 0) ! (a mod 100)"

theorem human_readable_size_text_witness:
  "print_human_readable_size (format_vprintf (\<lambda>_. units_at) collect) [100, 200, 300, 400, 500] 262144 [] =
    emit collect (if (262144 :: u64) = 1 then map of_char ''1 byte''
      else let k = (LEAST k. unat (262144 :: u64) div 1024 ^ k < 1024 \<or> 4 \<le> k) in
        decimal (unat (262144 :: u64) div 1024 ^ k) @ 32 # units ! k) []"
proof (rule human_readable_size_text)
  have "k \<in> {0, 1, 2, 3, 4} \<Longrightarrow> [100, 200, 300, 400, 500] ! k \<noteq> (0 :: u32) \<and>
      str_at units_at (unat ([100, 200, 300, 400, 500] ! k :: u32)) (units ! k)" for k :: nat
    by (auto simp: units_at_def units_def)
  moreover have "k < 5 \<Longrightarrow> k \<in> {0, 1, 2, 3, 4}" for k :: nat by auto
  ultimately show "\<forall>k < 5. [100, 200, 300, 400, 500] ! k \<noteq> (0 :: u32) \<and>
      str_at units_at (unat ([100, 200, 300, 400, 500] ! k :: u32)) (units ! k)" by blast
qed

subsection \<open>Dumps\<close>

definition hex_text :: "nat \<Rightarrow> nat \<Rightarrow> u8 list" where
  "hex_text w n = (let d = (if n = 0 then [48] else digit_text False base_x 0 n) in replicate (w - length d) 48 @ d)"

lemma zero_flag [simp]: "ZERO AND GROUP = 0" "ZERO AND POUND = 0" "ZERO AND MINUS = 0" "ZERO AND ZERO \<noteq> 0"
  "ZERO AND PLUS = 0" "ZERO AND SPACE = 0" "ZERO \<noteq> 0"
  by (simp_all add: ZERO_def GROUP_def POUND_def MINUS_def PLUS_def SPACE_def)

lemma integer_text_hex:
  "integer_text v False False base_x \<lparr>flags = ZERO, width = int w, precision = - 1, int_type = ty\<rparr> = hex_text w (unat v)"
proof -
  have z: "digit_text False base_x 0 0 = []" by (subst digit_text.simps) simp
  have p: "num_base base_x \<noteq> 8" by (simp add: base_x_def)
  have "1 \<le> length (digit_text False base_x 0 (unat v))" if "unat v \<noteq> 0"
    using that by (subst digit_text.simps) (simp add: base_x_def)
  then have b: "body_text v base_x \<lparr>flags = ZERO, width = int w, precision = - 1, int_type = ty\<rparr> =
      (if unat v = 0 then [48] else digit_text False base_x 0 (unat v))"
    using p by (auto simp: body_text_def Let_def z)
  show ?thesis unfolding integer_text_def b hex_text_def Let_def
    by (simp add: sign_text_def prefix_text_def nat_diff_distrib')
qed

lemma spec_value_zero:
  "spec_value (Spec [48] (Some (Fixed w)) None ty) args = Some (\<lparr>flags = ZERO, width = int w, precision = - 1, int_type = ty\<rparr>, args)"
  by (simp add: flag_bit_def)

lemma convert_hex:
  assumes "unsigned_arg ty args = Some (v, args')" and "w < 2 ^ 31"
  shows "convert self mem out 120 \<lparr>flags = ZERO, width = int w, precision = - 1, int_type = ty\<rparr> args s =
    map_option (Pair args') (emit out (hex_text w (unat v)) s)"
  using assms by (cases "emit out (hex_text w (unat v)) s")
    (simp_all add: convert_def format_integer_emit known_base_def integer_text_hex)

lemma convert_char:
  "convert self mem out 99 (plain_conversion ty) (w # args) s = map_option (Pair args) (out (ucast w) s)"
  by (cases "out (ucast w) s") (simp_all add: convert_def format_string_def plain_conversion_def)

lemma print_ofs:
  assumes "n < 2 ^ 32"
  shows "format_vprintf mem out (str ''%08jx  '') [of_nat n, 0] s = emit out (hex_text 8 n @ [32, 32]) s"
proof -
  let ?ds = "[Conv (Spec [48] (Some (Fixed 8)) None INTMAX) 120, Text 32, Text 32]"
  have ds: "list_all directive_ok ?ds" by (simp add: conversion_char_def)
  have fmt: "str ''%08jx  '' = concat (map directive_chars ?ds) @ 0 # []" by (simp add: str_def decimal.simps)
  have u: "unsigned_arg INTMAX [of_nat n, 0] = Some (of_nat n, [])"
    using low_high [of n] assms by (simp add: unsigned_arg_def va_arg64_def)
  have v: "unat (of_nat n :: u64) = n" using assms by (simp add: unsigned_of_nat take_bit_nat_eq_self)
  show ?thesis unfolding fmt format_vprintf_directives [OF ds]
    by (cases "emit out (hex_text 8 n) s")
      (simp_all add: spec_value_zero convert_hex [OF u, of 8, simplified] v emit_app del: spec_value.simps split: Option.bind_splits)
qed

lemma print_byte:
  "format_vprintf mem out (str ''%02hhx%c'') [ucast (b :: u8), c] s = emit out (hex_text 2 (unat b) @ [ucast c]) s"
proof -
  let ?ds = "[Conv (Spec [48] (Some (Fixed 2)) None CHAR_T) 120, Conv (Spec [] None None INT_T) 99]"
  have ds: "list_all directive_ok ?ds" by (simp add: conversion_char_def)
  have fmt: "str ''%02hhx%c'' = concat (map directive_chars ?ds) @ 0 # []" by (simp add: str_def decimal.simps)
  have u: "unsigned_arg CHAR_T (ucast b # args) = Some (ucast b, args)" for args
  proof -
    have "(ucast (ucast b :: u32) :: u8) = b" by (rule bit_eqI) (simp add: bit_simps)
    then show ?thesis by (simp add: unsigned_arg_def)
  qed
  have "unat b < 2 ^ LENGTH(8)" by (rule unsigned_less)
  then have v: "unat (ucast b :: u64) = unat b" by (simp add: unsigned_ucast_eq take_bit_nat_eq_self)
  show ?thesis unfolding fmt format_vprintf_directives [OF ds]
    by (cases "emit out (hex_text 2 (unat b)) s")
      (simp_all add: spec_value_zero spec_value_plain convert_hex [OF u, of 2, simplified] convert_char v emit_app del: spec_value.simps
        split: Option.bind_splits)
qed

lemma emit_one: "emit out [ch] = out ch"
  by (rule ext) simp

lemma repeat_emit: "f = emit out t \<Longrightarrow> repeat n f s = emit out (concat (replicate n t)) s"
proof (induction n arbitrary: s)
  case (Suc n)
  then have "repeat n f = emit out (concat (replicate n t))" by (intro ext) simp
  then show ?case by (simp add: Suc.prems emit_app)
qed simp

lemma each_emit: "(\<And>x s. x \<in> set xs \<Longrightarrow> f x s = emit out (g x) s) \<Longrightarrow> each f xs s = emit out (concat (map g xs)) s"
proof (induction xs arbitrary: s)
  case (Cons x xs)
  then have "each f xs = emit out (concat (map g xs))" by (intro ext) simp
  then show ?case using Cons.prems by (simp add: emit_app)
qed simp

definition line_text :: "nat \<Rightarrow> nat \<Rightarrow> u8 list \<Rightarrow> bool \<Rightarrow> u8 list" where
  "line_text ofs start buf ascii =
     hex_text 8 (ofs div 16 * 16) @ [32, 32] @ replicate (3 * start) 32 @
     concat (map (\<lambda>i. hex_text 2 (unat (buf ! (i - start))) @ [if i = 7 then 45 else 32]) [start..<start + length buf]) @
     (if ascii then replicate (3 * (16 - (start + length buf))) 32 @ [124] @ replicate start 32 @
        map (\<lambda>b. if isprint b then b else 46) buf @ replicate (16 - (start + length buf)) 32 @ [124]
      else []) @ [10]"

lemma hex_line_emit:
  assumes "ofs < 2 ^ 32"
  shows "hex_line (format_vprintf mem out) ofs start buf ascii s = emit out (line_text ofs start buf ascii) s"
proof -
  let ?p = "format_vprintf mem out"
  have t: "?p (str ''   '') [] = emit out [32, 32, 32]" "?p (str ''|'') [] = emit out [124]" "?p (str '' '') [] = emit out [32]"
    "?p (str [CHR 0x0A]) [] = emit out [10]"
    using print_text [of "[32, 32, 32]" mem out "[]"] print_text [of "[124]" mem out "[]"] print_text [of "[32]" mem out "[]"]
      print_text [of "[10]" mem out "[]"]
    by (auto simp: str_def intro!: ext)
  have o: "ofs div 16 * 16 < 2 ^ 32" using assms by (simp add: le_less_trans [OF div_times_less_eq_dividend])
  have c: "?p (str ''%c'') [w] s = emit out [ucast w] s" for w s
    using format_vprintf_directives [of "[Conv (Spec [] None None INT_T) 99]" mem out "[]" "[w]" s]
    by (simp add: str_def conversion_char_def spec_value_plain convert_char del: spec_value.simps split: Option.bind_splits)
  have u: "ucast (if i = 7 then 45 else 32 :: u32) = (if i = 7 then 45 else 32 :: u8)" for i :: nat by simp
  have a: "each (\<lambda>b. ?p (str ''%c'') [if isprint b then ucast b else 46]) buf s =
      emit out (concat (map (\<lambda>b. [if isprint b then b else 46]) buf)) s" for s
  proof (rule each_emit)
    fix b :: u8 and s
    have "(ucast (ucast b :: u32) :: u8) = b" by (rule bit_eqI) (simp add: bit_simps)
    then show "?p (str ''%c'') [if isprint b then ucast b else 46] s = emit out [if isprint b then b else 46] s" by (simp add: c)
  qed
  have h: "each (\<lambda>i. ?p (str ''%02hhx%c'') [ucast (buf ! (i - start)), if i = 7 then 45 else 32]) xs s =
      emit out (concat (map (\<lambda>i. hex_text 2 (unat (buf ! (i - start))) @ [if i = 7 then 45 else 32]) xs)) s" for xs s
    by (rule each_emit) (simp only: print_byte u)
  have r: "concat (replicate n [32, 32, 32]) = replicate (3 * n) (32 :: u8)" "concat (replicate n [32]) = replicate n (32 :: u8)" for n
    by (induction n) (simp_all add: replicate_add [symmetric] numeral_3_eq_3)
  have m: "concat (map (\<lambda>b. [if isprint b then b else 46]) buf) = map (\<lambda>b. if isprint b then b else 46) buf" by (induction buf) simp_all
  show ?thesis unfolding hex_line_def line_text_def Let_def print_ofs [OF o] t repeat_emit [OF refl] h a r m
    by (simp add: emit_app emit_Nil emit_one)
qed

text \<open>The lines of a dump.\<close>

function dump_text :: "nat \<Rightarrow> u8 list \<Rightarrow> bool \<Rightarrow> u8 list" where
  "dump_text ofs buf ascii =
     (if buf = [] then []
      else let n = min (length buf) (16 - ofs mod 16)
        in line_text ofs (ofs mod 16) (take n buf) ascii @ dump_text ((ofs + n) mod 2 ^ 32) (drop n buf) ascii)"
  by pat_completeness auto
termination
proof (relation "measure (\<lambda>(ofs, buf, ascii). length buf)", goal_cases)
  case (2 ofs buf ascii n)
  have "ofs mod 16 < 16" by simp
  then have "0 < n" "buf \<noteq> []" using 2 by auto
  then show ?case by simp
qed auto

declare dump_text.simps [simp del]

text \<open>
  C40: \<^verbatim>\<open>hex_dump\<close> prints every byte once, in order. It always returns; each line has the offset of its first column as
  eight hexadecimal digits, then 16 columns of which those before the first and after the last byte are blank, a hyphen after the
  eighth and a space after the others, and on request the printable characters between bars; each byte is two hexadecimal
  digits.
\<close>

theorem hex_dump_text:
  assumes "ofs < 2 ^ 32"
  shows "hex_dump (format_vprintf mem out) ofs buf ascii s = emit out (dump_text ofs buf ascii) s"
  using assms
proof (induction "length buf" arbitrary: ofs buf s rule: less_induct)
  case less
  show ?case
  proof (cases "buf = []")
    case True
    then show ?thesis by (simp add: hex_dump.simps dump_text.simps)
  next
    case False
    define n where "n = min (length buf) (16 - ofs mod 16)"
    have "ofs mod 16 < 16" by simp
    then have n: "0 < n" using False by (simp add: n_def)
    have e: "(if 16 - ofs mod 16 > length buf then ofs mod 16 + length buf else 16) - ofs mod 16 = n"
      by (simp add: n_def)
    have "length (drop n buf) < length buf" using n False by simp
    then have "hex_dump (format_vprintf mem out) ((ofs + n) mod 2 ^ 32) (drop n buf) ascii =
        emit out (dump_text ((ofs + n) mod 2 ^ 32) (drop n buf) ascii)"
      by (intro ext less.hyps) simp_all
    moreover have "dump_text ofs buf ascii = line_text ofs (ofs mod 16) (take n buf) ascii @
        dump_text ((ofs + n) mod 2 ^ 32) (drop n buf) ascii"
      using False by (subst dump_text.simps) (simp only: n_def [symmetric] Let_def if_False)
    ultimately show ?thesis using False
      by (subst hex_dump.simps) (simp add: Let_def e hex_line_emit [OF less.prems] emit_app)
  qed
qed

theorem hex_dump_text_witness:
  "hex_dump (format_vprintf (\<lambda>_ _. 0) collect) 0x1007 [72, 105, 0] True [] = emit collect (dump_text 0x1007 [72, 105, 0] True) []"
  by (rule hex_dump_text) simp

end
