(* ===== verification/Spec2Isabelle.thy ===== *)
theory Spec2Isabelle
  imports List_Order Palloc Kernel_Boot Hash_Table Arithmetic C_String Stdlib Partition Directory Malloc Console
begin

text \<open>
  A verification development for the PintOS kernel of this repository (\<^verbatim>\<open>src/PintOS/src\<close>), a
  teaching operating system for the 80x86: kernel threads with a timer, synchronization, page
  allocation, block devices and a file system with a buffer cache and indexed inodes.

  \<^bold>\<open>Parts and how they interact.\<close> Paths are relative to \<^verbatim>\<open>src/PintOS/src\<close>.

  The library (\<^verbatim>\<open>lib\<close>) is used by everything else. \<open>Pintos_Prelude\<close> has the machine types, the meaning
  of \<^verbatim>\<open>ASSERT\<close>, the rounding macros and the byte order of words, with the collections of hints and the
  interface \<open>allocator\<close> that bitmaps and page pools share. \<open>Linked_List\<close> and \<open>List_Order\<close> are
  \<^verbatim>\<open>lib/kernel/list.c\<close> over an explicit memory of \<^verbatim>\<open>prev\<close> and \<^verbatim>\<open>next\<close> pointers; \<open>is_list\<close> says which
  sequence a memory holds, and the theorems say what each operation does to that sequence and that it
  touches no other link. \<open>Bitmap\<close> is \<^verbatim>\<open>lib/kernel/bitmap.c\<close> with 32-bit elements; \<open>bits_of\<close> is the array of
  bits a bitmap stands for. \<open>Hash_Table\<close> is \<^verbatim>\<open>lib/kernel/hash.c\<close>, refined to a finite map. \<open>Arithmetic\<close> is
  \<^verbatim>\<open>lib/arithmetic.c\<close>, 64-bit division by 32-bit \<^verbatim>\<open>DIVL\<close> steps on words. \<open>C_String\<close> is \<^verbatim>\<open>lib/string.c\<close> on a
  memory of bytes. \<open>Stdlib\<close> is \<^verbatim>\<open>lib/stdlib.c\<close> and \<^verbatim>\<open>lib/ctype.h\<close>: heap sort, binary search, \<^verbatim>\<open>atoi\<close>.
  \<open>Format\<close> is the formatting of \<^verbatim>\<open>lib/stdio.c\<close>: the parser of conversions, \<^verbatim>\<open>__vprintf\<close> over any output function and \<^verbatim>\<open>vsnprintf\<close>; the
  theorems compare it with a description of format strings as directives and with the text each integer has.
  \<open>Console\<close> sends its output to the consoles of the kernel and of user programs and has \<^verbatim>\<open>hex_dump\<close>.

  The kernel proper (\<^verbatim>\<open>threads\<close>, \<^verbatim>\<open>devices/timer.c\<close>) is one state, the record \<open>kernel\<close> of \<open>Threads\<close>: the
  threads, the run queue, semaphores, locks and conditions, the sleep list, the interrupt level. \<open>Threads\<close> is
  \<^verbatim>\<open>threads/thread.c\<close> and the parts of \<^verbatim>\<open>threads/interrupt.c\<close> it needs, \<open>Synch\<close> is \<^verbatim>\<open>threads/synch.c\<close>, \<open>Timer\<close> is
  \<^verbatim>\<open>devices/timer.c\<close>, and \<open>Palloc\<close> is \<^verbatim>\<open>threads/palloc.c\<close> with \<^verbatim>\<open>threads/vaddr.h\<close>. \<open>Malloc\<close> is \<^verbatim>\<open>threads/malloc.c\<close> over the page
  allocator: blocks of ten sizes cut from pages, larger ones of whole pages; the theorems say that live blocks never
  overlap over any run of requests and releases, that \<^verbatim>\<open>calloc\<close> clears and that \<^verbatim>\<open>realloc\<close> keeps contents. A function that can lose the
  processor is cut at that point, and \<open>Kernel_Run\<close> is the step relation that interleaves the threads'
  calls, their continuations and the timer interrupt. \<open>Kernel_Boot\<close> is the boot of the kernel and
  the theorems on all runs from there: no step fails and the queues agree with the threads' states, a lock
  changes hands only by its holder, the run queue is first come first served, sleepers wake when due.

  The storage stack. \<open>Block_Device\<close> is \<^verbatim>\<open>devices/block.c\<close>, and the interface \<open>block_driver\<close> states what the layers
  above rely on in a driver: a sector read is the sector last written. The disks behind it
  are not in these sources; a memory disk and a partition of another disk (\<^verbatim>\<open>devices/partition.c\<close>)
  are its interpretations. \<open>Partition\<close> is the scan of partition tables. \<open>Buffer_Cache\<close> is
  \<^verbatim>\<open>filesys/buffer-cache.c\<close>, refined to a plain array of sectors. \<open>Inode\<close> has the state of the file system,
  the record \<open>filesys\<close>, with \<^verbatim>\<open>filesys/inode.c\<close> and the operations of \<^verbatim>\<open>filesys/free-map.c\<close>; \<open>File\<close> is
  \<^verbatim>\<open>filesys/file.c\<close> and the opening and closing of the free map's file; \<open>Directory\<close> is
  \<^verbatim>\<open>filesys/directory.c\<close>. The theorems climb the stack: \<open>Inode_Data\<close> relates an inode, with its direct,
  indirect and doubly indirect blocks read from the device, to the array of its bytes; \<open>Inode_Growth\<close> has the
  invariant \<open>fs_inv\<close> of the free map and its file on disk, allocation, creation and the failures that
  allocation ignores; \<open>Inode_Write\<close> extends files; \<open>File\<close> shows that any run of operations on an
  open file acts as on a list of bytes with a position, and \<open>Directory\<close> that a directory is a map from names
  to sectors. Each is a statement about the whole stack below it.

  \<^bold>\<open>Conventions.\<close> An operation is a function from the state to \<open>option\<close>; \<open>None\<close> is a failed assertion, a
  panic, undefined behaviour such as an access outside an array, or a loop that does not end. Errors that
  the code returns are values. Loops that need not end are \<^verbatim>\<open>partial_function (option)\<close>, and the theorems say
  that they return; the others are functions with a termination proof, and no theorem depends on fuel.
  Addresses, sizes and sector numbers are natural numbers, with wrap-around written out where the code can
  meet it (\<open>size_add\<close>, page addresses, \<open>size_dec\<close>); words are kept at their width in \<open>Arithmetic\<close>, \<open>Bitmap\<close>,
  \<open>Hash_Table\<close> and the bytes on disk. Memory allocation, the contents of uninitialised memory, comparison and
  hash functions, the disks and the processor's speed are parameters.

  \<^bold>\<open>Bounds.\<close> The theorems that let a file grow are for files of at most ten sectors, those that \<^verbatim>\<open>map_alloc\<close>
  serves; reading and writing in place holds up to the largest file, 17674 sectors. Beyond 1290 sectors growth
  is wrong in the code (\<open>double_indirect_block_lost\<close>), and on a full disk creation is (\<open>inode_create_full_disk\<close>).
  A file's metadata must not be in the cache, since the code reads it past the cache (\<open>cache_hides_block_write\<close>).

  \<^bold>\<open>Not modelled.\<close> Interleaving inside the file system: its operations run without interruption, and
  the locks of cells and inodes are left out. Of \<^verbatim>\<open>threads/interrupt.c\<close>, the interrupt descriptor table and the
  programmable interrupt controller. The multi-level feedback queue scheduler, which the code does not implement.
  The entry of the kernel (\<^verbatim>\<open>threads/init.c\<close>, the loader), page tables and the other users of processor
  structures, drivers that only program devices (disk controllers, keyboard, serial port, screen, clocks), and user programs with their system calls. The other course work of the repository (the C++
  network simulators, the shell, the web server, the memory allocator), tests and utilities are separate
  programs. The manifest lists each of them.
\<close>

end
